(* ===== verification/Prelude.thy ===== *)
theory Prelude
  imports Main "HOL-Library.Word" "HOL-Library.Monad_Syntax"
begin

text \<open>
  The shared layer of the development: the names of the machine types of the C sources, the
  view of memory as bytes at addresses, the lemma collections the component theories feed and
  use, and the generic facts on words, lists and divisibility that more than one component
  needs.
\<close>

unbundle bit_operations_syntax

section \<open>Machine types\<close>

type_synonym u8 = "8 word"
type_synonym u16 = "16 word"
type_synonym u32 = "32 word"
type_synonym u64 = "64 word"

text \<open>
  Memory behind a pointer is a function from the offset to the byte stored there. A buffer of
  known size is also written as a list of bytes; \<open>mem_of\<close> reads it back as memory, with
  \<open>after\<close> for what lies past its end (the program must never depend on that part).
\<close>

type_synonym mem = "nat \<Rightarrow> u8"

definition mem_of :: "u8 list \<Rightarrow> mem \<Rightarrow> mem" where
  "mem_of xs after i = (if i < length xs then xs ! i else after (i - length xs))"

text \<open>\<open>span m off n\<close>: the \<open>n\<close> bytes that start at offset \<open>off\<close>.\<close>

definition span :: "mem \<Rightarrow> nat \<Rightarrow> nat \<Rightarrow> u8 list" where
  "span m off n = map (\<lambda>i. m (off + i)) [0..<n]"

section \<open>Lemma collections\<close>

named_theorems guard_simps \<open>unfoldings of the input guards\<close>
named_theorems word_bounds \<open>bounds and conversions of machine words\<close>

section \<open>Words\<close>

lemma unat_u8_lt [word_bounds, simp]: "unat (x :: u8) < 256"
  using unsigned_less [of x] by simp

lemma unat_u32_lt [word_bounds, simp]: "unat (x :: u32) < 4294967296"
  using unsigned_less [of x] by simp

lemma unat_u64_lt [word_bounds, simp]: "unat (x :: u64) < 18446744073709551616"
  using unsigned_less [of x] by simp

lemma unat_ucast_up [word_bounds]:
  assumes "LENGTH('a) \<le> LENGTH('b)"
  shows "unat (ucast (w :: 'a::len word) :: 'b::len word) = unat w"
proof -
  have "unat w < 2 ^ LENGTH('a)" by (rule unsigned_less)
  also have "\<dots> \<le> 2 ^ LENGTH('b)" using assms by simp
  finally show ?thesis by (simp add: unsigned_ucast_eq take_bit_nat_eq_self)
qed

lemma unat_mask_AND: "unat ((w :: 'a::len word) AND mask n) = unat w mod 2 ^ n"
proof -
  have "unat (w AND mask n) = unat (take_bit n w)" by (simp only: take_bit_eq_mask)
  also have "\<dots> = take_bit n (unat w)" by (rule unsigned_take_bit_eq)
  finally show ?thesis by (simp add: take_bit_eq_mod)
qed

lemma unat_minus_one_u64: "unat (- 1 :: u64) = 18446744073709551615"
  by (simp add: unsigned_minus_1_eq_mask mask_eq_exp_minus_1)

section \<open>Spans\<close>

lemma length_span [simp]: "length (span m off n) = n"
  by (simp add: span_def)

lemma nth_span [simp]: "i < n \<Longrightarrow> span m off n ! i = m (off + i)"
  by (simp add: span_def)

lemma span_0 [simp]: "span m off 0 = []"
  by (simp add: span_def)

lemma span_append: "span m off (a + b) = span m off a @ span m (off + a) b"
  by (rule nth_equalityI) (auto simp: nth_append add.assoc)

lemma span_mem_of: "off + n \<le> length xs \<Longrightarrow> span (mem_of xs g) off n = take n (drop off xs)"
  by (rule nth_equalityI) (auto simp: mem_of_def)

section \<open>Checked reads\<close>

text \<open>A read at an offset of a buffer: \<open>None\<close> is a read outside of it.\<close>

definition rd :: "'a list \<Rightarrow> nat \<Rightarrow> 'a option" where
  "rd xs i = (if i < length xs then Some (xs ! i) else None)"

lemma rd_Some_iff: "rd xs i = Some x \<longleftrightarrow> i < length xs \<and> xs ! i = x"
  by (auto simp: rd_def)

lemma rd_in [simp]: "i < length xs \<Longrightarrow> rd xs i = Some (xs ! i)"
  by (simp add: rd_def)

text \<open>The \<open>n\<close> bytes at an offset, as \<open>memcpy\<close> and \<open>memcmp\<close> read them.\<close>

definition rd_span :: "'a list \<Rightarrow> nat \<Rightarrow> nat \<Rightarrow> 'a list option" where
  "rd_span xs off n = (if off + n \<le> length xs then Some (take n (drop off xs)) else None)"

lemma rd_span_in [simp]: "off + n \<le> length xs \<Longrightarrow> rd_span xs off n = Some (take n (drop off xs))"
  by (simp add: rd_span_def)

section \<open>Little-endian 32-bit values\<close>

definition le32_join :: "u8 \<Rightarrow> u8 \<Rightarrow> u8 \<Rightarrow> u8 \<Rightarrow> u32" where
  "le32_join a b c d =
     ucast a OR push_bit 8 (ucast b) OR push_bit 16 (ucast c) OR push_bit 24 (ucast d)"

definition le32_bytes :: "u32 \<Rightarrow> u8 list" where
  "le32_bytes w = [ucast w, ucast (drop_bit 8 w), ucast (drop_bit 16 w), ucast (drop_bit 24 w)]"

lemma length_le32_bytes [simp]: "length (le32_bytes w) = 4"
  by (simp add: le32_bytes_def)

lemma le32_bytes_join [simp]: "le32_bytes (le32_join a b c d) = [a, b, c, d]"
  unfolding le32_bytes_def le32_join_def
  by (simp; intro conjI; rule bit_word_eqI; auto simp: bit_simps dest: bit_imp_le_length)

lemma le32_join_bytes [simp]:
  "le32_join (ucast w) (ucast (drop_bit 8 w)) (ucast (drop_bit 16 w)) (ucast (drop_bit 24 w)) = w"
proof (rule bit_word_eqI)
  fix n assume "n < LENGTH(32)"
  then have "n < 8 \<or> 8 \<le> n \<and> n < 16 \<or> 16 \<le> n \<and> n < 24 \<or> 24 \<le> n \<and> n < 32" by auto
  then show "bit (le32_join (ucast w) (ucast (drop_bit 8 w)) (ucast (drop_bit 16 w)) (ucast (drop_bit 24 w))) n
    = bit w n"
    unfolding le32_join_def by (elim disjE) (auto simp: bit_simps)
qed

section \<open>Cutting a list into pieces of equal length\<close>

function chunks :: "nat \<Rightarrow> 'a list \<Rightarrow> 'a list list" where
  "chunks n xs = (if n = 0 \<or> xs = [] then [] else take n xs # chunks n (drop n xs))"
  by pat_completeness auto
termination
  by (relation "measure (\<lambda>(n, xs). length xs)") auto

declare chunks.simps [simp del]

lemma chunks_Nil [simp]: "chunks n [] = []"
  by (simp add: chunks.simps)

lemma chunks_step: "0 < n \<Longrightarrow> length x = n \<Longrightarrow> chunks n (x @ xs) = x # chunks n xs"
  by (subst chunks.simps) auto

lemma concat_chunks: "0 < n \<Longrightarrow> concat (chunks n xs) = xs"
proof (induction n xs rule: chunks.induct)
  case (1 n xs)
  then show ?case by (subst chunks.simps) auto
qed

lemma chunks_lengths: "0 < n \<Longrightarrow> n dvd length xs \<Longrightarrow> \<forall>c\<in>set (chunks n xs). length c = n"
proof (induction n xs rule: chunks.induct)
  case (1 n xs)
  show ?case
  proof (cases "xs = []")
    case False
    then have le: "n \<le> length xs" using "1.prems" by (simp add: dvd_imp_le)
    then have dvd: "n dvd length (drop n xs)" using "1.prems"(2) by (simp add: dvd_minus_self)
    have "\<not> (n = 0 \<or> xs = [])" using False "1.prems"(1) by simp
    from "1.IH" [OF this "1.prems"(1) dvd]
    have "\<forall>c\<in>set (chunks n (drop n xs)). length c = n" .
    moreover have "chunks n xs = take n xs # chunks n (drop n xs)"
      using False "1.prems"(1) by (subst chunks.simps) simp
    ultimately show ?thesis using le by (metis length_take min_absorb2 set_ConsD)
  qed simp
qed

lemma length_concat_const: "\<forall>x\<in>set xss. length x = n \<Longrightarrow> length (concat xss) = n * length xss"
  by (induction xss) auto

lemma concat_const_nth:
  "\<forall>x\<in>set xss. length x = n \<Longrightarrow> j < length xss \<Longrightarrow> take n (drop (j * n) (concat xss)) = xss ! j"
proof (induction xss arbitrary: j)
  case (Cons x xss)
  then show ?case by (cases j) auto
qed simp

lemma chunks_concat: "0 < n \<Longrightarrow> \<forall>x\<in>set xss. length x = n \<Longrightarrow> chunks n (concat xss) = xss"
  by (induction xss) (auto simp: chunks_step)

lemma chunks_append:
  "0 < n \<Longrightarrow> n dvd length xs \<Longrightarrow> chunks n (xs @ ys) = chunks n xs @ chunks n ys"
proof (induction n xs rule: chunks.induct)
  case (1 n xs)
  show ?case
  proof (cases "xs = []")
    case False
    then have le: "n \<le> length xs" using "1.prems" by (simp add: dvd_imp_le)
    then have "n dvd length (drop n xs)" using "1.prems"(2) by (simp add: dvd_minus_self)
    then have IH: "chunks n (drop n xs @ ys) = chunks n (drop n xs) @ chunks n ys"
      using 1 False by simp
    have "chunks n (xs @ ys) = take n xs # chunks n (drop n xs @ ys)"
      using chunks_step [of n "take n xs" "drop n xs @ ys"] le "1.prems"(1)
      by (simp add: append_assoc [symmetric] del: append_assoc)
    moreover have "chunks n xs = take n xs # chunks n (drop n xs)"
      using False "1.prems"(1) by (subst chunks.simps) simp
    ultimately show ?thesis using IH by simp
  qed simp
qed

lemma length_chunks: "0 < n \<Longrightarrow> n dvd length xs \<Longrightarrow> length (chunks n xs) = length xs div n"
proof (induction n xs rule: chunks.induct)
  case (1 n xs)
  show ?case
  proof (cases "xs = []")
    case False
    then have le: "n \<le> length xs" using "1.prems" by (simp add: dvd_imp_le)
    then have "n dvd length (drop n xs)" using "1.prems"(2) by (simp add: dvd_minus_self)
    then have "length (chunks n (drop n xs)) = (length xs - n) div n"
      using 1 False by simp
    moreover have "length xs div n = Suc ((length xs - n) div n)"
      using le "1.prems"(1) by (simp add: le_div_geq)
    ultimately show ?thesis using False "1.prems"(1) by (subst chunks.simps) simp
  qed simp
qed

end
