(* ===== verification/Net_Guards.thy ===== *)
theory Net_Guards
  imports Prelude
begin

text \<open>
  The network input guards of \<open>src/src/nawam_safety.h\<close> and the receive loop of
  \<open>DownloadToFileOrBufferEx\<close> (\<open>src/src/net.c\<close>) that relies on them: parsing of the HTTP
  Content-Length, admission of a download length, admission of each received chunk.

  A C pointer that may be NULL is an \<open>option\<close>; the bytes a (pointer, size) pair denotes are the
  list of that length.
\<close>

section \<open>The guards\<close>

definition UINT64_MAX :: u64 where
  "UINT64_MAX = - 1"

definition SIZE_MAX :: u64 where
  "SIZE_MAX = - 1"

text \<open>
  The loop of \<open>NawamParseContentLength\<close>. The digit is computed in \<open>unsigned int\<close>, where a
  character below the zero digit wraps to a huge value and fails the same test.
\<close>

fun content_length_loop :: "u64 \<Rightarrow> u8 list \<Rightarrow> u64 option" where
  "content_length_loop val [] = Some val"
| "content_length_loop val (c # cs) =
     (let digit = (ucast c :: u32) - 48 in
      if digit > 9 \<or> val > (UINT64_MAX - ucast digit) div 10 then None
      else content_length_loop (val * 10 + ucast digit) cs)"

text \<open>
  The result is the returned truth value and what was stored through \<open>result\<close>, if anything.
  \<open>result\<close> is \<open>False\<close> for a NULL pointer.
\<close>

definition NawamParseContentLength :: "u8 list option \<Rightarrow> bool \<Rightarrow> bool \<times> u64 option" where
  "NawamParseContentLength txt result =
     (case txt of
        None \<Rightarrow> (False, None)
      | Some cs \<Rightarrow>
          if \<not> result \<or> length cs = 0 then (False, None)
          else (case content_length_loop 0 cs of
                  None \<Rightarrow> (False, None)
                | Some val \<Rightarrow> (val \<noteq> 0, Some val)))"

definition NawamDownloadLengthValid :: "u64 \<Rightarrow> bool \<Rightarrow> bool" where
  "NawamDownloadLengthValid len buffered \<longleftrightarrow>
     len \<noteq> 0 \<and> (\<not> buffered \<or> (len \<le> 64 * 1024 * 1024 \<and> len \<le> SIZE_MAX - 2))"

definition NawamDownloadChunkValid :: "u64 \<Rightarrow> u64 \<Rightarrow> u64 \<Rightarrow> bool" where
  "NawamDownloadChunkValid len used chunk \<longleftrightarrow> used \<le> len \<and> chunk \<le> len - used"

section \<open>The receive loop\<close>

text \<open>
  What one turn of the loop sees: the user cancelled, the read failed, or the read returned
  some bytes (none at the end of the transfer).
\<close>

datatype rx = Rx_cancel | Rx_error | Rx_data "u8 list"

datatype dl_error = Dl_cancelled | Dl_read_failed | Dl_chunk_rejected | Dl_overflow | Dl_incomplete | Dl_waiting

text \<open>
  \<open>memcpy(&buf[off], data, n)\<close> into a heap block: \<open>None\<close> when the copy would leave the block.
\<close>

definition memcpy_at :: "u8 list \<Rightarrow> nat \<Rightarrow> u8 list \<Rightarrow> u8 list option" where
  "memcpy_at buf off data =
     (if off + length data \<le> length buf
      then Some (take off buf @ data @ drop (off + length data) buf) else None)"

text \<open>
  The loop of a buffered download over the results of the successive reads. The list of reads
  that ends without an empty read is a transfer that still waits for data.
\<close>

fun receive_loop :: "u64 \<Rightarrow> rx list \<Rightarrow> u64 \<Rightarrow> u8 list \<Rightarrow> dl_error + (u64 \<times> u8 list)" where
  "receive_loop total_size [] used buf = Inl Dl_waiting"
| "receive_loop total_size (Rx_cancel # rs) used buf = Inl Dl_cancelled"
| "receive_loop total_size (Rx_error # rs) used buf = Inl Dl_read_failed"
| "receive_loop total_size (Rx_data d # rs) used buf =
     (if d = [] then (if used \<noteq> total_size then Inl Dl_incomplete else Inr (used, buf))
      else if \<not> NawamDownloadChunkValid total_size used (of_nat (length d)) then Inl Dl_chunk_rejected
      else (case memcpy_at buf (unat used) d of
              None \<Rightarrow> Inl Dl_overflow
            | Some buf' \<Rightarrow> receive_loop total_size rs (used + of_nat (length d)) buf'))"

text \<open>
  The buffered download from the Content-Length header on: the header is parsed and admitted,
  the block of \<open>total_size + 2\<close> zero bytes is allocated, the loop runs.
\<close>

definition download_buffer :: "u8 list \<Rightarrow> rx list \<Rightarrow> (dl_error + (u64 \<times> u8 list)) option" where
  "download_buffer strsize rs =
     (if length strsize \<ge> 32 then None
      else (case NawamParseContentLength (Some strsize) True of
        (True, Some total_size) \<Rightarrow>
          if NawamDownloadLengthValid total_size True
          then Some (receive_loop total_size rs 0 (replicate (unat total_size + 2) 0)) else None
      | _ \<Rightarrow> None))"

section \<open>Decimal numbers\<close>

definition is_digit :: "u8 \<Rightarrow> bool" where
  "is_digit c \<longleftrightarrow> 48 \<le> c \<and> c \<le> 57"

definition dec_val :: "u8 list \<Rightarrow> nat" where
  "dec_val = foldl (\<lambda>v c. v * 10 + (unat c - 48)) 0"


definition dec_step :: "nat \<Rightarrow> u8 \<Rightarrow> nat" where
  "dec_step v c = v * 10 + (unat c - 48)"

lemma dec_val_fold: "dec_val cs = foldl dec_step 0 cs"
  by (simp add: dec_val_def dec_step_def [abs_def])

lemma dec_fold_ge: "a \<le> foldl dec_step a cs"
proof (induction cs arbitrary: a)
  case (Cons c cs)
  have "a \<le> dec_step a c" by (simp add: dec_step_def)
  also have "\<dots> \<le> foldl dec_step (dec_step a c) cs" by (rule Cons.IH)
  finally show ?case by simp
qed simp

lemma digit_u32_gt9: "(ucast (c :: u8) :: u32) - 48 > 9 \<longleftrightarrow> \<not> is_digit c"
proof -
  have c: "unat (ucast c :: u32) = unat c" by (simp add: unat_ucast_up)
  show ?thesis
    by (cases "unat c < 48")
      (auto simp: is_digit_def word_less_nat_alt word_le_nat_alt unat_sub_if_size word_size c)
qed

lemma unat_digit_u64:
  "is_digit c \<Longrightarrow> unat (ucast ((ucast (c :: u8) :: u32) - 48) :: u64) = unat c - 48"
  by (simp add: is_digit_def word_le_nat_alt unat_ucast_up unat_sub_if_size word_size)

lemma digit_fits_iff:
  assumes "is_digit c"
  shows "(v :: u64) > (UINT64_MAX - ucast ((ucast c :: u32) - 48)) div 10
    \<longleftrightarrow> dec_step (unat v) c \<ge> 2 ^ 64"
proof -
  let ?d = "ucast ((ucast c :: u32) - 48) :: u64"
  have d: "unat ?d = unat c - 48" by (rule unat_digit_u64 [OF assms])
  have d9: "unat c - 48 \<le> 9" using assms by (auto simp: is_digit_def word_le_nat_alt)
  have m: "unat UINT64_MAX = 2 ^ 64 - 1" by (simp add: UINT64_MAX_def unat_minus_one_u64)
  have le: "?d \<le> UINT64_MAX" by (simp add: UINT64_MAX_def)
  have "unat ((UINT64_MAX - ?d) div 10) = (2 ^ 64 - 1 - (unat c - 48)) div 10"
    using le by (simp add: unat_div unat_sub m d)
  then show ?thesis using d9 by (simp add: word_less_nat_alt dec_step_def) linarith
qed

lemma content_length_step:
  assumes "is_digit c" "dec_step (unat v) c < 2 ^ 64"
  shows "unat ((v :: u64) * 10 + ucast ((ucast c :: u32) - 48)) = dec_step (unat v) c"
  using assms unat_digit_u64 [of c]
  by (simp add: dec_step_def unat_word_ariths word_size)

lemma content_length_loop_iff:
  "content_length_loop v cs = Some w \<longleftrightarrow>
     list_all is_digit cs \<and> foldl dec_step (unat v) cs < 2 ^ 64 \<and> unat w = foldl dec_step (unat v) cs"
proof (induction cs arbitrary: v)
  case Nil
  show ?case by (auto simp: word_unat_eq_iff)
next
  case (Cons c cs)
  show ?case
  proof (cases "is_digit c \<and> dec_step (unat v) c < 2 ^ 64")
    case True
    then show ?thesis
      using Cons.IH [of "v * 10 + ucast ((ucast c :: u32) - 48)"]
      by (simp add: Let_def digit_u32_gt9 digit_fits_iff content_length_step)
  next
    case False
    have "\<not> is_digit c \<or> \<not> foldl dec_step (dec_step (unat v) c) cs < 2 ^ 64"
      using False dec_fold_ge [of "dec_step (unat v) c" cs] by linarith
    then show ?thesis using False by (auto simp: Let_def digit_u32_gt9 digit_fits_iff)
  qed
qed

section \<open>Content-Length\<close>

lemma parse_content_length_accepts:
  "NawamParseContentLength (Some cs) True = (True, Some v) \<longleftrightarrow>
     cs \<noteq> [] \<and> list_all is_digit cs \<and> 0 < dec_val cs \<and> dec_val cs < 2 ^ 64 \<and> unat v = dec_val cs"
proof (cases "content_length_loop 0 cs")
  case None
  then have "\<not> (list_all is_digit cs \<and> dec_val cs < 2 ^ 64 \<and> unat v = dec_val cs)"
    using content_length_loop_iff [of 0 cs v] by (simp add: dec_val_fold)
  with None show ?thesis by (auto simp: NawamParseContentLength_def)
next
  case (Some w)
  then have w: "list_all is_digit cs \<and> dec_val cs < 2 ^ 64 \<and> unat w = dec_val cs"
    using content_length_loop_iff [of 0 cs w] by (simp add: dec_val_fold)
  then have "w \<noteq> 0 \<longleftrightarrow> 0 < dec_val cs" by (simp add: unat_eq_0 [symmetric])
  with Some w show ?thesis by (auto simp: NawamParseContentLength_def word_unat_eq_iff)
qed

text \<open>C8. A Content-Length is accepted exactly when it is a non-empty string of decimal digits
  whose value is not zero and fits 64 bits, and then that value is what is stored: no sign,
  space, prefix or overflow gets through.\<close>

theorem parse_content_length_iff:
  "NawamParseContentLength (Some cs) True = (True, Some v) \<longleftrightarrow>
     cs \<noteq> [] \<and> list_all is_digit cs \<and> 0 < dec_val cs \<and> dec_val cs < 2 ^ 64 \<and> unat v = dec_val cs"
  by (rule parse_content_length_accepts)

section \<open>The receive loop fills the buffer exactly\<close>

text \<open>The bytes a sequence of reads delivers, up to the empty read that ends the transfer.\<close>

fun payload :: "rx list \<Rightarrow> u8 list" where
  "payload (Rx_data d # rs) = (if d = [] then [] else d @ payload rs)"
| "payload _ = []"

text \<open>\<open>InternetReadFile\<close> never returns more than the \<open>DOWNLOAD_BUFFER_SIZE\<close> bytes asked for.\<close>

definition DOWNLOAD_BUFFER_SIZE :: nat where
  "DOWNLOAD_BUFFER_SIZE = 10 * 1024"

fun rx_fits :: "rx \<Rightarrow> bool" where
  "rx_fits (Rx_data d) = (length d \<le> DOWNLOAD_BUFFER_SIZE)"
| "rx_fits _ = True"

lemma chunk_valid_nat:
  assumes "length d \<le> DOWNLOAD_BUFFER_SIZE"
  shows "NawamDownloadChunkValid n used (of_nat (length d)) \<longleftrightarrow> unat used + length d \<le> unat n"
proof -
  have l: "unat (of_nat (length d) :: u64) = length d"
    using assms by (simp add: unat_of_nat DOWNLOAD_BUFFER_SIZE_def)
  show ?thesis
    by (auto simp: NawamDownloadChunkValid_def word_le_nat_alt unat_sub l)
qed

lemma chunk_advance:
  assumes "length d \<le> DOWNLOAD_BUFFER_SIZE" "unat used + length d \<le> unat (n :: u64)"
  shows "unat ((used :: u64) + of_nat (length d)) = unat used + length d"
proof -
  have "unat used + length d < 18446744073709551616" using assms(2) unat_u64_lt [of n] by linarith
  then show ?thesis using assms(1)
    by (simp add: unat_word_ariths unat_of_nat DOWNLOAD_BUFFER_SIZE_def)
qed

lemma receive_loop_correct:
  assumes "list_all rx_fits rs" "length pre = unat used" "unat used \<le> unat n"
    "buf = pre @ replicate (unat n + 2 - unat used) 0"
  shows "receive_loop n rs used buf \<noteq> Inl Dl_overflow \<and>
    (\<forall>r. receive_loop n rs used buf = Inr r \<longrightarrow>
       r = (n, pre @ payload rs @ [0, 0]) \<and> length (pre @ payload rs) = unat n)"
  using assms
proof (induction n rs used buf arbitrary: pre rule: receive_loop.induct)
  case (4 n d rs used buf)
  have fits: "length d \<le> DOWNLOAD_BUFFER_SIZE" using "4.prems"(1) by simp
  show ?case
  proof (cases "d = [] \<or> \<not> NawamDownloadChunkValid n used (of_nat (length d))")
    case True
    have "used = n \<Longrightarrow> buf = pre @ [0, 0]" using "4.prems"(4) by (simp add: numeral_2_eq_2)
    then show ?thesis using True "4.prems"(2) by (auto split: if_splits)
  next
    case False
    then have le: "unat used + length d \<le> unat n" using chunk_valid_nat [OF fits] by blast
    let ?buf = "(pre @ d) @ replicate (unat n + 2 - (unat used + length d)) 0"
    have cp: "memcpy_at buf (unat used) d = Some ?buf"
      using "4.prems"(2,4) le by (simp add: memcpy_at_def)
    have adv: "unat (used + of_nat (length d)) = unat used + length d"
      by (rule chunk_advance [OF fits le])
    have "list_all rx_fits rs" "length (pre @ d) = unat (used + of_nat (length d))"
      "unat (used + of_nat (length d)) \<le> unat n"
      "?buf = (pre @ d) @ replicate (unat n + 2 - unat (used + of_nat (length d))) 0"
      using "4.prems" adv le by simp_all
    then show ?thesis using "4.IH" [OF _ _ cp, of "pre @ d"] False cp by simp
  qed
qed simp_all

text \<open>C5. A buffered download writes only inside the block it allocated, whatever the server
  sends; and when it succeeds, the returned size is the announced one, at most 64 MB, and the
  block holds exactly the bytes received followed by the two zero bytes callers rely on.\<close>

theorem download_buffer_safe:
  assumes "list_all rx_fits rs" "download_buffer strsize rs = Some res"
  shows "res \<noteq> Inl Dl_overflow \<and>
    (\<forall>n buf. res = Inr (n, buf) \<longrightarrow>
       unat n = dec_val strsize \<and> unat n \<le> 64 * 1024 * 1024 \<and>
       length (payload rs) = unat n \<and> buf = payload rs @ [0, 0])"
proof -
  obtain n where p: "NawamParseContentLength (Some strsize) True = (True, Some n)"
    and v: "NawamDownloadLengthValid n True"
    and r: "res = receive_loop n rs 0 (replicate (unat n + 2) 0)"
    using assms(2)
    by (auto simp: download_buffer_def split: if_splits prod.splits bool.splits option.splits)
  have n: "unat n = dec_val strsize" using p parse_content_length_accepts by blast
  have "unat n \<le> 64 * 1024 * 1024" using v by (simp add: NawamDownloadLengthValid_def word_le_nat_alt)
  then show ?thesis using receive_loop_correct [OF assms(1), of "[]" 0 n] r n by auto
qed

theorem download_buffer_safe_witness:
  "download_buffer [53] [Rx_data [1, 2], Rx_data [3, 4, 5], Rx_data []] = Some (Inr (5, [1, 2, 3, 4, 5, 0, 0]))
   \<and> length (payload [Rx_data [1, 2], Rx_data [3, 4, 5], Rx_data []]) = unat (5 :: u64)"
proof -
  let ?rs = "[Rx_data [1, 2], Rx_data [3, 4, 5], Rx_data []]"
  have r: "download_buffer [53] ?rs = Some (Inr (5, [1, 2, 3, 4, 5, 0, 0]))" by code_simp
  have "list_all rx_fits ?rs" by (simp add: DOWNLOAD_BUFFER_SIZE_def)
  from download_buffer_safe [OF this r] r show ?thesis by simp
qed

text \<open>A chunk that would pass the announced length ends the transfer instead of being stored.\<close>

lemma oversized_chunk_rejected:
  assumes "length d \<le> DOWNLOAD_BUFFER_SIZE" "d \<noteq> []" "unat n < unat used + length d"
  shows "receive_loop n (Rx_data d # rs) used buf = Inl Dl_chunk_rejected"
  using assms chunk_valid_nat [OF assms(1), of n used] by simp

end
