(* ===== verification/Dbx.thy ===== *)
theory Dbx
  imports Prelude
begin

text \<open>
  The UEFI revocation database (DBX): the structural validator \<open>NawamDbxValid\<close> of
  \<open>src/src/nawam_safety.h\<close>, run on every downloaded or cached DBX, and its consumer
  \<open>IsRevokedByDbx\<close> of \<open>src/src/hash.c\<close>, which looks a boot loader's hash up in the first
  signature list. Reads of the buffer are checked reads, so that \<open>None\<close> is a read outside the
  buffer (or, in the consumer, a failed assertion).
\<close>

section \<open>The validator\<close>

definition NawamReadLE32 :: "u8 list \<Rightarrow> nat \<Rightarrow> u32 option" where
  "NawamReadLE32 dat p =
     do { a \<leftarrow> rd dat p; b \<leftarrow> rd dat (p + 1); c \<leftarrow> rd dat (p + 2); d \<leftarrow> rd dat (p + 3);
          Some (le32_join a b c d) }"

definition sha256_guid :: "u8 list" where
  "sha256_guid = [0x26, 0x16, 0xc4, 0xc1, 0x4c, 0x50, 0x92, 0x40,
                  0xac, 0xa9, 0x41, 0xf9, 0x36, 0x93, 0x43, 0x28]"

text \<open>
  The loop over the signature lists. The list fields are \<open>uint32_t\<close> and the tests on their
  differences are evaluated in the source's order; offsets and sizes are \<open>size_t\<close>.
\<close>

function dbx_loop :: "u8 list \<Rightarrow> bool \<Rightarrow> nat \<Rightarrow> bool option" where
  "dbx_loop dat first off =
     (if \<not> off < length dat then Some (off = length dat)
      else if length dat - off < 28 then Some False
      else do {
        list_length \<leftarrow> NawamReadLE32 dat (off + 16);
        header_length \<leftarrow> NawamReadLE32 dat (off + 20);
        signature_length \<leftarrow> NawamReadLE32 dat (off + 24);
        if list_length < 28 \<or> unat list_length > length dat - off \<or>
           header_length > list_length - 28 \<or> signature_length \<le> 16 \<or>
           list_length - 28 - header_length < signature_length \<or>
           (list_length - 28 - header_length) mod signature_length \<noteq> 0
        then Some False
        else do {
          guid \<leftarrow> rd_span dat off 16;
          if (first \<and> guid \<noteq> sha256_guid) \<or> (guid = sha256_guid \<and> signature_length \<noteq> 48)
          then Some False
          else dbx_loop dat False (off + unat list_length) } })"
  by pat_completeness auto
termination
  by (relation "measure (\<lambda>(dat, first, off). length dat - off)")
    (auto simp: word_less_nat_alt)

declare dbx_loop.simps [simp del]

definition NawamDbxValid :: "u8 list option \<Rightarrow> bool option" where
  "NawamDbxValid buf =
     (case buf of
        None \<Rightarrow> Some False
      | Some dat \<Rightarrow>
          if length dat < 40 then Some False
          else do {
            auth_length \<leftarrow> NawamReadLE32 dat 16;
            if auth_length < 24 \<or> unat auth_length > length dat - 16 then Some False
            else let off = 16 + unat auth_length in
              if off = length dat then Some False else dbx_loop dat True off })"

section \<open>The consumer\<close>

text \<open>
  \<open>dbx\<close> is the database the caller found (a local file or the embedded resource), if any;
  \<open>arch_known\<close> tells whether the image's machine type was recognised. \<open>fluff_size\<close> and the
  entry counter are \<open>uint32_t\<close>; the entry count is computed in \<open>size_t\<close> and truncated.
\<close>

fun dbx_lookup :: "u8 list \<Rightarrow> u8 list \<Rightarrow> u32 \<Rightarrow> u32 \<Rightarrow> nat \<Rightarrow> nat \<Rightarrow> bool option" where
  "dbx_lookup hash dat fluff_size ssize i 0 = Some False"
| "dbx_lookup hash dat fluff_size ssize i (Suc n) =
     do { s \<leftarrow> rd_span dat (unat (fluff_size + of_nat i * ssize)) 32;
          if hash = s then Some True else dbx_lookup hash dat fluff_size ssize (Suc i) n }"

definition IsRevokedByDbx :: "u8 list \<Rightarrow> bool \<Rightarrow> u8 list option \<Rightarrow> bool option" where
  "IsRevokedByDbx hash arch_known dbx =
     (if \<not> arch_known then Some False
      else case dbx of None \<Rightarrow> Some False
      | Some dat \<Rightarrow>
        (let dbx_size = (of_nat (length dat) :: u32) in
         if dbx_size \<le> 41 then Some False
         else do {
           dwLength \<leftarrow> NawamReadLE32 dat 16;
           let fluff_size = dwLength + 16;
           if dbx_size \<le> fluff_size then Some False
           else do {
             let l = unat fluff_size;
             let fluff_size = fluff_size + 28;
             if dbx_size \<le> fluff_size then Some False
             else do {
               guid \<leftarrow> rd_span dat l 16;
               if guid \<noteq> sha256_guid then Some False
               else do {
                 list_size \<leftarrow> NawamReadLE32 dat (l + 16);
                 header_size \<leftarrow> NawamReadLE32 dat (l + 20);
                 ssize \<leftarrow> NawamReadLE32 dat (l + 24);
                 let fluff_size = fluff_size + header_size;
                 if ssize = 0 then None
                 else do {
                   let nb_entries = (ucast ((ucast (list_size - header_size) - 28 :: u64) div ucast ssize) :: u32);
                   if \<not> dbx_size \<ge> fluff_size + nb_entries * ssize then None
                   else dbx_lookup hash dat (fluff_size + 16) ssize 0 (unat nb_entries) } } } } }))"

section \<open>The format\<close>

text \<open>
  A signature list as the UEFI specification lays it out: a type GUID, three sizes, a header
  and a non-empty array of entries of the same size, each an owner GUID and its data.
\<close>

record sig_list =
  sl_type :: "u8 list"
  sl_header :: "u8 list"
  sl_size :: nat
  sl_entries :: "u8 list list"

definition sl_total :: "sig_list \<Rightarrow> nat" where
  "sl_total l = 28 + length (sl_header l) + sl_size l * length (sl_entries l)"

definition sl_bytes :: "sig_list \<Rightarrow> u8 list" where
  "sl_bytes l = sl_type l @ le32_bytes (of_nat (sl_total l)) @ le32_bytes (of_nat (length (sl_header l)))
     @ le32_bytes (of_nat (sl_size l)) @ sl_header l @ concat (sl_entries l)"

definition sl_wf :: "sig_list \<Rightarrow> bool" where
  "sl_wf l \<longleftrightarrow> length (sl_type l) = 16 \<and> 16 < sl_size l \<and> sl_entries l \<noteq> [] \<and>
     (\<forall>e\<in>set (sl_entries l). length e = sl_size l) \<and> sl_total l < 2 ^ 32 \<and>
     (sl_type l = sha256_guid \<longrightarrow> sl_size l = 48)"

definition dbx_layout :: "u8 list \<Rightarrow> u8 list \<Rightarrow> u8 list \<Rightarrow> sig_list list \<Rightarrow> bool" where
  "dbx_layout dat stamp auth ls \<longleftrightarrow>
     length stamp = 16 \<and> 20 \<le> length auth \<and> 4 + length auth < 2 ^ 32 \<and>
     ls \<noteq> [] \<and> list_all sl_wf ls \<and> sl_type (hd ls) = sha256_guid \<and>
     dat = stamp @ le32_bytes (of_nat (4 + length auth)) @ auth @ concat (map sl_bytes ls)"

section \<open>Reading back one list\<close>

lemma NawamReadLE32_eq:
  "p + 4 \<le> length dat \<Longrightarrow>
    NawamReadLE32 dat p = Some (le32_join (dat ! p) (dat ! (p + 1)) (dat ! (p + 2)) (dat ! (p + 3)))"
  by (simp add: NawamReadLE32_def)

lemma le32_bytes_nth:
  "le32_join (le32_bytes w ! 0) (le32_bytes w ! Suc 0) (le32_bytes w ! 2) (le32_bytes w ! 3) = w"
  by (simp add: le32_bytes_def numeral_2_eq_2 numeral_3_eq_3)

lemma NawamReadLE32_append:
  "length pre = p \<Longrightarrow> NawamReadLE32 (pre @ le32_bytes w @ post) p = Some w"
  using le32_bytes_nth [of w]
  by (simp add: NawamReadLE32_eq nth_append numeral_2_eq_2 numeral_3_eq_3)

lemma NawamReadLE32_bytes:
  assumes "p + 4 \<le> length dat" "NawamReadLE32 dat p = Some w"
  shows "take 4 (drop p dat) = le32_bytes w"
proof -
  have w: "w = le32_join (dat ! p) (dat ! (p + 1)) (dat ! (p + 2)) (dat ! (p + 3))"
    using assms by (simp add: NawamReadLE32_eq)
  show ?thesis
    using assms(1) by (auto simp: w intro!: nth_equalityI) (auto simp: less_Suc_eq numeral_eq_Suc)
qed

text \<open>The tests the validator applies to the three size fields, on naturals.\<close>

definition sizes_ok :: "nat \<Rightarrow> nat \<Rightarrow> nat \<Rightarrow> nat \<Rightarrow> bool" where
  "sizes_ok avail L H S \<longleftrightarrow> 28 + H \<le> L \<and> L \<le> avail \<and> 16 < S \<and> S \<le> L - 28 - H \<and> S dvd L - 28 - H"

lemma sizes_ok_word:
  fixes L H S :: u32
  shows "(L < 28 \<or> unat L > avail \<or> H > L - 28 \<or> S \<le> 16 \<or> L - 28 - H < S \<or> (L - 28 - H) mod S \<noteq> 0)
     \<longleftrightarrow> \<not> sizes_ok avail (unat L) (unat H) (unat S)"
proof (cases "28 \<le> unat L \<and> unat H \<le> unat L - 28")
  case True
  have L28: "unat (L - 28) = unat L - 28" using True by (simp add: unat_sub_if_size)
  have LH: "unat (L - 28 - H) = unat L - 28 - unat H"
    using True L28 by (simp add: unat_sub_if_size)
  have m: "(L - 28 - H) mod S = 0 \<longleftrightarrow> unat S dvd unat L - 28 - unat H"
    by (simp add: word_unat_eq_iff unat_mod LH dvd_eq_mod_eq_0)
  show ?thesis using True
    by (auto simp: sizes_ok_def word_less_nat_alt word_le_nat_alt L28 LH m)
next
  case False
  then show ?thesis
    by (auto simp: sizes_ok_def word_less_nat_alt unat_sub_if_size)
qed

definition sl_decode :: "u8 list \<Rightarrow> nat \<Rightarrow> nat \<Rightarrow> nat \<Rightarrow> sig_list" where
  "sl_decode r L H S =
     \<lparr>sl_type = take 16 r, sl_header = take H (drop 28 r), sl_size = S,
      sl_entries = chunks S (take (L - 28 - H) (drop (28 + H) r))\<rparr>"

lemma sl_decode_facts:
  assumes "sizes_ok (length r) L H S"
  shows "sl_total (sl_decode r L H S) = L" "length (sl_header (sl_decode r L H S)) = H"
    "sl_size (sl_decode r L H S) = S" "sl_type (sl_decode r L H S) = take 16 r"
    "concat (sl_entries (sl_decode r L H S)) = take (L - 28 - H) (drop (28 + H) r)"
    "sl_entries (sl_decode r L H S) \<noteq> []"
    "\<forall>e\<in>set (sl_entries (sl_decode r L H S)). length e = S"
proof -
  let ?body = "take (L - 28 - H) (drop (28 + H) r)"
  have S: "0 < S" and len: "length ?body = L - 28 - H" and dvd: "S dvd length ?body"
    and pos: "0 < L - 28 - H" and H: "28 + H \<le> L" "L \<le> length r"
    using assms by (auto simp: sizes_ok_def)
  show hd: "length (sl_header (sl_decode r L H S)) = H" using H by (simp add: sl_decode_def)
  have "length (chunks S ?body) = (L - 28 - H) div S"
    using length_chunks [OF S dvd] len by simp
  then have "S * length (chunks S ?body) = L - 28 - H" using dvd len by simp
  then show "sl_total (sl_decode r L H S) = L" using hd H by (simp add: sl_total_def sl_decode_def)
  show con: "concat (sl_entries (sl_decode r L H S)) = ?body"
    using S by (simp add: sl_decode_def concat_chunks)
  show "sl_entries (sl_decode r L H S) \<noteq> []"
    using con len pos by (metis concat.simps(1) length_0_conv less_numeral_extra(3))
  show "\<forall>e\<in>set (sl_entries (sl_decode r L H S)). length e = S"
    unfolding sl_decode_def sig_list.select_convs by (rule chunks_lengths [OF S dvd])
qed (simp_all add: sl_decode_def)

lemma take_three: "take (a + b + c) r = take a r @ take b (drop a r) @ take c (drop (a + b) r)"
  unfolding add.assoc [of a b c] take_add by (simp add: add.commute)

lemma sl_decode_bytes:
  assumes ok: "sizes_ok (length r) (unat L) (unat H) (unat S)"
    and rd: "NawamReadLE32 r 16 = Some L" "NawamReadLE32 r 20 = Some H" "NawamReadLE32 r 24 = Some S"
  shows "sl_bytes (sl_decode r (unat L) (unat H) (unat S)) = take (unat L) r"
proof -
  note f = sl_decode_facts [OF ok]
  have len: "28 + unat H \<le> unat L" "unat L \<le> length r" using ok by (auto simp: sizes_ok_def)
  have t: "take 4 (drop 16 r) = le32_bytes L" "take 4 (drop 20 r) = le32_bytes H"
    "take 4 (drop 24 r) = le32_bytes S"
    using rd len by (auto intro!: NawamReadLE32_bytes)
  have "take 28 r = take 16 r @ le32_bytes L @ le32_bytes H @ le32_bytes S"
    using take_add [of 16 12 r] take_three [of 4 4 4 "drop 16 r"] t by simp
  moreover have "take (unat L) r = take 28 r @ take (unat H) (drop 28 r)
      @ take (unat L - 28 - unat H) (drop (28 + unat H) r)"
    using take_three [of 28 "unat H" "unat L - 28 - unat H" r] len by simp
  ultimately show ?thesis
    by (simp add: sl_bytes_def f) (simp add: sl_decode_def)
qed

lemma length_sl_bytes: "sl_wf l \<Longrightarrow> length (sl_bytes l) = sl_total l"
proof -
  assume wf: "sl_wf l"
  then have "length (concat (sl_entries l)) = sl_size l * length (sl_entries l)"
    unfolding sl_wf_def by (blast intro: length_concat_const)
  then show ?thesis using wf by (simp add: sl_bytes_def sl_total_def sl_wf_def)
qed


lemma sl_fields:
  assumes "sl_wf l" "r = sl_bytes l @ rest"
  shows "NawamReadLE32 r 16 = Some (of_nat (sl_total l))"
    "NawamReadLE32 r 20 = Some (of_nat (length (sl_header l)))"
    "NawamReadLE32 r 24 = Some (of_nat (sl_size l))"
    "take 16 r = sl_type l" "drop (sl_total l) r = rest" "28 \<le> length r"
    "unat (of_nat (sl_total l) :: u32) = sl_total l"
    "unat (of_nat (length (sl_header l)) :: u32) = length (sl_header l)"
    "unat (of_nat (sl_size l) :: u32) = sl_size l"
    "sizes_ok (length r) (sl_total l) (length (sl_header l)) (sl_size l)"
proof -
  have ty: "length (sl_type l) = 16" and lt: "sl_total l < 2 ^ 32" using assms(1) by (auto simp: sl_wf_def)
  have len: "length r = sl_total l + length rest" using assms by (simp add: length_sl_bytes)
  show "NawamReadLE32 r 16 = Some (of_nat (sl_total l))"
    using NawamReadLE32_append [of "sl_type l" 16] ty assms(2) by (simp add: sl_bytes_def)
  show "NawamReadLE32 r 20 = Some (of_nat (length (sl_header l)))"
    using NawamReadLE32_append [of "sl_type l @ le32_bytes (of_nat (sl_total l))" 20] ty assms(2)
    by (simp add: sl_bytes_def)
  show "NawamReadLE32 r 24 = Some (of_nat (sl_size l))"
    using NawamReadLE32_append [of "sl_type l @ le32_bytes (of_nat (sl_total l))
      @ le32_bytes (of_nat (length (sl_header l)))" 24] ty assms(2)
    by (simp add: sl_bytes_def)
  show "take 16 r = sl_type l" using ty assms(2) by (simp add: sl_bytes_def)
  show "drop (sl_total l) r = rest" using assms length_sl_bytes [OF assms(1)] by simp
  show "28 \<le> length r" using len by (simp add: sl_total_def)
  have n1: "1 \<le> length (sl_entries l)" using assms(1) by (simp add: sl_wf_def Suc_le_eq)
  have S: "sl_size l \<le> sl_size l * length (sl_entries l)" using n1 by simp
  then have b: "length (sl_header l) < 2 ^ 32" "sl_size l < 2 ^ 32"
    using lt unfolding sl_total_def by linarith+
  show "unat (of_nat (sl_total l) :: u32) = sl_total l" "unat (of_nat (length (sl_header l)) :: u32) = length (sl_header l)"
    "unat (of_nat (sl_size l) :: u32) = sl_size l"
    using lt b by (simp_all add: unat_of_nat)
  show "sizes_ok (length r) (sl_total l) (length (sl_header l)) (sl_size l)"
    using assms(1) S len by (auto simp: sizes_ok_def sl_total_def sl_wf_def)
qed

section \<open>The validator decides the format\<close>

lemma NawamReadLE32_drop:
  "off \<le> length dat \<Longrightarrow> NawamReadLE32 (drop off dat) p = NawamReadLE32 dat (off + p)"
  by (simp add: NawamReadLE32_def rd_def add.assoc less_diff_conv)

definition lists_at :: "bool \<Rightarrow> u8 list \<Rightarrow> sig_list list \<Rightarrow> bool" where
  "lists_at first r ls \<longleftrightarrow> list_all sl_wf ls \<and> r = concat (map sl_bytes ls) \<and>
     (first \<longrightarrow> ls \<noteq> [] \<longrightarrow> sl_type (hd ls) = sha256_guid)"

lemma lists_at_short: "r \<noteq> [] \<Longrightarrow> length r < 28 \<Longrightarrow> \<not> lists_at first r ls"
proof (cases ls)
  case (Cons l ls')
  assume "r \<noteq> []" "length r < 28"
  with sl_fields(6) [of l r "concat (map sl_bytes ls')"] Cons show ?thesis
    by (auto simp: lists_at_def)
qed (auto simp: lists_at_def)

lemma lists_at_step:
  assumes "28 \<le> length r"
    and rd: "NawamReadLE32 r 16 = Some L" "NawamReadLE32 r 20 = Some H" "NawamReadLE32 r 24 = Some S"
  shows "(\<exists>ls. lists_at first r ls) \<longleftrightarrow>
    sizes_ok (length r) (unat L) (unat H) (unat S) \<and>
    (first \<longrightarrow> take 16 r = sha256_guid) \<and> (take 16 r = sha256_guid \<longrightarrow> S = 48) \<and>
    (\<exists>ls. lists_at False (drop (unat L) r) ls)" (is "?lhs \<longleftrightarrow> ?rhs")
proof
  assume ?lhs
  then obtain ls' where at: "lists_at first r ls'" by blast
  then have "ls' \<noteq> []" using assms(1) by (auto simp: lists_at_def)
  then obtain l ls where l: "sl_wf l" "r = sl_bytes l @ concat (map sl_bytes ls)"
    and ls: "list_all sl_wf ls" "first \<longrightarrow> sl_type l = sha256_guid"
    using at by (auto simp: lists_at_def neq_Nil_conv)
  note f = sl_fields [OF l]
  have e: "L = of_nat (sl_total l)" "H = of_nat (length (sl_header l))" "S = of_nat (sl_size l)"
    using rd f(1-3) by auto
  have "sl_type l = sha256_guid \<longrightarrow> S = 48" using l(1) e(3) by (auto simp: sl_wf_def)
  then show ?rhs using f ls by (auto simp: e lists_at_def)
next
  assume r: ?rhs
  let ?l = "sl_decode r (unat L) (unat H) (unat S)"
  have ok: "sizes_ok (length r) (unat L) (unat H) (unat S)" using r by blast
  note f = sl_decode_facts [OF ok]
  obtain ls where ls: "lists_at False (drop (unat L) r) ls" using r by blast
  have "sl_wf ?l" unfolding sl_wf_def
    using ok f r assms(1) by (auto simp: sizes_ok_def)
  moreover have "r = sl_bytes ?l @ drop (unat L) r"
    using sl_decode_bytes [OF ok rd] by simp
  ultimately have "lists_at first r (?l # ls)" using ls r f(4) by (auto simp: lists_at_def)
  then show ?lhs by blast
qed


lemma dbx_loop_decides:
  "off \<le> length dat \<Longrightarrow> dbx_loop dat first off = Some (\<exists>ls. lists_at first (drop off dat) ls)"
proof (induction dat first off rule: dbx_loop.induct)
  case (1 dat first off)
  let ?r = "drop off dat"
  consider "off = length dat" | "off < length dat" "length dat - off < 28"
    | "off < length dat" "28 \<le> length ?r" using "1.prems" by fastforce
  then show ?case
  proof cases
    case 1
    then have "lists_at first ?r []" by (simp add: lists_at_def)
    then have "\<exists>ls. lists_at first ?r ls" ..
    then show ?thesis using 1 dbx_loop.simps [of dat first off] by simp
  next
    case 2
    then have "\<not> lists_at first ?r ls" for ls by (intro lists_at_short) auto
    then show ?thesis using 2 by (simp add: dbx_loop.simps [of dat first off])
  next
    case 3
    obtain L H S where rd: "NawamReadLE32 ?r 16 = Some L" "NawamReadLE32 ?r 20 = Some H"
      "NawamReadLE32 ?r 24 = Some S"
      using 3(2) by (simp add: NawamReadLE32_eq)
    then have rd': "NawamReadLE32 dat (off + 16) = Some L" "NawamReadLE32 dat (off + 20) = Some H"
      "NawamReadLE32 dat (off + 24) = Some S"
      using "1.prems" by (simp_all add: NawamReadLE32_drop)
    have gd: "rd_span dat off 16 = Some (take 16 ?r)" using 3 by (simp add: rd_span_def)
    note step = lists_at_step [OF 3(2) rd, of first]
    show ?thesis
    proof (cases "sizes_ok (length ?r) (unat L) (unat H) (unat S) \<and>
        (first \<longrightarrow> take 16 ?r = sha256_guid) \<and> (take 16 ?r = sha256_guid \<longrightarrow> S = 48)")
      case True
      then have le: "off + unat L \<le> length dat" using 3 by (auto simp: sizes_ok_def)
      have g: "\<not> (L < 28 \<or> unat L > length dat - off \<or> H > L - 28 \<or> S \<le> 16 \<or> L - 28 - H < S \<or> (L - 28 - H) mod S \<noteq> 0)"
        using True sizes_ok_word [of L "length dat - off" H S] by simp
      have "dbx_loop dat False (off + unat L) = Some (\<exists>ls. lists_at False (drop (off + unat L) dat) ls)"
        by (rule "1.IH" [OF _ _ rd' g gd _ le]) (use 3 True in auto)
      then show ?thesis using True 3 rd' g gd step
        by (simp add: dbx_loop.simps [of dat first off] add.commute) blast
    next
      case False
      have "dbx_loop dat first off = Some False"
        using False 3 rd' gd sizes_ok_word [of L "length dat - off" H S]
        by (auto simp: dbx_loop.simps [of dat first off])
      then show ?thesis using step False by auto
    qed
  qed
qed

lemma dbx_layout_iff:
  assumes "40 \<le> length dat" "NawamReadLE32 dat 16 = Some A"
  shows "(\<exists>stamp auth. dbx_layout dat stamp auth ls) \<longleftrightarrow>
    24 \<le> unat A \<and> unat A \<le> length dat - 16 \<and> 16 + unat A \<noteq> length dat \<and>
    lists_at True (drop (16 + unat A) dat) ls" (is "?lhs \<longleftrightarrow> ?rhs")
proof
  assume ?lhs
  then obtain stamp auth where d: "dbx_layout dat stamp auth ls" by blast
  let ?n = "4 + length auth"
  have n: "unat (of_nat ?n :: u32) = ?n" using d by (simp add: dbx_layout_def unat_of_nat del: of_nat_add)
  have "A = of_nat ?n"
    using d NawamReadLE32_append [of stamp 16] assms(2) by (simp add: dbx_layout_def)
  then have A: "unat A = ?n" using n by simp
  have body: "drop (16 + ?n) dat = concat (map sl_bytes ls)"
    using d by (simp add: dbx_layout_def)
  have len: "length dat = 16 + ?n + length (concat (map sl_bytes ls))"
    using d by (simp add: dbx_layout_def)
  have at: "lists_at True (drop (16 + ?n) dat) ls"
    using d body by (simp add: dbx_layout_def lists_at_def)
  have "concat (map sl_bytes ls) \<noteq> []"
    using d sl_fields(6) [of "hd ls" "sl_bytes (hd ls)" "[]"]
    by (cases ls) (auto simp: dbx_layout_def)
  then show ?rhs using at len A d by (auto simp: dbx_layout_def)
next
  assume r: ?rhs
  let ?auth = "take (unat A - 4) (drop 20 dat)"
  have t: "take 4 (drop 16 dat) = le32_bytes A"
    using assms by (intro NawamReadLE32_bytes) auto
  have la: "length ?auth = unat A - 4" using r assms(1) by auto
  have "dat = take 16 dat @ take 4 (drop 16 dat) @ ?auth @ drop (16 + unat A) dat"
    using take_three [of 16 4 "unat A - 4" dat] append_take_drop_id [of "16 + unat A" dat] r by simp
  then have dat: "dat = take 16 dat @ le32_bytes (of_nat (4 + length ?auth)) @ ?auth
      @ concat (map sl_bytes ls)"
    using r t la by (simp add: lists_at_def)
  have "ls \<noteq> []" using r by (auto simp: lists_at_def)
  then have "dbx_layout dat (take 16 dat) ?auth ls"
    unfolding dbx_layout_def using dat r la assms(1) unat_u32_lt [of A]
    by (auto simp: lists_at_def)
  then show ?lhs by blast
qed

lemma NawamDbxValid_iff:
  "NawamDbxValid (Some dat) = Some (\<exists>stamp auth ls. dbx_layout dat stamp auth ls)"
proof (cases "40 \<le> length dat")
  case False
  then have "\<not> dbx_layout dat stamp auth ls" for stamp auth ls by (auto simp: dbx_layout_def)
  with False show ?thesis by (simp add: NawamDbxValid_def)
next
  case True
  then obtain A where A: "NawamReadLE32 dat 16 = Some A" by (simp add: NawamReadLE32_eq)
  let ?ok = "24 \<le> unat A \<and> unat A \<le> length dat - 16 \<and> 16 + unat A \<noteq> length dat"
  have "(\<exists>stamp auth ls. dbx_layout dat stamp auth ls) \<longleftrightarrow>
      ?ok \<and> (\<exists>ls. lists_at True (drop (16 + unat A) dat) ls)"
    using dbx_layout_iff [OF True A] by blast
  moreover have "?ok \<Longrightarrow> dbx_loop dat True (16 + unat A) =
      Some (\<exists>ls. lists_at True (drop (16 + unat A) dat) ls)"
    using True by (intro dbx_loop_decides) auto
  ultimately show ?thesis using True A
    by (auto simp: NawamDbxValid_def Let_def word_less_nat_alt)
qed

text \<open>C7. The DBX validator never reads outside the buffer, on any input, and it accepts exactly
  the well-formed databases: a time stamp, an authentication block of the announced length and
  a non-empty sequence of signature lists that fills the buffer to its last byte, the first of
  them SHA-256.\<close>

theorem dbx_valid_decides_format:
  "NawamDbxValid (Some dat) = Some (\<exists>stamp auth ls. dbx_layout dat stamp auth ls)"
  by (rule NawamDbxValid_iff)

section \<open>The lookup\<close>

lemma entry_hash:
  assumes "\<forall>e\<in>set es. length e = 48" "j < length es"
  shows "take 32 (drop (16 + j * 48) (concat es)) = drop 16 (es ! j)"
proof -
  have "drop 16 (es ! j) = drop 16 (take 48 (drop (j * 48) (concat es)))"
    using concat_const_nth [OF assms] by simp
  also have "\<dots> = take 32 (drop (16 + j * 48) (concat es))" by (simp add: drop_take)
  finally show ?thesis by simp
qed

lemma dbx_lookup_eq:
  assumes "\<forall>e\<in>set es. length e = 48" "dat = pre @ concat es @ post" "length dat < 2 ^ 32"
    "unat fl = length pre + 16" "i + n = length es"
  shows "dbx_lookup hash dat fl 48 i n = Some (hash \<in> drop 16 ` set (drop i es))"
  using assms(5)
proof (induction n arbitrary: i)
  case 0
  then show ?case by simp
next
  case (Suc n)
  have i: "i < length es" using Suc.prems by simp
  have len: "length dat = length pre + 48 * length es + length post"
    using assms(2) length_concat_const [OF assms(1)] by simp
  have le: "length pre + 16 + i * 48 + 32 \<le> length dat" using i len by simp
  have idx: "unat (fl + of_nat i * 48) = length pre + 16 + i * 48"
    using le assms(3,4) by (simp add: unat_word_ariths unat_of_nat)
  have "take 32 (drop (length pre + 16 + i * 48) dat) = take 32 (drop (16 + i * 48) (concat es) @ drop (16 + i * 48 - length (concat es)) post)"
    by (simp add: assms(2) add.assoc)
  also have "\<dots> = take 32 (drop (16 + i * 48) (concat es))"
    using i length_concat_const [OF assms(1)] by simp
  finally have s: "rd_span dat (unat (fl + of_nat i * 48)) 32 = Some (drop 16 (es ! i))"
    using le entry_hash [OF assms(1) i] by (simp add: idx add.commute)
  have d: "drop i es = es ! i # drop (Suc i) es" using i by (simp add: Cons_nth_drop_Suc)
  show ?case using Suc.IH [of "Suc i"] Suc.prems s d by auto
qed

text \<open>What the consumer reads of a well-formed database: where the first list starts and its fields.\<close>

lemma dbx_first_list:
  assumes lay: "dbx_layout dat stamp auth (l # ls)"
  defines "off \<equiv> 20 + length auth"
  shows "sl_wf l" "sl_type l = sha256_guid" "sl_size l = 48"
    "NawamReadLE32 dat 16 = Some (of_nat (4 + length auth))"
    "take 16 (drop off dat) = sha256_guid"
    "NawamReadLE32 dat (off + 16) = Some (of_nat (sl_total l))"
    "NawamReadLE32 dat (off + 20) = Some (of_nat (length (sl_header l)))"
    "NawamReadLE32 dat (off + 24) = Some 48"
    "off + sl_total l \<le> length dat"
    "dat = (take off dat @ take (28 + length (sl_header l)) (drop off dat))
        @ concat (sl_entries l) @ concat (map sl_bytes ls)"
proof -
  show wf: "sl_wf l" and ty: "sl_type l = sha256_guid" using lay by (auto simp: dbx_layout_def)
  then show size: "sl_size l = 48" by (simp add: sl_wf_def)
  show "NawamReadLE32 dat 16 = Some (of_nat (4 + length auth))"
    using lay NawamReadLE32_append [of stamp 16] by (simp add: dbx_layout_def)
  have r: "drop off dat = sl_bytes l @ concat (map sl_bytes ls)"
    using lay by (simp add: dbx_layout_def off_def)
  have off: "off \<le> length dat" using lay by (simp add: dbx_layout_def off_def)
  note f = sl_fields [OF wf r]
  show "take 16 (drop off dat) = sha256_guid" using f(4) ty by simp
  show "NawamReadLE32 dat (off + 16) = Some (of_nat (sl_total l))"
    "NawamReadLE32 dat (off + 20) = Some (of_nat (length (sl_header l)))"
    "NawamReadLE32 dat (off + 24) = Some 48"
    using f(1-3) NawamReadLE32_drop [OF off] size by auto
  have "length (drop off dat) = sl_total l + length (concat (map sl_bytes ls))"
    using r length_sl_bytes [OF wf] by simp
  then show "off + sl_total l \<le> length dat" using off by simp
  have "length (sl_type l) = 16" using wf by (simp add: sl_wf_def)
  then have "drop off dat = take (28 + length (sl_header l)) (drop off dat)
      @ concat (sl_entries l) @ concat (map sl_bytes ls)"
    unfolding r by (simp add: sl_bytes_def)
  then show "dat = (take off dat @ take (28 + length (sl_header l)) (drop off dat))
        @ concat (sl_entries l) @ concat (map sl_bytes ls)"
    by (metis append.assoc append_take_drop_id)
qed

lemma entry_count:
  assumes "28 + H + 48 * n < 2 ^ 32"
  shows "(ucast ((ucast (of_nat (28 + H + 48 * n) - of_nat H :: u32) - 28 :: u64) div ucast (48 :: u32)) :: u32)
    = of_nat n"
proof -
  have "(of_nat (28 + H + 48 * n) - of_nat H :: u32) = of_nat (28 + 48 * n)" by simp
  moreover have "(ucast (of_nat (28 + 48 * n) :: u32) :: u64) = of_nat (28 + 48 * n)"
    using assms by (simp add: word_unat_eq_iff unat_ucast_up unat_of_nat del: of_nat_add of_nat_mult)
  moreover have "(of_nat (28 + 48 * n) - 28 :: u64) = of_nat (48 * n)" by simp
  moreover have "(of_nat (48 * n) :: u64) div 48 = of_nat n"
    using assms by (simp add: word_unat_eq_iff unat_div unat_of_nat del: of_nat_mult)
  moreover have "(ucast (48 :: u32) :: u64) = 48" by simp
  moreover have "(ucast (of_nat n :: u64) :: u32) = of_nat n"
    using assms by (simp add: word_unat_eq_iff unsigned_ucast_eq unat_of_nat take_bit_nat_eq_self)
  ultimately show ?thesis by metis
qed

lemma IsRevokedByDbx_layout:
  assumes lay: "dbx_layout dat stamp auth ls" and len: "length dat < 2 ^ 32"
  shows "IsRevokedByDbx hash True (Some dat) = Some (hash \<in> drop 16 ` set (sl_entries (hd ls)))"
proof -
  obtain l ls' where ls: "ls = l # ls'" using lay by (cases ls) (auto simp: dbx_layout_def)
  note f = dbx_first_list [OF lay [unfolded ls]]
  let ?off = "20 + length auth" and ?H = "length (sl_header l)" and ?n = "length (sl_entries l)"
  let ?fl = "of_nat (?off + 28 + ?H) :: u32"
  have tot: "sl_total l = 28 + ?H + 48 * ?n" using f(3) by (simp add: sl_total_def)
  have n: "1 \<le> ?n" using f(1) by (simp add: sl_wf_def Suc_le_eq)
  have fin: "?off + 28 + ?H + 48 * ?n \<le> length dat" using f(9) tot by simp
  have a20: "20 \<le> length auth" using lay by (simp add: dbx_layout_def)
  have sz: "unat (of_nat (length dat) :: u32) = length dat" using len by (simp add: unat_of_nat)
  have fl0: "unat (of_nat (4 + length auth) + 16 :: u32) = ?off"
    and fl1: "unat (of_nat (4 + length auth) + 16 + 28 :: u32) = ?off + 28"
    and fl2: "of_nat (4 + length auth) + 16 + 28 + of_nat ?H = ?fl"
    and fl3: "unat (?fl + of_nat ?n * 48) = ?off + 28 + ?H + 48 * ?n"
    and fl4: "unat (?fl + 16) = ?off + 28 + ?H + 16"
    using fin len n by (simp_all add: unat_word_ariths unat_of_nat)
  have cnt: "(ucast ((ucast (of_nat (sl_total l) - of_nat ?H :: u32) - 28 :: u64) div ucast (48 :: u32)) :: u32) = of_nat ?n"
    using entry_count [of ?H ?n] fin len tot by simp
  have un: "unat (of_nat ?n :: u32) = ?n" using fin len by (simp add: unat_of_nat)
  have lk: "dbx_lookup hash dat (?fl + 16) 48 0 ?n = Some (hash \<in> drop 16 ` set (drop 0 (sl_entries l)))"
    by (rule dbx_lookup_eq [OF _ f(10) len]) (use f(1,3) fl4 fin in \<open>auto simp: sl_wf_def\<close>)
  have c: "(of_nat (length dat) \<le> (41 :: u32)) = False"
    "(of_nat (length dat) \<le> of_nat (4 + length auth) + (16 :: u32)) = False"
    "(of_nat (length dat) \<le> of_nat (4 + length auth) + (16 :: u32) + 28) = False"
    "(of_nat (length dat) \<ge> ?fl + of_nat ?n * 48) = True"
    using fin n a20 by (simp_all only: word_le_nat_alt sz fl0 fl1 fl3) auto
  have r: "rd_span dat ?off 16 = Some sha256_guid" using f(5) fin by (simp add: rd_span_def)
  have z: "((48 :: u32) = 0) = False" by simp
  show ?thesis
    by (simp only: IsRevokedByDbx_def Let_def option.case Option.bind.bind_lunit f(4,6-8) c r z fl0 fl2 cnt un
        if_True if_False not_True_eq_False not_False_eq_True lk drop_0 ls list.sel simp_thms)
qed

text \<open>C6. On every database the validator accepts (below 4 GB, the range of the size field), the
  lookup of a hash neither reads outside the buffer nor fails an assertion, and its answer is
  exact: revoked if and only if the hash is one of the entries of the first signature list.\<close>

theorem revoked_by_valid_dbx:
  assumes "NawamDbxValid (Some dat) = Some True" "length dat < 2 ^ 32"
  shows "\<exists>stamp auth ls. dbx_layout dat stamp auth ls \<and>
    IsRevokedByDbx hash True (Some dat) = Some (hash \<in> drop 16 ` set (sl_entries (hd ls)))"
proof -
  obtain stamp auth ls where l: "dbx_layout dat stamp auth ls"
    using assms(1) NawamDbxValid_iff [of dat] by auto
  then show ?thesis using IsRevokedByDbx_layout [OF l assms(2)] by blast
qed

text \<open>A database with one SHA-256 list of two entries.\<close>

definition dbx_sample :: "u8 list" where
  "dbx_sample = replicate 16 0 @ le32_bytes 24 @ replicate 20 0 @ sha256_guid @ le32_bytes 124 @ le32_bytes 0
     @ le32_bytes 48 @ replicate 16 7 @ replicate 32 1 @ replicate 16 7 @ replicate 32 2"

theorem revoked_by_valid_dbx_witness:
  "NawamDbxValid (Some dbx_sample) = Some True \<and>
   (\<exists>stamp auth ls. dbx_layout dbx_sample stamp auth ls \<and>
      IsRevokedByDbx (replicate 32 2) True (Some dbx_sample)
        = Some (replicate 32 2 \<in> drop 16 ` set (sl_entries (hd ls))))
   \<and> IsRevokedByDbx (replicate 32 2) True (Some dbx_sample) = Some True
   \<and> IsRevokedByDbx (replicate 32 3) True (Some dbx_sample) = Some False"
proof -
  have v: "NawamDbxValid (Some dbx_sample) = Some True" by code_simp
  have l: "length dbx_sample < 2 ^ 32" by (simp add: dbx_sample_def sha256_guid_def)
  have "IsRevokedByDbx (replicate 32 2) True (Some dbx_sample) = Some True"
    "IsRevokedByDbx (replicate 32 3) True (Some dbx_sample) = Some False"
    by code_simp+
  with v revoked_by_valid_dbx [OF v l] show ?thesis by blast
qed

end
