(* ===== verification/Regex_Syntax.thy ===== *)
theory Regex_Syntax
  imports Prelude
begin

text \<open>
  The data of the regular-expression engine (\<open>src/src/cregex.h\<close>): parsed nodes, program
  instructions and the 256-bit character classes with their two operations.

  A C \<open>char\<close> is a byte; where the source widens it to \<open>int\<close> the value is its signed reading
  (\<open>char\<close> is signed on the platforms the program is built for). Pointers between nodes are the
  subterm relation of the tree; pointers between instructions are indices into the program.
\<close>

section \<open>Nodes and instructions\<close>

text \<open>
  \<open>CHARACTER_CLASS txt\<close> stands for a node whose \<open>from\<close> and \<open>to\<close> delimit the bytes \<open>txt\<close> of the
  pattern; the byte at \<open>to\<close> is the closing bracket.
\<close>

datatype cregex_node =
    EPSILON
  | CHARACTER int
  | ANY_CHARACTER
  | CHARACTER_CLASS "u8 list"
  | CHARACTER_CLASS_NEGATED "u8 list"
  | CONCATENATION cregex_node cregex_node
  | ALTERNATION cregex_node cregex_node
  | QUANTIFIER (nmin: int) (nmax: int) (greedy: bool) (quantified: cregex_node)
  | ANCHOR_BEGIN
  | ANCHOR_END
  | CAPTURE cregex_node

type_synonym cregex_char_class = "u8 list"

datatype cregex_instr =
    I_MATCH
  | I_CHARACTER int
  | I_ANY_CHARACTER
  | I_CHARACTER_CLASS cregex_char_class
  | I_CHARACTER_CLASS_NEGATED cregex_char_class
  | I_SPLIT nat nat
  | I_JUMP nat
  | I_ASSERT_BEGIN
  | I_ASSERT_END
  | I_SAVE nat

type_synonym cregex_program = "cregex_instr list"

section \<open>Character classes\<close>

text \<open>The cast of an \<open>int\<close> to \<open>unsigned char\<close>.\<close>

definition uchar :: "int \<Rightarrow> nat" where
  "uchar ch = nat (ch mod 256)"

definition empty_class :: cregex_char_class where
  "empty_class = replicate 32 0"

definition cregex_char_class_contains :: "cregex_char_class \<Rightarrow> int \<Rightarrow> bool" where
  "cregex_char_class_contains klass ch =
     ((klass ! (uchar ch div 8)) AND push_bit (uchar ch mod 8) 1 \<noteq> 0)"

definition cregex_char_class_add :: "cregex_char_class \<Rightarrow> int \<Rightarrow> cregex_char_class" where
  "cregex_char_class_add klass ch =
     klass[uchar ch div 8 := (klass ! (uchar ch div 8)) OR push_bit (uchar ch mod 8) 1]"

definition schar :: "u8 \<Rightarrow> int" where
  "schar c = sint c"

lemma uchar_lt [simp]: "uchar ch < 256"
  by (simp add: uchar_def nat_less_iff)

lemma uchar_schar [simp]: "uchar (schar c) = unat c"
proof -
  have "sint c mod 256 = uint c mod 256"
    using take_bit_signed_take_bit [of 8 7 "uint c"]
    by (simp add: sint_uint take_bit_eq_mod)
  also have "\<dots> = uint c" using uint_lt2p [of c] by simp
  finally show ?thesis by (simp add: uchar_def schar_def)
qed

lemma schar_eq_iff [simp]: "schar a = schar b \<longleftrightarrow> a = b"
  by (metis schar_def uint_sint word_uint_eqI)

lemma schar_0 [simp]: "schar 0 = 0"
  by (simp add: schar_def)

lemma bit_test_u8: "(w :: u8) AND push_bit n 1 \<noteq> 0 \<longleftrightarrow> bit w n"
proof -
  have "bit (w AND push_bit n 1) m \<longleftrightarrow> m = n \<and> bit w n" for m
    by (auto simp: bit_simps dest: bit_imp_le_length)
  then show ?thesis by (metis bit_0_eq bot_apply bot_bool_def bit_eq_iff)
qed

lemma contains_bit:
  "cregex_char_class_contains k ch = bit (k ! (uchar ch div 8)) (uchar ch mod 8)"
  unfolding cregex_char_class_contains_def by (rule bit_test_u8)

text \<open>
  The contract of the class: a set of bytes with insertion. Clients of the class rely on these
  laws only.
\<close>

locale byte_set =
  fixes contains :: "'s \<Rightarrow> int \<Rightarrow> bool"
    and add :: "'s \<Rightarrow> int \<Rightarrow> 's"
    and empty :: 's
    and invar :: "'s \<Rightarrow> bool"
  assumes contains_empty: "\<not> contains empty ch"
    and contains_add: "invar s \<Longrightarrow> contains (add s c) ch \<longleftrightarrow> uchar ch = uchar c \<or> contains s ch"
    and invar_empty: "invar empty"
    and invar_add: "invar s \<Longrightarrow> invar (add s c)"
begin

lemma invar_fold_add: "invar s \<Longrightarrow> invar (foldl add s cs)"
  by (induction cs arbitrary: s) (auto simp: invar_add)

lemma contains_fold_add:
  "invar s \<Longrightarrow> contains (foldl add s cs) ch \<longleftrightarrow> uchar ch \<in> uchar ` set cs \<or> contains s ch"
  by (induction cs arbitrary: s) (auto simp: invar_add contains_add)

lemma contains_build: "contains (foldl add empty cs) ch \<longleftrightarrow> uchar ch \<in> uchar ` set cs"
  by (simp add: contains_fold_add invar_empty contains_empty)

end

definition class_wf :: "cregex_char_class \<Rightarrow> bool" where
  "class_wf k \<longleftrightarrow> length k = 32"

lemma uchar_div8_lt: "uchar ch div 8 < 32"
  using uchar_lt [of ch] by (simp add: less_mult_imp_div_less del: uchar_lt)

interpretation char_class: byte_set cregex_char_class_contains cregex_char_class_add empty_class class_wf
proof
  show "\<not> cregex_char_class_contains empty_class ch" for ch
    using uchar_div8_lt [of ch] by (simp add: contains_bit empty_class_def)
  show "cregex_char_class_contains (cregex_char_class_add s c) ch \<longleftrightarrow>
      uchar ch = uchar c \<or> cregex_char_class_contains s ch" if "class_wf s" for s c ch
  proof (cases "uchar ch div 8 = uchar c div 8")
    case True
    have "uchar ch = uchar c \<longleftrightarrow> uchar ch mod 8 = uchar c mod 8"
      using True by (metis div_mult_mod_eq)
    moreover have "uchar ch mod 8 < 8" by simp
    ultimately show ?thesis using True that
      using uchar_div8_lt [of c]
      by (auto simp: contains_bit cregex_char_class_add_def class_wf_def bit_simps)
  next
    case False
    then show ?thesis by (auto simp: contains_bit cregex_char_class_add_def)
  qed
  show "class_wf empty_class" by (simp add: class_wf_def empty_class_def)
  show "class_wf (cregex_char_class_add s c)" if "class_wf s" for s c
    using that by (simp add: class_wf_def cregex_char_class_add_def)
qed

section \<open>What a pattern denotes\<close>

text \<open>
  Matching, as a relation between positions of a string: \<open>re_match s n i j\<close> when \<open>n\<close> matches the
  bytes of \<open>s\<close> from \<open>i\<close> to \<open>j\<close>. \<open>cls\<close> gives the meaning of a class text.
\<close>

inductive re_match :: "(u8 list \<Rightarrow> u8 \<Rightarrow> bool) \<Rightarrow> u8 list \<Rightarrow> cregex_node \<Rightarrow> nat \<Rightarrow> nat \<Rightarrow> bool"
  and re_iter :: "(u8 list \<Rightarrow> u8 \<Rightarrow> bool) \<Rightarrow> u8 list \<Rightarrow> cregex_node \<Rightarrow> nat \<Rightarrow> nat \<Rightarrow> nat \<Rightarrow> bool"
  for cls :: "u8 list \<Rightarrow> u8 \<Rightarrow> bool" and s :: "u8 list" where
  m_epsilon: "i \<le> length s \<Longrightarrow> re_match cls s EPSILON i i"
| m_char: "i < length s \<Longrightarrow> schar (s ! i) = ch \<Longrightarrow> re_match cls s (CHARACTER ch) i (Suc i)"
| m_any: "i < length s \<Longrightarrow> re_match cls s ANY_CHARACTER i (Suc i)"
| m_class: "i < length s \<Longrightarrow> cls txt (s ! i) \<Longrightarrow> re_match cls s (CHARACTER_CLASS txt) i (Suc i)"
| m_class_neg: "i < length s \<Longrightarrow> \<not> cls txt (s ! i) \<Longrightarrow> re_match cls s (CHARACTER_CLASS_NEGATED txt) i (Suc i)"
| m_concat: "re_match cls s a i k \<Longrightarrow> re_match cls s b k j \<Longrightarrow> re_match cls s (CONCATENATION a b) i j"
| m_alt_left: "re_match cls s a i j \<Longrightarrow> re_match cls s (ALTERNATION a b) i j"
| m_alt_right: "re_match cls s b i j \<Longrightarrow> re_match cls s (ALTERNATION a b) i j"
| m_quant: "re_iter cls s q n i j \<Longrightarrow> lo \<le> int n \<Longrightarrow> hi = - 1 \<or> int n \<le> hi \<Longrightarrow> re_match cls s (QUANTIFIER lo hi g q) i j"
| m_begin: "re_match cls s ANCHOR_BEGIN 0 0"
| m_end: "re_match cls s ANCHOR_END (length s) (length s)"
| m_capture: "re_match cls s a i j \<Longrightarrow> re_match cls s (CAPTURE a) i j"
| it_0: "i \<le> length s \<Longrightarrow> re_iter cls s q 0 i i"
| it_Suc: "re_match cls s q i k \<Longrightarrow> re_iter cls s q n k j \<Longrightarrow> re_iter cls s q (Suc n) i j"

inductive_simps re_match_simps [simp]:
  "re_match cls s EPSILON i j" "re_match cls s (CHARACTER ch) i j" "re_match cls s ANY_CHARACTER i j"
  "re_match cls s (CHARACTER_CLASS t) i j" "re_match cls s (CHARACTER_CLASS_NEGATED t) i j"
  "re_match cls s (CONCATENATION a b) i j" "re_match cls s (ALTERNATION a b) i j"
  "re_match cls s (QUANTIFIER lo hi g q) i j" "re_match cls s ANCHOR_BEGIN i j"
  "re_match cls s ANCHOR_END i j" "re_match cls s (CAPTURE a) i j"

inductive_simps re_iter_simps [simp]: "re_iter cls s q 0 i j" "re_iter cls s q (Suc n) i j"

end
