(* ===== verification/Regex_Compile.thy ===== *)
theory Regex_Compile
  imports Regex_Syntax
begin

text \<open>
  The compiler of parsed patterns to programs (\<open>src/src/cregex_compile.c\<close>).

  The compile context is the array of instructions written so far (its length is the position
  of \<open>pc\<close>) and the capture counter. Instructions are emitted in order and the targets of jumps
  and splits are stored into instructions already emitted, as the source does. \<open>None\<close> is a read
  outside the text of a character class.
\<close>

section \<open>Sizes and anchoring\<close>

text \<open>The computation is in C \<open>int\<close>: \<open>None\<close> is a result outside of its 32 bits, which is undefined in C.\<close>

definition cint :: "int \<Rightarrow> int option" where
  "cint v = (if - 2147483648 \<le> v \<and> v < 2147483648 then Some v else None)"

primrec count_instructions :: "cregex_node \<Rightarrow> int option" where
  "count_instructions EPSILON = Some 0"
| "count_instructions (CHARACTER ch) = Some 1"
| "count_instructions ANY_CHARACTER = Some 1"
| "count_instructions (CHARACTER_CLASS txt) = Some 1"
| "count_instructions (CHARACTER_CLASS_NEGATED txt) = Some 1"
| "count_instructions (CONCATENATION a b) =
     do { l \<leftarrow> count_instructions a; r \<leftarrow> count_instructions b; cint (l + r) }"
| "count_instructions (ALTERNATION a b) =
     do { l \<leftarrow> count_instructions a; l' \<leftarrow> cint (2 + l); r \<leftarrow> count_instructions b; cint (l' + r) }"
| "count_instructions (QUANTIFIER mn mx g q) =
     do { num \<leftarrow> count_instructions q;
          if mx \<ge> mn then
            do { x \<leftarrow> cint (mn * num); d \<leftarrow> cint (mx - mn); m \<leftarrow> cint (num + 1); y \<leftarrow> cint (d * m); cint (x + y) }
          else
            do { v \<leftarrow> (if mn \<noteq> 0 then cint (mn * num) else cint (num + 1)); cint (1 + v) } }"
| "count_instructions ANCHOR_BEGIN = Some 1"
| "count_instructions ANCHOR_END = Some 1"
| "count_instructions (CAPTURE a) = do { v \<leftarrow> count_instructions a; cint (2 + v) }"

primrec node_is_anchored :: "cregex_node \<Rightarrow> bool" where
  "node_is_anchored EPSILON = False"
| "node_is_anchored (CHARACTER ch) = False"
| "node_is_anchored ANY_CHARACTER = False"
| "node_is_anchored (CHARACTER_CLASS txt) = False"
| "node_is_anchored (CHARACTER_CLASS_NEGATED txt) = False"
| "node_is_anchored (CONCATENATION a b) = node_is_anchored a"
| "node_is_anchored (ALTERNATION a b) = (node_is_anchored a \<and> node_is_anchored b)"
| "node_is_anchored (QUANTIFIER mn mx g q) = node_is_anchored q"
| "node_is_anchored ANCHOR_BEGIN = True"
| "node_is_anchored ANCHOR_END = False"
| "node_is_anchored (CAPTURE a) = node_is_anchored a"

section \<open>Character classes\<close>

text \<open>
  One item of a class after its first (unquoted) byte \<open>ch\<close>: a range when a dash follows that is
  not the last byte before the closing bracket, else the single byte. The result is the bounds
  of the loop that adds bytes and the rest of the text.
\<close>

definition class_item :: "u8 \<Rightarrow> u8 list \<Rightarrow> (int \<times> int \<times> u8 list) option" where
  "class_item ch sp =
     (case sp of [] \<Rightarrow> None
      | c # sp1 \<Rightarrow>
         if c = 0x2d then
           (case sp1 of [] \<Rightarrow> None
            | h # sp2 \<Rightarrow> if h \<noteq> 0x5d then Some (schar ch, schar h, sp2) else Some (schar ch, schar ch, sp))
         else Some (schar ch, schar ch, sp))"

lemma class_item_length: "class_item ch sp = Some (l, h, r) \<Longrightarrow> length r \<le> length sp"
  by (auto simp: class_item_def split: list.splits if_splits)

function class_loop :: "bool \<Rightarrow> u8 list \<Rightarrow> cregex_char_class \<Rightarrow> cregex_char_class option" where
  "class_loop first txt k =
     (case txt of [] \<Rightarrow> None
      | ch # sp \<Rightarrow>
         if ch = 0x5d \<and> \<not> first then Some k
         else do {
           (ch', sp') \<leftarrow> (if ch = 0x5c then (case sp of [] \<Rightarrow> None | c # sp1 \<Rightarrow> Some (c, sp1)) else Some (ch, sp));
           (l, h, r) \<leftarrow> class_item ch' sp';
           class_loop False r (foldl cregex_char_class_add k [l..h]) })"
  by pat_completeness auto
termination
  by (relation "measure (\<lambda>(first, txt, k). length txt)")
    (auto dest!: class_item_length split: if_splits list.splits)

declare class_loop.simps [simp del]

text \<open>The text the scan may read ends with the closing bracket at \<open>to\<close>.\<close>

definition compile_char_class :: "u8 list \<Rightarrow> cregex_char_class option" where
  "compile_char_class txt = class_loop True (txt @ [0x5d]) empty_class"

section \<open>Code generation\<close>

record regex_compile_context =
  code :: cregex_program
  ncaptures :: nat

definition emit :: "regex_compile_context \<Rightarrow> cregex_instr \<Rightarrow> regex_compile_context \<times> nat" where
  "emit c i = (c\<lparr>code := code c @ [i]\<rparr>, length (code c))"

definition set_split :: "regex_compile_context \<Rightarrow> nat \<Rightarrow> nat \<Rightarrow> nat \<Rightarrow> regex_compile_context" where
  "set_split c p f s = c\<lparr>code := (code c)[p := I_SPLIT f s]\<rparr>"

definition set_jump :: "regex_compile_context \<Rightarrow> nat \<Rightarrow> nat \<Rightarrow> regex_compile_context" where
  "set_jump c p t = c\<lparr>code := (code c)[p := I_JUMP t]\<rparr>"

text \<open>The two loops of a quantifier, over the compilation \<open>f\<close> of the quantified node.\<close>

primrec min_loop ::
  "(regex_compile_context \<Rightarrow> (regex_compile_context \<times> nat) option) \<Rightarrow> nat \<Rightarrow> nat
    \<Rightarrow> regex_compile_context \<Rightarrow> nat \<Rightarrow> (regex_compile_context \<times> nat) option" where
  "min_loop f saved 0 c lst = Some (c, lst)"
| "min_loop f saved (Suc n) c lst =
     do { (c', lst') \<leftarrow> f (c\<lparr>ncaptures := saved\<rparr>); min_loop f saved n c' lst' }"

primrec opt_loop ::
  "(regex_compile_context \<Rightarrow> (regex_compile_context \<times> nat) option) \<Rightarrow> nat \<Rightarrow> bool \<Rightarrow> nat
    \<Rightarrow> regex_compile_context \<Rightarrow> regex_compile_context option" where
  "opt_loop f saved g 0 c = Some c"
| "opt_loop f saved g (Suc n) c =
     do { let (c1, split) = emit (c\<lparr>ncaptures := saved\<rparr>) (I_SPLIT 0 0);
          (c2, b) \<leftarrow> f c1;
          let pc = length (code c2);
          opt_loop f saved g n (if g then set_split c2 split b pc else set_split c2 split pc b) }"

primrec compile_context ::
  "cregex_node \<Rightarrow> regex_compile_context \<Rightarrow> (regex_compile_context \<times> nat) option" where
  "compile_context EPSILON c = Some (c, length (code c))"
| "compile_context (CHARACTER ch) c = Some (emit c (I_CHARACTER ch))"
| "compile_context ANY_CHARACTER c = Some (emit c I_ANY_CHARACTER)"
| "compile_context (CHARACTER_CLASS txt) c =
     do { k \<leftarrow> compile_char_class txt; Some (emit c (I_CHARACTER_CLASS k)) }"
| "compile_context (CHARACTER_CLASS_NEGATED txt) c =
     do { k \<leftarrow> compile_char_class txt; Some (emit c (I_CHARACTER_CLASS_NEGATED k)) }"
| "compile_context (CONCATENATION a b) c =
     do { (c1, _) \<leftarrow> compile_context a c;
          (c2, _) \<leftarrow> compile_context b c1;
          Some (c2, length (code c)) }"
| "compile_context (ALTERNATION a b) c =
     do { let (c1, split) = emit c (I_SPLIT 0 0);
          (c2, fp) \<leftarrow> compile_context a c1;
          let (c3, jump) = emit c2 (I_JUMP 0);
          (c4, sp) \<leftarrow> compile_context b c3;
          let c5 = set_split c4 split fp sp;
          Some (set_jump c5 jump (length (code c5)), length (code c)) }"
| "compile_context (QUANTIFIER mn mx g q) c =
     do { (c1, lst) \<leftarrow> min_loop (compile_context q) (ncaptures c) (nat mn) c 0;
          if mx > mn then
            do { c2 \<leftarrow> opt_loop (compile_context q) (ncaptures c) g (nat (mx - mn)) c1;
                 Some (c2, length (code c)) }
          else if mx = - 1 then
            do { let (c2, split) = emit c1 (I_SPLIT 0 0);
                 if mn = 0 then
                   do { (c3, fp) \<leftarrow> compile_context q c2;
                        let (c4, jump) = emit c3 (I_JUMP 0);
                        let pc = length (code c4);
                        let c5 = set_jump c4 jump split;
                        Some (if g then set_split c5 split fp pc else set_split c5 split pc fp, length (code c)) }
                 else
                   do { let pc = length (code c2);
                        Some (if g then set_split c2 split lst pc else set_split c2 split pc lst, length (code c)) } }
          else Some (c1, length (code c)) }"
| "compile_context ANCHOR_BEGIN c = Some (emit c I_ASSERT_BEGIN)"
| "compile_context ANCHOR_END c = Some (emit c I_ASSERT_END)"
| "compile_context (CAPTURE a) c =
     do { let capture = ncaptures c * 2;
          let (c1, _) = emit (c\<lparr>ncaptures := ncaptures c + 1\<rparr>) (I_SAVE capture);
          (c2, _) \<leftarrow> compile_context a c1;
          let (c3, _) = emit c2 (I_SAVE (capture + 1));
          Some (c3, length (code c)) }"

text \<open>The root that is compiled: the pattern as capture 0, behind a lazy \<open>.*?\<close> unless anchored.\<close>

definition add_root :: "cregex_node \<Rightarrow> cregex_node" where
  "add_root root =
     (let root = CAPTURE root in
      if \<not> node_is_anchored root
      then CONCATENATION (QUANTIFIER 0 (- 1) False ANY_CHARACTER) root else root)"

definition compile_node_with_program :: "cregex_node \<Rightarrow> cregex_program option" where
  "compile_node_with_program root =
     do { (c, _) \<leftarrow> compile_context (add_root root) \<lparr>code = [], ncaptures = 0\<rparr>;
          Some (code (fst (emit c I_MATCH))) }"

definition estimate_instructions :: "cregex_node \<Rightarrow> int option" where
  "estimate_instructions root =
     do { v \<leftarrow> count_instructions root;
          v \<leftarrow> cint (v + (if \<not> node_is_anchored root then 1 else 0) * 3);
          v \<leftarrow> cint (v + 2);
          cint (v + 1) }"

text \<open>
  \<open>alloc\<close> is whether the allocation of the program succeeds; \<open>Some None\<close> is a returned NULL, and \<open>None\<close> also an overflow of the
  estimate, or a program that is larger than the block allocated for it.
\<close>

definition cregex_compile_node :: "bool \<Rightarrow> cregex_node \<Rightarrow> cregex_program option option" where
  "cregex_compile_node alloc root =
     do { estimate \<leftarrow> estimate_instructions root;
          if alloc then
            do { prog \<leftarrow> compile_node_with_program root;
                 if int (length prog) \<le> estimate then Some (Some prog) else None }
          else Some None }"

section \<open>The code as a function of the node and its address\<close>

text \<open>
  An abstract view of the generated code: no context, no patching, every target computed from
  the address \<open>lo\<close> of the fragment. The compiler is shown to produce exactly this code.
\<close>

definition mk_split :: "bool \<Rightarrow> nat \<Rightarrow> nat \<Rightarrow> cregex_instr" where
  "mk_split g a b = (if g then I_SPLIT a b else I_SPLIT b a)"

primrec reps :: "(nat \<Rightarrow> cregex_program) \<Rightarrow> nat \<Rightarrow> nat \<Rightarrow> nat \<Rightarrow> cregex_program" where
  "reps f k lo 0 = []"
| "reps f k lo (Suc n) = f lo @ reps f k (lo + k) n"

primrec opts :: "bool \<Rightarrow> (nat \<Rightarrow> cregex_program) \<Rightarrow> nat \<Rightarrow> nat \<Rightarrow> nat \<Rightarrow> cregex_program" where
  "opts g f k lo 0 = []"
| "opts g f k lo (Suc n) = mk_split g (lo + 1) (lo + 1 + k) # f (lo + 1) @ opts g f k (lo + 1 + k) n"

primrec isize :: "cregex_node \<Rightarrow> nat" where
  "isize EPSILON = 0"
| "isize (CHARACTER ch) = 1"
| "isize ANY_CHARACTER = 1"
| "isize (CHARACTER_CLASS txt) = 1"
| "isize (CHARACTER_CLASS_NEGATED txt) = 1"
| "isize (CONCATENATION a b) = isize a + isize b"
| "isize (ALTERNATION a b) = 2 + isize a + isize b"
| "isize (QUANTIFIER mn mx g q) = nat mn * isize q +
     (if mx > mn then nat (mx - mn) * (isize q + 1) else if mx = - 1 then (if mn = 0 then isize q + 2 else 1) else 0)"
| "isize ANCHOR_BEGIN = 1"
| "isize ANCHOR_END = 1"
| "isize (CAPTURE a) = 2 + isize a"

primrec ncaps :: "cregex_node \<Rightarrow> nat \<Rightarrow> nat" where
  "ncaps EPSILON c = c"
| "ncaps (CHARACTER ch) c = c"
| "ncaps ANY_CHARACTER c = c"
| "ncaps (CHARACTER_CLASS txt) c = c"
| "ncaps (CHARACTER_CLASS_NEGATED txt) c = c"
| "ncaps (CONCATENATION a b) c = ncaps b (ncaps a c)"
| "ncaps (ALTERNATION a b) c = ncaps b (ncaps a c)"
| "ncaps (QUANTIFIER mn mx g q) c = (if 0 < mn \<or> mx > mn \<or> mx = - 1 then ncaps q c else c)"
| "ncaps ANCHOR_BEGIN c = c"
| "ncaps ANCHOR_END c = c"
| "ncaps (CAPTURE a) c = ncaps a (c + 1)"

primrec frag :: "cregex_node \<Rightarrow> nat \<Rightarrow> nat \<Rightarrow> cregex_program" where
  "frag EPSILON lo c = []"
| "frag (CHARACTER ch) lo c = [I_CHARACTER ch]"
| "frag ANY_CHARACTER lo c = [I_ANY_CHARACTER]"
| "frag (CHARACTER_CLASS txt) lo c = [I_CHARACTER_CLASS (the (compile_char_class txt))]"
| "frag (CHARACTER_CLASS_NEGATED txt) lo c = [I_CHARACTER_CLASS_NEGATED (the (compile_char_class txt))]"
| "frag (CONCATENATION a b) lo c = frag a lo c @ frag b (lo + isize a) (ncaps a c)"
| "frag (ALTERNATION a b) lo c =
     I_SPLIT (lo + 1) (lo + isize a + 2) # frag a (lo + 1) c
       @ I_JUMP (lo + isize a + 2 + isize b) # frag b (lo + isize a + 2) (ncaps a c)"
| "frag (QUANTIFIER mn mx g q) lo c =
     reps (\<lambda>l. frag q l c) (isize q) lo (nat mn) @
     (if mx > mn then opts g (\<lambda>l. frag q l c) (isize q) (lo + nat mn * isize q) (nat (mx - mn))
      else if mx = - 1 then
        (if mn = 0 then mk_split g (lo + 1) (lo + isize q + 2) # frag q (lo + 1) c @ [I_JUMP lo]
         else [mk_split g (lo + (nat mn - 1) * isize q) (lo + nat mn * isize q + 1)])
      else [])"
| "frag ANCHOR_BEGIN lo c = [I_ASSERT_BEGIN]"
| "frag ANCHOR_END lo c = [I_ASSERT_END]"
| "frag (CAPTURE a) lo c = I_SAVE (2 * c) # frag a (lo + 1) (c + 1) @ [I_SAVE (2 * c + 1)]"

text \<open>The nodes the parser builds: sane bounds of quantifiers, scannable class texts.\<close>

primrec node_wf :: "cregex_node \<Rightarrow> bool" where
  "node_wf EPSILON = True"
| "node_wf (CHARACTER ch) = True"
| "node_wf ANY_CHARACTER = True"
| "node_wf (CHARACTER_CLASS txt) = (compile_char_class txt \<noteq> None)"
| "node_wf (CHARACTER_CLASS_NEGATED txt) = (compile_char_class txt \<noteq> None)"
| "node_wf (CONCATENATION a b) = (node_wf a \<and> node_wf b)"
| "node_wf (ALTERNATION a b) = (node_wf a \<and> node_wf b)"
| "node_wf (QUANTIFIER mn mx g q) = (0 \<le> mn \<and> (mx = - 1 \<or> mn \<le> mx) \<and> node_wf q)"
| "node_wf ANCHOR_BEGIN = True"
| "node_wf ANCHOR_END = True"
| "node_wf (CAPTURE a) = node_wf a"

lemma length_reps: "(\<And>l. length (f l) = k) \<Longrightarrow> length (reps f k lo n) = n * k"
  by (induction n arbitrary: lo) simp_all

lemma length_opts: "(\<And>l. length (f l) = k) \<Longrightarrow> length (opts g f k lo n) = n * (k + 1)"
  by (induction n arbitrary: lo) simp_all

lemma length_frag [simp]: "length (frag n lo c) = isize n"
  by (induction n arbitrary: lo c) (simp_all add: length_reps length_opts)

lemma cintD: "cint v = Some w \<Longrightarrow> w = v"
  by (simp add: cint_def split: if_splits)

lemma cint_eq: "- 2147483648 \<le> v \<Longrightarrow> v < 2147483648 \<Longrightarrow> cint v = Some v"
  by (simp add: cint_def)

text \<open>Without an overflow the count is the size of the code.\<close>

lemma count_instructions_isize: "node_wf n \<Longrightarrow> count_instructions n = Some v \<Longrightarrow> v = int (isize n)"
proof (induction n arbitrary: v)
  case (QUANTIFIER mn mx g q)
  obtain num where num: "count_instructions q = Some num" using QUANTIFIER.prems(2) by (cases "count_instructions q") simp_all
  with QUANTIFIER.IH QUANTIFIER.prems(1) have num': "num = int (isize q)" by simp
  have "v = (if mx \<ge> mn then mn * num + (mx - mn) * (num + 1) else 1 + (if mn \<noteq> 0 then mn * num else num + 1))"
    using QUANTIFIER.prems(2) num by (auto simp: bind_eq_Some_conv dest!: cintD split: if_splits)
  then show ?case using QUANTIFIER.prems(1) num' by (auto simp: algebra_simps)
qed (auto simp: bind_eq_Some_conv dest!: cintD)

text \<open>There is no overflow when the code of every part has room to spare.\<close>

primrec size_ok :: "cregex_node \<Rightarrow> bool" where
  "size_ok EPSILON = True"
| "size_ok (CHARACTER ch) = True"
| "size_ok ANY_CHARACTER = True"
| "size_ok (CHARACTER_CLASS txt) = True"
| "size_ok (CHARACTER_CLASS_NEGATED txt) = True"
| "size_ok (CONCATENATION a b) = (size_ok a \<and> size_ok b \<and> isize (CONCATENATION a b) < 2147483640)"
| "size_ok (ALTERNATION a b) = (size_ok a \<and> size_ok b \<and> isize (ALTERNATION a b) < 2147483640)"
| "size_ok (QUANTIFIER mn mx g q) = (size_ok q \<and> isize (QUANTIFIER mn mx g q) < 2147483640)"
| "size_ok ANCHOR_BEGIN = True"
| "size_ok ANCHOR_END = True"
| "size_ok (CAPTURE a) = (size_ok a \<and> isize (CAPTURE a) < 2147483640)"

lemma size_ok_isize: "size_ok n \<Longrightarrow> isize n < 2147483640"
  by (cases n) auto

lemma count_quantifier:
  assumes wf: "0 \<le> mn" "mx = - 1 \<or> mn \<le> mx" and q: "count_instructions q = Some (int k)" "k < 2147483640"
    and n: "nat mn * k + (if mx > mn then nat (mx - mn) * (k + 1) else if mx = - 1 then (if mn = 0 then k + 2 else 1) else 0) < 2147483640"
  shows "count_instructions (QUANTIFIER mn mx g q) \<noteq> None"
proof -
  have "nat mn * k < 2147483640" using n by linarith
  then have "int (nat mn * k) < 2147483640" by linarith
  then have x: "0 \<le> mn * int k" "mn * int k < 2147483640" using wf by simp_all
  have d: "0 \<le> (mx - mn) * (int k + 1) \<and> mn * int k + (mx - mn) * (int k + 1) < 2147483640 \<and> 0 \<le> mx - mn \<and> mx - mn < 2147483640" if "mn \<le> mx"
  proof -
    have "nat mn * k + nat (mx - mn) * (k + 1) < 2147483640" using n that by (cases "mx = mn") simp_all
    then have "int (nat mn * k + nat (mx - mn) * (k + 1)) < 2147483640" by linarith
    moreover have "int (nat mn * k + nat (mx - mn) * (k + 1)) = mn * int k + (mx - mn) * (int k + 1)" using that wf by (simp add: distrib_left)
    ultimately have s: "mn * int k + (mx - mn) * (int k + 1) < 2147483640" by linarith
    moreover have "(mx - mn) * 1 \<le> (mx - mn) * (int k + 1)" using that by (intro mult_left_mono) auto
    ultimately show ?thesis using x that by auto
  qed
  have c: "cint (mn * int k) = Some (mn * int k)" "cint (int k + 1) = Some (int k + 1)" "cint (1 + mn * int k) = Some (1 + mn * int k)"
      "cint (1 + (int k + 1)) = Some (1 + (int k + 1))" by (rule cint_eq; use x q(2) in linarith)+
  show ?thesis
  proof (cases "mn \<le> mx")
    case True
    have "cint (mx - mn) = Some (mx - mn)" "cint ((mx - mn) * (int k + 1)) = Some ((mx - mn) * (int k + 1))"
        "cint (mn * int k + (mx - mn) * (int k + 1)) = Some (mn * int k + (mx - mn) * (int k + 1))"
      by (rule cint_eq; use d [OF True] x in linarith)+
    then show ?thesis using True q(1) c by simp
  qed (use q(1) c in simp)
qed

lemma count_instructions_defined: "node_wf n \<Longrightarrow> size_ok n \<Longrightarrow> count_instructions n = Some (int (isize n))"
proof (induction n)
  case (QUANTIFIER mn mx g q)
  then have "count_instructions (QUANTIFIER mn mx g q) \<noteq> None"
    using size_ok_isize [of q] by (intro count_quantifier [where k = "isize q"]) auto
  then show ?case using count_instructions_isize [OF QUANTIFIER.prems(1)] by (metis option.exhaust)
qed (auto simp: cint_def)

lemma estimate_defined:
  assumes "node_wf n" "size_ok n"
  shows "estimate_instructions n \<noteq> None"
  using count_instructions_defined [OF assms] size_ok_isize [OF assms(2)] by (simp add: estimate_instructions_def cint_eq)

section \<open>The compiler produces the abstract code\<close>

definition gen :: "cregex_node \<Rightarrow> regex_compile_context \<Rightarrow> regex_compile_context" where
  "gen n c = c\<lparr>code := code c @ frag n (length (code c)) (ncaptures c), ncaptures := ncaps n (ncaptures c)\<rparr>"

lemma gen_sel [simp]:
  "code (gen n c) = code c @ frag n (length (code c)) (ncaptures c)"
  "ncaptures (gen n c) = ncaps n (ncaptures c)"
  by (simp_all add: gen_def)

lemma context_eqI: "code c = code d \<Longrightarrow> ncaptures c = ncaptures d \<Longrightarrow> c = (d :: regex_compile_context)"
  by simp

lemma emit_sel [simp]:
  "code (fst (emit c i)) = code c @ [i]" "ncaptures (fst (emit c i)) = ncaptures c" "snd (emit c i) = length (code c)"
  by (simp_all add: emit_def)

lemma min_loop_gen:
  assumes f: "\<And>c. f c = Some (gen q c, length (code c))"
  shows "min_loop f saved n c lst =
    Some (c\<lparr>code := code c @ reps (\<lambda>l. frag q l saved) (isize q) (length (code c)) n,
            ncaptures := if n = 0 then ncaptures c else ncaps q saved\<rparr>,
          if n = 0 then lst else length (code c) + (n - 1) * isize q)"
proof (induction n arbitrary: c lst)
  case (Suc n)
  have "min_loop f saved (Suc n) c lst =
      min_loop f saved n (gen q (c\<lparr>ncaptures := saved\<rparr>)) (length (code c))"
    by (simp add: f)
  then show ?case unfolding Suc.IH by (cases n) (simp_all add: gen_def add.assoc)
qed simp

lemma list_update_mid: "length xs = p \<Longrightarrow> (xs @ y # ys)[p := z] = xs @ z # ys"
  by (auto simp: list_update_append)

lemma opt_loop_gen:
  assumes f: "\<And>c. f c = Some (gen q c, length (code c))"
  shows "opt_loop f saved g n c =
    Some (c\<lparr>code := code c @ opts g (\<lambda>l. frag q l saved) (isize q) (length (code c)) n,
            ncaptures := if n = 0 then ncaptures c else ncaps q saved\<rparr>)"
proof (induction n arbitrary: c)
  case (Suc n)
  then show ?case
    by (cases n) (simp_all add: f emit_def gen_def set_split_def mk_split_def list_update_append)
qed simp

lemma compile_context_gen: "node_wf n \<Longrightarrow> compile_context n c = Some (gen n c, length (code c))"
proof (induction n arbitrary: c)
  case (ALTERNATION a b)
  then show ?case
    by (simp add: emit_def gen_def set_split_def set_jump_def list_update_append)
next
  case (QUANTIFIER mn mx g q)
  then have f: "compile_context q c = Some (gen q c, length (code c))" for c by simp
  show ?case
    using QUANTIFIER.prems
    by (simp add: min_loop_gen [OF f] opt_loop_gen [OF f] f emit_def gen_def set_split_def set_jump_def
        mk_split_def list_update_append length_reps Let_def)
qed (auto simp: emit_def gen_def Let_def)

lemma add_root_wf: "node_wf root \<Longrightarrow> node_wf (add_root root)"
  by (simp add: add_root_def Let_def)

lemma compile_node_frag:
  "node_wf root \<Longrightarrow> compile_node_with_program root = Some (frag (add_root root) 0 0 @ [I_MATCH])"
  by (simp add: compile_node_with_program_def compile_context_gen [OF add_root_wf])

lemma compile_length:
  assumes "node_wf root" "compile_node_with_program root = Some prog" "estimate_instructions root = Some e"
  shows "int (length prog) = e"
proof -
  obtain v where v: "count_instructions root = Some v" "e = v + (if \<not> node_is_anchored root then 1 else 0) * 3 + 2 + 1"
    using assms(3) by (auto simp: estimate_instructions_def bind_eq_Some_conv dest!: cintD)
  show ?thesis using assms(2) compile_node_frag [OF assms(1)] count_instructions_isize [OF assms(1) v(1)] v(2)
    by (auto simp: add_root_def Let_def)
qed

lemma compile_node_result:
  assumes "node_wf root" "estimate_instructions root = Some e"
  shows "\<exists>prog. compile_node_with_program root = Some prog \<and> cregex_compile_node True root = Some (Some prog) \<and> int (length prog) = e"
  using compile_node_frag [OF assms(1)] compile_length [OF assms(1) _ assms(2)] assms(2) by (simp add: cregex_compile_node_def)

text \<open>C9. The compiler fills the allocated program exactly. For every node the parser can build whose number of instructions is
  computed without overflow of \<open>int\<close>, the compiler emits as many instructions as were estimated when the block was allocated,
  so no emission and no patch falls outside of the block. There is no overflow when the code of every part of the pattern
  has less than 2147483640 instructions.\<close>

theorem compile_fills_estimate:
  assumes "node_wf root"
  shows "(size_ok root \<longrightarrow> estimate_instructions root \<noteq> None) \<and>
    (\<forall>e. estimate_instructions root = Some e \<longrightarrow> (\<exists>prog. cregex_compile_node True root = Some (Some prog) \<and> int (length prog) = e))"
  using compile_node_result [OF assms] estimate_defined [OF assms] by blast

theorem compile_fills_estimate_witness:
  "node_wf (QUANTIFIER 2 5 True (CAPTURE (ALTERNATION (CHARACTER 97) ANY_CHARACTER))) \<and>
   (\<exists>prog. cregex_compile_node True (QUANTIFIER 2 5 True (CAPTURE (ALTERNATION (CHARACTER 97) ANY_CHARACTER))) = Some (Some prog)
     \<and> int (length prog) = 39)"
proof -
  let ?n = "QUANTIFIER 2 5 True (CAPTURE (ALTERNATION (CHARACTER 97) ANY_CHARACTER))"
  have wf: "node_wf ?n" by simp
  have "estimate_instructions ?n = Some 39" by (simp add: estimate_instructions_def cint_def)
  with wf compile_fills_estimate [OF wf] show ?thesis by simp
qed

text \<open>Short patterns overflow: the node of \<open>(a{65536}){65536}\<close> has more than \<open>2 ^ 32\<close> instructions.\<close>

lemma nested_intervals_overflow:
  "estimate_instructions (QUANTIFIER 65536 65536 True (CAPTURE (QUANTIFIER 65536 65536 True (CHARACTER 97)))) = None"
  by (simp add: estimate_instructions_def cint_def)

section \<open>What a class text denotes\<close>

text \<open>The items of a class text as pairs of bytes, scanned as the compiler scans it.\<close>

function class_ranges :: "bool \<Rightarrow> u8 list \<Rightarrow> (int \<times> int) list option" where
  "class_ranges first txt =
     (case txt of [] \<Rightarrow> None
      | ch # sp \<Rightarrow>
         if ch = 0x5d \<and> \<not> first then Some []
         else do {
           (ch', sp') \<leftarrow> (if ch = 0x5c then (case sp of [] \<Rightarrow> None | c # sp1 \<Rightarrow> Some (c, sp1)) else Some (ch, sp));
           (l, h, r) \<leftarrow> class_item ch' sp';
           rs \<leftarrow> class_ranges False r;
           Some ((l, h) # rs) })"
  by pat_completeness auto
termination
  by (relation "measure (\<lambda>(first, txt). length txt)")
    (auto dest!: class_item_length split: if_splits list.splits)

declare class_ranges.simps [simp del]

lemma class_loop_ranges:
  "class_loop first t k = map_option (\<lambda>rs. foldl cregex_char_class_add k (concat (map (\<lambda>(l, h). [l..h]) rs)))
     (class_ranges first t)"
proof (induction first t k rule: class_loop.induct)
  case (1 first t k)
  then show ?case
    by (subst class_loop.simps, subst class_ranges.simps)
      (auto split: list.splits if_splits bind_splits simp: bind_eq_Some_conv)
qed


lemma schar_bounds: "- 128 \<le> schar c" "schar c \<le> 127"
  using sint_ge [of c] sint_lt [of c] by (simp_all add: schar_def)

lemma class_item_bounds:
  "class_item ch sp = Some (l, h, r) \<Longrightarrow> - 128 \<le> l \<and> l \<le> 127 \<and> - 128 \<le> h \<and> h \<le> 127"
  by (auto simp: class_item_def schar_bounds split: list.splits if_splits)

lemma class_ranges_step:
  assumes "class_ranges first t = Some rs" "rs \<noteq> []"
  shows "\<exists>ch sp l h r rs'. class_item ch sp = Some (l, h, r) \<and> length r < length t \<and>
    class_ranges False r = Some rs' \<and> rs = (l, h) # rs'"
proof -
  from assms(2) assms(1) [unfolded class_ranges.simps [of first t]]
  obtain ch sp where len: "length sp < length t"
    and b: "do { (l, h, r) \<leftarrow> class_item ch sp; rs \<leftarrow> class_ranges False r; Some ((l, h) # rs) } = Some rs"
    by (auto split: list.splits if_splits) (metis length_Cons lessI less_SucI)+
  from b obtain l h r rs' where i: "class_item ch sp = Some (l, h, r)"
    and "class_ranges False r = Some rs'" "rs = (l, h) # rs'"
    by (auto simp: bind_eq_Some_conv)
  moreover have "length r < length t" using class_item_length [OF i] len by simp
  ultimately show ?thesis by blast
qed

lemma class_ranges_bounds:
  "class_ranges first t = Some rs \<Longrightarrow> (l, h) \<in> set rs \<Longrightarrow> - 128 \<le> l \<and> l \<le> 127 \<and> - 128 \<le> h \<and> h \<le> 127"
proof (induction "length t" arbitrary: first t rs rule: less_induct)
  case less
  then have "rs \<noteq> []" by auto
  from class_ranges_step [OF less.prems(1) this]
  obtain ch sp l' h' r rs' where i: "class_item ch sp = Some (l', h', r)" "length r < length t"
    "class_ranges False r = Some rs'" "rs = (l', h') # rs'" by blast
  from i(4) less.prems(2) consider "l = l'" "h = h'" | "(l, h) \<in> set rs'" by auto
  then show ?case
  proof cases
    case 1
    then show ?thesis using class_item_bounds [OF i(1)] by simp
  next
    case 2
    then show ?thesis by (rule less.hyps [OF i(2,3)])
  qed
qed

lemma uchar_cases:
  assumes "- 128 \<le> x" "x \<le> 127"
  shows "uchar x = nat (if x < 0 then x + 256 else x)"
proof (cases "x < 0")
  case True
  have "x mod 256 = (x + 256) mod 256" by simp
  also have "\<dots> = x + 256" using assms True by (intro mod_pos_pos_trivial) auto
  finally show ?thesis using True by (simp add: uchar_def)
qed (use assms in \<open>simp add: uchar_def\<close>)

lemma uchar_inj_signed:
  "- 128 \<le> x \<Longrightarrow> x \<le> 127 \<Longrightarrow> - 128 \<le> y \<Longrightarrow> y \<le> 127 \<Longrightarrow> uchar x = uchar y \<longleftrightarrow> x = y"
  by (auto simp: uchar_cases eq_nat_nat_iff)

text \<open>The bytes of the compiled class: the signed ranges of its items.\<close>

lemma class_contains_iff:
  assumes "compile_char_class t = Some k"
  shows "\<exists>rs. class_ranges True (t @ [0x5d]) = Some rs \<and>
    (\<forall>c. cregex_char_class_contains k (schar c) \<longleftrightarrow> (\<exists>(l, h) \<in> set rs. l \<le> schar c \<and> schar c \<le> h))"
proof -
  obtain rs where rs: "class_ranges True (t @ [0x5d]) = Some rs"
    and k: "k = foldl cregex_char_class_add empty_class (concat (map (\<lambda>(l, h). [l..h]) rs))"
    using assms by (auto simp: compile_char_class_def class_loop_ranges)
  have "cregex_char_class_contains k (schar c) \<longleftrightarrow> (\<exists>(l, h) \<in> set rs. l \<le> schar c \<and> schar c \<le> h)" for c
  proof -
    have "uchar (schar c) = uchar x \<longleftrightarrow> schar c = x"
      if "(l, h) \<in> set rs" "l \<le> x" "x \<le> h" for l h x
      using that class_ranges_bounds [OF rs that(1)] schar_bounds [of c]
      by (intro uchar_inj_signed) auto
    then have "uchar (schar c) \<in> uchar ` set (concat (map (\<lambda>(l, h). [l..h]) rs)) \<longleftrightarrow>
        schar c \<in> set (concat (map (\<lambda>(l, h). [l..h]) rs))"
      by (auto simp: image_iff) (metis, blast)
    then show ?thesis by (auto simp: k char_class.contains_build)
  qed
  with rs show ?thesis by blast
qed

text \<open>Where no range of a class crosses from ASCII to the bytes above 127, the compiled class
  holds exactly the bytes of its ranges on unsigned bytes, the reading the parser checks.\<close>

theorem class_denotes_unsigned_ranges:
  assumes "compile_char_class t = Some k" "class_ranges True (t @ [0x5d]) = Some rs"
    "\<forall>(l, h) \<in> set rs. 0 \<le> l \<longleftrightarrow> 0 \<le> h"
  shows "cregex_char_class_contains k (schar c) \<longleftrightarrow> (\<exists>(l, h) \<in> set rs. uchar l \<le> unat c \<and> unat c \<le> uchar h)"
proof -
  have sem: "cregex_char_class_contains k (schar c) \<longleftrightarrow> (\<exists>(l, h) \<in> set rs. l \<le> schar c \<and> schar c \<le> h)"
    using class_contains_iff [OF assms(1)] assms(2) by auto
  have "(l \<le> schar c \<and> schar c \<le> h) \<longleftrightarrow> (uchar l \<le> uchar (schar c) \<and> uchar (schar c) \<le> uchar h)"
    if r: "(l, h) \<in> set rs" for l h
  proof -
    have b: "- 128 \<le> l" "l \<le> 127" "- 128 \<le> h" "h \<le> 127"
      using class_ranges_bounds [OF assms(2) r] by auto
    have s: "0 \<le> l \<longleftrightarrow> 0 \<le> h" using assms(3) r by auto
    show ?thesis
      using b s schar_bounds [of c] by (auto simp: uchar_cases simp del: uchar_schar)
  qed
  then show ?thesis using sem by (auto simp: uchar_schar)
qed

theorem class_denotes_unsigned_ranges_witness:
  "cregex_char_class_contains (the (compile_char_class [0x61, 0x2d, 0x63])) (schar 0x62)"
proof -
  let ?t = "[0x61, 0x2d, 0x63] :: u8 list"
  have r: "class_ranges True (?t @ [0x5d]) = Some [(97, 99)]" by code_simp
  have c: "compile_char_class ?t = Some (the (compile_char_class ?t))" by code_simp
  have "\<forall>(l, h) \<in> set [(97 :: int, 99 :: int)]. 0 \<le> l \<longleftrightarrow> 0 \<le> h" by simp
  from class_denotes_unsigned_ranges [where c = "0x62", OF c r this] show ?thesis by (simp add: uchar_def)
qed

end
