(* ===== verification/Regex_VM.thy ===== *)
theory Regex_VM
  imports Regex_Compile
begin

text \<open>
  The virtual machine that runs compiled patterns (\<open>src/src/cregex_vm.c\<close>): threads explored
  depth first in priority order, one list of threads per position of the string, a visited
  stamp per instruction.

  The string is memory: the bytes \<open>s\<close>, the terminating zero, and whatever lies after it. Program
  counters and positions are indices; a saved pointer is \<open>Some\<close> of its offset and NULL is \<open>None\<close>.
\<close>

section \<open>The machine\<close>

definition REGEX_VM_MAX_MATCHES :: nat where
  "REGEX_VM_MAX_MATCHES = 64"

type_synonym saved = "nat option list"

text \<open>
  A thread list: the \<open>visited\<close> field of each slot, keyed by instruction, and the program counter
  and saved pointers of the first \<open>nthreads\<close> slots, in order.
\<close>

record vm_thread_list =
  visited :: "nat list"
  threads :: "(nat \<times> saved) list"

definition cstring :: "u8 list \<Rightarrow> mem \<Rightarrow> mem" where
  "cstring s after = mem_of (s @ [0]) after"

definition copy_matches :: "nat \<Rightarrow> saved \<Rightarrow> saved" where
  "copy_matches nmatches m =
     take (if nmatches \<le> REGEX_VM_MAX_MATCHES then nmatches else REGEX_VM_MAX_MATCHES) m"

definition save_matches :: "nat \<Rightarrow> nat \<Rightarrow> nat \<Rightarrow> saved \<Rightarrow> saved" where
  "save_matches nmatches k sp m =
     (if k < nmatches \<and> k < REGEX_VM_MAX_MATCHES then m[k := Some sp] else m)"

text \<open>
  \<open>vm_add_thread\<close>. The saved pointer is restored after the recursive call, so that passing the
  updated array is what the call sees. The first argument bounds the recursion depth; the
  machine passes one more than the number of instructions, which is shown to be enough.
  \<open>None\<close> is running out of that bound or a program counter outside the program.
\<close>

fun vm_add_thread ::
  "nat \<Rightarrow> cregex_program \<Rightarrow> mem \<Rightarrow> nat \<Rightarrow> vm_thread_list \<Rightarrow> nat \<Rightarrow> nat \<Rightarrow> saved \<Rightarrow> vm_thread_list option" where
  "vm_add_thread 0 prog str nm l pc sp m = None"
| "vm_add_thread (Suc fuel) prog str nm l pc sp m =
     (if \<not> pc < length prog then None
      else if visited l ! pc = sp + 1 then Some l
      else let l = l\<lparr>visited := (visited l)[pc := sp + 1]\<rparr> in
        case prog ! pc of
          I_SPLIT a b \<Rightarrow>
            do { l1 \<leftarrow> vm_add_thread fuel prog str nm l a sp m; vm_add_thread fuel prog str nm l1 b sp m }
        | I_JUMP t \<Rightarrow> vm_add_thread fuel prog str nm l t sp m
        | I_ASSERT_BEGIN \<Rightarrow> if sp = 0 then vm_add_thread fuel prog str nm l (pc + 1) sp m else Some l
        | I_ASSERT_END \<Rightarrow> if str sp = 0 then vm_add_thread fuel prog str nm l (pc + 1) sp m else Some l
        | I_SAVE k \<Rightarrow> vm_add_thread fuel prog str nm l (pc + 1) sp (save_matches nm k sp m)
        | _ \<Rightarrow> Some (l\<lparr>threads := threads l @ [(pc, copy_matches nm m)]\<rparr>))"

text \<open>Whether an instruction that reads a character accepts the byte.\<close>

fun accepts :: "cregex_instr \<Rightarrow> u8 \<Rightarrow> bool" where
  "accepts (I_CHARACTER ch) c = (schar c = ch)"
| "accepts I_ANY_CHARACTER c = (c \<noteq> 0)"
| "accepts (I_CHARACTER_CLASS k) c = cregex_char_class_contains k (schar c)"
| "accepts (I_CHARACTER_CLASS_NEGATED k) c = (\<not> cregex_char_class_contains k (schar c))"
| "accepts _ c = False"

text \<open>
  The inner loop over the current threads at position \<open>sp\<close>. A thread at \<open>MATCH\<close> ends the loop:
  the threads after it have lower priority. \<open>None\<close> also covers the call to \<open>abort()\<close> on an
  instruction that a thread list never holds.
\<close>

fun vm_step_threads ::
  "nat \<Rightarrow> cregex_program \<Rightarrow> mem \<Rightarrow> nat \<Rightarrow> nat \<Rightarrow> (nat \<times> saved) list \<Rightarrow> vm_thread_list \<Rightarrow> bool \<Rightarrow> saved
    \<Rightarrow> (vm_thread_list \<times> bool \<times> saved) option" where
  "vm_step_threads fuel prog str nm sp [] nxt matched m = Some (nxt, matched, m)"
| "vm_step_threads fuel prog str nm sp ((pc, tm) # ts) nxt matched m =
     (case prog ! pc of
        I_MATCH \<Rightarrow> Some (nxt, True, copy_matches nm tm @ drop (length (copy_matches nm tm)) m)
      | I_SPLIT a b \<Rightarrow> None
      | I_JUMP t \<Rightarrow> None
      | I_ASSERT_BEGIN \<Rightarrow> None
      | I_ASSERT_END \<Rightarrow> None
      | I_SAVE k \<Rightarrow> None
      | i \<Rightarrow>
          if accepts i (str sp) then
            do { nxt' \<leftarrow> vm_add_thread fuel prog str nm nxt (pc + 1) (sp + 1) tm;
                 vm_step_threads fuel prog str nm sp ts nxt' matched m }
          else vm_step_threads fuel prog str nm sp ts nxt matched m)"

text \<open>The outer loop over the positions; \<open>left\<close> bounds their number.\<close>

fun vm_loop ::
  "nat \<Rightarrow> cregex_program \<Rightarrow> mem \<Rightarrow> nat \<Rightarrow> nat \<Rightarrow> nat \<Rightarrow> vm_thread_list \<Rightarrow> vm_thread_list \<Rightarrow> bool \<Rightarrow> saved
    \<Rightarrow> (bool \<times> saved) option" where
  "vm_loop 0 prog str nm fuel sp current nxt matched m = None"
| "vm_loop (Suc left) prog str nm fuel sp current nxt matched m =
     do { (nxt', matched', m') \<leftarrow> vm_step_threads fuel prog str nm sp (threads current) nxt matched m;
          if threads nxt' = [] \<or> str sp = 0 then Some (matched', m')
          else vm_loop left prog str nm fuel (sp + 1) nxt' (current\<lparr>threads := []\<rparr>) matched' m' }"

definition vm_estimate_threads :: "cregex_program \<Rightarrow> nat" where
  "vm_estimate_threads prog = length prog * 2"

definition empty_list :: "cregex_program \<Rightarrow> vm_thread_list" where
  "empty_list prog = \<lparr>visited = replicate (length prog) 0, threads = []\<rparr>"

definition vm_run_with_threads ::
  "cregex_program \<Rightarrow> u8 list \<Rightarrow> mem \<Rightarrow> nat \<Rightarrow> (bool \<times> saved) option" where
  "vm_run_with_threads prog s after nm =
     (let str = cstring s after; fuel = Suc (length prog); m = replicate nm None in
      do { current \<leftarrow> vm_add_thread fuel prog str nm (empty_list prog) 0 0 m;
           vm_loop (Suc (length s)) prog str nm fuel 0 current (empty_list prog) False m })"

text \<open>\<open>vm_run\<close>: \<open>alloc\<close> is whether the thread block was allocated. The result is the returned
  value and the pointers stored into \<open>matches\<close>.\<close>

definition vm_run :: "bool \<Rightarrow> cregex_program \<Rightarrow> u8 list \<Rightarrow> mem \<Rightarrow> nat \<Rightarrow> (int \<times> saved option) option" where
  "vm_run alloc prog s after nm =
     (if \<not> alloc then Some (- 1, None)
      else map_option (\<lambda>(b, m). (if b then 1 else 0, Some m)) (vm_run_with_threads prog s after nm))"

definition cregex_program_run :: "bool \<Rightarrow> cregex_program \<Rightarrow> u8 list \<Rightarrow> mem \<Rightarrow> nat \<Rightarrow> (int \<times> saved option) option" where
  "cregex_program_run alloc prog s after nm = vm_run alloc prog s after nm"

section \<open>Configurations and steps\<close>

text \<open>
  The nondeterministic machine the thread lists explore: a configuration is a program counter,
  a position and the saved pointers.
\<close>

type_synonym config = "nat \<times> nat \<times> saved"

fun eps_pcs :: "cregex_program \<Rightarrow> mem \<Rightarrow> nat \<Rightarrow> nat \<Rightarrow> nat list" where
  "eps_pcs prog str sp pc =
     (case prog ! pc of
        I_SPLIT a b \<Rightarrow> [a, b]
      | I_JUMP t \<Rightarrow> [t]
      | I_ASSERT_BEGIN \<Rightarrow> if sp = 0 then [pc + 1] else []
      | I_ASSERT_END \<Rightarrow> if str sp = 0 then [pc + 1] else []
      | I_SAVE k \<Rightarrow> [pc + 1]
      | _ \<Rightarrow> [])"

declare eps_pcs.simps [simp del]

definition after_save :: "nat \<Rightarrow> cregex_instr \<Rightarrow> nat \<Rightarrow> saved \<Rightarrow> saved" where
  "after_save nm i sp m = (case i of I_SAVE k \<Rightarrow> save_matches nm k sp m | _ \<Rightarrow> m)"

inductive vm_step :: "cregex_program \<Rightarrow> mem \<Rightarrow> nat \<Rightarrow> config \<Rightarrow> config \<Rightarrow> bool"
  for prog :: cregex_program and str :: mem and nm :: nat where
  eps: "pc < length prog \<Longrightarrow> pc' \<in> set (eps_pcs prog str sp pc) \<Longrightarrow>
    vm_step prog str nm (pc, sp, m) (pc', sp, after_save nm (prog ! pc) sp m)"
| chr: "pc < length prog \<Longrightarrow> accepts (prog ! pc) (str sp) \<Longrightarrow>
    vm_step prog str nm (pc, sp, m) (pc + 1, sp + 1, m)"

inductive_cases vm_stepE: "vm_step prog str nm (pc, sp, m) c"

text \<open>The instructions a thread list holds.\<close>

fun is_thread :: "cregex_instr \<Rightarrow> bool" where
  "is_thread I_MATCH = True"
| "is_thread (I_CHARACTER ch) = True"
| "is_thread I_ANY_CHARACTER = True"
| "is_thread (I_CHARACTER_CLASS k) = True"
| "is_thread (I_CHARACTER_CLASS_NEGATED k) = True"
| "is_thread _ = False"

text \<open>Targets stay inside the program.\<close>

fun instr_ok :: "nat \<Rightarrow> nat \<Rightarrow> cregex_instr \<Rightarrow> bool" where
  "instr_ok n pc (I_SPLIT a b) = (a < n \<and> b < n)"
| "instr_ok n pc (I_JUMP t) = (t < n)"
| "instr_ok n pc I_MATCH = True"
| "instr_ok n pc _ = (pc + 1 < n)"

definition prog_ok :: "cregex_program \<Rightarrow> bool" where
  "prog_ok prog \<longleftrightarrow> prog \<noteq> [] \<and> (\<forall>pc < length prog. instr_ok (length prog) pc (prog ! pc))"

end
