(* ===== verification/Regex_Search.thy ===== *)
theory Regex_Search
  imports Regex_VM
begin

text \<open>
  The search of the virtual machine is exact: the depth-first \<open>vm_add_thread\<close> with its visited
  stamps collects precisely the configurations reachable without reading a character, and the
  loop over the string reports a match exactly when some path of the nondeterministic machine
  reaches \<open>MATCH\<close>.
\<close>

declare vm_add_thread.simps(2) [simp del]

section \<open>Growing a thread list\<close>

definition stamped :: "nat \<Rightarrow> vm_thread_list \<Rightarrow> nat set" where
  "stamped sp l = {p. p < length (visited l) \<and> visited l ! p = sp + 1}"

definition mark :: "nat \<Rightarrow> nat \<Rightarrow> vm_thread_list \<Rightarrow> vm_thread_list" where
  "mark sp pc l = l\<lparr>visited := (visited l)[pc := sp + 1]\<rparr>"

lemma finite_stamped [simp]: "finite (stamped sp l)"
  by (simp add: stamped_def)

lemma card_stamped_le: "card (stamped sp l) \<le> length (visited l)"
  using card_mono [of "{..<length (visited l)}" "stamped sp l"] by (auto simp: stamped_def)

lemma mark_simps [simp]:
  "length (visited (mark sp pc l)) = length (visited l)" "threads (mark sp pc l) = threads l"
  by (simp_all add: mark_def)

lemma stamped_mark: "pc < length (visited l) \<Longrightarrow> stamped sp (mark sp pc l) = insert pc (stamped sp l)"
  by (auto simp: stamped_def mark_def nth_list_update)

lemma stamped_threads [simp]: "stamped sp (l\<lparr>threads := ts\<rparr>) = stamped sp l"
  by (simp add: stamped_def)

text \<open>
  \<open>grows C l l'\<close>: from the seeds \<open>C\<close> (program counters with the pointers saved there) the list
  \<open>l\<close> has become \<open>l'\<close>: the seeds are stamped, what was stamped on the way has its successors
  stamped, and the new threads are the newly stamped thread instructions, once each and each
  reachable from a seed.
\<close>

definition grows :: "cregex_program \<Rightarrow> mem \<Rightarrow> nat \<Rightarrow> nat \<Rightarrow> (nat \<times> saved) set \<Rightarrow> vm_thread_list \<Rightarrow> vm_thread_list \<Rightarrow> bool" where
  "grows prog str nm sp C l l' \<longleftrightarrow>
     length (visited l') = length (visited l) \<and> stamped sp l \<subseteq> stamped sp l' \<and> fst ` C \<subseteq> stamped sp l' \<and>
     (\<forall>q \<in> stamped sp l' - stamped sp l. set (eps_pcs prog str sp q) \<subseteq> stamped sp l') \<and>
     (\<exists>new. threads l' = threads l @ new \<and> distinct (map fst new) \<and>
        fst ` set new = {q \<in> stamped sp l' - stamped sp l. is_thread (prog ! q)} \<and>
        (\<forall>(q, t) \<in> set new. \<exists>(p, m) \<in> C. (vm_step prog str nm)\<^sup>*\<^sup>* (p, sp, copy_matches nm m) (q, sp, t))) \<and>
     (\<forall>p < length (visited l). visited l' ! p = visited l ! p \<or> visited l' ! p = sp + 1)"

lemma growsI:
  assumes "length (visited l') = length (visited l)" "stamped sp l \<subseteq> stamped sp l'" "fst ` C \<subseteq> stamped sp l'"
    "\<And>q. q \<in> stamped sp l' - stamped sp l \<Longrightarrow> set (eps_pcs prog str sp q) \<subseteq> stamped sp l'"
    "threads l' = threads l @ new" "distinct (map fst new)"
    "fst ` set new = {q \<in> stamped sp l' - stamped sp l. is_thread (prog ! q)}"
    "\<And>q t. (q, t) \<in> set new \<Longrightarrow> \<exists>(p, m) \<in> C. (vm_step prog str nm)\<^sup>*\<^sup>* (p, sp, copy_matches nm m) (q, sp, t)"
    "\<And>p. p < length (visited l) \<Longrightarrow> visited l' ! p = visited l ! p \<or> visited l' ! p = sp + 1"
  shows "grows prog str nm sp C l l'"
  unfolding grows_def using assms by (intro conjI exI [of _ new]) auto

lemma growsD:
  assumes "grows prog str nm sp C l l'"
  shows "length (visited l') = length (visited l)" "stamped sp l \<subseteq> stamped sp l'" "fst ` C \<subseteq> stamped sp l'"
    "q \<in> stamped sp l' - stamped sp l \<Longrightarrow> set (eps_pcs prog str sp q) \<subseteq> stamped sp l'"
    "\<exists>new. threads l' = threads l @ new \<and> distinct (map fst new) \<and>
        fst ` set new = {q \<in> stamped sp l' - stamped sp l. is_thread (prog ! q)} \<and>
        (\<forall>(q, t) \<in> set new. \<exists>(p, m) \<in> C. (vm_step prog str nm)\<^sup>*\<^sup>* (p, sp, copy_matches nm m) (q, sp, t))"
    "p < length (visited l) \<Longrightarrow> visited l' ! p = visited l ! p \<or> visited l' ! p = sp + 1"
proof -
  note a = assms [unfolded grows_def]
  show "length (visited l') = length (visited l)" using a by (elim conjE)
  show "stamped sp l \<subseteq> stamped sp l'" using a by (elim conjE)
  show "fst ` C \<subseteq> stamped sp l'" using a by (elim conjE)
  show "set (eps_pcs prog str sp q) \<subseteq> stamped sp l'" if "q \<in> stamped sp l' - stamped sp l"
    using a that by (elim conjE) (rule bspec)
  show "\<exists>new. threads l' = threads l @ new \<and> distinct (map fst new) \<and>
        fst ` set new = {q \<in> stamped sp l' - stamped sp l. is_thread (prog ! q)} \<and>
        (\<forall>(q, t) \<in> set new. \<exists>(p, m) \<in> C. (vm_step prog str nm)\<^sup>*\<^sup>* (p, sp, copy_matches nm m) (q, sp, t))"
    using a by (elim conjE)
  show "visited l' ! p = visited l ! p \<or> visited l' ! p = sp + 1" if "p < length (visited l)"
    using a that by (elim conjE) simp
qed

lemma grows_refl: "C = {} \<or> fst ` C \<subseteq> stamped sp l \<Longrightarrow> grows prog str nm sp C l l"
  by (rule growsI [where new = "[]"]) auto

lemma grows_trans:
  assumes 1: "grows prog str nm sp C l l1" and 2: "grows prog str nm sp D l1 l2"
  shows "grows prog str nm sp (C \<union> D) l l2"
proof -
  obtain n1 where n1: "threads l1 = threads l @ n1" "distinct (map fst n1)"
    "fst ` set n1 = {q \<in> stamped sp l1 - stamped sp l. is_thread (prog ! q)}"
    "\<forall>(q, t) \<in> set n1. \<exists>(p, m) \<in> C. (vm_step prog str nm)\<^sup>*\<^sup>* (p, sp, copy_matches nm m) (q, sp, t)"
    using growsD(5) [OF 1] by blast
  obtain n2 where n2: "threads l2 = threads l1 @ n2" "distinct (map fst n2)"
    "fst ` set n2 = {q \<in> stamped sp l2 - stamped sp l1. is_thread (prog ! q)}"
    "\<forall>(q, t) \<in> set n2. \<exists>(p, m) \<in> D. (vm_step prog str nm)\<^sup>*\<^sup>* (p, sp, copy_matches nm m) (q, sp, t)"
    using growsD(5) [OF 2] by blast
  have sub: "stamped sp l \<subseteq> stamped sp l1" "stamped sp l1 \<subseteq> stamped sp l2"
    using growsD(2) [OF 1] growsD(2) [OF 2] by auto
  show ?thesis
  proof (rule growsI [where new = "n1 @ n2"])
    show "length (visited l2) = length (visited l)" using growsD(1) [OF 1] growsD(1) [OF 2] by simp
    show "stamped sp l \<subseteq> stamped sp l2" using sub by blast
    show "fst ` (C \<union> D) \<subseteq> stamped sp l2" using growsD(3) [OF 1] growsD(3) [OF 2] sub by auto
    show "set (eps_pcs prog str sp q) \<subseteq> stamped sp l2" if "q \<in> stamped sp l2 - stamped sp l" for q
      using that growsD(4) [OF 1, of q] growsD(4) [OF 2, of q] sub by blast
    show "threads l2 = threads l @ n1 @ n2" using n1(1) n2(1) by simp
    show "distinct (map fst (n1 @ n2))" using n1(2,3) n2(2,3) by auto
    show "fst ` set (n1 @ n2) = {q \<in> stamped sp l2 - stamped sp l. is_thread (prog ! q)}"
      using n1(3) n2(3) sub by (auto simp: image_Un)
    show "\<exists>(p, m) \<in> C \<union> D. (vm_step prog str nm)\<^sup>*\<^sup>* (p, sp, copy_matches nm m) (q, sp, t)"
      if "(q, t) \<in> set (n1 @ n2)" for q t
      using that n1(4) n2(4) by fastforce
    show "visited l2 ! p = visited l ! p \<or> visited l2 ! p = sp + 1" if "p < length (visited l)" for p
      using that growsD(1,6) [OF 1] growsD(6) [OF 2] by metis
  qed
qed

lemma mark_stamps: "p < length (visited l) \<Longrightarrow> visited (mark sp pc l) ! p = visited l ! p \<or> visited (mark sp pc l) ! p = sp + 1"
  by (cases "p = pc") (auto simp: mark_def)

lemma grows_leaf:
  assumes "pc < length (visited l)" "pc \<notin> stamped sp l" "is_thread (prog ! pc)"
  shows "grows prog str nm sp {(pc, m)} l
    ((mark sp pc l)\<lparr>threads := threads l @ [(pc, copy_matches nm m)]\<rparr>)"
proof -
  have "eps_pcs prog str sp pc = []" using assms(3) by (cases "prog ! pc") (simp_all add: eps_pcs.simps)
  then show ?thesis
    using assms mark_stamps by (intro growsI [where new = "[(pc, copy_matches nm m)]"]) (auto simp: stamped_mark)
qed

lemma copy_save: "copy_matches nm (save_matches nm k sp m) = save_matches nm k sp (copy_matches nm m)"
  by (simp add: copy_matches_def save_matches_def take_update_swap)

lemma copy_copy [simp]: "copy_matches nm (copy_matches nm m) = copy_matches nm m"
  by (simp add: copy_matches_def)

lemma copy_after_save: "copy_matches nm (after_save nm i sp m) = after_save nm i sp (copy_matches nm m)"
  by (cases i) (simp_all add: after_save_def copy_save)

text \<open>An instruction that forwards to its successors: mark it, then grow from them.\<close>

lemma grows_mark:
  assumes pc: "pc < length (visited l)" "length (visited l) = length prog" "pc \<notin> stamped sp l"
    "\<not> is_thread (prog ! pc)"
    and g: "grows prog str nm sp C (mark sp pc l) l'"
    and C: "C = (\<lambda>q. (q, after_save nm (prog ! pc) sp m)) ` set (eps_pcs prog str sp pc)"
  shows "grows prog str nm sp {(pc, m)} l l'"
proof -
  have st: "stamped sp (mark sp pc l) = insert pc (stamped sp l)" by (rule stamped_mark [OF pc(1)])
  have sub: "insert pc (stamped sp l) \<subseteq> stamped sp l'" using growsD(2) [OF g] st by simp
  have succ: "set (eps_pcs prog str sp pc) \<subseteq> stamped sp l'"
    using growsD(3) [OF g] C by (auto simp: image_image)
  obtain new where new: "threads l' = threads (mark sp pc l) @ new" "distinct (map fst new)"
    "fst ` set new = {q \<in> stamped sp l' - stamped sp (mark sp pc l). is_thread (prog ! q)}"
    "\<forall>(q, t) \<in> set new. \<exists>(p, m) \<in> C. (vm_step prog str nm)\<^sup>*\<^sup>* (p, sp, copy_matches nm m) (q, sp, t)"
    using growsD(5) [OF g] by blast
  show ?thesis
  proof (rule growsI [where new = new])
    show "length (visited l') = length (visited l)" using growsD(1) [OF g] by simp
    show "stamped sp l \<subseteq> stamped sp l'" "fst ` {(pc, m)} \<subseteq> stamped sp l'" using sub by auto
    show "set (eps_pcs prog str sp q) \<subseteq> stamped sp l'" if "q \<in> stamped sp l' - stamped sp l" for q
      using that growsD(4) [OF g, of q] succ st by (cases "q = pc") auto
    show "threads l' = threads l @ new" "distinct (map fst new)" using new(1,2) by simp_all
    show "fst ` set new = {q \<in> stamped sp l' - stamped sp l. is_thread (prog ! q)}"
      using new(3) st pc(4) by auto
    show "\<exists>(p, m') \<in> {(pc, m)}. (vm_step prog str nm)\<^sup>*\<^sup>* (p, sp, copy_matches nm m') (q, sp, t)"
      if qt: "(q, t) \<in> set new" for q t
    proof -
      obtain p where p: "p \<in> set (eps_pcs prog str sp pc)"
        "(vm_step prog str nm)\<^sup>*\<^sup>* (p, sp, copy_matches nm (after_save nm (prog ! pc) sp m)) (q, sp, t)"
        using bspec [OF new(4) qt] unfolding C by auto
      have "vm_step prog str nm (pc, sp, copy_matches nm m) (p, sp, copy_matches nm (after_save nm (prog ! pc) sp m))"
        unfolding copy_after_save using p(1) pc(1,2) by (intro vm_step.eps) simp_all
      then have "(vm_step prog str nm)\<^sup>*\<^sup>* (pc, sp, copy_matches nm m) (q, sp, t)"
        using p(2) by (rule converse_rtranclp_into_rtranclp)
      then show ?thesis by simp
    qed
    show "visited l' ! p = visited l ! p \<or> visited l' ! p = sp + 1" if "p < length (visited l)" for p
      using that growsD(6) [OF g, of p] mark_stamps [of p l sp pc] by auto
  qed
qed

lemma eps_pcs_lt:
  "prog_ok prog \<Longrightarrow> pc < length prog \<Longrightarrow> q \<in> set (eps_pcs prog str sp pc) \<Longrightarrow> q < length prog"
  unfolding prog_ok_def by (cases "prog ! pc") (auto simp: eps_pcs.simps split: if_splits dest: spec [of _ pc])

lemma vm_add_thread_grows:
  assumes "prog_ok prog" "length (visited l) = length prog" "pc < length prog"
    "length prog - card (stamped sp l) < fuel"
  shows "\<exists>l'. vm_add_thread fuel prog str nm l pc sp m = Some l' \<and> grows prog str nm sp {(pc, m)} l l'"
  using assms(2-)
proof (induction fuel arbitrary: l pc m)
  case (Suc fuel)
  show ?case
  proof (cases "visited l ! pc = sp + 1")
    case True
    then have "pc \<in> stamped sp l" using Suc.prems by (simp add: stamped_def)
    then have "grows prog str nm sp {(pc, m)} l l" by (intro grows_refl) simp
    then show ?thesis using True Suc.prems by (simp add: vm_add_thread.simps)
  next
    case False
    let ?l = "mark sp pc l" and ?m = "after_save nm (prog ! pc) sp m"
    have ns: "pc \<notin> stamped sp l" using False by (simp add: stamped_def)
    have pcl: "pc < length (visited l)" using Suc.prems by simp
    have st: "stamped sp ?l = insert pc (stamped sp l)" by (rule stamped_mark [OF pcl])
    have "card (stamped sp ?l) = Suc (card (stamped sp l))" using st ns by simp
    then have fuel: "length prog - card (stamped sp ?l) < fuel"
      using Suc.prems card_stamped_le [of sp ?l] by simp
    have one: "\<exists>l'. vm_add_thread fuel prog str nm ?l q sp ?m = Some l' \<and> grows prog str nm sp {(q, ?m)} ?l l'"
      if "q \<in> set (eps_pcs prog str sp pc)" for q
      using that Suc.IH [of ?l q ?m] Suc.prems fuel eps_pcs_lt [OF assms(1) Suc.prems(2)] by simp
    have fin: ?thesis if "vm_add_thread (Suc fuel) prog str nm l pc sp m = Some l'"
      "grows prog str nm sp ((\<lambda>q. (q, ?m)) ` set (eps_pcs prog str sp pc)) ?l l'"
      "\<not> is_thread (prog ! pc)" for l'
      using that grows_mark [OF pcl _ ns that(3,2) refl] Suc.prems by auto
    have run: "vm_add_thread (Suc fuel) prog str nm l pc sp m =
        (case prog ! pc of
          I_SPLIT a b \<Rightarrow>
            do { l1 \<leftarrow> vm_add_thread fuel prog str nm ?l a sp m; vm_add_thread fuel prog str nm l1 b sp m }
        | I_JUMP t \<Rightarrow> vm_add_thread fuel prog str nm ?l t sp m
        | I_ASSERT_BEGIN \<Rightarrow> if sp = 0 then vm_add_thread fuel prog str nm ?l (pc + 1) sp m else Some ?l
        | I_ASSERT_END \<Rightarrow> if str sp = 0 then vm_add_thread fuel prog str nm ?l (pc + 1) sp m else Some ?l
        | I_SAVE k \<Rightarrow> vm_add_thread fuel prog str nm ?l (pc + 1) sp (save_matches nm k sp m)
        | _ \<Rightarrow> Some (?l\<lparr>threads := threads l @ [(pc, copy_matches nm m)]\<rparr>))"
      using False Suc.prems by (cases "prog ! pc") (simp_all add: mark_def Let_def vm_add_thread.simps)
    have single: ?thesis if q: "eps_pcs prog str sp pc = [q]" "\<not> is_thread (prog ! pc)"
      "vm_add_thread (Suc fuel) prog str nm l pc sp m = vm_add_thread fuel prog str nm ?l q sp ?m" for q
    proof -
      obtain l' where l': "vm_add_thread fuel prog str nm ?l q sp ?m = Some l'"
        "grows prog str nm sp {(q, ?m)} ?l l'" using one [of q] q(1) by auto
      show ?thesis by (rule fin [of l']) (use l' q in simp_all)
    qed
    have blocked: ?thesis if "eps_pcs prog str sp pc = []" "\<not> is_thread (prog ! pc)"
      "vm_add_thread (Suc fuel) prog str nm l pc sp m = Some ?l"
      by (rule fin [of ?l]) (use that grows_refl in \<open>simp_all del: vm_add_thread.simps\<close>)
    note leaf = grows_leaf [OF pcl ns, of prog str nm m]
    show ?thesis
    proof (cases "prog ! pc")
      case (I_SPLIT a b)
      then obtain l1 where l1: "vm_add_thread fuel prog str nm ?l a sp m = Some l1"
        and g1: "grows prog str nm sp {(a, ?m)} ?l l1"
        using one [of a] by (auto simp: after_save_def eps_pcs.simps)
      have "card (stamped sp ?l) \<le> card (stamped sp l1)" using growsD(2) [OF g1] by (simp add: card_mono)
      then have "length prog - card (stamped sp l1) < fuel" using fuel by simp
      moreover have "b < length prog" using I_SPLIT eps_pcs_lt [OF assms(1) Suc.prems(2), of b str sp] by (simp add: eps_pcs.simps)
      ultimately obtain l2 where l2: "vm_add_thread fuel prog str nm l1 b sp m = Some l2"
        and g2: "grows prog str nm sp {(b, ?m)} l1 l2"
        using Suc.IH [of l1 b m] growsD(1) [OF g1] Suc.prems I_SPLIT by (auto simp: after_save_def)
      have "grows prog str nm sp ((\<lambda>q. (q, ?m)) ` set (eps_pcs prog str sp pc)) ?l l2"
        using grows_trans [OF g1 g2] I_SPLIT by (simp add: eps_pcs.simps insert_commute)
      then show ?thesis by (rule fin [rotated]) (use I_SPLIT l1 l2 run in simp_all)
    next
      case (I_JUMP t)
      then show ?thesis by (intro single [of t]) (simp_all only: run, simp_all add: after_save_def eps_pcs.simps)
    next
      case I_ASSERT_BEGIN
      have step: "vm_add_thread (Suc fuel) prog str nm l pc sp m =
          (if sp = 0 then vm_add_thread fuel prog str nm ?l (pc + 1) sp ?m else Some ?l)"
        unfolding run by (simp add: I_ASSERT_BEGIN after_save_def)
      show ?thesis
      proof (cases "sp = 0")
        case True
        then show ?thesis using step by (intro single [of "pc + 1"]) (auto simp: I_ASSERT_BEGIN eps_pcs.simps)
      next
        case False
        then show ?thesis using step by (intro blocked) (auto simp: I_ASSERT_BEGIN eps_pcs.simps)
      qed
    next
      case I_ASSERT_END
      have step: "vm_add_thread (Suc fuel) prog str nm l pc sp m =
          (if str sp = 0 then vm_add_thread fuel prog str nm ?l (pc + 1) sp ?m else Some ?l)"
        unfolding run by (simp add: I_ASSERT_END after_save_def)
      show ?thesis
      proof (cases "str sp = 0")
        case True
        then show ?thesis using step by (intro single [of "pc + 1"]) (auto simp: I_ASSERT_END eps_pcs.simps)
      next
        case False
        then show ?thesis using step by (intro blocked) (auto simp: I_ASSERT_END eps_pcs.simps)
      qed
    next
      case (I_SAVE k)
      then show ?thesis by (intro single [of "pc + 1"]) (simp_all only: run, simp_all add: after_save_def eps_pcs.simps)
    qed (use run leaf in simp_all)
  qed
qed simp

lemma vm_add_thread_full:
  assumes "prog_ok prog" "length (visited l) = length prog" "pc < length prog"
  shows "\<exists>l'. vm_add_thread (Suc (length prog)) prog str nm l pc sp m = Some l' \<and> grows prog str nm sp {(pc, m)} l l'"
  by (rule vm_add_thread_grows [OF assms]) (rule le_imp_less_Suc [OF diff_le_self])

section \<open>One position of the string\<close>

definition live :: "cregex_program \<Rightarrow> (nat \<times> saved) list \<Rightarrow> (nat \<times> saved) list" where
  "live prog ts = takeWhile (\<lambda>(pc, tm). prog ! pc \<noteq> I_MATCH) ts"

definition seeds :: "cregex_program \<Rightarrow> u8 \<Rightarrow> (nat \<times> saved) list \<Rightarrow> (nat \<times> saved) set" where
  "seeds prog c ts = (\<lambda>(pc, tm). (pc + 1, tm)) ` {(pc, tm) \<in> set (live prog ts). accepts (prog ! pc) c}"

definition first_match :: "cregex_program \<Rightarrow> (nat \<times> saved) list \<Rightarrow> (nat \<times> saved) option" where
  "first_match prog ts = find (\<lambda>(pc, tm). prog ! pc = I_MATCH) ts"

definition store :: "nat \<Rightarrow> saved \<Rightarrow> (nat \<times> saved) option \<Rightarrow> saved" where
  "store nm m r = (case r of None \<Rightarrow> m | Some (pc, tm) \<Rightarrow> copy_matches nm tm @ drop (length (copy_matches nm tm)) m)"

lemma accepts_is_thread: "accepts i c \<Longrightarrow> is_thread i"
  by (cases i) simp_all

lemma accepts_not_match: "accepts i c \<Longrightarrow> i \<noteq> I_MATCH"
  by (cases i) simp_all

lemma seeds_Cons:
  "seeds prog c ((pc, tm) # ts) =
    (if prog ! pc = I_MATCH then {}
     else (if accepts (prog ! pc) c then {(pc + 1, tm)} else {}) \<union> seeds prog c ts)"
  by (auto simp: seeds_def live_def image_iff)

lemma first_match_Cons:
  "first_match prog ((pc, tm) # ts) = (if prog ! pc = I_MATCH then Some (pc, tm) else first_match prog ts)"
  by (simp add: first_match_def)

lemma accepts_next_lt: "prog_ok prog \<Longrightarrow> pc < length prog \<Longrightarrow> accepts (prog ! pc) c \<Longrightarrow> pc + 1 < length prog"
  unfolding prog_ok_def by (cases "prog ! pc") (auto dest!: spec [of _ pc])

text \<open>The equation of the loop body, with the six kinds of instruction a thread never has left out.\<close>

lemma vm_step_threads_Cons:
  "is_thread (prog ! pc) \<Longrightarrow> vm_step_threads fuel prog str nm sp ((pc, tm) # ts) nxt b m =
    (if prog ! pc = I_MATCH then Some (nxt, True, store nm m (Some (pc, tm)))
     else if accepts (prog ! pc) (str sp) then
       do { nxt' \<leftarrow> vm_add_thread fuel prog str nm nxt (pc + 1) (sp + 1) tm;
            vm_step_threads fuel prog str nm sp ts nxt' b m }
     else vm_step_threads fuel prog str nm sp ts nxt b m)"
  by (cases "prog ! pc") (simp_all add: store_def)

declare vm_step_threads.simps(2) [simp del]

lemma vm_step_threads_grows:
  assumes "prog_ok prog" "length (visited nxt) = length prog"
    "\<forall>(pc, tm) \<in> set ts. pc < length prog \<and> is_thread (prog ! pc)"
  shows "\<exists>nxt'. vm_step_threads (Suc (length prog)) prog str nm sp ts nxt b m =
      Some (nxt', b \<or> first_match prog ts \<noteq> None, store nm m (first_match prog ts)) \<and>
    grows prog str nm (sp + 1) (seeds prog (str sp) ts) nxt nxt'"
  using assms(2,3)
proof (induction ts arbitrary: nxt)
  case Nil
  then show ?case using grows_refl [of "{}"] by (simp add: seeds_def live_def first_match_def store_def)
next
  case (Cons th ts)
  obtain pc tm where th: "th = (pc, tm)" by (cases th)
  have pc: "pc < length prog" "is_thread (prog ! pc)" using Cons.prems(2) th by auto
  have ts: "\<forall>(p, t) \<in> set ts. p < length prog \<and> is_thread (prog ! p)" using Cons.prems(2) by simp
  note eqs = th vm_step_threads_Cons [OF pc(2)] seeds_Cons first_match_Cons
  consider "prog ! pc = I_MATCH" | "accepts (prog ! pc) (str sp)" "prog ! pc \<noteq> I_MATCH"
    | "\<not> accepts (prog ! pc) (str sp)" "prog ! pc \<noteq> I_MATCH" by blast
  then show ?case
  proof cases
    case 1
    then show ?thesis using grows_refl [of "{}"] by (simp add: eqs store_def)
  next
    case 2
    obtain n1 where n1: "vm_add_thread (Suc (length prog)) prog str nm nxt (pc + 1) (sp + 1) tm = Some n1"
      "grows prog str nm (sp + 1) {(pc + 1, tm)} nxt n1"
      using vm_add_thread_full [OF assms(1) Cons.prems(1) accepts_next_lt [OF assms(1) pc(1) 2(1)]] by blast
    have "length (visited n1) = length prog" using growsD(1) [OF n1(2)] Cons.prems(1) by simp
    from Cons.IH [OF this ts]
    obtain n2 where "vm_step_threads (Suc (length prog)) prog str nm sp ts n1 b m =
        Some (n2, b \<or> first_match prog ts \<noteq> None, store nm m (first_match prog ts))"
      "grows prog str nm (sp + 1) (seeds prog (str sp) ts) n1 n2" by blast
    then show ?thesis using 2 n1(1) grows_trans [OF n1(2)] by (auto simp: eqs)
  next
    case 3
    then show ?thesis using Cons.IH [OF Cons.prems(1) ts] by (simp add: eqs)
  qed
qed

section \<open>Reachable configurations\<close>

definition reach :: "cregex_program \<Rightarrow> mem \<Rightarrow> nat \<Rightarrow> config \<Rightarrow> bool" where
  "reach prog str nm c = (vm_step prog str nm)\<^sup>*\<^sup>* (0, 0, copy_matches nm (replicate nm None)) c"

lemma reach_step: "reach prog str nm c \<Longrightarrow> vm_step prog str nm c d \<Longrightarrow> reach prog str nm d"
  unfolding reach_def by (rule rtranclp.rtrancl_into_rtrancl)

lemma reach_steps: "reach prog str nm c \<Longrightarrow> (vm_step prog str nm)\<^sup>*\<^sup>* c d \<Longrightarrow> reach prog str nm d"
  unfolding reach_def by (rule rtranclp_trans)

lemma reach_induct [consumes 1, case_names start eps chr]:
  assumes "reach prog str nm (q, j, t)"
    and "P 0 0 (copy_matches nm (replicate nm None))"
    and "\<And>pc sp m pc'. reach prog str nm (pc, sp, m) \<Longrightarrow> P pc sp m \<Longrightarrow> pc < length prog \<Longrightarrow>
      pc' \<in> set (eps_pcs prog str sp pc) \<Longrightarrow> P pc' sp (after_save nm (prog ! pc) sp m)"
    and "\<And>pc sp m. reach prog str nm (pc, sp, m) \<Longrightarrow> P pc sp m \<Longrightarrow> pc < length prog \<Longrightarrow>
      accepts (prog ! pc) (str sp) \<Longrightarrow> P (pc + 1) (sp + 1) m"
  shows "P q j t"
  using assms(1) unfolding reach_def
proof (induction "(q, j, t)" arbitrary: q j t rule: rtranclp_induct)
  case (step c)
  obtain pc sp m where c: "c = (pc, sp, m)" by (cases c)
  have r: "reach prog str nm (pc, sp, m)" using step.hyps(1) by (simp add: reach_def c)
  have P: "P pc sp m" using step.hyps(3) c by simp
  show ?case using step.hyps(2) unfolding c
    by cases (auto intro: assms(3) [OF r P] assms(4) [OF r P, simplified])
qed (use assms(2) in simp_all)

lemma reach_length: "reach prog str nm (q, j, t) \<Longrightarrow> length t = min nm 64"
  by (induction rule: reach_induct)
    (auto simp: copy_matches_def REGEX_VM_MAX_MATCHES_def after_save_def save_matches_def split: cregex_instr.splits)

lemma reach_consuming:
  "reach prog str nm (q, j, t) \<Longrightarrow> i < j \<Longrightarrow>
    \<exists>q0 t0. reach prog str nm (q0, i, t0) \<and> q0 < length prog \<and> accepts (prog ! q0) (str i)"
  by (induction rule: reach_induct) (auto simp: less_Suc_eq)

lemma reach_lt: "prog_ok prog \<Longrightarrow> reach prog str nm (q, j, t) \<Longrightarrow> q < length prog"
  by (rotate_tac, induction rule: reach_induct)
    (auto simp: prog_ok_def intro: eps_pcs_lt accepts_next_lt [simplified])

section \<open>The loop over the string\<close>

definition stamps_le :: "nat \<Rightarrow> vm_thread_list \<Rightarrow> bool" where
  "stamps_le k l \<longleftrightarrow> (\<forall>x \<in> set (visited l). x \<le> k)"

lemma stamps_le_none: "stamps_le k l \<Longrightarrow> k \<le> sp \<Longrightarrow> stamped sp l = {}"
  unfolding stamps_le_def stamped_def using nth_mem by fastforce

lemma grows_stamps: "grows prog str nm sp C l l' \<Longrightarrow> stamps_le k l \<Longrightarrow> k \<le> sp + 1 \<Longrightarrow> stamps_le (sp + 1) l'"
  unfolding stamps_le_def
proof
  fix x assume g: "grows prog str nm sp C l l'" and le: "\<forall>x \<in> set (visited l). x \<le> k" "k \<le> sp + 1"
    and "x \<in> set (visited l')"
  then obtain p where p: "p < length (visited l)" "x = visited l' ! p"
    using growsD(1) [OF g] by (auto simp: in_set_conv_nth)
  then show "x \<le> sp + 1" using growsD(6) [OF g p(1)] le nth_mem [OF p(1)] by fastforce
qed

text \<open>
  The threads of a position: all in the program, reachable, and (while no match was reported)
  every reachable thread instruction among them.
\<close>

definition sound_at :: "cregex_program \<Rightarrow> mem \<Rightarrow> nat \<Rightarrow> nat \<Rightarrow> vm_thread_list \<Rightarrow> bool" where
  "sound_at prog str nm sp l \<longleftrightarrow>
     (\<forall>(q, t) \<in> set (threads l). q < length prog \<and> is_thread (prog ! q) \<and> reach prog str nm (q, sp, t))"

definition complete_at :: "cregex_program \<Rightarrow> mem \<Rightarrow> nat \<Rightarrow> nat \<Rightarrow> vm_thread_list \<Rightarrow> bool" where
  "complete_at prog str nm sp l \<longleftrightarrow>
     (\<forall>q t. reach prog str nm (q, sp, t) \<and> is_thread (prog ! q) \<longrightarrow> q \<in> fst ` set (threads l))"

definition reported :: "cregex_program \<Rightarrow> mem \<Rightarrow> nat \<Rightarrow> nat \<Rightarrow> bool \<Rightarrow> saved \<Rightarrow> bool" where
  "reported prog str nm bound b m \<longleftrightarrow>
     (if b then \<exists>q j t. reach prog str nm (q, j, t) \<and> q < length prog \<and> prog ! q = I_MATCH \<and> j \<le> bound \<and>
          m = t @ replicate (nm - 64) None
      else m = replicate nm None)"

definition matches_before :: "cregex_program \<Rightarrow> mem \<Rightarrow> nat \<Rightarrow> nat \<Rightarrow> bool" where
  "matches_before prog str nm k \<longleftrightarrow> (\<exists>q j t. reach prog str nm (q, j, t) \<and> q < length prog \<and> prog ! q = I_MATCH \<and> j < k)"

text \<open>A list grown from nothing at a position is sound when its seeds are reachable, and complete
  when they include every way into the position.\<close>

lemma grown_sound:
  assumes ok: "prog_ok prog" and g: "grows prog str nm sp C l l'" and e: "threads l = []"
    and len: "length (visited l) = length prog"
    and C: "\<And>p m. (p, m) \<in> C \<Longrightarrow> reach prog str nm (p, sp, copy_matches nm m)"
  shows "sound_at prog str nm sp l'"
  unfolding sound_at_def
proof (clarify, intro conjI)
  fix q t assume qt: "(q, t) \<in> set (threads l')"
  obtain new where new: "threads l' = new"
    "fst ` set new = {q \<in> stamped sp l' - stamped sp l. is_thread (prog ! q)}"
    "\<forall>(q, t) \<in> set new. \<exists>(p, m) \<in> C. (vm_step prog str nm)\<^sup>*\<^sup>* (p, sp, copy_matches nm m) (q, sp, t)"
    using growsD(5) [OF g] e by auto
  have "q \<in> fst ` set new" using qt new(1) by force
  then show "q < length prog" "is_thread (prog ! q)"
    using new(2) growsD(1) [OF g] len by (auto simp: stamped_def)
  obtain p m where "(p, m) \<in> C" "(vm_step prog str nm)\<^sup>*\<^sup>* (p, sp, copy_matches nm m) (q, sp, t)"
    using bspec [OF new(3), of "(q, t)"] qt new(1) by auto
  then show "reach prog str nm (q, sp, t)" using C reach_steps by blast
qed

lemma grown_complete:
  assumes ok: "prog_ok prog" and g: "grows prog str nm sp C l l'" and e: "threads l = []" "stamped sp l = {}"
    and start: "sp = 0 \<Longrightarrow> 0 \<in> fst ` C"
    and entry: "\<And>q sp' t. sp = sp' + 1 \<Longrightarrow> reach prog str nm (q, sp', t) \<Longrightarrow> q < length prog \<Longrightarrow>
      accepts (prog ! q) (str sp') \<Longrightarrow> q + 1 \<in> fst ` C"
  shows "complete_at prog str nm sp l'"
proof -
  have st: "j = sp \<Longrightarrow> q \<in> stamped sp l'" if "reach prog str nm (q, j, t)" for q j t
    using that
  proof (induction rule: reach_induct)
    case start
    then show ?case using assms(5) growsD(3) [OF g] by auto
  next
    case (eps pc sp' m pc')
    then show ?case using growsD(4) [OF g, of pc] e(2) by auto
  next
    case (chr pc sp' m)
    then show ?case using entry [of sp' pc m] growsD(3) [OF g] by auto
  qed
  obtain new where "threads l' = new" "fst ` set new = {q \<in> stamped sp l'. is_thread (prog ! q)}"
    using growsD(5) [OF g] e by auto
  then show ?thesis unfolding complete_at_def using st by blast
qed

lemma copy_reach: "reach prog str nm (q, j, t) \<Longrightarrow> copy_matches nm t = t"
  by (drule reach_length) (simp add: copy_matches_def REGEX_VM_MAX_MATCHES_def)

lemma find_SomeD: "find P xs = Some x \<Longrightarrow> x \<in> set xs \<and> P x"
  by (induction xs) (auto split: if_splits)

lemma first_match_iff: "first_match prog ts \<noteq> None \<longleftrightarrow> (\<exists>(q, t) \<in> set ts. prog ! q = I_MATCH)"
  by (auto simp: first_match_def find_None_iff)

lemma reported_drop: "reported prog str nm k b m \<Longrightarrow> drop (min nm 64) m = replicate (nm - 64) None"
  by (auto simp: reported_def split: if_splits dest: reach_length)

lemma store_reported:
  assumes "reported prog str nm (length s) b m" "sound_at prog str nm sp l" "sp \<le> length s"
  shows "reported prog str nm (length s) (b \<or> first_match prog (threads l) \<noteq> None) (store nm m (first_match prog (threads l)))"
proof (cases "first_match prog (threads l)")
  case (Some th)
  obtain q t where th: "th = (q, t)" by (cases th)
  have q: "(q, t) \<in> set (threads l)" "prog ! q = I_MATCH"
    using Some th by (auto simp: first_match_def dest: find_SomeD)
  then have r: "reach prog str nm (q, sp, t)" "q < length prog" using assms(2) by (auto simp: sound_at_def)
  have "store nm m (Some th) = t @ replicate (nm - 64) None"
    using reported_drop [OF assms(1)] reach_length [OF r(1)] by (simp add: store_def th copy_reach [OF r(1)])
  then show ?thesis using Some r q(2) assms(3) by (auto simp: reported_def)
qed (use assms(1) in \<open>simp add: store_def\<close>)

text \<open>When no match is at the position, every thread that accepts the byte seeds the next one.\<close>

lemma seeds_all:
  assumes "complete_at prog str nm sp l" "first_match prog (threads l) = None"
    "reach prog str nm (q, sp, t)" "accepts (prog ! q) (str sp)"
  shows "q + 1 \<in> fst ` seeds prog (str sp) (threads l)"
proof -
  have "q \<in> fst ` set (threads l)"
    using assms accepts_is_thread unfolding complete_at_def by blast
  moreover have "live prog (threads l) = threads l"
    using assms(2) first_match_iff [of prog "threads l"] by (auto simp: live_def takeWhile_eq_all_conv)
  ultimately show ?thesis using assms(4) by (force simp: seeds_def)
qed

lemma seeds_reach:
  assumes "sound_at prog str nm sp l" "(p, m) \<in> seeds prog (str sp) (threads l)"
  shows "reach prog str nm (p, sp + 1, copy_matches nm m)"
proof -
  obtain q where q: "p = q + 1" "(q, m) \<in> set (threads l)" "accepts (prog ! q) (str sp)"
    using assms(2) by (auto simp: seeds_def live_def dest: set_takeWhileD)
  then have "reach prog str nm (q, sp, m)" "q < length prog" using assms(1) by (auto simp: sound_at_def)
  with q show ?thesis using reach_step vm_step.chr by (metis copy_reach)
qed

lemma no_match_at:
  assumes "complete_at prog str nm sp l" "first_match prog (threads l) = None" "\<not> matches_before prog str nm sp"
  shows "\<not> matches_before prog str nm (sp + 1)"
proof
  assume "matches_before prog str nm (sp + 1)"
  then obtain q j t where q: "reach prog str nm (q, j, t)" "q < length prog" "prog ! q = I_MATCH" "j < sp + 1"
    by (auto simp: matches_before_def)
  then have "j = sp" using assms(3) by (auto simp: matches_before_def) (metis less_antisym)
  then have "q \<in> fst ` set (threads l)" using assms(1) q by (auto simp: complete_at_def)
  then show False using assms(2) q(3) first_match_iff [of prog "threads l"] by auto
qed

lemma no_threads_no_match:
  assumes "complete_at prog str nm sp l" "threads l = []" "\<not> matches_before prog str nm sp"
  shows "\<not> matches_before prog str nm k"
proof
  assume "matches_before prog str nm k"
  then obtain q j t where q: "reach prog str nm (q, j, t)" "q < length prog" "prog ! q = I_MATCH"
    by (auto simp: matches_before_def)
  have idle: "\<not> is_thread (prog ! p)" if "reach prog str nm (p, sp, u)" for p u
    using assms(1,2) that by (auto simp: complete_at_def)
  from assms(3) q have "sp \<le> j" by (meson linorder_not_less matches_before_def)
  then consider "j = sp" | "sp < j" by linarith
  then show False
  proof cases
    case 1
    have "\<not> is_thread (prog ! q)" by (rule idle [OF q(1) [unfolded 1]])
    then show ?thesis using q(3) by simp
  next
    case 2
    from reach_consuming [OF q(1) 2] show ?thesis using idle accepts_is_thread by blast
  qed
qed

lemma vm_loop_exact:
  assumes ok: "prog_ok prog" and str: "str = cstring s after" "0 \<notin> set s" "sp \<le> length s"
    and lens: "length (visited cur) = length prog" "length (visited nxt) = length prog" "threads nxt = []"
    and stamps: "stamps_le (sp + 1) cur" "stamps_le (sp + 1) nxt"
    and sound: "sound_at prog str nm sp cur" "reported prog str nm (length s) b m"
    and complete: "\<not> b \<Longrightarrow> complete_at prog str nm sp cur \<and> \<not> matches_before prog str nm sp"
  shows "\<exists>b' m'. vm_loop (Suc (length s - sp)) prog str nm (Suc (length prog)) sp cur nxt b m = Some (b', m') \<and>
    reported prog str nm (length s) b' m' \<and> (\<not> b' \<longrightarrow> \<not> matches_before prog str nm (length s + 1))"
  using str(3) lens stamps sound complete
proof (induction "length s - sp" arbitrary: sp cur nxt b m)
  case 0
  let ?ts = "threads cur" and ?fuel = "Suc (length prog)"
  have in_prog: "\<forall>(pc, tm) \<in> set ?ts. pc < length prog \<and> is_thread (prog ! pc)"
    using "0.prems"(7) by (auto simp: sound_at_def)
  obtain n where n: "vm_step_threads ?fuel prog str nm sp ?ts nxt b m =
      Some (n, b \<or> first_match prog ?ts \<noteq> None, store nm m (first_match prog ?ts))"
    using vm_step_threads_grows [of prog nxt ?ts str nm sp b m, OF ok "0.prems"(3) in_prog] by blast
  have sp: "sp = length s" using "0.hyps" "0.prems"(1) by simp
  have z: "str sp = 0" using str(1) by (simp add: sp cstring_def mem_of_def)
  have "\<not> matches_before prog str nm (length s + 1)" if "\<not> (b \<or> first_match prog ?ts \<noteq> None)"
    using no_match_at that "0.prems"(9) sp by blast
  then show ?case
    using n sp z store_reported [OF "0.prems"(8,7,1)] by auto
next
  case (Suc k)
  let ?ts = "threads cur" and ?fuel = "Suc (length prog)"
  let ?b = "b \<or> first_match prog ?ts \<noteq> None" and ?m = "store nm m (first_match prog ?ts)"
  have in_prog: "\<forall>(pc, tm) \<in> set ?ts. pc < length prog \<and> is_thread (prog ! pc)"
    using Suc.prems(7) by (auto simp: sound_at_def)
  obtain n where n: "vm_step_threads ?fuel prog str nm sp ?ts nxt b m = Some (n, ?b, ?m)"
    and g: "grows prog str nm (sp + 1) (seeds prog (str sp) ?ts) nxt n"
    using vm_step_threads_grows [of prog nxt ?ts str nm sp b m, OF ok Suc.prems(3) in_prog] by blast
  have "sp < length s" using Suc.hyps(2) by simp
  then have nz: "str sp \<noteq> 0" using str(1,2) by (metis cstring_def mem_of_def length_append_singleton less_SucI nth_append nth_mem)
  have rep: "reported prog str nm (length s) ?b ?m" by (rule store_reported [OF Suc.prems(8,7,1)])
  have lenn: "length (visited n) = length prog" using growsD(1) [OF g] Suc.prems(3) by simp
  have sn: "sound_at prog str nm (sp + 1) n"
    by (rule grown_sound [OF ok g Suc.prems(4,3)]) (rule seeds_reach [OF Suc.prems(7)])
  have cn: "complete_at prog str nm (sp + 1) n \<and> \<not> matches_before prog str nm (sp + 1)" if "\<not> ?b"
  proof
    have c: "complete_at prog str nm sp cur" "first_match prog ?ts = None" "\<not> matches_before prog str nm sp"
      using that Suc.prems(9) by blast+
    show "complete_at prog str nm (sp + 1) n"
      by (rule grown_complete [OF ok g Suc.prems(4) stamps_le_none [OF Suc.prems(6) order_refl]])
        (use seeds_all [OF c(1,2)] in auto)
    show "\<not> matches_before prog str nm (sp + 1)" by (rule no_match_at [OF c])
  qed
  have step: "vm_loop (Suc (length s - sp)) prog str nm ?fuel sp cur nxt b m =
      (if threads n = [] then Some (?b, ?m)
       else vm_loop (Suc k) prog str nm ?fuel (sp + 1) n (cur\<lparr>threads := []\<rparr>) ?b ?m)"
    using n nz Suc.hyps(2) by simp
  show ?case
  proof (cases "threads n = []")
    case True
    then have "\<not> matches_before prog str nm (length s + 1)" if "\<not> ?b"
      using no_threads_no_match cn that by blast
    then show ?thesis using True step rep by auto
  next
    case False
    have "\<exists>b' m'. vm_loop (Suc (length s - (sp + 1))) prog str nm ?fuel (sp + 1) n (cur\<lparr>threads := []\<rparr>) ?b ?m = Some (b', m') \<and>
      reported prog str nm (length s) b' m' \<and> (\<not> b' \<longrightarrow> \<not> matches_before prog str nm (length s + 1))"
    proof (rule Suc.hyps(1))
      show "k = length s - (sp + 1)" "sp + 1 \<le> length s" using Suc.hyps(2) by simp_all
      show "stamps_le (sp + 1 + 1) n" using grows_stamps [OF g Suc.prems(6)] by simp
      show "stamps_le (sp + 1 + 1) (cur\<lparr>threads := []\<rparr>)" using Suc.prems(5) by (auto simp: stamps_le_def)
      show "\<not> ?b \<Longrightarrow> complete_at prog str nm (sp + 1) n \<and> \<not> matches_before prog str nm (sp + 1)" by (rule cn)
    qed (use lenn sn rep Suc.prems(2) in simp_all)
    moreover have "length s - (sp + 1) = k" using Suc.hyps(2) by simp
    ultimately show ?thesis using False step by (simp only: if_False)
  qed
qed

text \<open>The run always returns, and reports a match exactly when one is reachable.\<close>

lemma vm_run_exact:
  assumes ok: "prog_ok prog" and s: "0 \<notin> set s"
  shows "\<exists>b m. vm_run_with_threads prog s after nm = Some (b, m) \<and>
    reported prog (cstring s after) nm (length s) b m \<and>
    (\<not> b \<longrightarrow> \<not> matches_before prog (cstring s after) nm (length s + 1))"
proof -
  let ?str = "cstring s after" and ?m = "replicate nm None" and ?e = "empty_list prog"
  have e: "length (visited ?e) = length prog" "threads ?e = []" "stamps_le 0 ?e"
    by (auto simp: empty_list_def stamps_le_def)
  have "0 < length prog" using ok by (auto simp: prog_ok_def)
  from vm_add_thread_full [OF ok e(1) this, of ?str nm 0 ?m]
  obtain l where l: "vm_add_thread (Suc (length prog)) prog ?str nm ?e 0 0 ?m = Some l"
    and g: "grows prog ?str nm 0 {(0, ?m)} ?e l" by auto
  have "\<exists>b' m'. vm_loop (Suc (length s - 0)) prog ?str nm (Suc (length prog)) 0 l ?e False ?m = Some (b', m') \<and>
      reported prog ?str nm (length s) b' m' \<and> (\<not> b' \<longrightarrow> \<not> matches_before prog ?str nm (length s + 1))"
  proof (rule vm_loop_exact [OF ok refl s])
    show "length (visited l) = length prog" using growsD(1) [OF g] e(1) by simp
    show "stamps_le (0 + 1) l" using grows_stamps [OF g e(3)] by simp
    show "stamps_le (0 + 1) ?e" using e(3) by (auto simp: stamps_le_def)
    show "sound_at prog ?str nm 0 l"
      by (rule grown_sound [OF ok g e(2,1)]) (simp add: reach_def)
    show "complete_at prog ?str nm 0 l \<and> \<not> matches_before prog ?str nm 0"
      using grown_complete [OF ok g e(2) stamps_le_none [OF e(3) order_refl]] by (simp add: matches_before_def)
  qed (use e in \<open>simp_all add: reported_def\<close>)
  then show ?thesis using l by (simp add: vm_run_with_threads_def Let_def)
qed

end
