(* ===== verification/Regex_Correct.thy ===== *)
theory Regex_Correct
  imports Regex_Search
begin

text \<open>
  A compiled pattern, run by the virtual machine, decides what the pattern denotes: the code of
  each node takes a configuration at its first address to one just behind it exactly when the
  node matches the bytes in between. Together with the exactness of the search this is the
  correctness of the engine from a parsed node to the value the caller reads.
\<close>

section \<open>Code at an address\<close>

primrec code_at :: "cregex_program \<Rightarrow> nat \<Rightarrow> cregex_program \<Rightarrow> bool" where
  "code_at prog lo [] = True"
| "code_at prog lo (i # is) = (lo < length prog \<and> prog ! lo = i \<and> code_at prog (lo + 1) is)"

lemma code_at_append [simp]: "code_at prog lo (xs @ ys) \<longleftrightarrow> code_at prog lo xs \<and> code_at prog (lo + length xs) ys"
  by (induction xs arbitrary: lo) auto

lemma code_at_self: "code_at (pre @ xs @ post) (length pre) xs"
proof (induction xs arbitrary: pre)
  case (Cons x xs)
  then show ?case using Cons.IH [of "pre @ [x]"] by simp
qed simp

primrec targets_ok :: "nat \<Rightarrow> nat \<Rightarrow> cregex_program \<Rightarrow> bool" where
  "targets_ok n lo [] = True"
| "targets_ok n lo (i # is) = (instr_ok n lo i \<and> targets_ok n (lo + 1) is)"

lemma targets_ok_append [simp]:
  "targets_ok n lo (xs @ ys) \<longleftrightarrow> targets_ok n lo xs \<and> targets_ok n (lo + length xs) ys"
  by (induction xs arbitrary: lo) auto

lemma targets_ok_nth: "targets_ok n lo xs \<Longrightarrow> p < length xs \<Longrightarrow> instr_ok n (lo + p) (xs ! p)"
proof (induction xs arbitrary: lo p)
  case (Cons x xs)
  then show ?case by (cases p) (auto dest!: Cons.IH)
qed simp

lemma targets_ok_reps:
  "(\<And>l. l + k < n \<Longrightarrow> targets_ok n l (f l)) \<Longrightarrow> (\<And>l. length (f l) = k) \<Longrightarrow> lo + r * k < n \<Longrightarrow>
    targets_ok n lo (reps f k lo r)"
  by (induction r arbitrary: lo) (auto simp: add.assoc)

lemma targets_ok_opts:
  "(\<And>l. l + k < n \<Longrightarrow> targets_ok n l (f l)) \<Longrightarrow> (\<And>l. length (f l) = k) \<Longrightarrow> lo + r * (k + 1) < n \<Longrightarrow>
    targets_ok n lo (opts g f k lo r)"
  by (induction r arbitrary: lo) (auto simp: mk_split_def algebra_simps)

lemma targets_ok_frag: "lo + isize n < N \<Longrightarrow> targets_ok N lo (frag n lo c)"
proof (induction n arbitrary: lo c)
  case (QUANTIFIER mn mx g q)
  have r: "targets_ok N l (frag q l c)" if "l + isize q < N" for l using QUANTIFIER.IH that .
  have loop_back: "lo + (nat mn - Suc 0) * isize q < N" if "Suc (lo + nat mn * isize q) < N"
    using that mult_le_mono1 [of "nat mn - Suc 0" "nat mn" "isize q"] by linarith
  show ?case using QUANTIFIER.prems r
    by (auto simp: mk_split_def length_reps add.assoc intro!: targets_ok_reps targets_ok_opts loop_back)
qed (auto simp: add.assoc)

lemma prog_ok_frag: "prog_ok (frag n 0 c @ [I_MATCH])"
proof -
  have "targets_ok (isize n + 1) 0 (frag n 0 c @ [I_MATCH])" by (simp add: targets_ok_frag)
  from targets_ok_nth [OF this] show ?thesis by (auto simp: prog_ok_def)
qed

section \<open>What a stretch of code does\<close>

definition agree :: "nat \<Rightarrow> saved \<Rightarrow> saved \<Rightarrow> bool" where
  "agree c ms ms' \<longleftrightarrow> length ms' = length ms \<and> take (2 * c) ms' = take (2 * c) ms"

lemma agree_refl [simp]: "agree c ms ms"
  by (simp add: agree_def)

lemma agree_trans: "agree c a b \<Longrightarrow> agree c b d \<Longrightarrow> agree c a d"
  by (simp add: agree_def)

lemma agree_mono: "agree c' a b \<Longrightarrow> c \<le> c' \<Longrightarrow> agree c a b"
  unfolding agree_def by (metis min.absorb1 mult_le_mono2 take_take)

lemma agree_save: "2 * c \<le> k \<Longrightarrow> agree c ms (save_matches nm k i ms)"
  by (simp add: agree_def save_matches_def)

lemma agree_nth: "agree c a b \<Longrightarrow> k < 2 * c \<Longrightarrow> b ! k = a ! k"
  unfolding agree_def by (metis nth_take)

text \<open>
  \<open>runs \<dots> lo hi c R\<close>: every run that starts at \<open>lo\<close> and ends outside the stretch passes just
  behind it, having read a piece of the string that \<open>R\<close> admits and kept the saved pointers of
  the captures below \<open>c\<close>; and for every piece \<open>R\<close> admits there is such a run.
\<close>

definition runs :: "cregex_program \<Rightarrow> mem \<Rightarrow> nat \<Rightarrow> nat \<Rightarrow> nat \<Rightarrow> nat \<Rightarrow> nat \<Rightarrow> (nat \<Rightarrow> nat \<Rightarrow> bool) \<Rightarrow> bool" where
  "runs prog str nm len lo hi c R \<longleftrightarrow>
     (\<forall>m i ms pf j msf. (vm_step prog str nm ^^ m) (lo, i, ms) (pf, j, msf) \<and> (pf < lo \<or> hi \<le> pf) \<and> j \<le> len \<longrightarrow>
        (\<exists>k ms' m'. m' \<le> m \<and> R i k \<and> agree c ms ms' \<and> (vm_step prog str nm ^^ m') (hi, k, ms') (pf, j, msf))) \<and>
     (\<forall>i k ms. R i k \<longrightarrow> (\<exists>ms'. (vm_step prog str nm)\<^sup>*\<^sup>* (lo, i, ms) (hi, k, ms')))"

lemma runsI:
  assumes "\<And>m i ms pf j msf. (vm_step prog str nm ^^ m) (lo, i, ms) (pf, j, msf) \<Longrightarrow> pf < lo \<or> hi \<le> pf \<Longrightarrow> j \<le> len \<Longrightarrow>
      \<exists>k ms' m'. m' \<le> m \<and> R i k \<and> agree c ms ms' \<and> (vm_step prog str nm ^^ m') (hi, k, ms') (pf, j, msf)"
    and "\<And>i k ms. R i k \<Longrightarrow> \<exists>ms'. (vm_step prog str nm)\<^sup>*\<^sup>* (lo, i, ms) (hi, k, ms')"
  shows "runs prog str nm len lo hi c R"
  unfolding runs_def using assms by blast

lemma runs_sound:
  assumes "runs prog str nm len lo hi c R" "(vm_step prog str nm ^^ m) (lo, i, ms) (pf, j, msf)"
    "pf < lo \<or> hi \<le> pf" "j \<le> len"
  obtains k ms' m' where "m' \<le> m" "R i k" "agree c ms ms'" "(vm_step prog str nm ^^ m') (hi, k, ms') (pf, j, msf)"
  using assms unfolding runs_def by blast

lemma runs_complete:
  assumes "runs prog str nm len lo hi c R" "R i k"
  obtains ms' where "(vm_step prog str nm)\<^sup>*\<^sup>* (lo, i, ms) (hi, k, ms')"
  using assms unfolding runs_def by blast

lemma runs_cong: "runs prog str nm len lo hi c R \<Longrightarrow> (\<And>i k. R i k = R' i k) \<Longrightarrow> runs prog str nm len lo hi c R'"
  by (simp add: runs_def)

lemma runs_mono: "runs prog str nm len lo hi c' R \<Longrightarrow> c \<le> c' \<Longrightarrow> runs prog str nm len lo hi c R"
  unfolding runs_def by (meson agree_mono)

lemma step_pos_mono: "vm_step prog str nm (p, i, ms) (q, j, ms') \<Longrightarrow> i \<le> j"
  by (elim vm_stepE) auto

lemma steps_pos_mono: "(vm_step prog str nm ^^ m) (p, i, ms) (q, j, ms') \<Longrightarrow> i \<le> j"
proof (induction m arbitrary: q j ms')
  case (Suc m)
  then obtain q0 j0 m0 where "(vm_step prog str nm ^^ m) (p, i, ms) (q0, j0, m0)" "vm_step prog str nm (q0, j0, m0) (q, j, ms')"
    by (auto elim!: relpowp_Suc_E)
  then show ?case using Suc.IH step_pos_mono by (meson le_trans)
qed simp

lemma runs_empty: "runs prog str nm len lo lo c (\<lambda>i k. i \<le> len \<and> i = k)"
  by (rule runsI) (use steps_pos_mono in \<open>fastforce intro: agree_refl\<close>)+

lemma runs_seq:
  assumes a: "runs prog str nm len lo mid c R" and b: "runs prog str nm len mid hi c' S" and "c \<le> c'" "lo \<le> mid" "mid \<le> hi"
  shows "runs prog str nm len lo hi c (\<lambda>i j. \<exists>k. R i k \<and> S k j)"
proof (rule runsI)
  fix m i ms pf j msf
  assume run: "(vm_step prog str nm ^^ m) (lo, i, ms) (pf, j, msf)" and out: "pf < lo \<or> hi \<le> pf" "j \<le> len"
  have out1: "pf < lo \<or> mid \<le> pf" and out2: "pf < mid \<or> hi \<le> pf" using out(1) assms(4,5) by auto
  obtain k ms' m' where 1: "m' \<le> m" "R i k" "agree c ms ms'" "(vm_step prog str nm ^^ m') (mid, k, ms') (pf, j, msf)"
    by (rule runs_sound [OF a run out1 out(2)])
  obtain k2 ms2 m2 where 2: "m2 \<le> m'" "S k k2" "agree c' ms' ms2" "(vm_step prog str nm ^^ m2) (hi, k2, ms2) (pf, j, msf)"
    by (rule runs_sound [OF b 1(4) out2 out(2)])
  have "agree c ms ms2" by (rule agree_trans [OF 1(3) agree_mono [OF 2(3) assms(3)]])
  then show "\<exists>k ms' m'. m' \<le> m \<and> (\<exists>l. R i l \<and> S l k) \<and> agree c ms ms' \<and> (vm_step prog str nm ^^ m') (hi, k, ms') (pf, j, msf)"
    using 1(1,2) 2 by (intro exI conjI) auto
next
  fix i j ms assume "\<exists>k. R i k \<and> S k j"
  then obtain k where k: "R i k" "S k j" by blast
  obtain ms1 where 1: "(vm_step prog str nm)\<^sup>*\<^sup>* (lo, i, ms) (mid, k, ms1)" by (rule runs_complete [OF a k(1)])
  obtain ms2 where 2: "(vm_step prog str nm)\<^sup>*\<^sup>* (mid, k, ms1) (hi, j, ms2)" by (rule runs_complete [OF b k(2)])
  from 1 2 show "\<exists>ms'. (vm_step prog str nm)\<^sup>*\<^sup>* (lo, i, ms) (hi, j, ms')" by (intro exI) (rule rtranclp_trans)
qed

text \<open>A run that leaves its first address makes a step there.\<close>

lemma first_step:
  assumes "(vm_step prog str nm ^^ m) (lo, i, ms) (pf, j, msf)" "pf \<noteq> lo"
  obtains m' p k ms' where "m = Suc m'" "vm_step prog str nm (lo, i, ms) (p, k, ms')"
    "(vm_step prog str nm ^^ m') (p, k, ms') (pf, j, msf)"
proof (cases m)
  case (Suc m')
  then obtain c where "vm_step prog str nm (lo, i, ms) c" "(vm_step prog str nm ^^ m') c (pf, j, msf)"
    using assms(1) by (metis relpowp_Suc_D2)
  then show ?thesis using that Suc by (cases c) blast
qed (use assms in simp)

section \<open>The pieces of code\<close>

lemma runs_chr:
  assumes lo: "lo < length prog" "accepts (prog ! lo) = P" "\<And>i. eps_pcs prog str i lo = []"
  shows "runs prog str nm len lo (lo + 1) c (\<lambda>i k. i < len \<and> P (str i) \<and> k = Suc i)"
proof (rule runsI)
  fix m i ms pf j msf
  assume run: "(vm_step prog str nm ^^ m) (lo, i, ms) (pf, j, msf)" and out: "pf < lo \<or> lo + 1 \<le> pf" "j \<le> len"
  have "pf \<noteq> lo" using out(1) by auto
  from run this obtain m' p k ms' where m: "m = Suc m'" "vm_step prog str nm (lo, i, ms) (p, k, ms')"
    "(vm_step prog str nm ^^ m') (p, k, ms') (pf, j, msf)" by (rule first_step)
  have p: "p = lo + 1" "k = Suc i" "ms' = ms" "P (str i)"
    using m(2) by (auto elim!: vm_stepE simp: assms)
  moreover have "i < len" using steps_pos_mono [OF m(3)] out(2) p by simp
  ultimately show "\<exists>k ms' m'. m' \<le> m \<and> (i < len \<and> P (str i) \<and> k = Suc i) \<and> agree c ms ms' \<and>
      (vm_step prog str nm ^^ m') (lo + 1, k, ms') (pf, j, msf)"
    using m by (intro exI [of _ k] exI [of _ ms'] exI [of _ m']) simp
next
  fix i k ms assume "i < len \<and> P (str i) \<and> k = Suc i"
  then have "vm_step prog str nm (lo, i, ms) (lo + 1, k, ms)"
    using vm_step.chr [of lo prog str i nm ms] assms(1,2) by simp
  then show "\<exists>ms'. (vm_step prog str nm)\<^sup>*\<^sup>* (lo, i, ms) (lo + 1, k, ms')" by blast
qed

text \<open>An instruction without a character: its successors continue at the same position.\<close>

lemma eps_first:
  assumes "(vm_step prog str nm ^^ m) (lo, i, ms) (pf, j, msf)" "pf \<noteq> lo" "\<And>c. \<not> accepts (prog ! lo) c"
  obtains m' p where "m = Suc m'" "p \<in> set (eps_pcs prog str i lo)"
    "(vm_step prog str nm ^^ m') (p, i, after_save nm (prog ! lo) i ms) (pf, j, msf)"
proof -
  from assms(1,2) obtain m' p k ms' where m: "m = Suc m'" "vm_step prog str nm (lo, i, ms) (p, k, ms')"
    "(vm_step prog str nm ^^ m') (p, k, ms') (pf, j, msf)" by (rule first_step)
  have "p \<in> set (eps_pcs prog str i lo)" "k = i" "ms' = after_save nm (prog ! lo) i ms"
    using m(2) by (auto elim!: vm_stepE simp: assms(3))
  then show ?thesis using that m by blast
qed

lemma eps_step:
  "lo < length prog \<Longrightarrow> p \<in> set (eps_pcs prog str i lo) \<Longrightarrow>
    (vm_step prog str nm)\<^sup>*\<^sup>* (lo, i, ms) (p, i, after_save nm (prog ! lo) i ms)"
  by (intro r_into_rtranclp vm_step.eps)

lemma runs_assert:
  assumes lo: "lo < length prog" "\<And>c. \<not> accepts (prog ! lo) c" "\<And>i ms. after_save nm (prog ! lo) i ms = ms"
    and e: "\<And>i. eps_pcs prog str i lo = (if P i then [lo + 1] else [])"
  shows "runs prog str nm len lo (lo + 1) c (\<lambda>i k. i \<le> len \<and> P i \<and> k = i)"
proof (rule runsI)
  fix m i ms pf j msf
  assume run: "(vm_step prog str nm ^^ m) (lo, i, ms) (pf, j, msf)" and out: "pf < lo \<or> lo + 1 \<le> pf" "j \<le> len"
  have "pf \<noteq> lo" using out(1) by auto
  from run this lo(2) obtain m' p where m: "m = Suc m'" "p \<in> set (eps_pcs prog str i lo)"
    "(vm_step prog str nm ^^ m') (p, i, after_save nm (prog ! lo) i ms) (pf, j, msf)" by (rule eps_first)
  have "P i" "p = lo + 1" using m(2) e by (auto split: if_splits)
  moreover have "i \<le> len" using steps_pos_mono [OF run] out(2) by simp
  ultimately show "\<exists>k ms' m'. m' \<le> m \<and> (i \<le> len \<and> P i \<and> k = i) \<and> agree c ms ms' \<and>
      (vm_step prog str nm ^^ m') (lo + 1, k, ms') (pf, j, msf)"
    using m lo(3) by (intro exI [of _ i] exI [of _ ms] exI [of _ m']) simp
next
  fix i k ms assume "i \<le> len \<and> P i \<and> k = i"
  then show "\<exists>ms'. (vm_step prog str nm)\<^sup>*\<^sup>* (lo, i, ms) (lo + 1, k, ms')"
    using eps_step [OF lo(1), of "lo + 1" str i] e [of i] by auto
qed

text \<open>A split: two ways on, in either order.\<close>

lemma split_first:
  assumes "(vm_step prog str nm ^^ m) (lo, i, ms) (pf, j, msf)" "pf \<noteq> lo" "prog ! lo = mk_split g a b"
  obtains m' p where "m = Suc m'" "p = a \<or> p = b" "(vm_step prog str nm ^^ m') (p, i, ms) (pf, j, msf)"
proof -
  have na: "\<not> accepts (prog ! lo) c" for c by (simp add: assms(3) mk_split_def)
  from assms(1,2) na obtain m' p where m: "m = Suc m'" "p \<in> set (eps_pcs prog str i lo)"
    "(vm_step prog str nm ^^ m') (p, i, after_save nm (prog ! lo) i ms) (pf, j, msf)" by (rule eps_first)
  then show ?thesis using that by (auto simp: assms(3) mk_split_def eps_pcs.simps after_save_def split: if_splits)
qed

lemma split_step:
  assumes "lo < length prog" "prog ! lo = mk_split g a b"
  shows "(vm_step prog str nm)\<^sup>*\<^sup>* (lo, i, ms) (a, i, ms)" "(vm_step prog str nm)\<^sup>*\<^sup>* (lo, i, ms) (b, i, ms)"
  using eps_step [of lo prog _ str i nm ms] assms
  by (auto simp: mk_split_def eps_pcs.simps after_save_def split: if_splits)

lemma jump_first:
  assumes "(vm_step prog str nm ^^ m) (lo, i, ms) (pf, j, msf)" "pf \<noteq> lo" "prog ! lo = I_JUMP t"
  obtains m' where "m = Suc m'" "(vm_step prog str nm ^^ m') (t, i, ms) (pf, j, msf)"
proof -
  have na: "\<not> accepts (prog ! lo) c" for c by (simp add: assms(3))
  from assms(1,2) na obtain m' p where "m = Suc m'" "p \<in> set (eps_pcs prog str i lo)"
    "(vm_step prog str nm ^^ m') (p, i, after_save nm (prog ! lo) i ms) (pf, j, msf)" by (rule eps_first)
  then show ?thesis using that by (auto simp: assms(3) eps_pcs.simps after_save_def)
qed

lemma jump_step: "lo < length prog \<Longrightarrow> prog ! lo = I_JUMP t \<Longrightarrow> (vm_step prog str nm)\<^sup>*\<^sup>* (lo, i, ms) (t, i, ms)"
  using eps_step [of lo prog t str i nm ms] by (simp add: eps_pcs.simps after_save_def)

lemma runs_alt:
  assumes lo: "lo < length prog" "prog ! lo = I_SPLIT (lo + 1) (mid + 1)" and a: "runs prog str nm len (lo + 1) mid c R"
    and mid: "mid < length prog" "prog ! mid = I_JUMP hi" "lo < mid" "mid < hi"
    and b: "runs prog str nm len (mid + 1) hi c' S" and c: "c \<le> c'"
  shows "runs prog str nm len lo hi c (\<lambda>i j. R i j \<or> S i j)"
proof (rule runsI)
  have sp: "prog ! lo = mk_split True (lo + 1) (mid + 1)" by (simp add: lo mk_split_def)
  fix m i ms pf j msf
  assume run: "(vm_step prog str nm ^^ m) (lo, i, ms) (pf, j, msf)" and out: "pf < lo \<or> hi \<le> pf" "j \<le> len"
  have out': "pf \<noteq> lo" "pf < lo + 1 \<or> mid \<le> pf" "pf < mid + 1 \<or> hi \<le> pf" "pf \<noteq> mid" using out(1) mid by auto
  from run out'(1) sp obtain m1 p where p: "m = Suc m1" "p = lo + 1 \<or> p = mid + 1"
    "(vm_step prog str nm ^^ m1) (p, i, ms) (pf, j, msf)" by (rule split_first)
  from p(2) show "\<exists>k ms' m'. m' \<le> m \<and> (R i k \<or> S i k) \<and> agree c ms ms' \<and> (vm_step prog str nm ^^ m') (hi, k, ms') (pf, j, msf)"
  proof
    assume "p = lo + 1"
    then obtain k ms' m2 where 2: "m2 \<le> m1" "R i k" "agree c ms ms'" "(vm_step prog str nm ^^ m2) (mid, k, ms') (pf, j, msf)"
      using p(3) by (metis runs_sound [OF a _ out'(2) out(2)])
    from 2(4) out'(4) mid(2) obtain m3 where "m2 = Suc m3" "(vm_step prog str nm ^^ m3) (hi, k, ms') (pf, j, msf)"
      by (rule jump_first)
    then show ?thesis using 2 p(1) by (intro exI [of _ k] exI [of _ ms'] exI [of _ m3]) simp
  next
    assume "p = mid + 1"
    then obtain k ms' m2 where 2: "m2 \<le> m1" "S i k" "agree c' ms ms'" "(vm_step prog str nm ^^ m2) (hi, k, ms') (pf, j, msf)"
      using p(3) by (metis runs_sound [OF b _ out'(3) out(2)])
    then show ?thesis using p(1) agree_mono [OF 2(3) c] by (intro exI [of _ k] exI [of _ ms'] exI [of _ m2]) simp
  qed
next
  have sp: "prog ! lo = mk_split True (lo + 1) (mid + 1)" by (simp add: lo mk_split_def)
  fix i k ms assume "R i k \<or> S i k"
  then show "\<exists>ms'. (vm_step prog str nm)\<^sup>*\<^sup>* (lo, i, ms) (hi, k, ms')"
  proof
    assume "R i k"
    then obtain ms' where "(vm_step prog str nm)\<^sup>*\<^sup>* (lo + 1, i, ms) (mid, k, ms')" by (rule runs_complete [OF a])
    then show ?thesis using split_step(1) [OF lo(1) sp] jump_step [OF mid(1,2)] by (meson rtranclp_trans)
  next
    assume "S i k"
    then obtain ms' where "(vm_step prog str nm)\<^sup>*\<^sup>* (mid + 1, i, ms) (hi, k, ms')" by (rule runs_complete [OF b])
    then show ?thesis using split_step(2) [OF lo(1) sp] by (meson rtranclp_trans)
  qed
qed

lemma runs_optional:
  assumes lo: "lo < length prog" "prog ! lo = mk_split g (lo + 1) hi" "lo < hi" and a: "runs prog str nm len (lo + 1) hi c R"
  shows "runs prog str nm len lo hi c (\<lambda>i j. i \<le> len \<and> i = j \<or> R i j)"
proof (rule runsI)
  fix m i ms pf j msf
  assume run: "(vm_step prog str nm ^^ m) (lo, i, ms) (pf, j, msf)" and out: "pf < lo \<or> hi \<le> pf" "j \<le> len"
  have out': "pf \<noteq> lo" "pf < lo + 1 \<or> hi \<le> pf" using out(1) lo by auto
  from run out'(1) lo(2) obtain m1 p where p: "m = Suc m1" "p = lo + 1 \<or> p = hi"
    "(vm_step prog str nm ^^ m1) (p, i, ms) (pf, j, msf)" by (rule split_first)
  from p(2) show "\<exists>k ms' m'. m' \<le> m \<and> (i \<le> len \<and> i = k \<or> R i k) \<and> agree c ms ms' \<and> (vm_step prog str nm ^^ m') (hi, k, ms') (pf, j, msf)"
  proof
    assume "p = lo + 1"
    then obtain k ms' m2 where 2: "m2 \<le> m1" "R i k" "agree c ms ms'" "(vm_step prog str nm ^^ m2) (hi, k, ms') (pf, j, msf)"
      using p(3) by (metis runs_sound [OF a _ out'(2) out(2)])
    then show ?thesis using p(1) by (intro exI [of _ k] exI [of _ ms'] exI [of _ m2]) simp
  next
    assume "p = hi"
    moreover have "i \<le> len" using steps_pos_mono [OF run] out(2) by simp
    ultimately show ?thesis using p(1,3) by (intro exI [of _ i] exI [of _ ms] exI [of _ m1]) simp
  qed
next
  fix i k ms assume "i \<le> len \<and> i = k \<or> R i k"
  then show "\<exists>ms'. (vm_step prog str nm)\<^sup>*\<^sup>* (lo, i, ms) (hi, k, ms')"
  proof
    assume "R i k"
    then obtain ms' where "(vm_step prog str nm)\<^sup>*\<^sup>* (lo + 1, i, ms) (hi, k, ms')" by (rule runs_complete [OF a])
    then show ?thesis using split_step(1) [OF lo(1,2)] by (meson rtranclp_trans)
  qed (use split_step [OF lo(1,2)] in blast)
qed

section \<open>Repetition\<close>

primrec riter :: "nat \<Rightarrow> (nat \<Rightarrow> nat \<Rightarrow> bool) \<Rightarrow> nat \<Rightarrow> nat \<Rightarrow> nat \<Rightarrow> bool" where
  "riter len R 0 i j = (i \<le> len \<and> i = j)"
| "riter len R (Suc n) i j = (\<exists>k. R i k \<and> riter len R n k j)"

lemma re_iter_riter: "re_iter cls s q n i j = riter (length s) (re_match cls s q) n i j"
  by (induction n arbitrary: i) auto

lemma riter_le: "(\<And>i k. R i k \<Longrightarrow> i \<le> len) \<Longrightarrow> riter len R n i j \<Longrightarrow> i \<le> len"
  by (cases n) auto

lemma riter_add:
  assumes "\<And>i k. R i k \<Longrightarrow> i \<le> len"
  shows "riter len R (m + n) i j \<longleftrightarrow> (\<exists>k. riter len R m i k \<and> riter len R n k j)"
  by (induction m arbitrary: i) (auto dest: riter_le [OF assms, rotated])

lemma riter_snoc: "riter len R n i k \<Longrightarrow> R k j \<Longrightarrow> j \<le> len \<Longrightarrow> riter len R (Suc n) i j"
  by (induction n arbitrary: i) auto

lemma runs_reps:
  assumes "\<And>l. code_at prog l (f l) \<Longrightarrow> runs prog str nm len l (l + k) c R" "\<And>l. length (f l) = k"
    "code_at prog lo (reps f k lo n)"
  shows "runs prog str nm len lo (lo + n * k) c (riter len R n)"
  using assms(3)
proof (induction n arbitrary: lo)
  case 0
  then show ?case using runs_empty by simp
next
  case (Suc n)
  have "runs prog str nm len lo (lo + k) c R" using Suc.prems assms(1) by simp
  moreover have "runs prog str nm len (lo + k) (lo + k + n * k) c (riter len R n)"
    using Suc.prems Suc.IH [of "lo + k"] assms(2) by simp
  ultimately show ?case using runs_seq by (fastforce simp: add.assoc)
qed

lemma runs_opts:
  assumes "\<And>l. code_at prog l (f l) \<Longrightarrow> runs prog str nm len l (l + k) c R" "\<And>l. length (f l) = k"
    "\<And>i j. R i j \<Longrightarrow> i \<le> len" "code_at prog lo (opts g f k lo n)"
  shows "runs prog str nm len lo (lo + n * (k + 1)) c (\<lambda>i j. \<exists>m \<le> n. riter len R m i j)"
  using assms(4)
proof (induction n arbitrary: lo)
  case 0
  then show ?case using runs_empty by simp
next
  case (Suc n)
  have "runs prog str nm len (lo + 1) (lo + 1 + k) c R" by (rule assms(1)) (use Suc.prems in simp)
  then have 1: "runs prog str nm len lo (lo + 1 + k) c (\<lambda>i j. i \<le> len \<and> i = j \<or> R i j)"
    using Suc.prems by (intro runs_optional) auto
  have 2: "runs prog str nm len (lo + 1 + k) (lo + 1 + k + n * (k + 1)) c (\<lambda>i j. \<exists>m \<le> n. riter len R m i j)"
    using Suc.prems assms(2) by (intro Suc.IH) simp
  have iff: "(\<exists>l. (i \<le> len \<and> i = l \<or> R i l) \<and> (\<exists>m \<le> n. riter len R m l j)) \<longleftrightarrow> (\<exists>m \<le> Suc n. riter len R m i j)" for i j
  proof
    assume "\<exists>m \<le> Suc n. riter len R m i j"
    then obtain m where m: "m \<le> Suc n" "riter len R m i j" by blast
    show "\<exists>l. (i \<le> len \<and> i = l \<or> R i l) \<and> (\<exists>m \<le> n. riter len R m l j)"
    proof (cases m)
      case 0
      then have "i \<le> len \<and> i = j" "riter len R 0 j j" using m(2) by auto
      then show ?thesis by blast
    qed (use m in auto)
  next
    assume "\<exists>l. (i \<le> len \<and> i = l \<or> R i l) \<and> (\<exists>m \<le> n. riter len R m l j)"
    then show "\<exists>m \<le> Suc n. riter len R m i j" by (metis Suc_le_mono le_SucI riter.simps(2))
  qed
  have "runs prog str nm len lo (lo + 1 + k + n * (k + 1)) c (\<lambda>i j. \<exists>m \<le> Suc n. riter len R m i j)"
    by (rule runs_cong [OF runs_seq [OF 1 2] iff]) simp_all
  then show ?case by (simp add: algebra_simps)
qed

lemma runs_star:
  assumes lo: "lo < length prog" "prog ! lo = mk_split g (lo + 1) (mid + 1)" and a: "runs prog str nm len (lo + 1) mid c R"
    and mid: "mid < length prog" "prog ! mid = I_JUMP lo" "lo < mid"
  shows "runs prog str nm len lo (mid + 1) c (\<lambda>i j. \<exists>n. riter len R n i j)"
proof (rule runsI)
  fix m i ms pf j msf
  assume "(vm_step prog str nm ^^ m) (lo, i, ms) (pf, j, msf)" and out: "pf < lo \<or> mid + 1 \<le> pf" "j \<le> len"
  then show "\<exists>k ms' m'. m' \<le> m \<and> (\<exists>n. riter len R n i k) \<and> agree c ms ms' \<and> (vm_step prog str nm ^^ m') (mid + 1, k, ms') (pf, j, msf)"
  proof (induction m arbitrary: i ms rule: less_induct)
    case (less m)
    have out': "pf \<noteq> lo" "pf < lo + 1 \<or> mid \<le> pf" "pf \<noteq> mid" using out(1) mid by auto
    from less.prems(1) out'(1) lo(2) obtain m1 p where p: "m = Suc m1" "p = lo + 1 \<or> p = mid + 1"
      "(vm_step prog str nm ^^ m1) (p, i, ms) (pf, j, msf)" by (rule split_first)
    from p(2) show ?case
    proof
      assume "p = lo + 1"
      then obtain k ms1 m2 where 2: "m2 \<le> m1" "R i k" "agree c ms ms1" "(vm_step prog str nm ^^ m2) (mid, k, ms1) (pf, j, msf)"
        using p(3) by (metis runs_sound [OF a _ out'(2) out(2)])
      from 2(4) out'(3) mid(2) obtain m3 where 3: "m2 = Suc m3" "(vm_step prog str nm ^^ m3) (lo, k, ms1) (pf, j, msf)"
        by (rule jump_first)
      have "m3 < m" using 2(1) 3(1) p(1) by simp
      from less.IH [OF this 3(2) out] obtain k' ms' m' n where 4: "m' \<le> m3" "riter len R n k k'" "agree c ms1 ms'"
        "(vm_step prog str nm ^^ m') (mid + 1, k', ms') (pf, j, msf)" by blast
      have "riter len R (Suc n) i k'" using 2(2) 4(2) by auto
      then have "\<exists>n. riter len R n i k'" by blast
      moreover have "m' \<le> m" using 4(1) \<open>m3 < m\<close> by simp
      ultimately show ?thesis using 4(4) agree_trans [OF 2(3) 4(3)] by blast
    next
      assume "p = mid + 1"
      moreover have "riter len R 0 i i" using steps_pos_mono [OF less.prems(1)] out(2) by simp
      moreover have "m1 \<le> m" using p(1) by simp
      ultimately show ?thesis using p(3) agree_refl by blast
    qed
  qed
next
  fix i k ms assume "\<exists>n. riter len R n i k"
  then obtain n where "riter len R n i k" by blast
  then show "\<exists>ms'. (vm_step prog str nm)\<^sup>*\<^sup>* (lo, i, ms) (mid + 1, k, ms')"
  proof (induction n arbitrary: i ms)
    case 0
    then have "i = k" by simp
    then show ?case using split_step(2) [OF lo, of str nm i ms] by blast
  next
    case (Suc n)
    then obtain l where l: "R i l" "riter len R n l k" by auto
    obtain ms1 where 1: "(vm_step prog str nm)\<^sup>*\<^sup>* (lo + 1, i, ms) (mid, l, ms1)" by (rule runs_complete [OF a l(1)])
    from Suc.IH [OF l(2)] obtain ms2 where "(vm_step prog str nm)\<^sup>*\<^sup>* (lo, l, ms1) (mid + 1, k, ms2)" by blast
    then show ?case using split_step(1) [OF lo] 1 jump_step [OF mid(1,2)] by (meson rtranclp_trans)
  qed
qed

lemma runs_plus:
  assumes a: "runs prog str nm len lo mid c R" and mid: "mid < length prog" "prog ! mid = mk_split g lo (mid + 1)" "lo \<le> mid"
    and le: "\<And>i k. R i k \<Longrightarrow> k \<le> len"
  shows "runs prog str nm len lo (mid + 1) c (\<lambda>i j. \<exists>n. riter len R (Suc n) i j)"
proof (rule runsI)
  fix m i ms pf j msf
  assume "(vm_step prog str nm ^^ m) (lo, i, ms) (pf, j, msf)" and out: "pf < lo \<or> mid + 1 \<le> pf" "j \<le> len"
  then show "\<exists>k ms' m'. m' \<le> m \<and> (\<exists>n. riter len R (Suc n) i k) \<and> agree c ms ms' \<and> (vm_step prog str nm ^^ m') (mid + 1, k, ms') (pf, j, msf)"
  proof (induction m arbitrary: i ms rule: less_induct)
    case (less m)
    have out': "pf < lo \<or> mid \<le> pf" "pf \<noteq> mid" using out(1) mid by auto
    obtain k ms1 m1 where 1: "m1 \<le> m" "R i k" "agree c ms ms1" "(vm_step prog str nm ^^ m1) (mid, k, ms1) (pf, j, msf)"
      by (rule runs_sound [OF a less.prems(1) out'(1) out(2)])
    from 1(4) out'(2) mid(2) obtain m2 p where p: "m1 = Suc m2" "p = lo \<or> p = mid + 1"
      "(vm_step prog str nm ^^ m2) (p, k, ms1) (pf, j, msf)" by (rule split_first)
    have m2: "m2 < m" using 1(1) p(1) by simp
    from p(2) show ?case
    proof
      assume "p = lo"
      with p(3) have "(vm_step prog str nm ^^ m2) (lo, k, ms1) (pf, j, msf)" by simp
      from less.IH [OF m2 this out] obtain k' ms' m' n where 4: "m' \<le> m2" "riter len R (Suc n) k k'" "agree c ms1 ms'"
        "(vm_step prog str nm ^^ m') (mid + 1, k', ms') (pf, j, msf)" by blast
      have "riter len R (Suc (Suc n)) i k'" using 1(2) 4(2) by auto
      moreover have "m' \<le> m" using 4(1) m2 by simp
      ultimately show ?thesis using 4(4) agree_trans [OF 1(3) 4(3)] by blast
    next
      assume "p = mid + 1"
      moreover have "riter len R (Suc 0) i k" using 1(2) le by auto
      ultimately show ?thesis using p(3) 1(3) m2 by (meson less_imp_le)
    qed
  qed
next
  fix i k ms assume "\<exists>n. riter len R (Suc n) i k"
  then obtain n where "riter len R (Suc n) i k" by blast
  then show "\<exists>ms'. (vm_step prog str nm)\<^sup>*\<^sup>* (lo, i, ms) (mid + 1, k, ms')"
  proof (induction n arbitrary: i ms)
    case 0
    then have "R i k" by simp
    then obtain ms1 where "(vm_step prog str nm)\<^sup>*\<^sup>* (lo, i, ms) (mid, k, ms1)" by (rule runs_complete [OF a])
    then show ?case using split_step(2) [OF mid(1,2)] by (meson rtranclp_trans)
  next
    case (Suc n)
    then obtain l where l: "R i l" "riter len R (Suc n) l k" by (auto simp del: riter.simps simp: riter.simps(2) [of len R "Suc n"])
    obtain ms1 where 1: "(vm_step prog str nm)\<^sup>*\<^sup>* (lo, i, ms) (mid, l, ms1)" by (rule runs_complete [OF a l(1)])
    from Suc.IH [OF l(2)] obtain ms2 where "(vm_step prog str nm)\<^sup>*\<^sup>* (lo, l, ms1) (mid + 1, k, ms2)" by blast
    then show ?case using split_step(1) [OF mid(1,2)] 1 by (meson rtranclp_trans)
  qed
qed

section \<open>Captures\<close>

lemma save_first:
  assumes "(vm_step prog str nm ^^ m) (lo, i, ms) (pf, j, msf)" "pf \<noteq> lo" "prog ! lo = I_SAVE k"
  obtains m' where "m = Suc m'" "(vm_step prog str nm ^^ m') (lo + 1, i, save_matches nm k i ms) (pf, j, msf)"
proof -
  have na: "\<not> accepts (prog ! lo) c" for c by (simp add: assms(3))
  from assms(1,2) na obtain m' p where "m = Suc m'" "p \<in> set (eps_pcs prog str i lo)"
    "(vm_step prog str nm ^^ m') (p, i, after_save nm (prog ! lo) i ms) (pf, j, msf)" by (rule eps_first)
  then show ?thesis using that by (auto simp: assms(3) eps_pcs.simps after_save_def)
qed

lemma save_step:
  "lo < length prog \<Longrightarrow> prog ! lo = I_SAVE k \<Longrightarrow> (vm_step prog str nm)\<^sup>*\<^sup>* (lo, i, ms) (lo + 1, i, save_matches nm k i ms)"
  using eps_step [of lo prog "lo + 1" str i nm ms] by (simp add: eps_pcs.simps after_save_def)

text \<open>A capture stores where its content starts and ends.\<close>

lemma capture_sound:
  assumes a: "runs prog str nm len (lo + 1) mid (c + 1) R" and at: "prog ! lo = I_SAVE (2 * c)" "prog ! mid = I_SAVE (2 * c + 1)" "lo < mid"
    and run: "(vm_step prog str nm ^^ m) (lo, i, ms) (pf, j, msf)" and out: "pf < lo \<or> mid + 1 \<le> pf" "j \<le> len"
  obtains k ms1 m' where "m' \<le> m" "R i k" "agree (c + 1) (save_matches nm (2 * c) i ms) ms1"
    "(vm_step prog str nm ^^ m') (mid + 1, k, save_matches nm (2 * c + 1) k ms1) (pf, j, msf)"
proof -
  have out': "pf \<noteq> lo" "pf < lo + 1 \<or> mid \<le> pf" "pf \<noteq> mid" using out(1) at(3) by auto
  from run out'(1) at(1) obtain m1 where 1: "m = Suc m1"
    "(vm_step prog str nm ^^ m1) (lo + 1, i, save_matches nm (2 * c) i ms) (pf, j, msf)" by (rule save_first)
  obtain k ms1 m2 where 2: "m2 \<le> m1" "R i k" "agree (c + 1) (save_matches nm (2 * c) i ms) ms1"
    "(vm_step prog str nm ^^ m2) (mid, k, ms1) (pf, j, msf)" by (rule runs_sound [OF a 1(2) out'(2) out(2)])
  from 2(4) out'(3) at(2) obtain m3 where 3: "m2 = Suc m3"
    "(vm_step prog str nm ^^ m3) (mid + 1, k, save_matches nm (2 * c + 1) k ms1) (pf, j, msf)" by (rule save_first)
  have "m3 \<le> m" using 1(1) 2(1) 3(1) by simp
  then show ?thesis by (rule that [OF _ 2(2,3) 3(2)])
qed

lemma runs_capture:
  assumes a: "runs prog str nm len (lo + 1) mid (c + 1) R" and at: "prog ! lo = I_SAVE (2 * c)" "prog ! mid = I_SAVE (2 * c + 1)" "lo < mid"
    and len: "mid < length prog"
  shows "runs prog str nm len lo (mid + 1) c R"
proof (rule runsI)
  fix m i ms pf j msf
  assume run: "(vm_step prog str nm ^^ m) (lo, i, ms) (pf, j, msf)" and out: "pf < lo \<or> mid + 1 \<le> pf" "j \<le> len"
  obtain k ms1 m' where 1: "m' \<le> m" "R i k" "agree (c + 1) (save_matches nm (2 * c) i ms) ms1"
    "(vm_step prog str nm ^^ m') (mid + 1, k, save_matches nm (2 * c + 1) k ms1) (pf, j, msf)"
    by (rule capture_sound [OF a at run out])
  have 2: "agree c ms ms1" by (rule agree_trans [OF agree_save agree_mono [OF 1(3)]]) simp_all
  have "agree c ms (save_matches nm (2 * c + 1) k ms1)" by (rule agree_trans [OF 2 agree_save]) simp
  then show "\<exists>k ms' m'. m' \<le> m \<and> R i k \<and> agree c ms ms' \<and> (vm_step prog str nm ^^ m') (mid + 1, k, ms') (pf, j, msf)"
    using 1 by blast
next
  fix i k ms assume "R i k"
  obtain ms1 where "(vm_step prog str nm)\<^sup>*\<^sup>* (lo + 1, i, save_matches nm (2 * c) i ms) (mid, k, ms1)"
    by (rule runs_complete [OF a \<open>R i k\<close>])
  moreover have "lo < length prog" using at(3) len by simp
  ultimately show "\<exists>ms'. (vm_step prog str nm)\<^sup>*\<^sup>* (lo, i, ms) (mid + 1, k, ms')"
    using save_step [of lo prog] save_step [of mid prog] at(1,2) len by (meson rtranclp_trans)
qed

section \<open>Nodes\<close>

definition class_sem :: "u8 list \<Rightarrow> u8 \<Rightarrow> bool" where
  "class_sem t c = cregex_char_class_contains (the (compile_char_class t)) (schar c)"

lemma re_match_le: "re_match cls s n i k \<Longrightarrow> i \<le> k \<and> k \<le> length s"
  and re_iter_le: "re_iter cls s n m i k \<Longrightarrow> i \<le> k \<and> k \<le> length s"
  by (induction rule: re_match_re_iter.inducts) auto

lemma ncaps_ge: "c \<le> ncaps n c"
  by (induction n arbitrary: c) (auto intro: le_trans Suc_leD)

lemma cstring_nth: "i < length s \<Longrightarrow> cstring s after i = s ! i" "cstring s after (length s) = 0"
  by (simp_all add: cstring_def mem_of_def nth_append)

lemma cstring_zero_iff: "0 \<notin> set s \<Longrightarrow> i \<le> length s \<Longrightarrow> cstring s after i = 0 \<longleftrightarrow> i = length s"
  by (metis cstring_nth le_neq_implies_less nth_mem)

lemma quant_split:
  "re_match cls s (QUANTIFIER lo hi g q) i j \<longleftrightarrow>
    (\<exists>n. riter (length s) (re_match cls s q) n i j \<and> lo \<le> int n \<and> (hi = - 1 \<or> int n \<le> hi))"
  by (auto simp: re_iter_riter)

lemma re_match_ends: "re_match cls s q i k \<Longrightarrow> i \<le> length s" "re_match cls s q i k \<Longrightarrow> k \<le> length s"
  using re_match_le le_trans by blast+

lemma riter_add_match:
  "riter (length s) (re_match cls s q) (m + n) i j \<longleftrightarrow>
    (\<exists>k. riter (length s) (re_match cls s q) m i k \<and> riter (length s) (re_match cls s q) n k j)"
  by (rule riter_add) (rule re_match_ends(1))

lemma quant_bounded:
  assumes "0 \<le> mn" "mn < mx"
  shows "(\<exists>k. riter (length s) (re_match cls s q) (nat mn) i k \<and> (\<exists>m \<le> nat (mx - mn). riter (length s) (re_match cls s q) m k j)) \<longleftrightarrow>
    re_match cls s (QUANTIFIER mn mx g q) i j" (is "?l \<longleftrightarrow> ?r")
proof
  assume ?l
  then obtain m where "m \<le> nat (mx - mn)" "riter (length s) (re_match cls s q) (nat mn + m) i j"
    using riter_add_match by blast
  then show ?r unfolding quant_split using assms by (intro exI [of _ "nat mn + m"]) auto
next
  assume ?r
  then obtain n where n: "riter (length s) (re_match cls s q) n i j" "mn \<le> int n" "int n \<le> mx"
    unfolding quant_split using assms by auto
  define m where "m = n - nat mn"
  have "n = nat mn + m" "m \<le> nat (mx - mn)" using n assms by (auto simp: m_def)
  then show ?l using n(1) riter_add_match by blast
qed

lemma quant_exact:
  assumes "0 \<le> mn"
  shows "riter (length s) (re_match cls s q) (nat mn) i j \<longleftrightarrow> re_match cls s (QUANTIFIER mn mn g q) i j"
proof -
  have "mn \<le> int n \<and> (mn = - 1 \<or> int n \<le> mn) \<longleftrightarrow> n = nat mn" for n using assms by auto
  then show ?thesis unfolding quant_split by simp
qed

lemma quant_at_least:
  assumes "nat mn = Suc r"
  shows "(\<exists>k. riter (length s) (re_match cls s q) r i k \<and> (\<exists>n. riter (length s) (re_match cls s q) (Suc n) k j)) \<longleftrightarrow>
    re_match cls s (QUANTIFIER mn (- 1) g q) i j" (is "?l \<longleftrightarrow> ?r")
proof
  assume ?l
  then obtain n where "riter (length s) (re_match cls s q) (r + Suc n) i j" using riter_add_match by blast
  then show ?r unfolding quant_split using assms by (intro exI [of _ "r + Suc n"]) (auto simp del: riter.simps)
next
  assume ?r
  then obtain n where n: "riter (length s) (re_match cls s q) n i j" "mn \<le> int n" unfolding quant_split by auto
  have "n = r + Suc (n - Suc r)" using n assms by simp
  then show ?l using n(1) riter_add_match by metis
qed

lemma reps_snoc: "reps f k l (Suc r) = reps f k l r @ f (l + r * k)"
proof (induction r arbitrary: l)
  case (Suc r)
  have "reps f k l (Suc (Suc r)) = f l @ reps f k (l + k) r @ f (l + k + r * k)"
    by (simp only: reps.simps(2) [of f k l "Suc r"] Suc)
  then show ?case by (simp add: add.assoc)
qed simp

lemma runs_quantifier:
  assumes wf: "0 \<le> mn" "mx = - 1 \<or> mn \<le> mx" and code: "code_at prog lo (frag (QUANTIFIER mn mx g q) lo c)"
    and q: "\<And>l. code_at prog l (frag q l c) \<Longrightarrow> runs prog str nm (length s) l (l + isize q) c (re_match cls s q)"
  shows "runs prog str nm (length s) lo (lo + isize (QUANTIFIER mn mx g q)) c (re_match cls s (QUANTIFIER mn mx g q))"
proof -
  let ?R = "re_match cls s q" and ?n = "length s" and ?k = "isize q" and ?a = "nat mn"
  have len: "length (frag q l c) = ?k" for l by simp
  have reps: "runs prog str nm ?n lo (lo + r * ?k) c (riter ?n ?R r)" if "code_at prog lo (reps (\<lambda>l. frag q l c) ?k lo r)" for r
    by (rule runs_reps [OF q len that])
  have code1: "code_at prog lo (reps (\<lambda>l. frag q l c) ?k lo ?a)" using code by simp
  consider "mx > mn" | "mx = mn" | "mx = - 1" "mn = 0" | "mx = - 1" "mn > 0" using wf by linarith
  then show ?thesis
  proof cases
    case 1
    let ?m = "lo + ?a * ?k"
    have code2: "code_at prog ?m (opts g (\<lambda>l. frag q l c) ?k ?m (nat (mx - mn)))"
      using code 1 by (simp add: length_reps)
    have "runs prog str nm ?n lo (?m + nat (mx - mn) * (?k + 1)) c
        (\<lambda>i j. \<exists>k. riter ?n ?R ?a i k \<and> (\<exists>m \<le> nat (mx - mn). riter ?n ?R m k j))"
      by (rule runs_seq [OF reps [OF code1] runs_opts [OF q len re_match_ends(1) code2]]) simp_all
    from runs_cong [OF this quant_bounded [OF wf(1) 1]] show ?thesis using 1 by (simp add: add.assoc del: re_match_simps)
  next
    case 2
    from runs_cong [OF reps [OF code1] quant_exact [OF wf(1)]] show ?thesis using 2 wf by (simp del: re_match_simps)
  next
    case 3
    have inner: "runs prog str nm ?n (lo + 1) (lo + 1 + ?k) c ?R" by (rule q) (use code 3 in simp)
    have star: "runs prog str nm ?n lo (lo + 1 + ?k + 1) c (\<lambda>i j. \<exists>n. riter ?n ?R n i j)"
      by (rule runs_star [OF _ _ inner]) (use code 3 in simp_all)
    have "runs prog str nm ?n lo (lo + 1 + ?k + 1) c (re_match cls s (QUANTIFIER mn mx g q))"
      by (rule runs_cong [OF star]) (simp add: 3 quant_split del: re_match_simps)
    then show ?thesis using 3 by (simp del: re_match_simps)
  next
    case 4
    define r where "r = ?a - 1"
    have a: "?a = Suc r" using 4 by (simp add: r_def)
    let ?l = "lo + r * ?k"
    have codes: "code_at prog lo (reps (\<lambda>l. frag q l c) ?k lo r)" "code_at prog ?l (frag q ?l c)"
      using code1 by (simp_all add: a reps_snoc length_reps del: reps.simps)
    have mid: "?l + ?k < length prog" "prog ! (?l + ?k) = mk_split g ?l (?l + ?k + 1)"
      using code 4 by (simp_all add: a length_reps add_ac del: reps.simps)
    have "runs prog str nm ?n lo (?l + ?k + 1) c (\<lambda>i j. \<exists>k. riter ?n ?R r i k \<and> (\<exists>n. riter ?n ?R (Suc n) k j))"
      by (rule runs_seq [OF reps [OF codes(1)] runs_plus [OF q [OF codes(2)] mid _ re_match_ends(2)]]) simp_all
    from runs_cong [OF this quant_at_least [OF a]] show ?thesis using 4 a by (simp add: add_ac del: re_match_simps)
  qed
qed

lemma runs_eqI:
  "runs prog str nm len lo hi c R \<Longrightarrow> hi = hi' \<Longrightarrow> (\<And>i k. R i k = R' i k) \<Longrightarrow> runs prog str nm len lo hi' c R'"
  by (simp add: runs_def)

lemma runs_chr_node:
  assumes "code_at prog lo [i]" "\<And>j. eps_pcs prog (cstring s after) j lo = []"
    "\<And>j k. R j k \<longleftrightarrow> j < length s \<and> accepts i (s ! j) \<and> k = Suc j"
  shows "runs prog (cstring s after) nm (length s) lo (lo + 1) c R"
proof (rule runs_cong [OF runs_chr])
  show "lo < length prog" "accepts (prog ! lo) = accepts i" using assms(1) by auto
  show "(j < length s \<and> accepts i (cstring s after j) \<and> k = Suc j) = R j k" for j k
    by (auto simp: assms(3) cstring_nth)
qed (rule assms(2))

lemma runs_node:
  assumes "0 \<notin> set s"
  shows "node_wf n \<Longrightarrow> code_at prog lo (frag n lo c) \<Longrightarrow>
    runs prog (cstring s after) nm (length s) lo (lo + isize n) c (re_match class_sem s n)"
proof (induction n arbitrary: lo c)
  case EPSILON
  show ?case by (rule runs_eqI [OF runs_empty]) auto
next
  case (CHARACTER ch)
  have "runs prog (cstring s after) nm (length s) lo (lo + 1) c (re_match class_sem s (CHARACTER ch))"
    by (rule runs_chr_node [where i = "I_CHARACTER ch"]) (use CHARACTER in \<open>auto simp: eps_pcs.simps\<close>)
  then show ?case by (rule runs_eqI) simp_all
next
  case ANY_CHARACTER
  have nz: "s ! i \<noteq> 0" if "i < length s" for i using assms that by (metis nth_mem)
  have "runs prog (cstring s after) nm (length s) lo (lo + 1) c (re_match class_sem s ANY_CHARACTER)"
    by (rule runs_chr_node [where i = I_ANY_CHARACTER]) (use ANY_CHARACTER nz in \<open>auto simp: eps_pcs.simps\<close>)
  then show ?case by (rule runs_eqI) simp_all
next
  case (CHARACTER_CLASS t)
  have "runs prog (cstring s after) nm (length s) lo (lo + 1) c (re_match class_sem s (CHARACTER_CLASS t))"
    by (rule runs_chr_node [where i = "I_CHARACTER_CLASS (the (compile_char_class t))"])
      (use CHARACTER_CLASS in \<open>auto simp: eps_pcs.simps class_sem_def\<close>)
  then show ?case by (rule runs_eqI) simp_all
next
  case (CHARACTER_CLASS_NEGATED t)
  have "runs prog (cstring s after) nm (length s) lo (lo + 1) c (re_match class_sem s (CHARACTER_CLASS_NEGATED t))"
    by (rule runs_chr_node [where i = "I_CHARACTER_CLASS_NEGATED (the (compile_char_class t))"])
      (use CHARACTER_CLASS_NEGATED in \<open>auto simp: eps_pcs.simps class_sem_def\<close>)
  then show ?case by (rule runs_eqI) simp_all
next
  case (CONCATENATION a b)
  have "runs prog (cstring s after) nm (length s) lo (lo + isize a + isize b) c
      (\<lambda>i j. \<exists>k. re_match class_sem s a i k \<and> re_match class_sem s b k j)"
    by (rule runs_seq [OF CONCATENATION.IH(1) CONCATENATION.IH(2) [where c = "ncaps a c"]])
      (use CONCATENATION.prems ncaps_ge in auto)
  then show ?case by (rule runs_eqI) auto
next
  case (ALTERNATION a b)
  have "runs prog (cstring s after) nm (length s) lo (lo + 1 + isize a + 1 + isize b) c
      (\<lambda>i j. re_match class_sem s a i j \<or> re_match class_sem s b i j)"
    by (rule runs_alt [OF _ _ ALTERNATION.IH(1) _ _ _ _ ALTERNATION.IH(2) [where c = "ncaps a c"]])
      (use ALTERNATION.prems ncaps_ge in auto)
  then show ?case by (rule runs_eqI) auto
next
  case (QUANTIFIER mn mx g q)
  show ?case by (rule runs_quantifier [OF _ _ QUANTIFIER.prems(2) QUANTIFIER.IH]) (use QUANTIFIER.prems in auto)
next
  case ANCHOR_BEGIN
  then show ?case
    by (intro runs_eqI [OF runs_assert [where P = "\<lambda>i. i = 0"]]) (auto simp: eps_pcs.simps after_save_def)
next
  case ANCHOR_END
  then show ?case
    by (intro runs_eqI [OF runs_assert [where P = "\<lambda>i. cstring s after i = 0"]])
      (auto simp: eps_pcs.simps after_save_def cstring_zero_iff [OF assms])
next
  case (CAPTURE a)
  have "runs prog (cstring s after) nm (length s) lo (lo + 1 + isize a + 1) c (re_match class_sem s a)"
    by (rule runs_capture [OF CAPTURE.IH]) (use CAPTURE.prems in auto)
  then show ?case by (rule runs_eqI) auto
qed

section \<open>The engine\<close>

text \<open>
  What the engine looks for: the piece from \<open>i\<close> to \<open>j\<close> matches the pattern, and a pattern that the compiler takes for
  anchored matches at the start. The second condition follows from the first (\<open>occurs_iff\<close> below) unless an optional
  repetition covers an anchor; then matches are missed (\<open>optional_anchor_missed\<close>).
\<close>

definition occurs :: "u8 list \<Rightarrow> cregex_node \<Rightarrow> nat \<Rightarrow> nat \<Rightarrow> bool" where
  "occurs s n i j \<longleftrightarrow> re_match class_sem s n i j \<and> (node_is_anchored n \<longrightarrow> i = 0)"

definition the_code :: "cregex_node \<Rightarrow> cregex_program" where
  "the_code n = frag (add_root n) 0 0 @ [I_MATCH]"

lemma no_match_in_frag: "I_MATCH \<notin> set (frag n lo c)"
proof (induction n arbitrary: lo c)
  case (QUANTIFIER mn mx g q)
  have "I_MATCH \<notin> set (reps (\<lambda>l. frag q l c) k l r)" for k l r
    using QUANTIFIER.IH by (induction r arbitrary: l) auto
  moreover have "I_MATCH \<notin> set (opts g (\<lambda>l. frag q l c) k l r)" for k l r
    using QUANTIFIER.IH by (induction r arbitrary: l) (auto simp: mk_split_def)
  ultimately show ?case using QUANTIFIER.IH by (auto simp: mk_split_def)
qed auto

lemma match_address:
  assumes "q < length (the_code n)" "the_code n ! q = I_MATCH"
  shows "q = isize (add_root n)"
proof (rule ccontr)
  assume "q \<noteq> isize (add_root n)"
  then have q: "q < isize (add_root n)" using assms(1) by (simp add: the_code_def)
  then have "frag (add_root n) 0 0 ! q \<in> set (frag (add_root n) 0 0)" by (intro nth_mem) simp
  then show False using assms(2) no_match_in_frag q by (metis length_frag nth_append the_code_def)
qed

lemma match_stuck:
  assumes "prog ! pc = I_MATCH" "(vm_step prog str nm ^^ m) (pc, i, ms) (pf, j, msf)"
  shows "pf = pc \<and> j = i \<and> msf = ms"
proof (cases m)
  case (Suc m')
  then obtain d where "vm_step prog str nm (pc, i, ms) d" using assms(2) by (metis relpowp_Suc_D2)
  then show ?thesis using assms(1) by (auto elim!: vm_stepE simp: eps_pcs.simps)
qed (use assms in simp)

lemma code_at_the_code: "code_at (the_code n) 0 (frag (add_root n) 0 0)"
  using code_at_self [of "[]" "frag (add_root n) 0 0" "[I_MATCH]"] by (simp add: the_code_def)

text \<open>Where the capture of the root starts, and that the search gets there from the start.\<close>

definition root_at :: "cregex_node \<Rightarrow> nat" where
  "root_at n = (if node_is_anchored n then 0 else 3)"

lemma root_code:
  "code_at (the_code n) (root_at n) (I_SAVE 0 # frag n (root_at n + 1) 1 @ [I_SAVE 1])"
  "isize (add_root n) = root_at n + 1 + isize n + 1"
proof -
  have "frag (add_root n) 0 0 = (if node_is_anchored n then [] else [I_SPLIT 3 1, I_ANY_CHARACTER, I_JUMP 0]) @
      I_SAVE 0 # frag n (root_at n + 1) 1 @ [I_SAVE 1]"
    by (simp add: add_root_def root_at_def mk_split_def Let_def eval_nat_numeral)
  then show "code_at (the_code n) (root_at n) (I_SAVE 0 # frag n (root_at n + 1) 1 @ [I_SAVE 1])"
    using code_at_the_code [of n] by (simp add: root_at_def eval_nat_numeral split: if_splits)
  show "isize (add_root n) = root_at n + 1 + isize n + 1" by (simp add: add_root_def root_at_def)
qed

lemma reach_root:
  assumes "node_wf n" "0 \<notin> set s" "(vm_step (the_code n) (cstring s after) nm ^^ m) (0, 0, ms) (isize (add_root n), j, t)" "j \<le> length s"
  obtains i ms1 m1 where "(vm_step (the_code n) (cstring s after) nm ^^ m1) (root_at n, i, ms1) (isize (add_root n), j, t)"
    "length ms1 = length ms" "node_is_anchored n \<longrightarrow> i = 0"
proof (cases "node_is_anchored n")
  case True
  then show ?thesis using that assms(3) by (simp add: root_at_def)
next
  case False
  let ?q = "QUANTIFIER 0 (- 1) False ANY_CHARACTER"
  have c: "code_at (the_code n) 0 (frag ?q 0 0)"
    using code_at_the_code [of n] False by (simp add: add_root_def Let_def)
  have r: "runs (the_code n) (cstring s after) nm (length s) 0 (0 + isize ?q) 0 (re_match class_sem s ?q)"
    by (rule runs_node [OF assms(2) _ c]) simp
  have "isize (add_root n) < 0 \<or> 0 + isize ?q \<le> isize (add_root n)" using False by (simp add: add_root_def)
  from runs_sound [OF r assms(3) this assms(4)] obtain k ms' m'
    where "agree 0 ms ms'" "(vm_step (the_code n) (cstring s after) nm ^^ m') (0 + isize ?q, k, ms') (isize (add_root n), j, t)"
    by blast
  moreover have "0 + isize ?q = root_at n" using False by (simp add: root_at_def)
  ultimately show ?thesis using that False by (simp add: agree_def)
qed

lemma save_nth:
  "k < length ms \<Longrightarrow> length ms = min nm 64 \<Longrightarrow> save_matches nm k i ms = ms[k := Some i]"
  by (simp add: save_matches_def REGEX_VM_MAX_MATCHES_def)

lemma reach_match_occurs:
  assumes wf: "node_wf n" and s: "0 \<notin> set s"
    and r: "reach (the_code n) (cstring s after) nm (q, j, t)" "q < length (the_code n)" "the_code n ! q = I_MATCH" "j \<le> length s"
  shows "\<exists>i. occurs s n i j \<and> (2 \<le> nm \<longrightarrow> t ! 0 = Some i \<and> t ! 1 = Some j)"
proof -
  let ?step = "vm_step (the_code n) (cstring s after) nm" and ?h = "isize (add_root n)"
  have q: "q = ?h" by (rule match_address [OF r(2,3)])
  obtain m where m: "(?step ^^ m) (0, 0, copy_matches nm (replicate nm None)) (?h, j, t)"
    using r(1) q unfolding reach_def by (metis rtranclp_imp_relpowp)
  obtain i ms1 m1 where 1: "(?step ^^ m1) (root_at n, i, ms1) (?h, j, t)" "length ms1 = min nm 64" "node_is_anchored n \<longrightarrow> i = 0"
    by (rule reach_root [OF wf s m r(4)]) (auto simp: copy_matches_def REGEX_VM_MAX_MATCHES_def)
  let ?lo = "root_at n" and ?mid = "root_at n + 1 + isize n"
  have inner: "runs (the_code n) (cstring s after) nm (length s) (?lo + 1) ?mid (0 + 1) (re_match class_sem s n)"
    using runs_node [OF s wf, of "the_code n" "?lo + 1" 1] root_code(1) [of n] by simp
  have at: "the_code n ! ?lo = I_SAVE (2 * 0)" "the_code n ! ?mid = I_SAVE (2 * 0 + 1)" "?lo < ?mid"
    using root_code(1) [of n] by (simp_all add: eval_nat_numeral)
  have out: "?h < ?lo \<or> ?mid + 1 \<le> ?h" using root_code(2) [of n] by simp
  obtain k ms2 m2 where 2: "re_match class_sem s n i k" "agree (0 + 1) (save_matches nm (2 * 0) i ms1) ms2"
    "(?step ^^ m2) (?mid + 1, k, save_matches nm (2 * 0 + 1) k ms2) (?h, j, t)"
    by (rule capture_sound [OF inner at 1(1) out r(4)])
  have "?mid + 1 = ?h" using root_code(2) [of n] by simp
  then have fin: "j = k" "t = save_matches nm 1 k ms2"
    using match_stuck [OF _ 2(3)] r(3) q by auto
  have "t ! 0 = Some i \<and> t ! 1 = Some j" if nm: "2 \<le> nm"
  proof -
    have len: "length ms2 = min nm 64" using 2(2) 1(2) by (simp add: agree_def save_matches_def)
    have "ms2 ! 0 = Some i" using agree_nth [OF 2(2), of 0] 1(2) nm by (simp add: save_nth)
    then show ?thesis using fin len nm by (simp add: save_nth)
  qed
  then show ?thesis using 2(1) 1(3) fin(1) by (auto simp: occurs_def)
qed

lemma occurs_reach_match:
  assumes wf: "node_wf n" and s: "0 \<notin> set s" and m: "occurs s n i j"
  shows "\<exists>t. reach (the_code n) (cstring s after) nm (isize (add_root n), j, t)"
proof -
  have run: "runs (the_code n) (cstring s after) nm (length s) 0 (0 + isize (add_root n)) 0 (re_match class_sem s (add_root n))"
    by (rule runs_node [OF s add_root_wf [OF wf] code_at_the_code])
  have le: "i \<le> j" "j \<le> length s" using m re_match_le by (auto simp: occurs_def)
  have any: "riter (length s) (re_match class_sem s ANY_CHARACTER) d a (a + d)" if "a + d \<le> length s" for a d
    using that
  proof (induction d arbitrary: a)
    case (Suc d)
    then show ?case using Suc.IH [of "Suc a"] by auto
  qed simp
  have "re_match class_sem s (QUANTIFIER 0 (- 1) False ANY_CHARACTER) 0 i"
    unfolding quant_split using any [of 0 i] le by (intro exI [of _ i]) simp
  then have "re_match class_sem s (add_root n) 0 j"
    using m unfolding add_root_def occurs_def Let_def
    by (auto simp del: re_match_simps intro!: m_concat m_capture)
  then obtain t where "(vm_step (the_code n) (cstring s after) nm)\<^sup>*\<^sup>* (0, 0, copy_matches nm (replicate nm None)) (0 + isize (add_root n), j, t)"
    by (rule runs_complete [OF run])
  then show ?thesis by (auto simp: reach_def)
qed

lemma engine_exact:
  assumes wf: "node_wf n" and s: "0 \<notin> set s"
  shows "\<exists>b m. vm_run_with_threads (the_code n) s after nm = Some (b, m) \<and> (b \<longleftrightarrow> (\<exists>i j. occurs s n i j)) \<and>
    (b \<and> 2 \<le> nm \<longrightarrow> (\<exists>i j. occurs s n i j \<and> m ! 0 = Some i \<and> m ! 1 = Some j)) \<and> (\<not> b \<longrightarrow> m = replicate nm None)"
proof -
  let ?str = "cstring s after"
  obtain b m where bm: "vm_run_with_threads (the_code n) s after nm = Some (b, m)"
    and rep: "reported (the_code n) ?str nm (length s) b m"
    and none: "\<not> b \<longrightarrow> \<not> matches_before (the_code n) ?str nm (length s + 1)"
    using vm_run_exact [OF prog_ok_frag s] unfolding the_code_def by blast
  have sound: "\<exists>i j. occurs s n i j \<and> (2 \<le> nm \<longrightarrow> m ! 0 = Some i \<and> m ! 1 = Some j)" if yes: b
  proof -
    obtain q j t where q: "reach (the_code n) ?str nm (q, j, t)" "q < length (the_code n)" "the_code n ! q = I_MATCH" "j \<le> length s"
      "m = t @ replicate (nm - 64) None" using rep yes unfolding reported_def by auto
    from reach_match_occurs [OF wf s q(1-4)] show ?thesis using reach_length [OF q(1)] q(5) by (auto simp: nth_append)
  qed
  have complete: b if o: "occurs s n i j" for i j
  proof (rule ccontr)
    assume "\<not> b"
    obtain t where "reach (the_code n) ?str nm (isize (add_root n), j, t)" using occurs_reach_match [OF wf s o] by blast
    moreover have "the_code n ! isize (add_root n) = I_MATCH" by (simp add: the_code_def nth_append)
    moreover have "j < length s + 1" using o re_match_le by (fastforce simp: occurs_def)
    moreover have "isize (add_root n) < length (the_code n)" by (simp add: the_code_def)
    ultimately show False using none \<open>\<not> b\<close> by (auto simp: matches_before_def)
  qed
  have "m = replicate nm None" if "\<not> b" using rep that by (simp add: reported_def)
  then show ?thesis using bm sound complete by blast
qed

text \<open>Patterns in which no optional repetition covers an anchor.\<close>

primrec anchors_required :: "cregex_node \<Rightarrow> bool" where
  "anchors_required EPSILON = True"
| "anchors_required (CHARACTER ch) = True"
| "anchors_required ANY_CHARACTER = True"
| "anchors_required (CHARACTER_CLASS t) = True"
| "anchors_required (CHARACTER_CLASS_NEGATED t) = True"
| "anchors_required (CONCATENATION a b) = (anchors_required a \<and> anchors_required b)"
| "anchors_required (ALTERNATION a b) = (anchors_required a \<and> anchors_required b)"
| "anchors_required (QUANTIFIER mn mx g q) = (anchors_required q \<and> (node_is_anchored q \<longrightarrow> 0 < mn))"
| "anchors_required ANCHOR_BEGIN = True"
| "anchors_required ANCHOR_END = True"
| "anchors_required (CAPTURE a) = anchors_required a"

lemma anchored_at_start:
  "anchors_required n \<Longrightarrow> node_is_anchored n \<Longrightarrow> re_match cls s n i j \<Longrightarrow> i = 0"
proof (induction n arbitrary: i j)
  case (QUANTIFIER mn mx g q)
  then obtain k where k: "re_iter cls s q k i j" "mn \<le> int k" by auto
  then obtain k' where "k = Suc k'" using QUANTIFIER.prems by (cases k) auto
  then show ?case using k(1) QUANTIFIER by auto
qed auto

lemma occurs_iff: "anchors_required n \<Longrightarrow> occurs s n i j \<longleftrightarrow> re_match class_sem s n i j"
  using anchored_at_start by (auto simp: occurs_def)

text \<open>The compiled program decides matching. For every node the parser builds and every string
  the compiled program runs to an answer, whatever lies in memory behind the string.\<close>

lemma regex_run_decides:
  assumes "node_wf n" "0 \<notin> set s" "estimate_instructions n = Some e"
  shows "\<exists>prog m. cregex_compile_node True n = Some (Some prog) \<and> int (length prog) = e \<and>
    cregex_program_run True prog s after nm = Some (if \<exists>i j. occurs s n i j then 1 else 0, Some m)"
proof -
  obtain b m where "vm_run_with_threads (the_code n) s after nm = Some (b, m)" "b \<longleftrightarrow> (\<exists>i j. occurs s n i j)"
    using engine_exact [OF assms(1,2), of after nm] by blast
  then have "cregex_program_run True (the_code n) s after nm = Some (if \<exists>i j. occurs s n i j then 1 else 0, Some m)"
    by (simp add: cregex_program_run_def vm_run_def)
  moreover have "cregex_compile_node True n = Some (Some (the_code n)) \<and> int (length (the_code n)) = e"
    using compile_node_result [OF assms(1,3)] compile_node_frag [OF assms(1)] by (auto simp: the_code_def)
  ultimately show ?thesis by blast
qed

text \<open>C4. What a caller reads from \<open>matches\<close>: after a match with room for the first pair of
  pointers they delimit an occurrence of the pattern, and after a failed search all are NULL.\<close>

theorem regex_matches_delimit:
  assumes "node_wf n" "0 \<notin> set s" "compile_node_with_program n = Some prog"
    "cregex_program_run True prog s after nm = Some (r, Some m)"
  shows "(r = 1 \<and> 2 \<le> nm \<longrightarrow> (\<exists>i j. occurs s n i j \<and> m ! 0 = Some i \<and> m ! 1 = Some j)) \<and> (r = 0 \<longrightarrow> m = replicate nm None)"
proof -
  have prog: "prog = the_code n" using compile_node_frag [OF assms(1)] assms(3) by (simp add: the_code_def)
  obtain b where "vm_run_with_threads (the_code n) s after nm = Some (b, m)" "r = (if b then 1 else 0)"
    using assms(4) by (auto simp: cregex_program_run_def vm_run_def prog)
  then show ?thesis using engine_exact [OF assms(1,2), of after nm] by auto
qed

theorem regex_matches_delimit_witness:
  "\<exists>prog r m. compile_node_with_program (CHARACTER 98) = Some prog \<and>
     cregex_program_run True prog [97, 98, 99] (\<lambda>_. 9) 2 = Some (r, Some m) \<and> r = 1 \<and> m = [Some 1, Some 2] \<and>
     occurs [97, 98, 99] (CHARACTER 98) 1 2"
proof -
  let ?p = "the (compile_node_with_program (CHARACTER 98))"
  have c: "compile_node_with_program (CHARACTER 98) = Some ?p" by code_simp
  have r: "cregex_program_run True ?p [97, 98, 99] (\<lambda>_. 9) 2 = Some (1, Some [Some 1, Some 2])" by code_simp
  have "node_wf (CHARACTER 98)" "(0 :: u8) \<notin> set [97, 98, 99]" by simp_all
  from regex_matches_delimit [OF this c r] c r show ?thesis by auto
qed



text \<open>Without that condition matches are missed: \<open>^?b\<close> matches the last byte of \<open>ab\<close>, the
  compiler takes the pattern for anchored, and the search answers no match.\<close>

theorem optional_anchor_missed:
  "re_match class_sem [97, 98] (CONCATENATION (QUANTIFIER 0 1 True ANCHOR_BEGIN) (CHARACTER 98)) 1 2 \<and>
   map_option (\<lambda>prog. map_option fst (vm_run_with_threads prog [97, 98] (\<lambda>_. 0) 0))
     (compile_node_with_program (CONCATENATION (QUANTIFIER 0 1 True ANCHOR_BEGIN) (CHARACTER 98))) = Some (Some False)"
proof
  have "re_iter class_sem [97, 98] ANCHOR_BEGIN 0 1 1" by simp
  then have "re_match class_sem [97, 98] (QUANTIFIER 0 1 True ANCHOR_BEGIN) 1 1" by (rule m_quant) simp_all
  moreover have "re_match class_sem [97, 98] (CHARACTER 98) 1 2" by (simp add: schar_def)
  ultimately show "re_match class_sem [97, 98] (CONCATENATION (QUANTIFIER 0 1 True ANCHOR_BEGIN) (CHARACTER 98)) 1 2"
    by (rule m_concat)
qed code_simp

end
