(* ===== verification/Regex_Parse.thy ===== *)
theory Regex_Parse
  imports Regex_Correct
begin

text \<open>
  The parser of patterns (\<open>src/src/cregex_parse.c\<close>), a shunting yard over one buffer: the stack
  of nodes grows up from its start, the finished nodes (the output) grow down from its end.

  \<open>sp\<close> is the rest of the pattern with its terminating zero, so a read from the empty list is a
  read behind the terminator. A node on the stack is held as the tree below it: its pointers lead
  into the output, which is never written again as long as the two ends of the buffer do not meet.
  \<open>nout\<close> counts the output nodes, and \<open>push\<close> fails with \<open>Corrupt\<close> where the source would write
  over the output, or past the buffer when there is none.
\<close>

datatype parse_error = Reject | OverRead | Overflow | Corrupt | Fuel

type_synonym 'a parsed = "parse_error + 'a"

record regex_parse_context =
  sp :: "u8 list"
  stack :: "cregex_node list"
  nout :: nat

definition pbind :: "'a parsed \<Rightarrow> ('a \<Rightarrow> 'b parsed) \<Rightarrow> 'b parsed" where
  "pbind r f = (case r of Inl e \<Rightarrow> Inl e | Inr x \<Rightarrow> f x)"

lemma pbind_simps [simp]: "pbind (Inl e) f = Inl e" "pbind (Inr x) f = f x"
  by (simp_all add: pbind_def)

lemma pbind_cong [fundef_cong]: "r = r' \<Longrightarrow> (\<And>x. r' = Inr x \<Longrightarrow> f x = g x) \<Longrightarrow> pbind r f = pbind r' g"
  by (cases r') auto

lemma pbind_assoc: "pbind (pbind r f) g = pbind r (\<lambda>x. pbind (f x) g)"
  by (cases r) auto

section \<open>The buffer\<close>

definition push :: "nat \<Rightarrow> regex_parse_context \<Rightarrow> cregex_node \<Rightarrow> regex_parse_context parsed" where
  "push cap c n = (if length (stack c) + nout c < cap then Inr (c\<lparr>stack := n # stack c\<rparr>) else Inl Corrupt)"

definition drop_top :: "regex_parse_context \<Rightarrow> regex_parse_context" where
  "drop_top c = c\<lparr>stack := tl (stack c)\<rparr>"

definition consume :: "regex_parse_context \<Rightarrow> (cregex_node \<times> regex_parse_context) parsed" where
  "consume c = (case stack c of [] \<Rightarrow> Inl Corrupt | n # st \<Rightarrow> Inr (n, c\<lparr>stack := st, nout := nout c + 1\<rparr>))"

text \<open>The loop of \<open>concatenate\<close>; the stack shrinks by one node in each turn.\<close>

function concat_loop :: "nat \<Rightarrow> nat \<Rightarrow> regex_parse_context \<Rightarrow> regex_parse_context parsed" where
  "concat_loop cap bottom c =
     (if bottom < length (stack c) - 1 then
        pbind (consume c) (\<lambda>(right, c1).
        pbind (consume c1) (\<lambda>(left, c2).
        pbind (push cap c2 (CONCATENATION left right)) (\<lambda>c3.
          concat_loop cap bottom c3)))
      else Inr c)"
  by pat_completeness auto
termination
  by (relation "measure (\<lambda>(cap, bottom, c). length (stack c))")
    (auto simp: consume_def push_def split: list.splits if_splits)

declare concat_loop.simps [simp del]

definition concatenate :: "nat \<Rightarrow> nat \<Rightarrow> regex_parse_context \<Rightarrow> regex_parse_context parsed" where
  "concatenate cap bottom c =
     (if length (stack c) = bottom then push cap c EPSILON else concat_loop cap bottom c)"

section \<open>Classes and intervals\<close>

text \<open>One item of a class after its first byte \<open>ch\<close>: the end of a range is skipped, and a range
  that is empty on unsigned bytes is refused.\<close>

definition class_item_end :: "u8 \<Rightarrow> u8 list \<Rightarrow> u8 list parsed" where
  "class_item_end ch r =
     (case r of [] \<Rightarrow> Inl OverRead
      | c # r1 \<Rightarrow>
          if c = 0x2d then
            (case r1 of [] \<Rightarrow> Inl OverRead
             | h # r2 \<Rightarrow> if h \<noteq> 0x5d then (if h < ch then Inl Reject else Inr r2) else Inr r)
          else Inr r)"

lemma class_item_end_length: "class_item_end ch r = Inr r' \<Longrightarrow> length r' \<le> length r"
  by (auto simp: class_item_end_def split: list.splits if_splits)

text \<open>The scan of a class up to its closing bracket, from the byte after the opening one (or after
  the caret). The result is what follows the bracket.\<close>

function char_class_loop :: "bool \<Rightarrow> u8 list \<Rightarrow> u8 list parsed" where
  "char_class_loop first [] = Inl OverRead"
| "char_class_loop first (ch # r) =
     (if ch = 0 then Inl Reject
      else if ch = 0x5d \<and> \<not> first then Inr r
      else
        pbind (if ch = 0x5c then (case r of [] \<Rightarrow> Inl OverRead | e # r' \<Rightarrow> if e = 0 then Inl Reject else Inr (e, r'))
               else Inr (ch, r)) (\<lambda>(ch', r1).
        pbind (class_item_end ch' r1) (char_class_loop False)))"
  by pat_completeness auto
termination
  by (relation "measure (\<lambda>(first, r). length r)")
    (auto dest!: class_item_end_length split: if_splits list.splits)

definition parse_char_class :: "nat \<Rightarrow> regex_parse_context \<Rightarrow> regex_parse_context parsed" where
  "parse_char_class cap c =
     (case sp c of [] \<Rightarrow> Inl OverRead
      | b # r \<Rightarrow>
         let neg = (b = 0x5e); from = (if neg then r else b # r) in
         pbind (char_class_loop True from) (\<lambda>rest.
           let t = take (length from - length rest - 1) from in
           push cap (c\<lparr>sp := rest\<rparr>) (if neg then CHARACTER_CLASS_NEGATED t else CHARACTER_CLASS t)))"

definition INT_MAX :: int where
  "INT_MAX = 2147483647"

definition is_digit :: "u8 \<Rightarrow> bool" where
  "is_digit b \<longleftrightarrow> 0x30 \<le> b \<and> b \<le> 0x39"

text \<open>A loop over decimal digits; \<open>prev\<close> is the byte before the rest, which the source reads
  back as \<open>*(sp - 1)\<close>.\<close>

fun digits :: "int \<Rightarrow> u8 \<Rightarrow> u8 list \<Rightarrow> (int \<times> u8 \<times> u8 list) parsed" where
  "digits n prev [] = Inl OverRead"
| "digits n prev (b # r) =
     (if is_digit b then
        (let n' = n * 10 + (uint b - 0x30) in
         if n' > INT_MAX then Inl Overflow else digits n' b r)
      else Inr (n, prev, b # r))"

text \<open>The bounds and the rest behind the brace, or \<open>None\<close> when this is no interval.\<close>

definition interval_bounds :: "u8 list \<Rightarrow> (int \<times> int \<times> u8 list) option parsed" where
  "interval_bounds from =
     (case from of [] \<Rightarrow> Inl OverRead
      | f # _ \<Rightarrow>
         pbind (digits 0 0x7b from) (\<lambda>(nmin, _, r).
         case r of [] \<Rightarrow> Inl OverRead
         | b # r1 \<Rightarrow>
           if b = 0x2c then
             (case r1 of [] \<Rightarrow> Inl OverRead
              | b1 # r2 \<Rightarrow>
                if f \<noteq> 0x2c \<and> b1 = 0x7d then Inr (Some (nmin, - 1, r2))
                else pbind (digits 0 0x2c r1) (\<lambda>(nmax, prev, r3).
                  case r3 of [] \<Rightarrow> Inl OverRead
                  | b3 # r4 \<Rightarrow>
                    if prev = 0x2c \<or> b3 \<noteq> 0x7d \<or> nmax < nmin then Inr None
                    else Inr (Some (nmin, nmax, r4))))
           else if f \<noteq> 0x7d \<and> b = 0x7d then Inr (Some (nmin, nmin, r1))
           else Inr None))"

text \<open>Push a quantifier over the top node; a question mark makes it lazy.\<close>

definition push_quantifier :: "nat \<Rightarrow> regex_parse_context \<Rightarrow> int \<Rightarrow> int \<Rightarrow> regex_parse_context parsed" where
  "push_quantifier cap c mn mx =
     (case sp c of [] \<Rightarrow> Inl OverRead
      | b # r \<Rightarrow>
         pbind (consume (if b = 0x3f then c\<lparr>sp := r\<rparr> else c)) (\<lambda>(q, c1).
           push cap c1 (QUANTIFIER mn mx (b \<noteq> 0x3f) q)))"

definition parse_interval :: "nat \<Rightarrow> regex_parse_context \<Rightarrow> regex_parse_context option parsed" where
  "parse_interval cap c =
     pbind (interval_bounds (sp c)) (\<lambda>b.
       case b of None \<Rightarrow> Inr None
       | Some (mn, mx, r) \<Rightarrow> pbind (push_quantifier cap (c\<lparr>sp := r\<rparr>) mn mx) (\<lambda>c'. Inr (Some c')))"

section \<open>The parser\<close>

text \<open>The end of an alternation: the right part on top of the stack, the left part below it.\<close>

definition join_alternatives :: "nat \<Rightarrow> regex_parse_context \<Rightarrow> regex_parse_context parsed" where
  "join_alternatives cap c =
     (case stack c of
        right # left # _ \<Rightarrow>
          if left = EPSILON \<and> right = EPSILON then Inr (drop_top c)
          else if left = EPSILON then
            pbind (consume c) (\<lambda>(r, c1). push cap (drop_top c1) (QUANTIFIER 0 1 True r))
          else if right = EPSILON then
            pbind (consume (drop_top c)) (\<lambda>(l, c1). push cap c1 (QUANTIFIER 0 1 True l))
          else
            pbind (consume c) (\<lambda>(r, c1). pbind (consume c1) (\<lambda>(l, c2). push cap c2 (ALTERNATION l r)))
      | _ \<Rightarrow> Inl Corrupt)"

text \<open>
  \<open>parse_context\<close>, one turn of its loop per unit of the first argument: the recursive calls of
  the source and the next turn of the loop are calls with one less. \<open>bottom\<close> is the height of
  the stack at entry.
\<close>

fun parse_context :: "nat \<Rightarrow> nat \<Rightarrow> nat \<Rightarrow> nat \<Rightarrow> regex_parse_context \<Rightarrow> regex_parse_context parsed" where
  "parse_context 0 cap depth bottom c = Inl Fuel"
| "parse_context (Suc fuel) cap depth bottom c =
     (case sp c of [] \<Rightarrow> Inl OverRead
      | ch # r \<Rightarrow>
         let c = c\<lparr>sp := r\<rparr>;
             again = parse_context fuel cap depth bottom;
             single = (\<lambda>n. pbind (push cap c n) again);
             quantify = (\<lambda>mn mx.
               if length (stack c) = bottom then single (CHARACTER (schar ch))
               else pbind (push_quantifier cap c mn mx) again) in
         if ch = 0x5c then
           (case r of [] \<Rightarrow> Inl OverRead
            | e # r' \<Rightarrow> pbind (push cap (c\<lparr>sp := r'\<rparr>) (CHARACTER (schar e))) again)
         else if ch = 0x2e then single ANY_CHARACTER
         else if ch = 0x5b then pbind (parse_char_class cap c) again
         else if ch = 0x7c then
           pbind (concatenate cap bottom c) (\<lambda>c1.
           pbind (parse_context fuel cap depth (length (stack c1)) c1) (join_alternatives cap))
         else if ch = 0x3f then quantify 0 1
         else if ch = 0x2a then quantify 0 (- 1)
         else if ch = 0x2b then quantify 1 (- 1)
         else if ch = 0x7b then
           (if length (stack c) = bottom then single (CHARACTER (schar ch))
            else pbind (parse_interval cap c) (\<lambda>q.
              case q of None \<Rightarrow> single (CHARACTER (schar ch)) | Some c' \<Rightarrow> again c'))
         else if ch = 0x5e then single ANCHOR_BEGIN
         else if ch = 0x24 then single ANCHOR_END
         else if ch = 0x28 then
           pbind (parse_context fuel cap (depth + 1) (length (stack c)) c) (\<lambda>c1.
           pbind (consume c1) (\<lambda>(n, c2). pbind (push cap c2 (CAPTURE n)) again))
         else if ch = 0x29 then (if depth > 0 then concatenate cap bottom c else Inl Reject)
         else if ch = 0 then (if depth = 0 then concatenate cap bottom c else Inl Reject)
         else single (CHARACTER (schar ch)))"

declare parse_context.simps(2) [simp del]

definition estimate_nodes :: "u8 list \<Rightarrow> nat" where
  "estimate_nodes pattern = length pattern * 2 + 1"

text \<open>The number of nodes is an \<open>int\<close>: with a pattern of \<open>2 ^ 30\<close> bytes or more it overflows.\<close>

definition parse_with_nodes :: "u8 list \<Rightarrow> cregex_node parsed" where
  "parse_with_nodes pattern =
     (if cint (int (length pattern) * 2 + 1) = None then Inl Overflow
      else
        pbind (parse_context (length pattern + 2) (estimate_nodes pattern) 0 0
                 \<lparr>sp = pattern @ [0], stack = [], nout = 0\<rparr>)
          (\<lambda>c. Inr (last (stack c))))"

text \<open>\<open>Inr None\<close> is a returned NULL: no memory, or a pattern that is refused.\<close>

definition cregex_parse :: "bool \<Rightarrow> u8 list \<Rightarrow> cregex_node option parsed" where
  "cregex_parse alloc pattern =
     (if \<not> alloc then Inr None
      else case parse_with_nodes pattern of
        Inl Reject \<Rightarrow> Inr None
      | Inl e \<Rightarrow> Inl e
      | Inr n \<Rightarrow> Inr (Some n))"

section \<open>Texts the parser stays inside of\<close>

text \<open>A rest of a pattern: no zero before the terminator, and no backslash right before it.\<close>

definition closed :: "u8 list \<Rightarrow> bool" where
  "closed r \<longleftrightarrow> (\<exists>q. r = q @ [0] \<and> 0 \<notin> set q \<and> (q = [] \<or> last q \<noteq> 0x5c))"

lemma closed_Nil [simp]: "\<not> closed []"
  by (simp add: closed_def)

lemma closed_Cons: "closed (b # r) \<Longrightarrow> b \<noteq> 0 \<Longrightarrow> closed r"
  unfolding closed_def by (auto simp: Cons_eq_append_conv split: if_splits)

lemma closed_zero: "closed (0 # r) \<Longrightarrow> r = []"
  unfolding closed_def by (auto simp: Cons_eq_append_conv)

lemma closed_escape: "closed (0x5c # r) \<Longrightarrow> \<exists>e r'. r = e # r' \<and> e \<noteq> 0 \<and> closed r'"
  unfolding closed_def
  by (auto simp: Cons_eq_append_conv) (metis Cons_eq_appendI last.simps list.exhaust list.set_intros(1) list.set_intros(2))

lemma closed_not_single: "closed (b # r) \<Longrightarrow> b \<noteq> 0 \<Longrightarrow> r \<noteq> []"
  using closed_Cons by fastforce

definition error_ok :: "u8 list \<Rightarrow> parse_error \<Rightarrow> bool" where
  "error_ok r e \<longleftrightarrow> e = Reject \<or> e = Overflow \<or> e = OverRead \<and> \<not> closed r"

text \<open>The outcome of a scan from \<open>r\<close>: an admissible error, or a shorter rest that is closed again.\<close>

definition scans :: "u8 list \<Rightarrow> u8 list \<Rightarrow> bool" where
  "scans r r' \<longleftrightarrow> length r' < length r \<and> (closed r \<longrightarrow> closed r')"

lemma scans_trans: "scans a b \<Longrightarrow> scans b d \<Longrightarrow> scans a d"
  by (auto simp: scans_def)

lemma scans_Cons: "b \<noteq> 0 \<Longrightarrow> scans (b # r) r"
  by (auto simp: scans_def closed_Cons)

lemma error_scans: "scans r r' \<Longrightarrow> error_ok r' e \<Longrightarrow> error_ok r e"
  by (auto simp: scans_def error_ok_def)

lemma error_ok_simps [simp]: "error_ok r Reject" "error_ok r Overflow" "error_ok [] OverRead"
  by (simp_all add: error_ok_def)

declare char_class_loop.simps [simp del]

lemma class_item_end_scan:
  assumes "scans (ch # r) r1" "ch' \<noteq> 0"
  shows "case class_item_end ch' r1 of Inl e \<Rightarrow> error_ok (ch # r) e | Inr r2 \<Rightarrow> scans (ch # r) r2"
proof (cases r1)
  case Nil
  then show ?thesis using assms(1) by (simp add: class_item_end_def error_ok_def scans_def)
next
  case (Cons c r2)
  consider "c \<noteq> 0x2d" | "c = 0x2d" "r2 = []" | h r3 where "c = 0x2d" "r2 = h # r3" "h = 0x5d \<or> h < ch'"
    | h r3 where "c = 0x2d" "r2 = h # r3" "h \<noteq> 0x5d" "\<not> h < ch'" by (cases r2) auto
  then show ?thesis
  proof cases
    case 2
    then have "\<not> closed r1" using closed_not_single [of c r2] Cons by auto
    then show ?thesis using assms(1) Cons 2 by (auto simp: class_item_end_def error_ok_def scans_def)
  next
    case 4
    have "h \<noteq> 0" using 4(4) assms(2) by (metis word_gt_0)
    then have "scans (c # h # r3) r3" using 4(1) by (intro scans_trans [OF scans_Cons scans_Cons]) simp_all
    then have "scans (ch # r) r3" using assms(1) 4(2) Cons scans_trans by simp
    then show ?thesis using Cons 4 by (simp add: class_item_end_def)
  qed (use assms Cons in \<open>auto simp: class_item_end_def\<close>)
qed

lemma char_class_scan:
  "case char_class_loop first r of Inl e \<Rightarrow> error_ok r e | Inr r' \<Rightarrow> scans r r'"
proof (induction first r rule: char_class_loop.induct)
  case (1 first)
  then show ?case by (simp add: char_class_loop.simps)
next
  case (2 first ch r)
  let ?head = "if ch = 0x5c then (case r of [] \<Rightarrow> Inl OverRead | e # r' \<Rightarrow> if e = 0 then Inl Reject else Inr (e, r')) else Inr (ch, r)"
  consider "ch = 0" | "ch = 0x5d \<and> \<not> first" | e where "ch \<noteq> 0" "\<not> (ch = 0x5d \<and> \<not> first)" "?head = Inl e"
    | ch' r1 where "ch \<noteq> 0" "\<not> (ch = 0x5d \<and> \<not> first)" "?head = Inr (ch', r1)" by (cases ?head) auto
  then show ?case
  proof cases
    case 3
    have "error_ok (ch # r) e"
      using 3(3) closed_escape [of r] by (auto simp: error_ok_def split: if_splits list.splits)
    then show ?thesis using 3 by (auto simp: char_class_loop.simps)
  next
    case 4
    then have "r = ch' # r1 \<and> ch' \<noteq> 0 \<or> r = r1 \<and> ch' = ch" by (auto split: if_splits list.splits)
    then have s1: "scans (ch # r) r1" "ch' \<noteq> 0"
      using 4(1) scans_trans [OF scans_Cons scans_Cons] scans_Cons by auto
    show ?thesis
    proof (cases "class_item_end ch' r1")
      case (Inl e)
      then show ?thesis using 4 class_item_end_scan [OF s1] by (auto simp: char_class_loop.simps)
    next
      case (Inr r2)
      have s2: "scans (ch # r) r2" using class_item_end_scan [OF s1] Inr by simp
      from 2 [OF 4 refl Inr] have "case char_class_loop False r2 of Inl e \<Rightarrow> error_ok r2 e | Inr r' \<Rightarrow> scans r2 r'" by simp
      then show ?thesis using s2 4 Inr by (auto simp: char_class_loop.simps split: sum.splits dest: error_scans scans_trans)
    qed
  qed (auto simp: char_class_loop.simps scans_Cons)
qed

text \<open>A class text the parser accepts is one the compiler can scan.\<close>

lemma class_item_of_end:
  assumes "class_item_end ch (t @ 0x5d # rest) = Inr (u @ 0x5d # rest)"
  shows "\<exists>l h. class_item ch (t @ [0x5d]) = Some (l, h, u @ [0x5d])"
proof (cases t)
  case Nil
  then have "u = []" using assms by (auto simp: class_item_end_def)
  then show ?thesis using Nil by (simp add: class_item_def)
next
  case (Cons c t1)
  show ?thesis
  proof (cases t1)
    case Nil
    then have "u = [c]" using Cons assms by (auto simp: class_item_end_def split: if_splits)
    then show ?thesis using Cons Nil by (simp add: class_item_def)
  next
    case t1: (Cons h t2)
    then show ?thesis using Cons assms by (auto simp: class_item_end_def class_item_def split: if_splits)
  qed
qed

lemma class_item_end_suffix:
  "class_item_end ch r = Inr r' \<Longrightarrow> r' = u @ 0x5d # rest \<Longrightarrow> \<exists>t. r = t @ 0x5d # rest"
  by (auto simp: class_item_end_def split: list.splits if_splits)

lemma char_class_compiles:
  "char_class_loop first r = Inr rest \<Longrightarrow> \<exists>t. r = t @ 0x5d # rest \<and> (\<forall>k. class_loop first (t @ [0x5d]) k \<noteq> None)"
proof (induction first r rule: char_class_loop.induct)
  case (2 first ch r)
  let ?head = "if ch = 0x5c then (case r of [] \<Rightarrow> Inl OverRead | e # r' \<Rightarrow> if e = 0 then Inl Reject else Inr (e, r')) else Inr (ch, r)"
  show ?case
  proof (cases "ch = 0x5d \<and> \<not> first")
    case True
    then have "r = rest" using 2(2) by (simp add: char_class_loop.simps)
    then show ?thesis using True by (intro exI [of _ "[]"]) (simp add: class_loop.simps)
  next
    case False
    have nz: "ch \<noteq> 0" using 2(2) by (auto simp: char_class_loop.simps)
    obtain ch' r1 r2 where h: "?head = Inr (ch', r1)" and i: "class_item_end ch' r1 = Inr r2"
      and l: "char_class_loop False r2 = Inr rest"
    proof (cases ?head)
      case (Inr x)
      then show ?thesis using that 2(2) False nz
        by (cases x, cases "class_item_end (fst x) (snd x)") (auto simp: char_class_loop.simps)
    qed (use 2(2) False nz in \<open>auto simp: char_class_loop.simps\<close>)
    from 2(1) [OF nz False h refl i l] obtain u where u: "r2 = u @ 0x5d # rest"
      "\<forall>k. class_loop False (u @ [0x5d]) k \<noteq> None" by blast
    obtain t where t: "r1 = t @ 0x5d # rest" using class_item_end_suffix [OF i u(1)] by blast
    obtain lo hi where ci: "class_item ch' (t @ [0x5d]) = Some (lo, hi, u @ [0x5d])"
      using class_item_of_end i t u(1) by blast
    from h have "ch = 0x5c \<and> r = ch' # r1 \<or> ch \<noteq> 0x5c \<and> r = r1 \<and> ch' = ch" by (auto split: if_splits list.splits)
    then show ?thesis
    proof
      assume e: "ch = 0x5c \<and> r = ch' # r1"
      then have "class_loop first ((ch # ch' # t) @ [0x5d]) k \<noteq> None" for k
        using u(2) ci by (subst class_loop.simps) simp
      then show ?thesis using e t by (intro exI [of _ "ch # ch' # t"]) simp
    next
      assume e: "ch \<noteq> 0x5c \<and> r = r1 \<and> ch' = ch"
      then have "class_loop first ((ch # t) @ [0x5d]) k \<noteq> None" for k
        using u(2) ci False by (subst class_loop.simps) auto
      then show ?thesis using e t by (intro exI [of _ "ch # t"]) simp
    qed
  qed
qed (simp add: char_class_loop.simps)

lemma class_text_wf:
  assumes "char_class_loop True from = Inr rest"
  shows "compile_char_class (take (length from - length rest - 1) from) \<noteq> None"
proof -
  obtain t where "from = t @ 0x5d # rest" "\<forall>k. class_loop True (t @ [0x5d]) k \<noteq> None"
    using char_class_compiles [OF assms] by blast
  then show ?thesis by (simp add: compile_char_class_def)
qed

section \<open>Intervals\<close>

lemma is_digit_nz: "is_digit b \<Longrightarrow> b \<noteq> 0"
  by (auto simp: is_digit_def)

lemma digits_scan:
  "0 \<le> n \<Longrightarrow> case digits n prev r of Inl e \<Rightarrow> error_ok r e
    | Inr (m, prev', r') \<Rightarrow> 0 \<le> m \<and> r' \<noteq> [] \<and> (r' = r \<or> scans r r')"
proof (induction n prev r rule: digits.induct)
  case (2 n prev b r)
  show ?case
  proof (cases "is_digit b \<and> n * 10 + (uint b - 0x30) \<le> INT_MAX")
    case True
    let ?n = "n * 10 + (uint b - 0x30)"
    have "0 \<le> ?n" using True 2(2) by (simp add: is_digit_def word_le_def)
    then have ih: "case digits ?n b r of Inl e \<Rightarrow> error_ok r e
        | Inr (m, prev', r') \<Rightarrow> 0 \<le> m \<and> r' \<noteq> [] \<and> (r' = r \<or> scans r r')"
      using 2(1) [OF _ refl] True by auto
    have s: "scans (b # r) r" using True is_digit_nz scans_Cons by blast
    have "digits n prev (b # r) = digits ?n b r" using True by (simp add: Let_def)
    then show ?thesis using ih s by (auto split: sum.splits dest: error_scans scans_trans)
  next
    case False
    then show ?thesis using 2(2) by (auto simp: Let_def)
  qed
qed simp

lemma digits_error: "0 \<le> n \<Longrightarrow> digits n prev r = Inl e \<Longrightarrow> error_ok r e"
  using digits_scan [of n r prev] by simp

lemma digits_rest:
  assumes "0 \<le> n" "digits n prev r = Inr (m, prev', r')"
  obtains b r1 where "0 \<le> m" "r' = b # r1" "b \<noteq> 0 \<Longrightarrow> scans r r1"
  using digits_scan [OF assms(1), of r prev] assms(2) that scans_trans scans_Cons
  by (cases r') auto

lemma interval_bounds_scan:
  "case interval_bounds r of Inl e \<Rightarrow> error_ok r e | Inr None \<Rightarrow> True
    | Inr (Some (mn, mx, r')) \<Rightarrow> 0 \<le> mn \<and> (mx = - 1 \<or> mn \<le> mx) \<and> scans r r'"
proof (cases r)
  case (Cons f fs)
  show ?thesis
  proof (cases "digits 0 0x7b r")
    case (Inl e)
    then show ?thesis using Cons digits_error [OF _ Inl] by (simp add: interval_bounds_def)
  next
    case (Inr x)
    obtain mn p r' where x: "x = (mn, p, r')" by (cases x)
    obtain b r1 where d: "0 \<le> mn" "r' = b # r1" "b \<noteq> 0 \<Longrightarrow> scans r r1"
      by (rule digits_rest [OF _ Inr [unfolded x]]) simp_all
    show ?thesis
    proof (cases "b = 0x2c")
      case False
      then show ?thesis using Cons Inr x d by (simp add: interval_bounds_def)
    next
      case True
      then have s1: "scans r r1" using d(3) by simp
      show ?thesis
      proof (cases r1)
        case Nil
        then show ?thesis using Cons Inr x d True s1 by (simp add: interval_bounds_def error_ok_def scans_def)
      next
        case r1: (Cons b1 r2)
        show ?thesis
        proof (cases "f \<noteq> 0x2c \<and> b1 = 0x7d")
          case True
          then have "scans r r2" using scans_trans [OF s1 [unfolded r1] scans_Cons] by simp
          then show ?thesis using Cons Inr x d \<open>b = 0x2c\<close> r1 True by (simp add: interval_bounds_def)
        next
          case False
          show ?thesis
          proof (cases "digits 0 0x2c r1")
            case (Inl e)
            have "error_ok r e" using digits_error [OF _ Inl] error_scans [OF s1] by simp
            then show ?thesis using Cons Inr x d \<open>b = 0x2c\<close> r1 False Inl by (auto simp: interval_bounds_def)
          next
            case i2: (Inr y)
            obtain mx p' r3 where y: "y = (mx, p', r3)" by (cases y)
            obtain b3 r4 where d3: "0 \<le> mx" "r3 = b3 # r4" "b3 \<noteq> 0 \<Longrightarrow> scans r1 r4"
              by (rule digits_rest [OF _ i2 [unfolded y]]) simp_all
            then have "b3 \<noteq> 0 \<Longrightarrow> scans r r4" using s1 scans_trans by blast
            then show ?thesis using Cons Inr x d \<open>b = 0x2c\<close> r1 False i2 y d3
              by (auto simp: interval_bounds_def)
          qed
        qed
      qed
    qed
  qed
qed (simp add: interval_bounds_def)

section \<open>The buffer is large enough\<close>

text \<open>
  \<open>room cap d bottom c\<close>: the nodes in the buffer, the nodes still to be concatenated and \<open>d\<close>
  are paid for by two units for every byte of the pattern that was read.
\<close>

definition used :: "regex_parse_context \<Rightarrow> nat" where
  "used c = length (stack c) + nout c"

definition room :: "nat \<Rightarrow> nat \<Rightarrow> nat \<Rightarrow> regex_parse_context \<Rightarrow> bool" where
  "room cap d bottom c \<longleftrightarrow> bottom \<le> length (stack c) \<and> (\<forall>n \<in> set (stack c). node_wf n) \<and>
     used c + (length (stack c) - bottom) + d + 2 * length (sp c) \<le> cap + 1"

text \<open>What a call leaves: one node in place of those above \<open>bottom\<close>, and less of the pattern.\<close>

definition leaves :: "nat \<Rightarrow> nat \<Rightarrow> nat \<Rightarrow> regex_parse_context \<Rightarrow> regex_parse_context \<Rightarrow> bool" where
  "leaves cap d bottom c c' \<longleftrightarrow>
     (\<exists>n. node_wf n \<and> stack c' = n # drop (length (stack c) - bottom) (stack c)) \<and>
     used c' + d + 2 * length (sp c') \<le> cap"

lemma concat_loop_leaves:
  assumes "bottom < length (stack c)" "\<forall>n \<in> set (stack c). node_wf n"
    "used c + (length (stack c) - bottom) + d + 2 * length (sp c) \<le> cap"
  shows "\<exists>c'. concat_loop cap bottom c = Inr c' \<and> leaves cap d bottom c c' \<and> sp c' = sp c"
  using assms
proof (induction "length (stack c) - bottom" arbitrary: c)
  case (Suc k)
  show ?case
  proof (cases "bottom < length (stack c) - 1")
    case False
    then have h: "length (stack c) - bottom = 1" using Suc.prems(1) by simp
    obtain n st where st: "stack c = n # st" using Suc.prems(1) by (cases "stack c") auto
    have "leaves cap d bottom c c" using Suc.prems h st by (simp add: leaves_def)
    then show ?thesis using False by (simp add: concat_loop.simps)
  next
    case True
    then obtain r l st where st: "stack c = r # l # st" using Suc.prems(1)
      by (metis Suc_le_length_iff diff_Suc_1 length_Suc_conv less_eq_Suc_le list.size(3) not_less_zero)
    let ?c = "c\<lparr>nout := nout c + 2, stack := CONCATENATION l r # st\<rparr>"
    have "length st + nout c + 2 < cap" using Suc.prems(1,3) st by (simp add: used_def)
    then have step: "concat_loop cap bottom c = concat_loop cap bottom ?c"
      using True st by (subst concat_loop.simps) (simp add: consume_def push_def)
    have "k = length (stack ?c) - bottom" using Suc.hyps(2) st by simp
    moreover have "bottom < length (stack ?c)" using True st by simp
    moreover have "\<forall>n \<in> set (stack ?c). node_wf n" using Suc.prems(2) st by auto
    moreover have "used ?c + (length (stack ?c) - bottom) + d + 2 * length (sp ?c) \<le> cap"
      using Suc.prems(3) st True by (simp add: used_def)
    ultimately obtain c' where c': "concat_loop cap bottom ?c = Inr c'" "leaves cap d bottom ?c c'" "sp c' = sp ?c"
      using Suc.hyps(1) by blast
    have "drop (length (stack ?c) - bottom) (stack ?c) = drop (length (stack c) - bottom) (stack c)"
      using st True by (simp add: Suc_diff_le)
    then have "leaves cap d bottom c c'" using c'(2) by (simp add: leaves_def)
    then show ?thesis using step c' by simp
  qed
qed simp

lemma concatenate_leaves:
  assumes "room cap d bottom (c\<lparr>sp := ch # sp c\<rparr>)"
  shows "\<exists>c'. concatenate cap bottom c = Inr c' \<and> leaves cap d bottom c c' \<and> sp c' = sp c"
proof (cases "length (stack c) = bottom")
  case True
  then show ?thesis using assms by (auto simp: concatenate_def push_def room_def leaves_def used_def)
next
  case False
  then show ?thesis using assms concat_loop_leaves [of bottom c d cap]
    by (auto simp: concatenate_def room_def used_def)
qed

section \<open>One turn of the parser\<close>

definition advance :: "nat \<Rightarrow> nat \<Rightarrow> nat \<Rightarrow> regex_parse_context \<Rightarrow> regex_parse_context \<Rightarrow> bool" where
  "advance cap d bottom c c1 \<longleftrightarrow> room cap d bottom c1 \<and> scans (sp c) (sp c1) \<and>
     drop (length (stack c1) - bottom) (stack c1) = drop (length (stack c) - bottom) (stack c)"

definition outcome_ok :: "nat \<Rightarrow> nat \<Rightarrow> nat \<Rightarrow> nat \<Rightarrow> regex_parse_context \<Rightarrow> regex_parse_context parsed \<Rightarrow> bool" where
  "outcome_ok cap d bottom depth c res \<longleftrightarrow>
     (case res of Inl e \<Rightarrow> error_ok (sp c) e
      | Inr c' \<Rightarrow> leaves cap d bottom c c' \<and> length (sp c') < length (sp c) \<and>
          (0 < depth \<and> closed (sp c) \<longrightarrow> closed (sp c')))"

lemma outcome_advance:
  assumes "advance cap d bottom c c1" "outcome_ok cap d bottom depth c1 res"
  shows "outcome_ok cap d bottom depth c res"
proof -
  have "leaves cap d bottom c c'" if "leaves cap d bottom c1 c'" for c'
    using that assms(1) by (simp add: leaves_def advance_def)
  then show ?thesis
    using assms error_scans by (auto simp: outcome_ok_def advance_def scans_def split: sum.splits)
qed

text \<open>The step of a turn: an admissible error, or a context to go on with.\<close>

definition step_ok :: "nat \<Rightarrow> nat \<Rightarrow> nat \<Rightarrow> regex_parse_context \<Rightarrow> regex_parse_context parsed \<Rightarrow> bool" where
  "step_ok cap d bottom c res \<longleftrightarrow> (case res of Inl e \<Rightarrow> error_ok (sp c) e | Inr c1 \<Rightarrow> advance cap d bottom c c1)"

lemma outcome_step:
  assumes "step_ok cap d bottom c res" "\<And>c1. advance cap d bottom c c1 \<Longrightarrow> outcome_ok cap d bottom depth c1 (f c1)"
  shows "outcome_ok cap d bottom depth c (pbind res f)"
  using assms outcome_advance by (cases res) (auto simp: step_ok_def, auto simp: outcome_ok_def)

lemma push_step:
  assumes "room cap d bottom c" "scans (sp c) r" "node_wf n"
  shows "step_ok cap d bottom c (push cap (c\<lparr>sp := r\<rparr>) n)"
proof -
  have "length (stack c) + nout c < cap" using assms by (simp add: room_def scans_def used_def)
  then show ?thesis using assms by (auto simp: step_ok_def push_def advance_def room_def scans_def used_def Suc_diff_le)
qed

text \<open>Replacing the top node by one over it.\<close>

lemma wrap_step:
  assumes "room cap d bottom c" "scans (sp c) r" "bottom < length (stack c)" "\<And>q. node_wf q \<Longrightarrow> node_wf (f q)"
  shows "step_ok cap d bottom c (pbind (consume (c\<lparr>sp := r\<rparr>)) (\<lambda>(q, c1). push cap c1 (f q)))"
proof -
  obtain q st where st: "stack c = q # st" using assms(3) by (cases "stack c") auto
  have "length st + nout c + 1 < cap" using assms(1,2) st by (simp add: room_def scans_def used_def)
  then show ?thesis using assms st
    by (auto simp: step_ok_def consume_def push_def advance_def room_def scans_def used_def Suc_diff_le)
qed

lemma quantifier_step:
  assumes "room cap d bottom c" "scans (sp c) r" "bottom < length (stack c)" "0 \<le> mn" "mx = - 1 \<or> mn \<le> mx"
  shows "step_ok cap d bottom c (push_quantifier cap (c\<lparr>sp := r\<rparr>) mn mx)"
proof (cases r)
  case Nil
  then show ?thesis using assms(2) by (simp add: push_quantifier_def step_ok_def error_ok_def scans_def)
next
  case (Cons b r')
  show ?thesis
  proof (cases "b = 0x3f")
    case True
    have "scans (sp c) r'" using scans_trans [OF assms(2) [unfolded Cons] scans_Cons] True by simp
    from wrap_step [OF assms(1) this assms(3), of "QUANTIFIER mn mx False"] show ?thesis
      using assms(4,5) Cons True by (simp add: push_quantifier_def)
  next
    case False
    from wrap_step [OF assms(1,2,3), of "QUANTIFIER mn mx True"] show ?thesis
      using assms(4,5) Cons False by (simp add: push_quantifier_def)
  qed
qed

lemma char_class_step:
  assumes "room cap d bottom c" "scans (sp c) r"
  shows "step_ok cap d bottom c (parse_char_class cap (c\<lparr>sp := r\<rparr>))"
proof (cases r)
  case Nil
  then show ?thesis using assms(2) by (simp add: parse_char_class_def step_ok_def error_ok_def scans_def)
next
  case (Cons b r1)
  define start where "start = (if b = 0x5e then r1 else b # r1)"
  have inner: "start = r \<or> scans r start" using Cons by (simp add: start_def scans_Cons)
  show ?thesis
  proof (cases "char_class_loop True start")
    case (Inl e)
    then have "error_ok (sp c) e" using char_class_scan [of start True] inner assms(2) error_scans by auto
    then show ?thesis using Cons Inl by (simp add: parse_char_class_def start_def step_ok_def)
  next
    case (Inr rest)
    have "scans start rest" using char_class_scan [of start True] Inr by simp
    then have s: "scans (sp c) rest" using inner assms(2) scans_trans by blast
    have "compile_char_class (take (length start - length rest - 1) start) \<noteq> None" by (rule class_text_wf [OF Inr])
    then show ?thesis using push_step [OF assms(1) s] Cons Inr
      by (auto simp: parse_char_class_def start_def Let_def)
  qed
qed

lemma interval_step:
  assumes "room cap d bottom c" "scans (sp c) r" "bottom < length (stack c)"
  shows "case parse_interval cap (c\<lparr>sp := r\<rparr>) of Inl e \<Rightarrow> error_ok (sp c) e
    | Inr None \<Rightarrow> True | Inr (Some c1) \<Rightarrow> advance cap d bottom c c1"
proof (cases "interval_bounds r")
  case (Inl e)
  then show ?thesis using interval_bounds_scan [of r] error_scans [OF assms(2)] by (simp add: parse_interval_def)
next
  case (Inr x)
  show ?thesis
  proof (cases x)
    case None
    then show ?thesis using Inr by (simp add: parse_interval_def)
  next
    case (Some y)
    obtain mn mx r' where y: "y = (mn, mx, r')" by (cases y)
    have b: "0 \<le> mn" "mx = - 1 \<or> mn \<le> mx" "scans (sp c) r'"
      using interval_bounds_scan [of r] Inr Some y scans_trans [OF assms(2)] by auto
    have "step_ok cap d bottom c (push_quantifier cap (c\<lparr>sp := r'\<rparr>) mn mx)"
      by (rule quantifier_step [OF assms(1) b(3) assms(3) b(1,2)])
    then show ?thesis using Inr Some y
      by (cases "push_quantifier cap (c\<lparr>sp := r'\<rparr>) mn mx") (auto simp: parse_interval_def step_ok_def)
  qed
qed

lemma capture_step:
  assumes r: "room cap d bottom c" "sp c = ch # r" "ch \<noteq> 0"
    and inner: "outcome_ok cap (length (stack c) - bottom + d + 2) (length (stack c)) (depth + 1) (c\<lparr>sp := r\<rparr>) res"
  shows "step_ok cap d bottom c (pbind res (\<lambda>c1. pbind (consume c1) (\<lambda>(n, c2). push cap c2 (CAPTURE n))))"
proof (cases res)
  case (Inl e)
  then show ?thesis using inner error_scans [OF scans_Cons [OF r(3), of r]] r(2) by (simp add: outcome_ok_def step_ok_def)
next
  case (Inr c1)
  then obtain n where n: "node_wf n" "stack c1 = n # stack c" and l: "length (sp c1) < length r" "closed r \<Longrightarrow> closed (sp c1)"
    and u: "used c1 + (length (stack c) - bottom + d + 2) + 2 * length (sp c1) \<le> cap"
    using inner by (auto simp: outcome_ok_def leaves_def)
  have "scans (sp c) (sp c1)" using l r(2,3) closed_Cons by (auto simp: scans_def)
  then show ?thesis using Inr n u r(1)
    by (auto simp: step_ok_def consume_def push_def used_def advance_def room_def Suc_diff_le)
qed

lemma join_leaves:
  assumes "stack c2 = n2 # n1 # base" "node_wf n1" "node_wf n2" "used c2 + (d + 1) + 2 * length (sp c2) \<le> cap"
  shows "\<exists>c' n. join_alternatives cap c2 = Inr c' \<and> stack c' = n # base \<and> node_wf n \<and> sp c' = sp c2 \<and>
    used c' + d + 2 * length (sp c') \<le> cap"
  using assms by (auto simp: join_alternatives_def drop_top_def consume_def push_def used_def)

lemma alternation_outcome:
  assumes r: "room cap d bottom c" "sp c = ch # r" "ch \<noteq> 0"
    and right: "\<And>c1. room cap (d + 1) (length (stack c1)) c1 \<Longrightarrow> sp c1 = r \<Longrightarrow>
      outcome_ok cap (d + 1) (length (stack c1)) depth c1 (f c1)"
  shows "outcome_ok cap d bottom depth c
    (pbind (concatenate cap bottom (c\<lparr>sp := r\<rparr>)) (\<lambda>c1. pbind (f c1) (join_alternatives cap)))"
proof -
  let ?base = "drop (length (stack c) - bottom) (stack c)"
  have same: "c\<lparr>sp := r, sp := ch # sp (c\<lparr>sp := r\<rparr>)\<rparr> = c" using r(2) by simp
  obtain c1 where c1: "concatenate cap bottom (c\<lparr>sp := r\<rparr>) = Inr c1" "leaves cap d bottom (c\<lparr>sp := r\<rparr>) c1" "sp c1 = r"
    using concatenate_leaves [of cap d bottom ch "c\<lparr>sp := r\<rparr>"] r(1) unfolding same by auto
  then obtain n1 where n1: "node_wf n1" "stack c1 = n1 # ?base" "used c1 + d + 2 * length r \<le> cap" by (auto simp: leaves_def)
  have "\<forall>n \<in> set (stack c1). node_wf n" using n1(1,2) r(1) set_drop_subset by (fastforce simp: room_def)
  then have "room cap (d + 1) (length (stack c1)) c1" using n1(3) c1(3) by (simp add: room_def)
  then have right': "outcome_ok cap (d + 1) (length (stack c1)) depth c1 (f c1)" by (rule right) (rule c1(3))
  have s: "scans (sp c) r" using r(2,3) scans_Cons by simp
  show ?thesis
  proof (cases "f c1")
    case (Inl e)
    then show ?thesis using right' c1(1,3) error_scans [OF s] by (simp add: outcome_ok_def)
  next
    case (Inr c2)
    then obtain n2 where n2: "node_wf n2" "stack c2 = n2 # n1 # ?base" "used c2 + (d + 1) + 2 * length (sp c2) \<le> cap"
      and l: "length (sp c2) < length r" "0 < depth \<Longrightarrow> closed r \<Longrightarrow> closed (sp c2)"
      using right' n1(2) c1(3) by (auto simp: outcome_ok_def leaves_def)
    obtain c' n where "join_alternatives cap c2 = Inr c'" "stack c' = n # ?base" "node_wf n" "sp c' = sp c2"
      "used c' + d + 2 * length (sp c') \<le> cap" using join_leaves [OF n2(2) n1(1) n2(1,3)] by blast
    then show ?thesis using c1(1) Inr l s by (auto simp: outcome_ok_def leaves_def scans_def)
  qed
qed

lemma close_outcome:
  assumes "room cap d bottom c" "sp c = ch # r" "ch \<noteq> 0 \<or> depth = 0"
  shows "outcome_ok cap d bottom depth c (concatenate cap bottom (c\<lparr>sp := r\<rparr>))"
proof -
  have same: "c\<lparr>sp := r, sp := ch # sp (c\<lparr>sp := r\<rparr>)\<rparr> = c" using assms(2) by simp
  obtain c' where "concatenate cap bottom (c\<lparr>sp := r\<rparr>) = Inr c'" "leaves cap d bottom (c\<lparr>sp := r\<rparr>) c'" "sp c' = r"
    using concatenate_leaves [of cap d bottom ch "c\<lparr>sp := r\<rparr>"] assms(1) unfolding same by auto
  then show ?thesis using assms(2,3) closed_Cons by (auto simp: outcome_ok_def leaves_def)
qed

lemma outcome_if:
  "(b \<Longrightarrow> outcome_ok cap d bottom depth c x) \<Longrightarrow> (\<not> b \<Longrightarrow> outcome_ok cap d bottom depth c y) \<Longrightarrow>
    outcome_ok cap d bottom depth c (if b then x else y)"
  by simp

lemma parse_context_ok:
  assumes "length (sp c) < fuel" "room cap d bottom c"
  shows "outcome_ok cap d bottom depth c (parse_context fuel cap depth bottom c)"
  using assms
proof (induction fuel arbitrary: c d bottom depth)
  case (Suc fuel)
  show ?case
  proof (cases "sp c")
    case Nil
    then show ?thesis by (simp add: parse_context.simps outcome_ok_def)
  next
    case (Cons ch r)
    let ?c = "c\<lparr>sp := r\<rparr>"
    have ih: "outcome_ok cap d' b' dep c1 (parse_context fuel cap dep b' c1)"
      if "room cap d' b' c1" "length (sp c1) < length (sp c)" for d' b' dep c1
      using Suc.IH [of c1 d' b' dep] that Suc.prems(1) by simp
    have again: "outcome_ok cap d bottom depth c1 (parse_context fuel cap depth bottom c1)"
      if "advance cap d bottom c c1" for c1
      by (rule ih) (use that in \<open>auto simp: advance_def scans_def\<close>)
    show ?thesis
    proof (cases "ch = 0")
      case True
      then show ?thesis using close_outcome [OF Suc.prems(2) Cons, of depth] Cons
        by (auto simp: parse_context.simps Let_def outcome_ok_def)
    next
      case False
      have s: "scans (sp c) r" using Cons False scans_Cons by simp
      have single: "outcome_ok cap d bottom depth c (pbind (push cap (c\<lparr>sp := r'\<rparr>) n) (parse_context fuel cap depth bottom))"
        if "scans (sp c) r'" "node_wf n" for r' n
        by (rule outcome_step [OF push_step [OF Suc.prems(2) that] again])
      have quantify: "outcome_ok cap d bottom depth c
          (if length (stack ?c) = bottom then pbind (push cap ?c (CHARACTER (schar ch))) (parse_context fuel cap depth bottom)
           else pbind (push_quantifier cap ?c mn mx) (parse_context fuel cap depth bottom))"
        if "0 \<le> mn" "mx = - 1 \<or> mn \<le> mx" for mn mx
        using single [OF s, of "CHARACTER (schar ch)"] Suc.prems(2)
          outcome_step [OF quantifier_step [OF Suc.prems(2) s _ that] again]
        by (cases "length (stack c) = bottom") (simp_all add: room_def)
      have escape: "outcome_ok cap d bottom depth c (case r of [] \<Rightarrow> Inl OverRead
          | e # r' \<Rightarrow> pbind (push cap (?c\<lparr>sp := r'\<rparr>) (CHARACTER (schar e))) (parse_context fuel cap depth bottom))" if bs: "ch = 0x5c"
      proof (cases r)
        case Nil
        then show ?thesis using Cons bs closed_escape [of "[]"] by (auto simp: outcome_ok_def error_ok_def)
      next
        case r: (Cons e r')
        have "scans (sp c) r'" using Cons bs r closed_escape [of r] by (auto simp: scans_def)
        from single [OF this, of "CHARACTER (schar e)"] show ?thesis using r by simp
      qed
      have interval: "outcome_ok cap d bottom depth c
          (if length (stack ?c) = bottom then pbind (push cap ?c (CHARACTER (schar ch))) (parse_context fuel cap depth bottom)
           else pbind (parse_interval cap ?c) (\<lambda>q. case q of
             None \<Rightarrow> pbind (push cap ?c (CHARACTER (schar ch))) (parse_context fuel cap depth bottom)
           | Some c' \<Rightarrow> parse_context fuel cap depth bottom c'))"
      proof (cases "length (stack c) = bottom")
        case True
        then show ?thesis using single [OF s, of "CHARACTER (schar ch)"] by simp
      next
        case False
        then have "bottom < length (stack c)" using Suc.prems(2) by (simp add: room_def)
        note i = interval_step [OF Suc.prems(2) s this]
        consider e where "parse_interval cap ?c = Inl e" | "parse_interval cap ?c = Inr None"
          | c1 where "parse_interval cap ?c = Inr (Some c1)"
          by (cases "parse_interval cap ?c") auto
        then show ?thesis
        proof cases
          case 1
          then show ?thesis using i False by (simp add: outcome_ok_def)
        next
          case 2
          then show ?thesis using single [OF s, of "CHARACTER (schar ch)"] False by simp
        next
          case 3
          then have "advance cap d bottom c c1" using i by simp
          from outcome_advance [OF this again [OF this]] show ?thesis using 3 False by simp
        qed
      qed
      have capture: "outcome_ok cap d bottom depth c
         (pbind (parse_context fuel cap (depth + 1) (length (stack ?c)) ?c) (\<lambda>c1.
           pbind (consume c1) (\<lambda>(n, c2). pbind (push cap c2 (CAPTURE n)) (parse_context fuel cap depth bottom))))"
      proof -
        have rm: "room cap (length (stack c) - bottom + d + 2) (length (stack c)) ?c"
          using Suc.prems(2) Cons by (auto simp: room_def used_def)
        have "length (sp ?c) < length (sp c)" using Cons by simp
        from capture_step [OF Suc.prems(2) Cons False ih [OF rm this, of "depth + 1"]]
        have "step_ok cap d bottom c (pbind (parse_context fuel cap (depth + 1) (length (stack ?c)) ?c)
            (\<lambda>c1. pbind (consume c1) (\<lambda>(n, c2). push cap c2 (CAPTURE n))))" using Cons by simp
        from outcome_step [OF this again] show ?thesis by (simp add: pbind_assoc case_prod_unfold)
      qed
      have alt: "outcome_ok cap d bottom depth c
          (pbind (concatenate cap bottom ?c) (\<lambda>c1.
            pbind (parse_context fuel cap depth (length (stack c1)) c1) (join_alternatives cap)))"
        by (rule alternation_outcome [OF Suc.prems(2) Cons False], rule ih) (use Cons in simp_all)
      have bracket: "outcome_ok cap d bottom depth c (pbind (parse_char_class cap ?c) (parse_context fuel cap depth bottom))"
        by (rule outcome_step [OF char_class_step [OF Suc.prems(2) s] again])
      show ?thesis
        unfolding parse_context.simps Cons list.case Let_def
        by (rule outcome_if, rule escape, assumption, rule outcome_if, rule single [OF s], simp,
            rule outcome_if, rule bracket, rule outcome_if, rule alt,
            rule outcome_if, rule quantify, simp, simp, rule outcome_if, rule quantify, simp, simp,
            rule outcome_if, rule quantify, simp, simp, rule outcome_if, rule interval,
            rule outcome_if, rule single [OF s], simp, rule outcome_if, rule single [OF s], simp,
            rule outcome_if, rule capture,
            rule outcome_if, rule outcome_if, rule close_outcome [OF Suc.prems(2) Cons], simp add: False,
            simp add: outcome_ok_def, simp add: False, rule single [OF s], simp)
    qed
  qed
qed simp

section \<open>The parser and the engine\<close>

lemma parse_with_nodes_ok:
  assumes "0 \<notin> set p"
  shows "case parse_with_nodes p of
      Inl e \<Rightarrow> e = Reject \<or> e = Overflow \<or> e = OverRead \<and> p \<noteq> [] \<and> last p = 0x5c
    | Inr n \<Rightarrow> node_wf n"
proof -
  let ?c = "\<lparr>sp = p @ [0], stack = [], nout = 0\<rparr>"
  have "room (estimate_nodes p) 0 0 ?c" by (simp add: room_def used_def estimate_nodes_def)
  then have o: "outcome_ok (estimate_nodes p) 0 0 0 ?c (parse_context (length p + 2) (estimate_nodes p) 0 0 ?c)"
    by (intro parse_context_ok) simp_all
  have "closed (p @ [0]) \<longleftrightarrow> p = [] \<or> last p \<noteq> 0x5c" using assms by (auto simp: closed_def)
  then show ?thesis using o
    by (auto simp: parse_with_nodes_def outcome_ok_def leaves_def error_ok_def split: sum.splits)
qed

text \<open>C3. Parsing any pattern ends, and the buffer of twice the length of the pattern plus one
  nodes is never overrun: stack and output never meet. A pattern is refused, or it has an interval
  bound or needs a number of nodes that does not fit an \<open>int\<close>, or it gives a node the compiler accepts; the terminator is read
  over only when the pattern ends in a backslash.\<close>

theorem parse_stays_in_buffer:
  assumes "0 \<notin> set p"
  shows "case parse_with_nodes p of
      Inl e \<Rightarrow> e = Reject \<or> e = Overflow \<or> e = OverRead \<and> p \<noteq> [] \<and> last p = 0x5c
    | Inr n \<Rightarrow> node_wf n"
  using assms by (rule parse_with_nodes_ok)

theorem parse_stays_in_buffer_witness:
  "node_wf (ALTERNATION (CONCATENATION (CHARACTER 97) (QUANTIFIER 2 5 True (CHARACTER_CLASS_NEGATED [0x78, 0x2d, 0x7a]))) (CAPTURE ANY_CHARACTER))"
proof -
  let ?p = "[0x61, 0x5b, 0x5e, 0x78, 0x2d, 0x7a, 0x5d, 0x7b, 0x32, 0x2c, 0x35, 0x7d, 0x7c, 0x28, 0x2e, 0x29] :: u8 list"
  have "parse_with_nodes ?p = Inr (ALTERNATION (CONCATENATION (CHARACTER 97)
      (QUANTIFIER 2 5 True (CHARACTER_CLASS_NEGATED [0x78, 0x2d, 0x7a]))) (CAPTURE ANY_CHARACTER))" by code_simp
  moreover have "(0 :: u8) \<notin> set ?p" by simp
  ultimately show ?thesis using parse_stays_in_buffer [of ?p] by simp
qed

text \<open>C2. From the pattern to the answer. Take a pattern that the parser accepts, whose number of instructions is computed without
  overflow of \<open>int\<close> (it is for less than 2147483640 of them), and in which no optional repetition (lower bound 0) covers an
  anchor. It compiles into exactly the block that was allocated for it, and running it on any string, whatever lies behind
  its terminator, returns 1 when some piece of the string matches the parsed pattern, and 0 otherwise.\<close>

theorem regex_from_pattern_to_answer:
  assumes "0 \<notin> set p" "cregex_parse True p = Inr (Some n)" "estimate_instructions n = Some e" "anchors_required n" "0 \<notin> set s"
  shows "\<exists>prog m. cregex_compile_node True n = Some (Some prog) \<and> int (length prog) = e \<and>
    cregex_program_run True prog s after nm = Some (if \<exists>i j. re_match class_sem s n i j then 1 else 0, Some m)"
proof -
  have "parse_with_nodes p = Inr n" using assms(2) by (auto simp: cregex_parse_def split: sum.splits parse_error.splits)
  then have wf: "node_wf n" using parse_with_nodes_ok [OF assms(1)] by simp
  from regex_run_decides [OF wf assms(5,3), of after nm] show ?thesis unfolding occurs_iff [OF assms(4)] .
qed

theorem regex_from_pattern_to_answer_witness:
  "\<exists>prog m. cregex_compile_node True (CONCATENATION (CHARACTER 97) (QUANTIFIER 1 (- 1) True (CHARACTER 98))) = Some (Some prog) \<and>
     cregex_program_run True prog [120, 97, 98, 98] (\<lambda>_. 7) 2 = Some (1, Some m)"
proof -
  let ?n = "CONCATENATION (CHARACTER 97) (QUANTIFIER 1 (- 1) True (CHARACTER 98))" and ?s = "[120, 97, 98, 98] :: u8 list"
  have p: "cregex_parse True [0x61, 0x62, 0x2b] = Inr (Some ?n)" by code_simp
  have e: "estimate_instructions ?n = Some 9" by (simp add: estimate_instructions_def cint_def)
  have z: "0 \<notin> set ?s" "(0 :: u8) \<notin> set [0x61, 0x62, 0x2b]" "anchors_required ?n" by simp_all
  have "re_iter class_sem ?s (CHARACTER 98) (Suc 0) 2 3" by (simp add: schar_def)
  then have "re_match class_sem ?s (QUANTIFIER 1 (- 1) True (CHARACTER 98)) 2 3" by (rule m_quant) simp_all
  moreover have "re_match class_sem ?s (CHARACTER 97) 1 2" by (simp add: schar_def)
  ultimately have "re_match class_sem ?s ?n 1 3" by (auto simp del: re_match_simps intro: m_concat)
  then have "(\<exists>i j. re_match class_sem ?s ?n i j) = True" by blast
  with regex_from_pattern_to_answer [OF z(2) p e z(3,1), of "\<lambda>_. 7" 2] show ?thesis by (simp only: if_True) blast
qed

text \<open>The parser accepts \<open>(a{65536}){65536}\<close>, and the number of its instructions overflows.\<close>

lemma accepted_pattern_overflows:
  "map_sum id estimate_instructions
     (parse_with_nodes [0x28, 0x61, 0x7b, 0x36, 0x35, 0x35, 0x33, 0x36, 0x7d, 0x29, 0x7b, 0x36, 0x35, 0x35, 0x33, 0x36, 0x7d]) = Inr None"
proof -
  have "parse_with_nodes [0x28, 0x61, 0x7b, 0x36, 0x35, 0x35, 0x33, 0x36, 0x7d, 0x29, 0x7b, 0x36, 0x35, 0x35, 0x33, 0x36, 0x7d] =
      Inr (QUANTIFIER 65536 65536 True (CAPTURE (QUANTIFIER 65536 65536 True (CHARACTER 97))))" by code_simp
  then show ?thesis using nested_intervals_overflow by simp
qed

text \<open>The parser reads past the end of the pattern when it ends in a backslash: the escape
  takes the terminator for a character and the loop goes on behind it.\<close>

theorem trailing_backslash_over_read:
  "parse_with_nodes [0x61, 0x5c] = Inl OverRead"
  by code_simp

end
