(* ===== verification/Digest_Stream.thy ===== *)
theory Digest_Stream
  imports Prelude
begin

text \<open>
  The streaming layer of the four message digests (\<open>src/src/hash.c\<close>): the context, the loop that
  feeds whole blocks to a transform, the buffering of odd pieces and the padding. A transform is a
  function from the chaining values and one block to the new chaining values.

  The interface the rest of the program uses, the tables \<open>hash_init\<close>, \<open>hash_write\<close> and
  \<open>hash_final\<close>, is the locale \<open>message_digest\<close>: whatever pieces a message is written in, the
  digest is the one of the whole message.
\<close>

section \<open>The context\<close>

definition MAX_BLOCKSIZE :: nat where
  "MAX_BLOCKSIZE = 128"

record HASH_CONTEXT =
  buf :: "u8 list"
  state :: "u64 list"
  bytecount :: u64

type_synonym transform = "u64 list \<Rightarrow> u8 list \<Rightarrow> u64 list"

text \<open>\<open>memcpy\<close> of \<open>xs\<close> to offset \<open>off\<close> of a buffer.\<close>

definition memcpy_at :: "nat \<Rightarrow> 'a list \<Rightarrow> 'a list \<Rightarrow> 'a list" where
  "memcpy_at off xs b = take off b @ xs @ drop (off + length xs) b"

lemma length_memcpy_at [simp]: "off + length xs \<le> length b \<Longrightarrow> length (memcpy_at off xs b) = length b"
  by (simp add: memcpy_at_def)

lemma take_memcpy_at: "off \<le> length b \<Longrightarrow> take (off + length xs) (memcpy_at off xs b) = take off b @ xs"
  by (simp add: memcpy_at_def)

lemma take_memcpy_at': "off \<le> length b \<Longrightarrow> n = off + length xs \<Longrightarrow> take n (memcpy_at off xs b) = take off b @ xs"
  by (simp add: take_memcpy_at)

lemma memcpy_at_Nil [simp]: "off \<le> length b \<Longrightarrow> memcpy_at off [] b = b"
  by (simp add: memcpy_at_def)

lemma memcpy_at_Cons:
  "off < length b \<Longrightarrow> memcpy_at (Suc off) xs (b[off := x]) = memcpy_at off (x # xs) b"
  by (simp add: memcpy_at_def take_Suc_conv_app_nth)

definition do_transform :: "nat \<Rightarrow> transform \<Rightarrow> HASH_CONTEXT \<Rightarrow> HASH_CONTEXT" where
  "do_transform bs tr ctx = ctx\<lparr>state := tr (state ctx) (take bs (buf ctx))\<rparr>"

section \<open>Writing\<close>

text \<open>The loop over whole blocks of the input; the rest is shorter than a block.\<close>

function hash_blocks :: "nat \<Rightarrow> transform \<Rightarrow> u64 list \<Rightarrow> u8 list \<Rightarrow> u64 list \<times> u8 list" where
  "hash_blocks bs tr st d =
     (if bs = 0 \<or> length d < bs then (st, d) else hash_blocks bs tr (tr st (take bs d)) (drop bs d))"
  by pat_completeness auto
termination
  by (relation "measure (\<lambda>(bs, tr, st, d). length d)") auto

declare hash_blocks.simps [simp del]

definition block_write :: "nat \<Rightarrow> transform \<Rightarrow> HASH_CONTEXT \<Rightarrow> u8 list \<Rightarrow> HASH_CONTEXT" where
  "block_write bs tr ctx d =
     (let num = unat (bytecount ctx AND of_nat (bs - 1));
          ctx = ctx\<lparr>bytecount := bytecount ctx + of_nat (length d)\<rparr> in
      if num \<noteq> 0 \<and> length d < bs - num then ctx\<lparr>buf := memcpy_at num d (buf ctx)\<rparr>
      else
        let (ctx, d) =
              (if num \<noteq> 0 then
                 (do_transform bs tr (ctx\<lparr>buf := memcpy_at num (take (bs - num) d) (buf ctx)\<rparr>), drop (bs - num) d)
               else (ctx, d));
            (st, rest) = hash_blocks bs tr (state ctx) d in
        ctx\<lparr>state := st, buf := memcpy_at 0 rest (buf ctx)\<rparr>)"

section \<open>What a context has absorbed\<close>

definition absorbed :: "nat \<Rightarrow> transform \<Rightarrow> u64 list \<Rightarrow> HASH_CONTEXT \<Rightarrow> u8 list \<Rightarrow> bool" where
  "absorbed bs tr st0 ctx m \<longleftrightarrow>
     length (buf ctx) = MAX_BLOCKSIZE \<and> bytecount ctx = of_nat (length m) \<and>
     (\<exists>full part. m = full @ part \<and> bs dvd length full \<and> length part < bs \<and>
        state ctx = foldl tr st0 (chunks bs full) \<and> take (length part) (buf ctx) = part)"

lemma absorbedI:
  assumes "length (buf ctx) = MAX_BLOCKSIZE" "bytecount ctx = of_nat (length m)" "m = full @ part" "bs dvd length full"
    "length part < bs" "state ctx = foldl tr st0 (chunks bs full)" "take (length part) (buf ctx) = part"
  shows "absorbed bs tr st0 ctx m"
  using assms unfolding absorbed_def by blast

definition block_size :: "nat \<Rightarrow> bool" where
  "block_size bs \<longleftrightarrow> (\<exists>k. bs = 2 ^ k) \<and> bs \<le> MAX_BLOCKSIZE"

lemma block_size_pos: "block_size bs \<Longrightarrow> 0 < bs"
  by (auto simp: block_size_def)

lemma count_mod:
  assumes "block_size bs"
  shows "unat ((of_nat n :: u64) AND of_nat (bs - 1)) = n mod bs"
proof -
  obtain k where k: "bs = 2 ^ k" using assms by (auto simp: block_size_def)
  have "(2 :: nat) ^ k \<le> 2 ^ 7" using assms k by (simp add: block_size_def MAX_BLOCKSIZE_def)
  then have k64: "k \<le> 64" using power_le_imp_le_exp [of "2 :: nat" k 7] by simp
  have "(of_nat (bs - 1) :: u64) = mask k" by (simp add: k of_nat_diff mask_eq_exp_minus_1)
  then have "unat ((of_nat n :: u64) AND of_nat (bs - 1)) = n mod 2 ^ 64 mod 2 ^ k"
    by (simp add: unat_mask_AND unat_of_nat)
  also have "\<dots> = n mod 2 ^ k" by (rule mod_mod_cancel) (rule le_imp_power_dvd [OF k64])
  finally show ?thesis by (simp add: k)
qed

lemma absorbed_count:
  assumes "block_size bs" "m = full @ part" "bs dvd length full" "length part < bs" "bytecount ctx = of_nat (length m)"
  shows "unat (bytecount ctx AND of_nat (bs - 1)) = length part"
proof -
  have "length m mod bs = length part" using assms(2-4) by (auto simp: dvd_def)
  then show ?thesis using count_mod [OF assms(1), of "length m"] assms(5) by simp
qed

lemma hash_blocks_chunks:
  "0 < bs \<Longrightarrow> \<exists>full part. d = full @ part \<and> bs dvd length full \<and> length part < bs \<and>
     hash_blocks bs tr st d = (foldl tr st (chunks bs full), part)"
proof (induction bs tr st d rule: hash_blocks.induct)
  case (1 bs tr st d)
  show ?case
  proof (cases "length d < bs")
    case True
    then show ?thesis by (intro exI [of _ "[]"] exI [of _ d]) (simp add: hash_blocks.simps)
  next
    case False
    from 1(1) [OF _ 1(2)] False 1(2) obtain full part
      where ih: "drop bs d = full @ part" "bs dvd length full" "length part < bs"
        "hash_blocks bs tr (tr st (take bs d)) (drop bs d) = (foldl tr (tr st (take bs d)) (chunks bs full), part)" by auto
    have "d = (take bs d @ full) @ part" using ih(1) by (metis append_assoc append_take_drop_id)
    moreover have "bs dvd length (take bs d @ full)" using ih(2) False by simp
    moreover have "chunks bs (take bs d @ full) = take bs d # chunks bs full"
      using 1(2) False by (intro chunks_step) simp_all
    moreover have "hash_blocks bs tr st d = hash_blocks bs tr (tr st (take bs d)) (drop bs d)"
      using False 1(2) by (subst hash_blocks.simps) simp
    ultimately show ?thesis using ih by (metis foldl_Cons)
  qed
qed

text \<open>The end of a write: whole blocks are hashed, the rest is buffered.\<close>

lemma absorbed_blocks:
  assumes "block_size bs" "length (buf ctx) = MAX_BLOCKSIZE" "bs dvd length m" "state ctx = foldl tr st0 (chunks bs m)"
    "bytecount ctx = of_nat (length (m @ d))"
  shows "absorbed bs tr st0 (let (st, rest) = hash_blocks bs tr (state ctx) d in ctx\<lparr>state := st, buf := memcpy_at 0 rest (buf ctx)\<rparr>) (m @ d)"
proof -
  have pos: "0 < bs" by (rule block_size_pos [OF assms(1)])
  obtain full part where h: "d = full @ part" "bs dvd length full" "length part < bs"
    "hash_blocks bs tr (state ctx) d = (foldl tr (state ctx) (chunks bs full), part)"
    using hash_blocks_chunks [OF pos] by blast
  have le: "length part \<le> length (buf ctx)" using h(3) assms(1,2) by (simp add: block_size_def)
  have "m @ d = (m @ full) @ part" using h(1) by simp
  moreover have "foldl tr (state ctx) (chunks bs full) = foldl tr st0 (chunks bs (m @ full))"
    using chunks_append [OF pos assms(3)] assms(4) by simp
  moreover have "bs dvd length (m @ full)" using assms(3) h(2) by simp
  moreover have "take (length part) (memcpy_at 0 part (buf ctx)) = part" by (simp add: memcpy_at_def)
  ultimately show ?thesis
    unfolding absorbed_def using h(3,4) le assms(2,5) by (simp add: exI [of _ "m @ full"] exI [of _ part])
qed

lemma block_write_absorbed:
  assumes bs: "block_size bs" and a: "absorbed bs tr st0 ctx m"
  shows "absorbed bs tr st0 (block_write bs tr ctx d) (m @ d)"
proof -
  obtain full part where m: "m = full @ part" "bs dvd length full" "length part < bs"
    "state ctx = foldl tr st0 (chunks bs full)" "take (length part) (buf ctx) = part"
    and b: "length (buf ctx) = MAX_BLOCKSIZE" "bytecount ctx = of_nat (length m)"
    using a by (auto simp: absorbed_def)
  let ?n = "length part" and ?c = "ctx\<lparr>bytecount := bytecount ctx + of_nat (length d)\<rparr>"
  have num: "unat (bytecount ctx AND of_nat (bs - 1)) = ?n" by (rule absorbed_count [OF bs m(1-3) b(2)])
  have max: "bs \<le> length (buf ctx)" using bs b(1) by (simp add: block_size_def)
  consider "?n \<noteq> 0" "length d < bs - ?n" | "?n \<noteq> 0" "\<not> length d < bs - ?n" | "?n = 0" by blast
  then show ?thesis
  proof cases
    case 1
    have "block_write bs tr ctx d = ?c\<lparr>buf := memcpy_at ?n d (buf ctx)\<rparr>"
      unfolding block_write_def Let_def num using 1 by simp
    moreover have "take (?n + length d) (memcpy_at ?n d (buf ctx)) = part @ d"
      using take_memcpy_at [of ?n "buf ctx" d] max m(3,5) by simp
    ultimately show ?thesis
      unfolding absorbed_def using 1 m b max
      by (intro conjI exI [of _ full] exI [of _ "part @ d"]) simp_all
  next
    case 2
    let ?t = "take (bs - ?n) d" and ?d = "drop (bs - ?n) d"
    let ?c1 = "?c\<lparr>buf := memcpy_at ?n ?t (buf ctx)\<rparr>"
    have eq: "block_write bs tr ctx d = (let (st, rest) = hash_blocks bs tr (state (do_transform bs tr ?c1)) ?d in
        (do_transform bs tr ?c1)\<lparr>state := st, buf := memcpy_at 0 rest (buf (do_transform bs tr ?c1))\<rparr>)"
      unfolding block_write_def Let_def num using 2 by simp
    have blk: "take bs (buf ?c1) = part @ ?t"
      using take_memcpy_at' [of ?n "buf ctx" bs ?t] max m(3,5) 2 by simp
    have l: "length (part @ ?t) = bs" using 2 m(3) by simp
    have "absorbed bs tr st0 (block_write bs tr ctx d) ((full @ part @ ?t) @ ?d)"
      unfolding eq
    proof (rule absorbed_blocks [OF bs])
      show "length (buf (do_transform bs tr ?c1)) = MAX_BLOCKSIZE" using b max 2 m(3) by (simp add: do_transform_def)
      show "bs dvd length (full @ part @ ?t)" using m(2) l by simp
      have "chunks bs (full @ part @ ?t) = chunks bs full @ [part @ ?t]"
        using chunks_append [OF block_size_pos [OF bs] m(2), of "part @ ?t"]
          chunks_step [OF block_size_pos [OF bs] l, of "[]"] by simp
      then show "state (do_transform bs tr ?c1) = foldl tr st0 (chunks bs (full @ part @ ?t))"
        using blk m(4) by (simp add: do_transform_def)
      show "bytecount (do_transform bs tr ?c1) = of_nat (length ((full @ part @ ?t) @ ?d))"
        using b(2) m(1) 2 by (simp add: do_transform_def)
    qed
    then show ?thesis using m(1) by simp
  next
    case 3
    have "block_write bs tr ctx d = (let (st, rest) = hash_blocks bs tr (state ?c) d in
        ?c\<lparr>state := st, buf := memcpy_at 0 rest (buf ?c)\<rparr>)"
      unfolding block_write_def Let_def num using 3 by simp
    moreover have "absorbed bs tr st0 \<dots> (full @ d)"
      by (rule absorbed_blocks [OF bs]) (use b m 3 in simp_all)
    ultimately show ?thesis using 3 m(1) by simp
  qed
qed

section \<open>Padding\<close>

text \<open>
  The loop that pads a block up to the place of the bit count. \<open>None\<close> is running out of the first
  argument, which the callers set to twice the block size; this is shown to be enough.
\<close>

primrec pad_loop :: "nat \<Rightarrow> nat \<Rightarrow> nat \<Rightarrow> transform \<Rightarrow> nat \<Rightarrow> HASH_CONTEXT \<Rightarrow> HASH_CONTEXT option" where
  "pad_loop 0 bs lim tr pos ctx = None"
| "pad_loop (Suc fuel) bs lim tr pos ctx =
     (if pos = lim then Some ctx
      else
        let pos = pos AND (bs - 1);
            ctx = (if pos = 0 then do_transform bs tr ctx else ctx) in
        pad_loop fuel bs lim tr (pos + 1) (ctx\<lparr>buf := (buf ctx)[pos := 0]\<rparr>))"

text \<open>
  The common shape of the three SHA finals: \<open>put\<close> stores the bit count, \<open>out\<close> writes the chaining
  values to the start of the buffer.
\<close>

definition block_final ::
  "nat \<Rightarrow> nat \<Rightarrow> transform \<Rightarrow> (u64 \<Rightarrow> u8 list \<Rightarrow> u8 list) \<Rightarrow> (u64 list \<Rightarrow> u8 list \<Rightarrow> u8 list) \<Rightarrow> HASH_CONTEXT \<Rightarrow> HASH_CONTEXT option" where
  "block_final bs lim tr put out ctx =
     (let pos = unat (bytecount ctx AND of_nat (bs - 1)) in
      do { ctx \<leftarrow> pad_loop (2 * bs) bs lim tr (pos + 1) (ctx\<lparr>buf := (buf ctx)[pos := 0x80]\<rparr>);
           let ctx = do_transform bs tr (ctx\<lparr>buf := put (bytecount ctx) (buf ctx)\<rparr>);
           Some (ctx\<lparr>buf := out (state ctx) (buf ctx)\<rparr>) })"

text \<open>The padded message: a one bit, zeros up to \<open>lim\<close> bytes of the last block, the bit count.\<close>

definition padded :: "nat \<Rightarrow> nat \<Rightarrow> (nat \<Rightarrow> u8 list) \<Rightarrow> u8 list \<Rightarrow> u8 list" where
  "padded bs lim lenbytes m =
     m @ 0x80 # replicate ((bs + lim - (length m + 1) mod bs) mod bs) 0 @ lenbytes (length m)"

lemma and_block_mask:
  assumes "block_size bs"
  shows "n AND (bs - Suc 0) = n mod bs"
proof -
  obtain k where k: "bs = 2 ^ k" using assms by (auto simp: block_size_def)
  have "bs - Suc 0 = mask k" by (simp add: k mask_eq_exp_minus_1)
  then have "n AND (bs - Suc 0) = take_bit k n" by (simp only: take_bit_eq_mask)
  then show ?thesis by (simp add: k take_bit_eq_mod)
qed

lemma pad_loop_fill:
  assumes "block_size bs"
  shows "0 < pos \<Longrightarrow> pos \<le> lim \<Longrightarrow> lim < bs \<Longrightarrow> bs \<le> length (buf ctx) \<Longrightarrow> lim - pos < fuel \<Longrightarrow>
    pad_loop fuel bs lim tr pos ctx = Some (ctx\<lparr>buf := memcpy_at pos (replicate (lim - pos) 0) (buf ctx)\<rparr>)"
proof (induction "lim - pos" arbitrary: pos ctx fuel)
  case 0
  then show ?case by (cases fuel) auto
next
  case (Suc k)
  obtain fuel' where fuel: "fuel = Suc fuel'" using Suc.prems(5) by (cases fuel) auto
  have "pos mod bs = pos" using Suc.prems(2,3) by simp
  then have step: "pad_loop fuel bs lim tr pos ctx = pad_loop fuel' bs lim tr (pos + 1) (ctx\<lparr>buf := (buf ctx)[pos := 0]\<rparr>)"
    using Suc.hyps(2) Suc.prems(1) by (auto simp: fuel Let_def and_block_mask [OF assms])
  have "pad_loop fuel' bs lim tr (pos + 1) (ctx\<lparr>buf := (buf ctx)[pos := 0]\<rparr>) =
      Some (ctx\<lparr>buf := memcpy_at (pos + 1) (replicate (lim - (pos + 1)) 0) ((buf ctx)[pos := 0])\<rparr>)"
    using Suc.hyps(1) [of "pos + 1" "ctx\<lparr>buf := (buf ctx)[pos := 0]\<rparr>" fuel'] Suc.hyps(2) Suc.prems fuel by simp
  moreover have "lim - pos = Suc (lim - Suc pos)" using Suc.hyps(2) by simp
  ultimately show ?case using step memcpy_at_Cons [of pos "buf ctx" "replicate (lim - Suc pos) 0" 0] Suc.prems by simp
qed

lemma pad_loop_wrap:
  assumes bs: "block_size bs"
  shows "0 < lim \<Longrightarrow> lim < pos \<Longrightarrow> pos \<le> bs \<Longrightarrow> bs \<le> length (buf ctx) \<Longrightarrow> bs + lim - pos < fuel \<Longrightarrow>
    pad_loop fuel bs lim tr pos ctx =
      (let c = do_transform bs tr (ctx\<lparr>buf := memcpy_at pos (replicate (bs - pos) 0) (buf ctx)\<rparr>) in
       Some (c\<lparr>buf := memcpy_at 0 (replicate lim 0) (buf c)\<rparr>))"
proof (induction "bs - pos" arbitrary: pos ctx fuel)
  case 0
  then have pos: "pos = bs" by simp
  obtain fuel' where fuel: "fuel = Suc fuel'" using 0 by (cases fuel) auto
  let ?c = "do_transform bs tr ctx"
  have step: "pad_loop fuel bs lim tr pos ctx = pad_loop fuel' bs lim tr 1 (?c\<lparr>buf := (buf ?c)[0 := 0]\<rparr>)"
    using 0 pos by (simp add: fuel Let_def and_block_mask [OF bs])
  have "pad_loop fuel' bs lim tr 1 (?c\<lparr>buf := (buf ?c)[0 := 0]\<rparr>) =
      Some (?c\<lparr>buf := memcpy_at 1 (replicate (lim - 1) 0) ((buf ?c)[0 := 0])\<rparr>)"
    using pad_loop_fill [OF bs, of 1 lim "?c\<lparr>buf := (buf ?c)[0 := 0]\<rparr>" fuel' tr] 0 pos fuel
    by (simp add: do_transform_def)
  moreover have "replicate lim (0 :: u8) = 0 # replicate (lim - 1) 0" using 0 by (cases lim) auto
  moreover have "0 < length (buf ?c)" using 0 by (auto simp: do_transform_def)
  ultimately show ?case
    using step pos memcpy_at_Cons [of 0 "buf ?c" "replicate (lim - 1) 0" 0] 0 by (simp add: Let_def)
next
  case (Suc k)
  obtain fuel' where fuel: "fuel = Suc fuel'" using Suc.prems(5) by (cases fuel) auto
  have "pos mod bs = pos" "pos < bs" using Suc.hyps(2) Suc.prems by simp_all
  then have step: "pad_loop fuel bs lim tr pos ctx = pad_loop fuel' bs lim tr (pos + 1) (ctx\<lparr>buf := (buf ctx)[pos := 0]\<rparr>)"
    using Suc.prems(1,2) by (auto simp: fuel Let_def and_block_mask [OF bs])
  have "bs - pos = Suc (bs - Suc pos)" using Suc.hyps(2) by simp
  then show ?case
    using step Suc.hyps(1) [of "pos + 1" "ctx\<lparr>buf := (buf ctx)[pos := 0]\<rparr>" fuel'] Suc.hyps(2) Suc.prems fuel
      memcpy_at_Cons [of pos "buf ctx" "replicate (bs - Suc pos) 0" 0] by simp
qed

text \<open>How many zeros the padding has, in terms of the bytes of the last block.\<close>

lemma pad_zeros:
  assumes "bs dvd length full" "length part < bs" "lim < bs"
  shows "(bs + lim - (length (full @ part) + 1) mod bs) mod bs =
    (if length part + 1 \<le> lim then lim - (length part + 1) else bs - (length part + 1) + lim)"
proof -
  obtain k where k: "length full = bs * k" using assms(1) by blast
  have "(length (full @ part) + 1) mod bs = (length part + 1) mod bs"
    by (metis k add.assoc length_append mod_mult_self4)
  also have "\<dots> = (if length part + 1 = bs then 0 else length part + 1)" using assms(2) by auto
  finally have m: "(length (full @ part) + 1) mod bs = (if length part + 1 = bs then 0 else length part + 1)" .
  consider "length part + 1 = bs" | "length part + 1 \<noteq> bs" "length part + 1 \<le> lim" | "length part + 1 \<noteq> bs" "lim < length part + 1" by linarith
  then show ?thesis
  proof cases
    case 2
    then have e: "bs + lim - (length part + 1) = bs + (lim - (length part + 1))" by simp
    have "(bs + lim - (length part + 1)) mod bs = lim - (length part + 1)" unfolding e using assms(3) by simp
    then show ?thesis using 2 m by simp
  qed (use m assms in auto)
qed

lemma chunks_one: "0 < n \<Longrightarrow> length x = n \<Longrightarrow> chunks n x = [x]"
  using chunks_step [of n x "[]"] by simp

lemma padded_length_dvd:
  assumes "bs dvd length full" "length part < bs" "lim < bs" "length lb = bs - lim"
  shows "chunks bs (padded bs lim (\<lambda>_. lb) (full @ part)) =
    chunks bs full @ (if length part + 1 \<le> lim then [part @ 0x80 # replicate (lim - (length part + 1)) 0 @ lb]
      else [part @ 0x80 # replicate (bs - (length part + 1)) 0, replicate lim 0 @ lb])"
proof -
  have pos: "0 < bs" using assms(2) by simp
  let ?rest = "part @ 0x80 # replicate (if length part + 1 \<le> lim then lim - (length part + 1) else bs - (length part + 1) + lim) 0 @ lb"
  have "padded bs lim (\<lambda>_. lb) (full @ part) = full @ ?rest"
    by (simp only: padded_def pad_zeros [OF assms(1-3)] append_assoc)
  moreover have "chunks bs ?rest = (if length part + 1 \<le> lim then [part @ 0x80 # replicate (lim - (length part + 1)) 0 @ lb]
      else [part @ 0x80 # replicate (bs - (length part + 1)) 0, replicate lim 0 @ lb])"
  proof (cases "length part + 1 \<le> lim")
    case True
    then show ?thesis using chunks_one [OF pos, of "part @ 0x80 # replicate (lim - (length part + 1)) 0 @ lb"] assms by simp
  next
    case False
    have "?rest = (part @ 0x80 # replicate (bs - (length part + 1)) 0) @ replicate lim 0 @ lb"
      using False by (simp add: replicate_add)
    then show ?thesis using False assms
        chunks_step [OF pos, of "part @ 0x80 # replicate (bs - (length part + 1)) 0" "replicate lim 0 @ lb"]
        chunks_one [OF pos, of "replicate lim 0 @ lb"] by simp
  qed
  ultimately show ?thesis using chunks_append [OF pos assms(1), of ?rest] by simp
qed

lemma list_update_split: "i < length b \<Longrightarrow> b[i := x] = memcpy_at i [x] b"
  by (simp add: memcpy_at_def upd_conv_take_nth_drop)

lemma take_pad:
  assumes "take (length part) b = part" "length part < pos" "pos = length part + 1" "pos \<le> n" "n \<le> length b"
  shows "take n (memcpy_at pos (replicate (n - pos) 0) (b[length part := 0x80])) = part @ 0x80 # replicate (n - pos) (0 :: u8)"
proof -
  have "take pos (b[length part := 0x80]) = part @ [0x80]"
    using assms by (simp add: take_Suc_conv_app_nth)
  then show ?thesis using take_memcpy_at' [of pos "b[length part := 0x80]" n "replicate (n - pos) 0"] assms by simp
qed

lemma block_final_absorbed:
  assumes bs: "block_size bs" "0 < lim" "lim < bs" and a: "absorbed bs tr st0 ctx m"
    and lb: "\<And>w. length (lb w) = bs - lim"
    and put: "\<And>w b. length b = MAX_BLOCKSIZE \<Longrightarrow> put w b = memcpy_at lim (lb w) b"
  shows "\<exists>c' b. block_final bs lim tr put out ctx = Some c' \<and> length b = MAX_BLOCKSIZE \<and>
    buf c' = out (foldl tr st0 (chunks bs (padded bs lim (\<lambda>n. lb (of_nat n)) m))) b"
proof -
  obtain full part where m: "m = full @ part" "bs dvd length full" "length part < bs"
    "state ctx = foldl tr st0 (chunks bs full)" "take (length part) (buf ctx) = part"
    and b: "length (buf ctx) = MAX_BLOCKSIZE" "bytecount ctx = of_nat (length m)"
    using a by (auto simp: absorbed_def)
  let ?p = "length part + 1" and ?c = "ctx\<lparr>buf := (buf ctx)[length part := 0x80]\<rparr>" and ?lb = "lb (of_nat (length m))"
  have num: "unat (bytecount ctx AND of_nat (bs - 1)) = length part" by (rule absorbed_count [OF bs(1) m(1-3) b(2)])
  have max: "bs \<le> length (buf ctx)" using bs b(1) by (simp add: block_size_def)
  have pad: "chunks bs (padded bs lim (\<lambda>n. lb (of_nat n)) m) = chunks bs (padded bs lim (\<lambda>_. ?lb) (full @ part))"
    by (simp add: padded_def m(1))
  note chunks = pad [unfolded padded_length_dvd [OF m(2,3) bs(3) lb [of "of_nat (length m)"]]]
  have fin: ?thesis if l: "pad_loop (2 * bs) bs lim tr ?p ?c = Some c1" "length (buf c1) = MAX_BLOCKSIZE" "bytecount c1 = bytecount ctx"
    "tr (state c1) (take lim (buf c1) @ ?lb) = foldl tr st0 (chunks bs (padded bs lim (\<lambda>n. lb (of_nat n)) m))" for c1
  proof -
    have "take bs (memcpy_at lim ?lb (buf c1)) = take lim (buf c1) @ ?lb"
      using take_memcpy_at' [of lim "buf c1" bs ?lb] l(2) bs lb max b(1) by simp
    then have "block_final bs lim tr put out ctx = Some (c1\<lparr>buf := out (tr (state c1) (take lim (buf c1) @ ?lb)) (memcpy_at lim ?lb (buf c1)),
        state := tr (state c1) (take lim (buf c1) @ ?lb)\<rparr>)"
      unfolding block_final_def num Let_def using l b(2) put [OF l(2)] by (simp add: do_transform_def)
    moreover have "length (memcpy_at lim ?lb (buf c1)) = MAX_BLOCKSIZE" using l(2) lb bs(3) max b(1) by simp
    ultimately show ?thesis using l(4) by auto
  qed
  show ?thesis
  proof (cases "?p \<le> lim")
    case True
    have t: "take lim (memcpy_at ?p (replicate (lim - ?p) 0) (buf ?c)) = part @ 0x80 # replicate (lim - ?p) 0"
      using take_pad [OF m(5), of ?p lim] True bs max by simp
    have "pad_loop (2 * bs) bs lim tr ?p ?c = Some (?c\<lparr>buf := memcpy_at ?p (replicate (lim - ?p) 0) (buf ?c)\<rparr>)"
      by (rule pad_loop_fill [OF bs(1)]) (use True bs max in auto)
    then show ?thesis
      by (rule fin) (use t True chunks m(4) b(1) max bs in simp_all)
  next
    case False
    let ?c1 = "do_transform bs tr (?c\<lparr>buf := memcpy_at ?p (replicate (bs - ?p) 0) (buf ?c)\<rparr>)"
    have t: "take bs (memcpy_at ?p (replicate (bs - ?p) 0) (buf ?c)) = part @ 0x80 # replicate (bs - ?p) 0"
      using take_pad [OF m(5), of ?p bs] m(3) max by simp
    have "pad_loop (2 * bs) bs lim tr ?p ?c = (let c = ?c1 in Some (c\<lparr>buf := memcpy_at 0 (replicate lim 0) (buf c)\<rparr>))"
      by (rule pad_loop_wrap [OF bs(1)]) (use False bs max m(3) in auto)
    then have p: "pad_loop (2 * bs) bs lim tr ?p ?c = Some (?c1\<lparr>buf := memcpy_at 0 (replicate lim 0) (buf ?c1)\<rparr>)"
      by (simp only: Let_def)
    have l1: "length (buf ?c1) = MAX_BLOCKSIZE" using b(1) max m(3) by (simp add: do_transform_def)
    show ?thesis
    proof (rule fin [OF p])
      show "length (buf (?c1\<lparr>buf := memcpy_at 0 (replicate lim 0) (buf ?c1)\<rparr>)) = MAX_BLOCKSIZE"
        using l1 bs max b(1) by simp
      have "take lim (memcpy_at 0 (replicate lim 0) (buf ?c1)) = replicate lim 0" by (simp add: memcpy_at_def)
      moreover have "state ?c1 = foldl tr st0 (chunks bs full @ [part @ 0x80 # replicate (bs - ?p) 0])"
        using t m(4) by (simp add: do_transform_def)
      ultimately show "tr (state (?c1\<lparr>buf := memcpy_at 0 (replicate lim 0) (buf ?c1)\<rparr>))
          (take lim (buf (?c1\<lparr>buf := memcpy_at 0 (replicate lim 0) (buf ?c1)\<rparr>)) @ ?lb) =
          foldl tr st0 (chunks bs (padded bs lim (\<lambda>n. lb (of_nat n)) m))"
        using False chunks by simp
    qed (simp add: do_transform_def)
  qed
qed

end
