(* ===== verification/Digest_Words.thy ===== *)
theory Digest_Words
  imports Digest_Stream
begin

text \<open>
  Rotations and byte order for the digests: the macros of \<open>src/src/hash.c\<close> and
  \<open>src/src/missing.h\<close>, the bytes of the bit count and of the result, and the interface locale of a
  message digest.
\<close>

section \<open>Rotations\<close>

definition ROL32 :: "u32 \<Rightarrow> nat \<Rightarrow> u32" where
  "ROL32 a b = push_bit b a OR drop_bit (32 - b) a"

definition ROR32 :: "u32 \<Rightarrow> nat \<Rightarrow> u32" where
  "ROR32 a b = drop_bit b a OR push_bit (32 - b) a"

definition ROR64 :: "u64 \<Rightarrow> nat \<Rightarrow> u64" where
  "ROR64 a b = drop_bit b a OR push_bit (64 - b) a"

text \<open>The macros shared by SHA-256 and SHA-512.\<close>

definition Ch :: "'a::len word \<Rightarrow> 'a word \<Rightarrow> 'a word \<Rightarrow> 'a word" where
  "Ch x y z = z XOR (x AND (y XOR z))"

definition Ma :: "'a::len word \<Rightarrow> 'a word \<Rightarrow> 'a word \<Rightarrow> 'a word" where
  "Ma x y z = (x AND y) OR (z AND (x OR y))"

lemma Ch_spec: "Ch x y z = (x AND y) XOR (NOT x AND z)"
  by (rule bit_word_eqI) (auto simp: Ch_def bit_simps)

lemma Ma_spec: "Ma x y z = (x AND y) XOR (x AND z) XOR (y AND z)"
  by (rule bit_word_eqI) (auto simp: Ma_def bit_simps)

lemma bit_rotr:
  assumes "0 < b" "b < LENGTH('a)" "n < LENGTH('a::len)"
  shows "bit (drop_bit b a OR push_bit (LENGTH('a) - b) (a :: 'a word)) n = bit a ((n + b) mod LENGTH('a))"
proof (cases "n + b < LENGTH('a)")
  case True
  then show ?thesis using assms by (auto simp: bit_simps add.commute)
next
  case False
  then have "(n + b) mod LENGTH('a) = n + b - LENGTH('a)" using assms by (simp add: le_mod_geq)
  moreover have "\<not> bit a (b + n)" using False by (auto dest: bit_imp_le_length)
  ultimately show ?thesis using assms False by (auto simp: bit_simps)
qed

lemma bit_ROR32: "0 < b \<Longrightarrow> b < 32 \<Longrightarrow> n < 32 \<Longrightarrow> bit (ROR32 a b) n = bit a ((n + b) mod 32)"
  using bit_rotr [of b n a] by (simp add: ROR32_def)

lemma bit_ROR64: "0 < b \<Longrightarrow> b < 64 \<Longrightarrow> n < 64 \<Longrightarrow> bit (ROR64 a b) n = bit a ((n + b) mod 64)"
  using bit_rotr [of b n a] by (simp add: ROR64_def)

lemma ROR32_xor: "0 < b \<Longrightarrow> b < 32 \<Longrightarrow> ROR32 (x XOR y) b = ROR32 x b XOR ROR32 y b"
  by (rule bit_word_eqI) (simp add: bit_ROR32 bit_xor_iff)

lemma ROR64_xor: "0 < b \<Longrightarrow> b < 64 \<Longrightarrow> ROR64 (x XOR y) b = ROR64 x b XOR ROR64 y b"
  by (rule bit_word_eqI) (simp add: bit_ROR64 bit_xor_iff)

lemma ROR32_ROR32: "0 < a \<Longrightarrow> 0 < b \<Longrightarrow> a + b < 32 \<Longrightarrow> ROR32 (ROR32 x a) b = ROR32 x (a + b)"
  by (rule bit_word_eqI) (simp add: bit_ROR32 mod_simps add_ac)

lemma ROR64_ROR64: "0 < a \<Longrightarrow> 0 < b \<Longrightarrow> a + b < 64 \<Longrightarrow> ROR64 (ROR64 x a) b = ROR64 x (a + b)"
  by (rule bit_word_eqI) (simp add: bit_ROR64 mod_simps add_ac)

section \<open>Bytes\<close>

definition be32_bytes :: "u32 \<Rightarrow> u8 list" where
  "be32_bytes w = rev (le32_bytes w)"

definition be64_bytes :: "u64 \<Rightarrow> u8 list" where
  "be64_bytes w = be32_bytes (ucast (drop_bit 32 w)) @ be32_bytes (ucast w)"

definition le64_bytes :: "u64 \<Rightarrow> u8 list" where
  "le64_bytes w = rev (be64_bytes w)"

definition read_swap32 :: "u8 list \<Rightarrow> u32" where
  "read_swap32 p = le32_join (p ! 3) (p ! 2) (p ! 1) (p ! 0)"

definition read_swap64 :: "u8 list \<Rightarrow> u64" where
  "read_swap64 p = push_bit 32 (ucast (read_swap32 p)) OR ucast (read_swap32 (drop 4 p))"

definition read_le32 :: "u8 list \<Rightarrow> u32" where
  "read_le32 p = le32_join (p ! 0) (p ! 1) (p ! 2) (p ! 3)"

lemma length_be_bytes [simp]:
  "length (be32_bytes v) = 4" "length (be64_bytes w) = 8" "length (le64_bytes w) = 8"
  by (simp_all add: be32_bytes_def be64_bytes_def le64_bytes_def)

text \<open>The bytes the finals store: the bit count at the end of the block.\<close>

definition put_bitcount :: "nat \<Rightarrow> u64 \<Rightarrow> u8 list \<Rightarrow> u8 list" where
  "put_bitcount bs bitcount b =
     b[bs - 1 := ucast bitcount, bs - 2 := ucast (drop_bit 8 bitcount), bs - 3 := ucast (drop_bit 16 bitcount),
       bs - 4 := ucast (drop_bit 24 bitcount), bs - 5 := ucast (drop_bit 32 bitcount), bs - 6 := ucast (drop_bit 40 bitcount),
       bs - 7 := ucast (drop_bit 48 bitcount), bs - 8 := ucast (drop_bit 56 bitcount)]"

definition put_bitcount_le :: "nat \<Rightarrow> u64 \<Rightarrow> u8 list \<Rightarrow> u8 list" where
  "put_bitcount_le bs bitcount b =
     b[bs - 8 := ucast bitcount, bs - 7 := ucast (drop_bit 8 bitcount), bs - 6 := ucast (drop_bit 16 bitcount),
       bs - 5 := ucast (drop_bit 24 bitcount), bs - 4 := ucast (drop_bit 32 bitcount), bs - 3 := ucast (drop_bit 40 bitcount),
       bs - 2 := ucast (drop_bit 48 bitcount), bs - 1 := ucast (drop_bit 56 bitcount)]"

lemma be64_bytes_eq:
  "be64_bytes w = [ucast (drop_bit 56 w), ucast (drop_bit 48 w), ucast (drop_bit 40 w), ucast (drop_bit 32 w),
     ucast (drop_bit 24 w), ucast (drop_bit 16 w), ucast (drop_bit 8 w), ucast w]"
proof -
  have a: "(ucast (drop_bit k (ucast v :: u32)) :: u8) = ucast (drop_bit k v)" if "k \<le> 24" for k and v :: u64
    using that by (intro bit_word_eqI) (auto simp: bit_simps)
  have b: "drop_bit k (drop_bit 32 w) = drop_bit (k + 32) w" for k by (simp add: add.commute)
  have c: "(ucast (ucast v :: u32) :: u8) = ucast v" for v :: u64 using a [of 0 v] by simp
  show ?thesis
    by (simp only: be64_bytes_def be32_bytes_def le32_bytes_def a b c) (simp add: a c)
qed

lemma update_8:
  assumes "j + 8 \<le> length b"
  shows "b[j := x0, j + 1 := x1, j + 2 := x2, j + 3 := x3, j + 4 := x4, j + 5 := x5, j + 6 := x6, j + 7 := x7] =
    memcpy_at j [x0, x1, x2, x3, x4, x5, x6, x7] b"
  using assms by (simp add: memcpy_at_Cons [symmetric] eval_nat_numeral)

lemma put_bitcount_le:
  assumes "8 \<le> bs" "bs \<le> length b"
  shows "put_bitcount_le bs w b = memcpy_at (bs - 8) (le64_bytes w) b"
proof -
  obtain j where j: "bs = j + 8" using assms(1) by (metis add.commute le_Suc_ex)
  show ?thesis using update_8 [of j b] assms(2)
    by (simp add: j put_bitcount_le_def le64_bytes_def be64_bytes_eq add.commute)
qed

lemma put_bitcount:
  assumes "8 \<le> bs" "bs \<le> length b"
  shows "put_bitcount bs w b = memcpy_at (bs - 8) (be64_bytes w) b"
proof -
  obtain j where j: "bs = j + 8" using assms(1) by (metis add.commute le_Suc_ex)
  have swap: "b[j + 7 := x7, j + 6 := x6, j + 5 := x5, j + 4 := x4, j + 3 := x3, j + 2 := x2, j + 1 := x1, j := x0] =
      b[j := x0, j + 1 := x1, j + 2 := x2, j + 3 := x3, j + 4 := x4, j + 5 := x5, j + 6 := x6, j + 7 := x7]" for x0 x1 x2 x3 x4 x5 x6 x7 :: u8
    using assms(2) j by (intro nth_equalityI) (auto simp: nth_list_update)
  show ?thesis using update_8 [of j b] assms(2) swap
    by (simp add: j put_bitcount_def be64_bytes_eq add.commute)
qed

text \<open>The bytes of the result: the first \<open>n\<close> chaining values, each written as \<open>k\<close> bytes.\<close>

definition write_words :: "nat \<Rightarrow> (u64 \<Rightarrow> u8 list) \<Rightarrow> nat \<Rightarrow> u64 list \<Rightarrow> u8 list \<Rightarrow> u8 list" where
  "write_words k f n st b = foldl (\<lambda>b a. memcpy_at (k * a) (f (st ! a)) b) b [0..<n]"

definition words_bytes :: "(u64 \<Rightarrow> u8 list) \<Rightarrow> nat \<Rightarrow> u64 list \<Rightarrow> u8 list" where
  "words_bytes f n st = concat (map (\<lambda>a. f (st ! a)) [0..<n])"

lemma write_words:
  assumes "\<And>w. length (f w) = k" "k * n \<le> length b"
  shows "take (k * n) (write_words k f n st b) = words_bytes f n st \<and> length (write_words k f n st b) = length b"
  using assms(2)
proof (induction n)
  case (Suc n)
  then have ih: "take (k * n) (write_words k f n st b) = words_bytes f n st" "length (write_words k f n st b) = length b" by simp_all
  have step: "write_words k f (Suc n) st b = memcpy_at (k * n) (f (st ! n)) (write_words k f n st b)"
    by (simp add: write_words_def)
  have "take (k * Suc n) (memcpy_at (k * n) (f (st ! n)) (write_words k f n st b)) = words_bytes f n st @ f (st ! n)"
    using take_memcpy_at' [of "k * n" "write_words k f n st b" "k * Suc n" "f (st ! n)"] ih Suc.prems assms(1) by simp
  then show ?case using step ih Suc.prems assms(1) by (simp add: words_bytes_def)
qed (simp add: write_words_def words_bytes_def)

lemma words_bytes_map: "length st = n \<Longrightarrow> words_bytes f n st = concat (map f st)"
proof -
  assume "length st = n"
  then have "map (\<lambda>a. f (st ! a)) [0..<n] = map f (map ((!) st) [0..<length st])" by simp
  then show ?thesis by (simp only: map_nth words_bytes_def)
qed

lemma words_bytes_take:
  assumes "n \<le> length st"
  shows "words_bytes f n st = concat (map f (take n st))"
proof -
  have "words_bytes f n st = words_bytes f n (take n st)"
    unfolding words_bytes_def by (intro arg_cong [where f = concat] map_cong) simp_all
  then show ?thesis using words_bytes_map [of "take n st" n f] assms by simp
qed

lemma block_final_words:
  assumes bs: "block_size bs" "0 < lim" "lim < bs" and a: "absorbed bs tr st0 ctx m"
    and lb: "\<And>w. length (lb w) = bs - lim"
    and put: "\<And>w b. length b = MAX_BLOCKSIZE \<Longrightarrow> put w b = memcpy_at lim (lb w) b"
    and f: "\<And>w. length (f w) = k" "k * n \<le> MAX_BLOCKSIZE"
  shows "\<exists>c'. block_final bs lim tr put (write_words k f n) ctx = Some c' \<and>
    take (k * n) (buf c') = words_bytes f n (foldl tr st0 (chunks bs (padded bs lim (\<lambda>n. lb (of_nat n)) m)))"
proof -
  obtain c' b where c': "block_final bs lim tr put (write_words k f n) ctx = Some c'" "length b = MAX_BLOCKSIZE"
    "buf c' = write_words k f n (foldl tr st0 (chunks bs (padded bs lim (\<lambda>n. lb (of_nat n)) m))) b"
    using block_final_absorbed [where out = "write_words k f n" and put = put and lb = lb, OF bs a lb] put by blast
  then show ?thesis using write_words [OF f(1), of n b] f(2) by auto
qed

lemma push_bit_3_of_nat: "push_bit 3 (of_nat n :: u64) = of_nat (8 * n)"
  by (simp add: push_bit_eq_mult)

lemma block_size_64: "block_size 64"
  unfolding block_size_def MAX_BLOCKSIZE_def by (auto intro: exI [of _ 6])

lemma block_size_128: "block_size 128"
  unfolding block_size_def MAX_BLOCKSIZE_def by (auto intro: exI [of _ 7])

text \<open>The low halves of the 64-bit chaining values.\<close>

lemma ucast_add_32: "(ucast (x + y :: u64) :: u32) = ucast x + ucast y"
  by (simp add: word_unat_eq_iff unsigned_ucast_eq take_bit_eq_mod unat_word_ariths mod_mod_cancel mod_simps)

lemma ucast_up_down_32: "(ucast (ucast a :: u64) :: u32) = a"
  by (rule bit_word_eqI) (simp add: bit_simps)

section \<open>The interface of a digest\<close>

text \<open>
  What the tables \<open>hash_init\<close>, \<open>hash_write\<close>, \<open>hash_final\<close> and \<open>hash_count\<close> promise their users:
  \<open>taken\<close> relates a context to the bytes written so far, and the first \<open>hashsize\<close> bytes of the
  buffer after the final call are the digest of those bytes.
\<close>

locale message_digest =
  fixes taken :: "HASH_CONTEXT \<Rightarrow> u8 list \<Rightarrow> bool"
    and init :: HASH_CONTEXT
    and update :: "HASH_CONTEXT \<Rightarrow> u8 list \<Rightarrow> HASH_CONTEXT"
    and final :: "HASH_CONTEXT \<Rightarrow> HASH_CONTEXT option"
    and hashsize :: nat
    and digest :: "u8 list \<Rightarrow> u8 list"
  assumes taken_init: "taken init []"
    and taken_update: "taken ctx m \<Longrightarrow> taken (update ctx d) (m @ d)"
    and taken_final: "taken ctx m \<Longrightarrow> length m < 2 ^ 64 \<Longrightarrow>
      \<exists>ctx'. final ctx = Some ctx' \<and> take hashsize (buf ctx') = digest m"
begin

lemma taken_updates: "taken ctx m \<Longrightarrow> taken (foldl update ctx ds) (m @ concat ds)"
proof (induction ds arbitrary: ctx m)
  case (Cons d ds)
  then show ?case using Cons.IH [OF taken_update [OF Cons.prems, of d]] by simp
qed simp

lemma digest_of_pieces:
  assumes "length (concat ds) < 2 ^ 64"
  shows "\<exists>ctx'. final (foldl update init ds) = Some ctx' \<and> take hashsize (buf ctx') = digest (concat ds)"
  by (rule taken_final [OF taken_updates [OF taken_init, of ds, simplified] assms])

end

end
