(* ===== verification/Digest_Rounds.thy ===== *)
theory Digest_Rounds
  imports Digest_Words
begin

text \<open>
  What the transforms of \<open>src/src/hash.c\<close> share in their proofs: the schedule that is kept in
  sixteen slots and overwritten in place (SHA-1, SHA-256), and the round macros that are applied
  to the names of the registers in a rotated order instead of moving the registers (SHA-256,
  SHA-512). The second is a locale, interpreted for both members of the family.
\<close>

section \<open>The circular schedule\<close>

text \<open>An index \<open>(i - k) & 15\<close> of the circular schedule.\<close>

definition wrap16 :: "nat \<Rightarrow> nat \<Rightarrow> nat" where
  "wrap16 i k = nat ((int i - int k) AND 15)"

lemma wrap16: "k \<le> 16 \<Longrightarrow> wrap16 i k = (i + 16 - k) mod 16"
proof -
  assume k: "k \<le> 16"
  have "(int i - int k) AND 15 = (int i - int k) mod 16"
    using take_bit_eq_mask [of 4 "int i - int k"] by (simp add: take_bit_eq_mod mask_eq_exp_minus_1)
  also have "\<dots> = (int i - int k + 16) mod 16" by simp
  also have "int i - int k + 16 = int (i + 16 - k)" using k by simp
  also have "int (i + 16 - k) mod 16 = int ((i + 16 - k) mod 16)" by (simp add: zmod_int)
  finally show ?thesis by (simp add: wrap16_def)
qed

lemma wrap16_0: "wrap16 i 0 = i mod 16"
  by (simp add: wrap16)

text \<open>Before round \<open>t\<close> the sixteen slots hold the last sixteen words of the schedule \<open>W\<close>.\<close>

definition window :: "(nat \<Rightarrow> 'a) \<Rightarrow> nat \<Rightarrow> 'a list \<Rightarrow> bool" where
  "window W t x \<longleftrightarrow> length x = 16 \<and> (\<forall>u. t \<le> u + 16 \<and> u < max t 16 \<longrightarrow> x ! (u mod 16) = W u)"

lemma window_first: "length m = 16 \<Longrightarrow> (\<And>t. t < 16 \<Longrightarrow> W t = m ! t) \<Longrightarrow> window W 0 m"
  by (auto simp: window_def)

lemma window_keep: "window W t x \<Longrightarrow> t < 16 \<Longrightarrow> window W (t + 1) x \<and> x ! t = W t"
  by (auto simp: window_def dest: spec [of _ t])

lemma window_slot:
  assumes "window W t x" "16 \<le> t" "0 < k" "k \<le> 16"
  shows "x ! wrap16 t k = W (t - k)"
proof -
  have "(t + 16 - k) mod 16 = (t - k + 16) mod 16" using assms(2,4) by simp
  also have "\<dots> = (t - k) mod 16" by simp
  finally show ?thesis using assms by (auto simp: window_def wrap16)
qed

lemma wrap16_mod: "k \<le> 16 \<Longrightarrow> wrap16 (t mod 16) k = wrap16 t k"
proof -
  assume k: "k \<le> 16"
  have "(t mod 16 + 16 - k) mod 16 = (t mod 16 + (16 - k)) mod 16" using k by simp
  also have "\<dots> = (t + (16 - k)) mod 16" by (simp add: mod_simps)
  finally show ?thesis using k by (simp add: wrap16)
qed

lemma window_oldest: "window W t x \<Longrightarrow> 16 \<le> t \<Longrightarrow> x ! (t mod 16) = W (t - 16)"
  using window_slot [of W t x 16] by (simp add: wrap16)

lemma window_step:
  assumes w: "window W t x" and t: "16 \<le> t"
  shows "window W (t + 1) (x[t mod 16 := W t])"
proof -
  have len: "length x = 16" using w by (simp add: window_def)
  have "(x[t mod 16 := W t]) ! (u mod 16) = W u" if "t + 1 \<le> u + 16" "u < t + 1" for u
  proof (cases "u = t")
    case False
    then have "u < t" "t < u + 16" using that by simp_all
    then have "u mod 16 \<noteq> t mod 16"
      by (metis add_diff_inverse_nat dvd_imp_mod_0 less_diff_conv2 less_imp_le mod_eq_dvd_iff_nat nat_dvd_not_less not_less zero_less_diff add.commute)
    then show ?thesis using w that \<open>u < t\<close> by (simp add: window_def)
  qed (use len in simp)
  then show ?thesis using len t by (auto simp: window_def)
qed

section \<open>Rotating names\<close>

type_synonym 'w regs8 = "'w \<times> 'w \<times> 'w \<times> 'w \<times> 'w \<times> 'w \<times> 'w \<times> 'w"

text \<open>Rounds of the standard, in which all registers move.\<close>

primrec rounds :: "(nat \<Rightarrow> 'r \<Rightarrow> 'r) \<Rightarrow> nat \<Rightarrow> nat \<Rightarrow> 'r \<Rightarrow> 'r" where
  "rounds rnd 0 t r = r"
| "rounds rnd (Suc n) t r = rounds rnd n (t + 1) (rnd t r)"

lemma rounds_add: "rounds rnd (n + k) t r = rounds rnd k (t + n) (rounds rnd n t r)"
  by (induction n arbitrary: t r) (simp_all add: add.commute add.left_commute)

text \<open>
  A round macro \<open>R t\<close> gets the eight registers and a schedule, and gives new values to its fourth
  and eighth argument. The law: this is the round \<open>rnd t\<close> of the standard up to the names.
\<close>

locale sha2_round =
  fixes R :: "nat \<Rightarrow> 'w \<Rightarrow> 'w \<Rightarrow> 'w \<Rightarrow> 'w \<Rightarrow> 'w \<Rightarrow> 'w \<Rightarrow> 'w \<Rightarrow> 'w \<Rightarrow> 'x \<Rightarrow> 'w \<times> 'w \<times> 'x"
    and rnd :: "'x \<Rightarrow> nat \<Rightarrow> 'w regs8 \<Rightarrow> 'w regs8"
    and inv :: "'x \<Rightarrow> nat \<Rightarrow> 'x \<Rightarrow> bool"
  assumes R_round: "inv m t x \<Longrightarrow> \<exists>d' h' x'. R t a b c d e f g h x = (d', h', x') \<and> inv m (Suc t) x' \<and>
    rnd m t (a, b, c, d, e, f, g, h) = (h', a, b, c, d', e, f, g)"
begin

lemma R_elim:
  assumes "inv m t x"
  obtains d' h' x' where "R t a b c d e f g h x = (d', h', x')" "inv m (Suc t) x'"
    "rnd m t (a, b, c, d, e, f, g, h) = (h', a, b, c, d', e, f, g)"
  using R_round [OF assms] by blast

definition eight :: "nat \<Rightarrow> 'w regs8 \<times> 'x \<Rightarrow> 'w regs8 \<times> 'x" where
  "eight t = (\<lambda>((a, b, c, d, e, f, g, h), x).
     let (d, h, x) = R t a b c d e f g h x;
         (c, g, x) = R (t + 1) h a b c d e f g x;
         (b, f, x) = R (t + 2) g h a b c d e f x;
         (a, e, x) = R (t + 3) f g h a b c d e x;
         (h, d, x) = R (t + 4) e f g h a b c d x;
         (g, c, x) = R (t + 5) d e f g h a b c x;
         (f, b, x) = R (t + 6) c d e f g h a b x;
         (e, a, x) = R (t + 7) b c d e f g h a x in
     ((a, b, c, d, e, f, g, h), x))"

lemma eight_rounds:
  assumes w: "inv m t x"
  shows "\<exists>x'. eight t (r, x) = (rounds (rnd m) 8 t r, x') \<and> inv m (t + 8) x'"
proof -
  obtain a b c d e f g h where r: "r = (a, b, c, d, e, f, g, h)" by (cases r) auto
  obtain d1 h1 x1 where 1: "R t a b c d e f g h x = (d1, h1, x1)" "inv m (Suc t) x1"
    "rnd m t (a, b, c, d, e, f, g, h) = (h1, a, b, c, d1, e, f, g)" by (rule R_elim [OF w])
  obtain c1 g1 x2 where 2: "R (Suc t) h1 a b c d1 e f g x1 = (c1, g1, x2)" "inv m (Suc (Suc t)) x2"
    "rnd m (Suc t) (h1, a, b, c, d1, e, f, g) = (g1, h1, a, b, c1, d1, e, f)" by (rule R_elim [OF 1(2)])
  obtain b1 f1 x3 where 3: "R (Suc (Suc t)) g1 h1 a b c1 d1 e f x2 = (b1, f1, x3)" "inv m (Suc (Suc (Suc t))) x3"
    "rnd m (Suc (Suc t)) (g1, h1, a, b, c1, d1, e, f) = (f1, g1, h1, a, b1, c1, d1, e)" by (rule R_elim [OF 2(2)])
  let ?t = "Suc (Suc (Suc t))"
  obtain a1 e1 x4 where 4: "R ?t f1 g1 h1 a b1 c1 d1 e x3 = (a1, e1, x4)" "inv m (Suc ?t) x4"
    "rnd m ?t (f1, g1, h1, a, b1, c1, d1, e) = (e1, f1, g1, h1, a1, b1, c1, d1)" by (rule R_elim [OF 3(2)])
  obtain h2 d2 x5 where 5: "R (Suc ?t) e1 f1 g1 h1 a1 b1 c1 d1 x4 = (h2, d2, x5)" "inv m (Suc (Suc ?t)) x5"
    "rnd m (Suc ?t) (e1, f1, g1, h1, a1, b1, c1, d1) = (d2, e1, f1, g1, h2, a1, b1, c1)" by (rule R_elim [OF 4(2)])
  obtain g2 c2 x6 where 6: "R (Suc (Suc ?t)) d2 e1 f1 g1 h2 a1 b1 c1 x5 = (g2, c2, x6)" "inv m (Suc (Suc (Suc ?t))) x6"
    "rnd m (Suc (Suc ?t)) (d2, e1, f1, g1, h2, a1, b1, c1) = (c2, d2, e1, f1, g2, h2, a1, b1)" by (rule R_elim [OF 5(2)])
  let ?u = "Suc (Suc (Suc ?t))"
  obtain f2 b2 x7 where 7: "R ?u c2 d2 e1 f1 g2 h2 a1 b1 x6 = (f2, b2, x7)" "inv m (Suc ?u) x7"
    "rnd m ?u (c2, d2, e1, f1, g2, h2, a1, b1) = (b2, c2, d2, e1, f2, g2, h2, a1)" by (rule R_elim [OF 6(2)])
  obtain e2 a2 x8 where 8: "R (Suc ?u) b2 c2 d2 e1 f2 g2 h2 a1 x7 = (e2, a2, x8)" "inv m (Suc (Suc ?u)) x8"
    "rnd m (Suc ?u) (b2, c2, d2, e1, f2, g2, h2, a1) = (a2, b2, c2, d2, e2, f2, g2, h2)" by (rule R_elim [OF 7(2)])
  have ts: "t + 1 = Suc t" "t + 2 = Suc (Suc t)" "t + 3 = ?t" "t + 4 = Suc ?t" "t + 5 = Suc (Suc ?t)" "t + 6 = ?u"
    "t + 7 = Suc ?u" "t + 8 = Suc (Suc ?u)" by simp_all
  have "eight t (r, x) = ((a2, b2, c2, d2, e2, f2, g2, h2), x8)"
    by (simp only: eight_def r prod.case ts 1(1) 2(1) 3(1) 4(1) 5(1) 6(1) 7(1) 8(1) Let_def)
  moreover have "rounds (rnd m) 8 t r = (a2, b2, c2, d2, e2, f2, g2, h2)"
    using 1(3) 2(3) 3(3) 4(3) 5(3) 6(3) 7(3) 8(3) by (simp add: r eval_nat_numeral)
  moreover have "inv m (t + 8) x8" using 8(2) by (simp only: ts)
  ultimately show ?thesis by simp
qed

lemma eights_rounds:
  assumes "inv m t x"
  shows "\<exists>x'. foldl (\<lambda>s k. eight (t + 8 * k) s) (r, x) [0..<n] = (rounds (rnd m) (8 * n) t r, x') \<and> inv m (t + 8 * n) x'"
proof (induction n)
  case (Suc n)
  then obtain x' where x': "foldl (\<lambda>s k. eight (t + 8 * k) s) (r, x) [0..<n] = (rounds (rnd m) (8 * n) t r, x')"
    "inv m (t + 8 * n) x'" by blast
  have "rounds (rnd m) (8 * Suc n) t r = rounds (rnd m) 8 (t + 8 * n) (rounds (rnd m) (8 * n) t r)"
    using rounds_add [of "rnd m" "8 * n" 8 t r] by (simp add: add.commute)
  then show ?case using x'(1) eight_rounds [OF x'(2), of "rounds (rnd m) (8 * n) t r"] by (simp add: add_ac)
qed (simp add: assms)

end

end
