(* ===== verification/Md5.thy ===== *)
theory Md5
  imports Digest_Rounds
begin

text \<open>
  MD5 (\<open>src/src/hash.c\<close>): the sixty-four macro steps in sixteen groups of four, the write function
  with the copy of its odd-sized case, the final that pads with \<open>memset\<close> instead of a loop. The
  algorithm of RFC 1321 is written down beside it.

  In the odd-sized case \<open>md5_write\<close> copies as many bytes as the block has room for, which is more
  than the caller gave: the model has the bytes that lie behind the caller's buffer as a parameter,
  and the digest is shown not to depend on them.
\<close>

section \<open>The code\<close>

definition MD5_BLOCKSIZE :: nat where
  "MD5_BLOCKSIZE = 64"

definition MD5_HASHSIZE :: nat where
  "MD5_HASHSIZE = 16"

definition md5_init :: HASH_CONTEXT where
  "md5_init = \<lparr>buf = replicate MAX_BLOCKSIZE 0,
     state = [0x67452301, 0xefcdab89, 0x98badcfe, 0x10325476, 0, 0, 0, 0],
     bytecount = 0\<rparr>"

definition md5_F1 :: "u32 \<Rightarrow> u32 \<Rightarrow> u32 \<Rightarrow> u32" where
  "md5_F1 x y z = z XOR (x AND (y XOR z))"

definition md5_F2 :: "u32 \<Rightarrow> u32 \<Rightarrow> u32 \<Rightarrow> u32" where
  "md5_F2 x y z = md5_F1 z x y"

definition md5_F3 :: "u32 \<Rightarrow> u32 \<Rightarrow> u32 \<Rightarrow> u32" where
  "md5_F3 x y z = x XOR y XOR z"

definition md5_F4 :: "u32 \<Rightarrow> u32 \<Rightarrow> u32 \<Rightarrow> u32" where
  "md5_F4 x y z = y XOR (x OR NOT z)"

type_synonym md5_arg = "(u32 \<Rightarrow> u32 \<Rightarrow> u32 \<Rightarrow> u32) \<times> nat \<times> u32 \<times> nat"

text \<open>The macro \<open>MD5STEP\<close>: the new value of its argument \<open>w\<close>. An argument tuple has the function,
  the index of the word, the constant and the shift.\<close>

definition MD5STEP :: "u32 list \<Rightarrow> md5_arg \<Rightarrow> u32 \<Rightarrow> u32 \<Rightarrow> u32 \<Rightarrow> u32 \<Rightarrow> u32" where
  "MD5STEP X = (\<lambda>(f, i, k, s) w x y z.
     let w = w + (f x y z + (X ! i + k));
         w = push_bit s w OR drop_bit (32 - s) w in
     w + x)"

type_synonym regs5 = "u32 \<times> u32 \<times> u32 \<times> u32"

definition md5_steps_4 :: "u32 list \<Rightarrow> md5_arg list \<Rightarrow> regs5 \<Rightarrow> regs5" where
  "md5_steps_4 X g = (\<lambda>(a, b, c, d).
     let a = MD5STEP X (g ! 0) a b c d;
         d = MD5STEP X (g ! 1) d a b c;
         c = MD5STEP X (g ! 2) c d a b;
         b = MD5STEP X (g ! 3) b c d a in
     (a, b, c, d))"

definition md5_table :: "md5_arg list list" where
  "md5_table = [
     [(md5_F1, 0, 0xd76aa478, 7), (md5_F1, 1, 0xe8c7b756, 12), (md5_F1, 2, 0x242070db, 17), (md5_F1, 3, 0xc1bdceee, 22)],
     [(md5_F1, 4, 0xf57c0faf, 7), (md5_F1, 5, 0x4787c62a, 12), (md5_F1, 6, 0xa8304613, 17), (md5_F1, 7, 0xfd469501, 22)],
     [(md5_F1, 8, 0x698098d8, 7), (md5_F1, 9, 0x8b44f7af, 12), (md5_F1, 10, 0xffff5bb1, 17), (md5_F1, 11, 0x895cd7be, 22)],
     [(md5_F1, 12, 0x6b901122, 7), (md5_F1, 13, 0xfd987193, 12), (md5_F1, 14, 0xa679438e, 17), (md5_F1, 15, 0x49b40821, 22)],
     [(md5_F2, 1, 0xf61e2562, 5), (md5_F2, 6, 0xc040b340, 9), (md5_F2, 11, 0x265e5a51, 14), (md5_F2, 0, 0xe9b6c7aa, 20)],
     [(md5_F2, 5, 0xd62f105d, 5), (md5_F2, 10, 0x02441453, 9), (md5_F2, 15, 0xd8a1e681, 14), (md5_F2, 4, 0xe7d3fbc8, 20)],
     [(md5_F2, 9, 0x21e1cde6, 5), (md5_F2, 14, 0xc33707d6, 9), (md5_F2, 3, 0xf4d50d87, 14), (md5_F2, 8, 0x455a14ed, 20)],
     [(md5_F2, 13, 0xa9e3e905, 5), (md5_F2, 2, 0xfcefa3f8, 9), (md5_F2, 7, 0x676f02d9, 14), (md5_F2, 12, 0x8d2a4c8a, 20)],
     [(md5_F3, 5, 0xfffa3942, 4), (md5_F3, 8, 0x8771f681, 11), (md5_F3, 11, 0x6d9d6122, 16), (md5_F3, 14, 0xfde5380c, 23)],
     [(md5_F3, 1, 0xa4beea44, 4), (md5_F3, 4, 0x4bdecfa9, 11), (md5_F3, 7, 0xf6bb4b60, 16), (md5_F3, 10, 0xbebfbc70, 23)],
     [(md5_F3, 13, 0x289b7ec6, 4), (md5_F3, 0, 0xeaa127fa, 11), (md5_F3, 3, 0xd4ef3085, 16), (md5_F3, 6, 0x04881d05, 23)],
     [(md5_F3, 9, 0xd9d4d039, 4), (md5_F3, 12, 0xe6db99e5, 11), (md5_F3, 15, 0x1fa27cf8, 16), (md5_F3, 2, 0xc4ac5665, 23)],
     [(md5_F4, 0, 0xf4292244, 6), (md5_F4, 7, 0x432aff97, 10), (md5_F4, 14, 0xab9423a7, 15), (md5_F4, 5, 0xfc93a039, 21)],
     [(md5_F4, 12, 0x655b59c3, 6), (md5_F4, 3, 0x8f0ccc92, 10), (md5_F4, 10, 0xffeff47d, 15), (md5_F4, 1, 0x85845dd1, 21)],
     [(md5_F4, 8, 0x6fa87e4f, 6), (md5_F4, 15, 0xfe2ce6e0, 10), (md5_F4, 6, 0xa3014314, 15), (md5_F4, 13, 0x4e0811a1, 21)],
     [(md5_F4, 4, 0xf7537e82, 6), (md5_F4, 11, 0xbd3af235, 10), (md5_F4, 2, 0x2ad7d2bb, 15), (md5_F4, 9, 0xeb86d391, 21)]]"

definition md5_transform :: transform where
  "md5_transform st data =
     (let x = map (\<lambda>k. read_le32 (drop (4 * k) data)) [0..<16];
          r = (ucast (st ! 0), ucast (st ! 1), ucast (st ! 2), ucast (st ! 3));
          (a, b, c, d) = foldl (\<lambda>r g. md5_steps_4 x g r) r md5_table in
      st[0 := st ! 0 + ucast a, 1 := st ! 1 + ucast b, 2 := st ! 2 + ucast c, 3 := st ! 3 + ucast d])"

definition md5_write :: "u8 list \<Rightarrow> HASH_CONTEXT \<Rightarrow> u8 list \<Rightarrow> HASH_CONTEXT" where
  "md5_write after ctx d =
     (let num = unat (bytecount ctx AND of_nat (MD5_BLOCKSIZE - 1));
          ctx = ctx\<lparr>bytecount := bytecount ctx + of_nat (length d)\<rparr> in
      if num \<noteq> 0 \<and> length d < MD5_BLOCKSIZE - num
      then ctx\<lparr>buf := memcpy_at num (take (MD5_BLOCKSIZE - num) (d @ after)) (buf ctx)\<rparr>
      else
        let (ctx, d) =
              (if num \<noteq> 0 then
                 (do_transform MD5_BLOCKSIZE md5_transform
                    (ctx\<lparr>buf := memcpy_at num (take (MD5_BLOCKSIZE - num) d) (buf ctx)\<rparr>), drop (MD5_BLOCKSIZE - num) d)
               else (ctx, d));
            (st, rest) = hash_blocks MD5_BLOCKSIZE md5_transform (state ctx) d in
        ctx\<lparr>state := st, buf := memcpy_at 0 rest (buf ctx)\<rparr>)"

definition md5_final :: "HASH_CONTEXT \<Rightarrow> HASH_CONTEXT option" where
  "md5_final ctx =
     (let count = unat (bytecount ctx AND of_nat (MD5_BLOCKSIZE - 1));
          bitcount = push_bit 3 (bytecount ctx);
          p = count + 1;
          ctx = ctx\<lparr>buf := (buf ctx)[count := 0x80]\<rparr>;
          count = MD5_BLOCKSIZE - 1 - count;
          ctx = (if count < 8 then
                   let ctx = do_transform MD5_BLOCKSIZE md5_transform (ctx\<lparr>buf := memcpy_at p (replicate count 0) (buf ctx)\<rparr>) in
                   ctx\<lparr>buf := memcpy_at 0 (replicate (MD5_BLOCKSIZE - 8) 0) (buf ctx)\<rparr>
                 else ctx\<lparr>buf := memcpy_at p (replicate (count - 8) 0) (buf ctx)\<rparr>);
          ctx = do_transform MD5_BLOCKSIZE md5_transform (ctx\<lparr>buf := put_bitcount_le MD5_BLOCKSIZE bitcount (buf ctx)\<rparr>) in
      Some (ctx\<lparr>buf := write_words 4 (\<lambda>w. le32_bytes (ucast w)) 4 (state ctx) (buf ctx)\<rparr>))"

section \<open>The algorithm of the RFC\<close>

definition T5 :: "u32 list" where
  "T5 = concat [
     [0xd76aa478, 0xe8c7b756, 0x242070db, 0xc1bdceee],
     [0xf57c0faf, 0x4787c62a, 0xa8304613, 0xfd469501],
     [0x698098d8, 0x8b44f7af, 0xffff5bb1, 0x895cd7be],
     [0x6b901122, 0xfd987193, 0xa679438e, 0x49b40821],
     [0xf61e2562, 0xc040b340, 0x265e5a51, 0xe9b6c7aa],
     [0xd62f105d, 0x02441453, 0xd8a1e681, 0xe7d3fbc8],
     [0x21e1cde6, 0xc33707d6, 0xf4d50d87, 0x455a14ed],
     [0xa9e3e905, 0xfcefa3f8, 0x676f02d9, 0x8d2a4c8a],
     [0xfffa3942, 0x8771f681, 0x6d9d6122, 0xfde5380c],
     [0xa4beea44, 0x4bdecfa9, 0xf6bb4b60, 0xbebfbc70],
     [0x289b7ec6, 0xeaa127fa, 0xd4ef3085, 0x04881d05],
     [0xd9d4d039, 0xe6db99e5, 0x1fa27cf8, 0xc4ac5665],
     [0xf4292244, 0x432aff97, 0xab9423a7, 0xfc93a039],
     [0x655b59c3, 0x8f0ccc92, 0xffeff47d, 0x85845dd1],
     [0x6fa87e4f, 0xfe2ce6e0, 0xa3014314, 0x4e0811a1],
     [0xf7537e82, 0xbd3af235, 0x2ad7d2bb, 0xeb86d391]]"

definition f5 :: "nat \<Rightarrow> u32 \<Rightarrow> u32 \<Rightarrow> u32 \<Rightarrow> u32" where
  "f5 t x y z =
     (if t < 16 then (x AND y) OR (NOT x AND z)
      else if t < 32 then (x AND z) OR (y AND NOT z)
      else if t < 48 then x XOR y XOR z
      else y XOR (x OR NOT z))"

definition g5 :: "nat \<Rightarrow> nat" where
  "g5 t = (if t < 16 then t else if t < 32 then (5 * t + 1) mod 16 else if t < 48 then (3 * t + 5) mod 16 else 7 * t mod 16)"

definition s5 :: "nat \<Rightarrow> nat" where
  "s5 t = (if t < 16 then [7, 12, 17, 22] else if t < 32 then [5, 9, 14, 20]
     else if t < 48 then [4, 11, 16, 23] else [6, 10, 15, 21]) ! (t mod 4)"

fun step5 :: "u32 list \<Rightarrow> nat \<Rightarrow> regs5 \<Rightarrow> regs5" where
  "step5 X t (a, b, c, d) = (d, b + ROL32 (a + f5 t b c d + X ! g5 t + T5 ! t) (s5 t), b, c)"

definition compress5 :: "u32 list \<Rightarrow> u8 list \<Rightarrow> u32 list" where
  "compress5 H data =
     (case rounds (step5 (map (\<lambda>k. read_le32 (drop (4 * k) data)) [0..<16])) 64 0 (H ! 0, H ! 1, H ! 2, H ! 3) of
      (a, b, c, d) \<Rightarrow> [H ! 0 + a, H ! 1 + b, H ! 2 + c, H ! 3 + d])"

definition H0_5 :: "u32 list" where
  "H0_5 = [0x67452301, 0xefcdab89, 0x98badcfe, 0x10325476]"

definition MD5 :: "u8 list \<Rightarrow> u8 list" where
  "MD5 m = concat (map le32_bytes
     (foldl compress5 H0_5 (chunks 64 (padded 64 56 (\<lambda>n. le64_bytes (of_nat (8 * n))) m))))"

section \<open>The steps\<close>

lemma md5_F:
  "f5 t = (if t < 16 then md5_F1 else if t < 32 then md5_F2 else if t < 48 then md5_F3 else md5_F4)"
  by (intro ext bit_word_eqI) (auto simp: f5_def md5_F1_def md5_F2_def md5_F3_def md5_F4_def bit_simps)

lemma MD5STEP_step5:
  "step5 X t (a, b, c, d) = (d, MD5STEP X (f5 t, g5 t, T5 ! t, s5 t) a b c d, b, c)"
  by (simp add: MD5STEP_def Let_def ROL32_def add_ac)

lemma md5_steps_4_rounds:
  assumes "g = map (\<lambda>u. (f5 u, g5 u, T5 ! u, s5 u)) [t, Suc t, Suc (Suc t), Suc (Suc (Suc t))]"
  shows "md5_steps_4 X g r = rounds (step5 X) 4 t r"
proof -
  obtain a b c d where r: "r = (a, b, c, d)" by (cases r) auto
  have "rounds (step5 X) 4 t r = rounds (step5 X) (Suc (Suc (Suc (Suc 0)))) t r" by (simp add: eval_nat_numeral)
  then show ?thesis unfolding r md5_steps_4_def Let_def
    by (simp only: assms list.map nth_Cons_0 nth_Cons_Suc One_nat_def numeral_2_eq_2 numeral_3_eq_3
        rounds.simps MD5STEP_step5 prod.case add_Suc_right add_0_right)
qed

lemma md5_table_rows:
  "md5_table = map (\<lambda>n. map (\<lambda>u. (f5 u, g5 u, T5 ! u, s5 u)) [4 * n, Suc (4 * n), Suc (Suc (4 * n)), Suc (Suc (Suc (4 * n)))]) [0..<16]"
  by (simp add: md5_table_def upt_rec md5_F g5_def s5_def T5_def)

lemma md5_table_rounds: "foldl (\<lambda>r g. md5_steps_4 X g r) r md5_table = rounds (step5 X) 64 0 r"
proof -
  have "foldl (\<lambda>r g. md5_steps_4 X g r) r
      (map (\<lambda>n. map (\<lambda>u. (f5 u, g5 u, T5 ! u, s5 u)) [4 * n, Suc (4 * n), Suc (Suc (4 * n)), Suc (Suc (Suc (4 * n)))]) [0..<k]) =
      rounds (step5 X) (4 * k) 0 r" for k
  proof (induction k)
    case (Suc k)
    then show ?case using md5_steps_4_rounds [OF refl, of X "4 * k"] rounds_add [of "step5 X" "4 * k" 4 0 r]
      by (simp add: add.commute)
  qed simp
  from this [of 16] show ?thesis unfolding md5_table_rows by simp
qed

lemma md5_transform_compress:
  assumes "length st = 8"
  shows "map ucast (take 4 (md5_transform st data)) = compress5 (map ucast (take 4 st)) data \<and> length (md5_transform st data) = 8"
proof -
  let ?m = "map (\<lambda>k. read_le32 (drop (4 * k) data)) [0..<16]"
  let ?r = "(ucast (st ! 0), ucast (st ! 1), ucast (st ! 2), ucast (st ! 3)) :: regs5"
  obtain a b c d where r: "rounds (step5 ?m) 64 0 ?r = (a, b, c, d)" by (cases "rounds (step5 ?m) 64 0 ?r") auto
  obtain s0 s1 s2 s3 s4 s5 s6 s7 where st: "st = [s0, s1, s2, s3, s4, s5, s6, s7]"
    using assms by (auto simp: eval_nat_numeral length_Suc_conv)
  have "md5_transform st data = [s0 + ucast a, s1 + ucast b, s2 + ucast c, s3 + ucast d, s4, s5, s6, s7]"
    unfolding md5_transform_def Let_def md5_table_rounds r by (simp add: st)
  moreover have "compress5 (map ucast (take 4 st)) data = [ucast s0 + a, ucast s1 + b, ucast s2 + c, ucast s3 + d]"
    unfolding compress5_def using r by (simp add: st)
  ultimately show ?thesis by (simp add: ucast_add_32 ucast_up_down_32)
qed

lemma md5_blocks:
  "length st = 8 \<Longrightarrow> map ucast (take 4 (foldl md5_transform st bs)) = foldl compress5 (map ucast (take 4 st)) bs \<and>
    length (foldl md5_transform st bs) = 8"
  by (induction bs arbitrary: st) (simp_all add: md5_transform_compress)

section \<open>The digest\<close>

lemma md5_write_absorbed:
  assumes a: "absorbed 64 md5_transform st0 ctx m"
  shows "absorbed 64 md5_transform st0 (md5_write after ctx d) (m @ d)"
proof -
  obtain full part where m: "m = full @ part" "64 dvd length full" "length part < 64"
    "state ctx = foldl md5_transform st0 (chunks 64 full)" "take (length part) (buf ctx) = part"
    and b: "length (buf ctx) = MAX_BLOCKSIZE" "bytecount ctx = of_nat (length m)"
    using a by (auto simp: absorbed_def)
  have num: "unat (bytecount ctx AND of_nat (64 - 1)) = length part" by (rule absorbed_count [OF block_size_64 m(1-3) b(2)])
  show ?thesis
  proof (cases "length part \<noteq> 0 \<and> length d < 64 - length part")
    case True
    let ?x = "take (64 - length part) (d @ after)"
    let ?b = "memcpy_at (length part) ?x (buf ctx)"
    have w: "md5_write after ctx d = ctx\<lparr>bytecount := bytecount ctx + of_nat (length d), buf := ?b\<rparr>"
      using True num by (simp add: md5_write_def MD5_BLOCKSIZE_def Let_def)
    have "length ?b = MAX_BLOCKSIZE" using b(1) m(3) by (intro length_memcpy_at [THEN trans]) (simp_all add: MAX_BLOCKSIZE_def)
    moreover have "take (length (part @ d)) ?b = part @ d"
      using True m(5) b(1) m(3) by (simp add: memcpy_at_def MAX_BLOCKSIZE_def)
    moreover have "length (part @ d) < 64" using True by auto
    ultimately show ?thesis unfolding w using m(1,2,4) b(2)
      by (intro absorbedI [where full = full and part = "part @ d"]) simp_all
  next
    case False
    then have "md5_write after ctx d = block_write 64 md5_transform ctx d"
      using num by (auto simp: md5_write_def block_write_def MD5_BLOCKSIZE_def Let_def)
    then show ?thesis using block_write_absorbed [OF block_size_64 a] by simp
  qed
qed

lemma md5_final_block_final:
  assumes "length (buf ctx) = MAX_BLOCKSIZE"
  shows "md5_final ctx = block_final 64 56 md5_transform (\<lambda>count. put_bitcount_le 64 (push_bit 3 count))
    (write_words 4 (\<lambda>w. le32_bytes (ucast w)) 4) ctx"
proof -
  let ?n = "unat (bytecount ctx AND of_nat (64 - 1))" and ?c = "ctx\<lparr>buf := (buf ctx)[unat (bytecount ctx AND of_nat (64 - 1)) := 0x80]\<rparr>"
  have n: "?n < 64" using count_mod [OF block_size_64, of "unat (bytecount ctx)"] by simp
  show ?thesis
  proof (cases "?n + 1 \<le> 56")
    case True
    have "pad_loop (2 * 64) 64 56 md5_transform (?n + 1) ?c = Some (?c\<lparr>buf := memcpy_at (?n + 1) (replicate (56 - (?n + 1)) 0) (buf ?c)\<rparr>)"
      by (rule pad_loop_fill [OF block_size_64]) (use True assms in \<open>simp_all add: MAX_BLOCKSIZE_def\<close>)
    then show ?thesis using True by (simp add: md5_final_def block_final_def MD5_BLOCKSIZE_def Let_def do_transform_def)
  next
    case False
    have "pad_loop (2 * 64) 64 56 md5_transform (?n + 1) ?c =
        (let c = do_transform 64 md5_transform (?c\<lparr>buf := memcpy_at (?n + 1) (replicate (64 - (?n + 1)) 0) (buf ?c)\<rparr>) in
         Some (c\<lparr>buf := memcpy_at 0 (replicate 56 0) (buf c)\<rparr>))"
      by (rule pad_loop_wrap [OF block_size_64]) (use False n assms in \<open>simp_all add: MAX_BLOCKSIZE_def\<close>)
    then show ?thesis using False by (simp add: md5_final_def block_final_def MD5_BLOCKSIZE_def Let_def do_transform_def)
  qed
qed

interpretation md5: message_digest "absorbed 64 md5_transform (state md5_init)"
  md5_init "\<lambda>ctx d. md5_write (after ctx d) ctx d" md5_final MD5_HASHSIZE MD5 for after
proof
  show "absorbed 64 md5_transform (state md5_init) md5_init []"
    by (simp add: absorbed_def md5_init_def)
  show "absorbed 64 md5_transform (state md5_init) (md5_write (after ctx d) ctx d) (m @ d)"
    if "absorbed 64 md5_transform (state md5_init) ctx m" for ctx m d
    using that by (rule md5_write_absorbed)
  show "\<exists>ctx'. md5_final ctx = Some ctx' \<and> take MD5_HASHSIZE (buf ctx') = MD5 m"
    if a: "absorbed 64 md5_transform (state md5_init) ctx m" for ctx m
  proof -
    let ?st = "foldl md5_transform (state md5_init) (chunks 64 (padded 64 56 (\<lambda>n. le64_bytes (push_bit 3 (of_nat n))) m))"
    have init: "map ucast (take 4 (state md5_init)) = H0_5" "length (state md5_init) = 8"
      by (simp_all add: md5_init_def H0_5_def)
    have st: "concat (map le32_bytes (map ucast (take 4 ?st))) = MD5 m" "length ?st = 8"
      using md5_blocks [OF init(2)] by (simp_all only: MD5_def push_bit_3_of_nat init(1))
    have "\<exists>c'. block_final 64 56 md5_transform (\<lambda>count. put_bitcount_le 64 (push_bit 3 count)) (write_words 4 (\<lambda>w. le32_bytes (ucast w)) 4) ctx = Some c' \<and>
        take (4 * 4) (buf c') = words_bytes (\<lambda>w. le32_bytes (ucast w)) 4 ?st"
      by (rule block_final_words [OF block_size_64 _ _ a]) (simp_all add: put_bitcount_le MAX_BLOCKSIZE_def)
    moreover have "words_bytes (\<lambda>w. le32_bytes (ucast w)) 4 ?st = MD5 m"
      using st words_bytes_take [of 4 ?st] by (simp add: comp_def)
    ultimately show ?thesis using md5_final_block_final [of ctx] a by (simp add: absorbed_def MD5_HASHSIZE_def)
  qed
qed

end
