(* ===== verification/Sha1.thy ===== *)
theory Sha1
  imports Digest_Rounds
begin

text \<open>
  SHA-1 (\<open>src/src/hash.c\<close>, the portable implementation): the eighty macro steps of the transform,
  in sixteen groups of five after which the names of the registers are back in place, and the
  instances of the streaming layer. The standard (FIPS 180-4) is written down beside it.
\<close>

section \<open>The code\<close>

definition SHA1_BLOCKSIZE :: nat where
  "SHA1_BLOCKSIZE = 64"

definition SHA1_HASHSIZE :: nat where
  "SHA1_HASHSIZE = 20"

definition sha1_init :: HASH_CONTEXT where
  "sha1_init = \<lparr>buf = replicate MAX_BLOCKSIZE 0,
     state = [0x67452301, 0xefcdab89, 0x98badcfe, 0x10325476, 0xc3d2e1f0, 0, 0, 0],
     bytecount = 0\<rparr>"

definition sha1_F1 :: "u32 \<Rightarrow> u32 \<Rightarrow> u32 \<Rightarrow> u32" where
  "sha1_F1 x y z = z XOR (x AND (y XOR z))"

definition sha1_F2 :: "u32 \<Rightarrow> u32 \<Rightarrow> u32 \<Rightarrow> u32" where
  "sha1_F2 x y z = x XOR y XOR z"

definition sha1_F3 :: "u32 \<Rightarrow> u32 \<Rightarrow> u32 \<Rightarrow> u32" where
  "sha1_F3 x y z = (x AND y) OR (z AND (x OR y))"

definition sha1_F4 :: "u32 \<Rightarrow> u32 \<Rightarrow> u32 \<Rightarrow> u32" where
  "sha1_F4 x y z = x XOR y XOR z"

text \<open>The macro \<open>M(i)\<close>: the new word and the schedule with the word in its slot.\<close>

definition sha1_M :: "nat \<Rightarrow> u32 list \<Rightarrow> u32 \<times> u32 list" where
  "sha1_M i x =
     (let tm = x ! wrap16 i 0 XOR x ! wrap16 i 14 XOR x ! wrap16 i 8 XOR x ! wrap16 i 3;
          w = ROL32 tm 1 in
      (w, x[wrap16 i 0 := w]))"

text \<open>The last argument of step \<open>i\<close>: \<open>x[i]\<close> for the first sixteen steps, then \<open>M(i)\<close>.\<close>

definition sha1_word :: "nat \<Rightarrow> u32 list \<Rightarrow> u32 \<times> u32 list" where
  "sha1_word i x = (if i < 16 then (x ! i, x) else sha1_M i x)"

text \<open>The macro \<open>SHA1STEP\<close>: the new values of its arguments \<open>e\<close> and \<open>b\<close>, and the schedule.\<close>

definition SHA1STEP :: "u32 \<Rightarrow> u32 \<Rightarrow> u32 \<Rightarrow> u32 \<Rightarrow> u32 \<Rightarrow> (u32 \<Rightarrow> u32 \<Rightarrow> u32 \<Rightarrow> u32) \<Rightarrow> u32 \<Rightarrow> nat \<Rightarrow> u32 list \<Rightarrow> u32 \<times> u32 \<times> u32 list" where
  "SHA1STEP a b c d e f k i x =
     (let (m, x) = sha1_word i x in (e + (ROL32 a 5 + f b c d + k + m), ROL32 b 30, x))"

type_synonym regs1 = "u32 \<times> u32 \<times> u32 \<times> u32 \<times> u32"

definition sha1_steps_5 :: "(u32 \<Rightarrow> u32 \<Rightarrow> u32 \<Rightarrow> u32) \<Rightarrow> u32 \<Rightarrow> nat \<Rightarrow> regs1 \<times> u32 list \<Rightarrow> regs1 \<times> u32 list" where
  "sha1_steps_5 f k i = (\<lambda>((a, b, c, d, e), x).
     let (e, b, x) = SHA1STEP a b c d e f k i x;
         (d, a, x) = SHA1STEP e a b c d f k (i + 1) x;
         (c, e, x) = SHA1STEP d e a b c f k (i + 2) x;
         (b, d, x) = SHA1STEP c d e a b f k (i + 3) x;
         (a, c, x) = SHA1STEP b c d e a f k (i + 4) x in
     ((a, b, c, d, e), x))"

text \<open>Function, constant and first step of each group.\<close>

definition sha1_table :: "((u32 \<Rightarrow> u32 \<Rightarrow> u32 \<Rightarrow> u32) \<times> u32 \<times> nat) list" where
  "sha1_table =
     [(sha1_F1, 0x5a827999, 0), (sha1_F1, 0x5a827999, 5), (sha1_F1, 0x5a827999, 10), (sha1_F1, 0x5a827999, 15),
      (sha1_F2, 0x6ed9eba1, 20), (sha1_F2, 0x6ed9eba1, 25), (sha1_F2, 0x6ed9eba1, 30), (sha1_F2, 0x6ed9eba1, 35),
      (sha1_F3, 0x8f1bbcdc, 40), (sha1_F3, 0x8f1bbcdc, 45), (sha1_F3, 0x8f1bbcdc, 50), (sha1_F3, 0x8f1bbcdc, 55),
      (sha1_F4, 0xca62c1d6, 60), (sha1_F4, 0xca62c1d6, 65), (sha1_F4, 0xca62c1d6, 70), (sha1_F4, 0xca62c1d6, 75)]"

definition sha1_steps :: "regs1 \<times> u32 list \<Rightarrow> regs1 \<times> u32 list" where
  "sha1_steps s = foldl (\<lambda>s (f, k, i). sha1_steps_5 f k i s) s sha1_table"

definition sha1_transform_cc :: transform where
  "sha1_transform_cc st data =
     (let x = map (\<lambda>k. read_swap32 (drop (4 * k) data)) [0..<16];
          r = (ucast (st ! 0), ucast (st ! 1), ucast (st ! 2), ucast (st ! 3), ucast (st ! 4));
          ((a, b, c, d, e), x) = sha1_steps (r, x) in
      st[0 := st ! 0 + ucast a, 1 := st ! 1 + ucast b, 2 := st ! 2 + ucast c, 3 := st ! 3 + ucast d, 4 := st ! 4 + ucast e])"

definition sha1_transform :: transform where
  "sha1_transform = sha1_transform_cc"

definition sha1_write :: "HASH_CONTEXT \<Rightarrow> u8 list \<Rightarrow> HASH_CONTEXT" where
  "sha1_write = block_write SHA1_BLOCKSIZE sha1_transform"

definition sha1_final :: "HASH_CONTEXT \<Rightarrow> HASH_CONTEXT option" where
  "sha1_final = block_final SHA1_BLOCKSIZE (SHA1_BLOCKSIZE - 8) sha1_transform
     (\<lambda>count. put_bitcount SHA1_BLOCKSIZE (push_bit 3 count)) (write_words 4 (\<lambda>w. be32_bytes (ucast w)) 5)"

section \<open>The standard\<close>

fun W1 :: "u32 list \<Rightarrow> nat \<Rightarrow> u32" where
  "W1 m t = (if t < 16 then m ! t
     else ROL32 (W1 m (t - 3) XOR W1 m (t - 8) XOR W1 m (t - 14) XOR W1 m (t - 16)) 1)"

declare W1.simps [simp del]

definition f1 :: "nat \<Rightarrow> u32 \<Rightarrow> u32 \<Rightarrow> u32 \<Rightarrow> u32" where
  "f1 t x y z =
     (if t < 20 then (x AND y) XOR (NOT x AND z)
      else if t < 40 then x XOR y XOR z
      else if t < 60 then (x AND y) XOR (x AND z) XOR (y AND z)
      else x XOR y XOR z)"

definition k1 :: "nat \<Rightarrow> u32" where
  "k1 t = (if t < 20 then 0x5a827999 else if t < 40 then 0x6ed9eba1 else if t < 60 then 0x8f1bbcdc else 0xca62c1d6)"

fun step1 :: "u32 list \<Rightarrow> nat \<Rightarrow> regs1 \<Rightarrow> regs1" where
  "step1 m t (a, b, c, d, e) = (ROL32 a 5 + f1 t b c d + e + k1 t + W1 m t, a, ROL32 b 30, c, d)"

definition compress1 :: "u32 list \<Rightarrow> u8 list \<Rightarrow> u32 list" where
  "compress1 H data =
     (case rounds (step1 (map (\<lambda>k. read_swap32 (drop (4 * k) data)) [0..<16])) 80 0 (H ! 0, H ! 1, H ! 2, H ! 3, H ! 4) of
      (a, b, c, d, e) \<Rightarrow> [H ! 0 + a, H ! 1 + b, H ! 2 + c, H ! 3 + d, H ! 4 + e])"

definition H0_1 :: "u32 list" where
  "H0_1 = [0x67452301, 0xefcdab89, 0x98badcfe, 0x10325476, 0xc3d2e1f0]"

definition SHA1 :: "u8 list \<Rightarrow> u8 list" where
  "SHA1 m = concat (map be32_bytes
     (foldl compress1 H0_1 (chunks 64 (padded 64 56 (\<lambda>n. be64_bytes (of_nat (8 * n))) m))))"

section \<open>The steps\<close>

lemma sha1_word_window:
  assumes "window (W1 m) t x"
  shows "\<exists>x'. sha1_word t x = (W1 m t, x') \<and> window (W1 m) (Suc t) x'"
proof (cases "t < 16")
  case True
  then show ?thesis using window_keep [OF assms] by (simp add: sha1_word_def)
next
  case False
  then have t: "16 \<le> t" by simp
  have "ROL32 (x ! wrap16 t 0 XOR x ! wrap16 t 14 XOR x ! wrap16 t 8 XOR x ! wrap16 t 3) 1 = W1 m t"
    using window_slot [OF assms t] window_oldest [OF assms t] t
    by (subst W1.simps) (simp add: wrap16_0 xor.assoc xor.commute xor.left_commute)
  then show ?thesis using window_step [OF assms t] t by (simp add: sha1_word_def sha1_M_def wrap16_0 Let_def)
qed

lemma SHA1STEP_elim:
  assumes "window (W1 m) t x" "f = f1 t" "k = k1 t"
  obtains e' x' where "SHA1STEP a b c d e f k t x = (e', ROL32 b 30, x')" "window (W1 m) (Suc t) x'"
    "step1 m t (a, b, c, d, e) = (e', a, ROL32 b 30, c, d)"
  using sha1_word_window [OF assms(1)] assms(2,3) by (auto simp: SHA1STEP_def add_ac)

lemma sha1_steps_5_rounds:
  assumes w: "window (W1 m) t x" and f: "\<And>u. t \<le> u \<Longrightarrow> u < t + 5 \<Longrightarrow> f = f1 u \<and> k = k1 u"
  shows "\<exists>x'. sha1_steps_5 f k t (r, x) = (rounds (step1 m) 5 t r, x') \<and> window (W1 m) (t + 5) x'"
proof -
  obtain a b c d e where r: "r = (a, b, c, d, e)" by (cases r) auto
  have f: "f = f1 t" "k = k1 t" "f = f1 (Suc t)" "k = k1 (Suc t)" "f = f1 (Suc (Suc t))" "k = k1 (Suc (Suc t))"
    "f = f1 (Suc (Suc (Suc t)))" "k = k1 (Suc (Suc (Suc t)))" "f = f1 (Suc (Suc (Suc (Suc t))))" "k = k1 (Suc (Suc (Suc (Suc t))))"
    using f [of t] f [of "Suc t"] f [of "Suc (Suc t)"] f [of "Suc (Suc (Suc t))"] f [of "Suc (Suc (Suc (Suc t)))"] by simp_all
  obtain e1 x1 where 1: "SHA1STEP a b c d e f k t x = (e1, ROL32 b 30, x1)" "window (W1 m) (Suc t) x1"
    "step1 m t (a, b, c, d, e) = (e1, a, ROL32 b 30, c, d)" by (rule SHA1STEP_elim [OF w f(1,2)])
  obtain d1 x2 where 2: "SHA1STEP e1 a (ROL32 b 30) c d f k (Suc t) x1 = (d1, ROL32 a 30, x2)" "window (W1 m) (Suc (Suc t)) x2"
    "step1 m (Suc t) (e1, a, ROL32 b 30, c, d) = (d1, e1, ROL32 a 30, ROL32 b 30, c)" by (rule SHA1STEP_elim [OF 1(2) f(3,4)])
  obtain c1 x3 where 3: "SHA1STEP d1 e1 (ROL32 a 30) (ROL32 b 30) c f k (Suc (Suc t)) x2 = (c1, ROL32 e1 30, x3)"
    "window (W1 m) (Suc (Suc (Suc t))) x3"
    "step1 m (Suc (Suc t)) (d1, e1, ROL32 a 30, ROL32 b 30, c) = (c1, d1, ROL32 e1 30, ROL32 a 30, ROL32 b 30)"
    by (rule SHA1STEP_elim [OF 2(2) f(5,6)])
  let ?t = "Suc (Suc (Suc t))"
  obtain b1 x4 where 4: "SHA1STEP c1 d1 (ROL32 e1 30) (ROL32 a 30) (ROL32 b 30) f k ?t x3 = (b1, ROL32 d1 30, x4)"
    "window (W1 m) (Suc ?t) x4"
    "step1 m ?t (c1, d1, ROL32 e1 30, ROL32 a 30, ROL32 b 30) = (b1, c1, ROL32 d1 30, ROL32 e1 30, ROL32 a 30)"
    by (rule SHA1STEP_elim [OF 3(2) f(7,8)])
  obtain a1 x5 where 5: "SHA1STEP b1 c1 (ROL32 d1 30) (ROL32 e1 30) (ROL32 a 30) f k (Suc ?t) x4 = (a1, ROL32 c1 30, x5)"
    "window (W1 m) (Suc (Suc ?t)) x5"
    "step1 m (Suc ?t) (b1, c1, ROL32 d1 30, ROL32 e1 30, ROL32 a 30) = (a1, b1, ROL32 c1 30, ROL32 d1 30, ROL32 e1 30)"
    by (rule SHA1STEP_elim [OF 4(2) f(9,10)])
  have ts: "t + 1 = Suc t" "t + 2 = Suc (Suc t)" "t + 3 = ?t" "t + 4 = Suc ?t" "t + 5 = Suc (Suc ?t)" by simp_all
  have "sha1_steps_5 f k t (r, x) = ((a1, b1, ROL32 c1 30, ROL32 d1 30, ROL32 e1 30), x5)"
    by (simp only: sha1_steps_5_def r prod.case ts 1(1) 2(1) 3(1) 4(1) 5(1) Let_def)
  moreover have "rounds (step1 m) 5 t r = (a1, b1, ROL32 c1 30, ROL32 d1 30, ROL32 e1 30)"
    using 1(3) 2(3) 3(3) 4(3) 5(3) by (simp add: r eval_nat_numeral del: step1.simps)
  moreover have "window (W1 m) (t + 5) x5" using 5(2) by (simp only: ts)
  ultimately show ?thesis by simp
qed

text \<open>The function and the constant of the group at step \<open>i\<close> are the ones of the standard.\<close>

definition sha1_group :: "(u32 \<Rightarrow> u32 \<Rightarrow> u32 \<Rightarrow> u32) \<times> u32 \<times> nat \<Rightarrow> bool" where
  "sha1_group = (\<lambda>(f, k, i). \<forall>u. i \<le> u \<and> u < i + 5 \<longrightarrow> f = f1 u \<and> k = k1 u)"

lemma sha1_F:
  "f1 u = (if u < 20 then sha1_F1 else if u < 40 then sha1_F2 else if u < 60 then sha1_F3 else sha1_F4)"
  by (intro ext bit_word_eqI) (auto simp: f1_def sha1_F1_def sha1_F2_def sha1_F3_def sha1_F4_def bit_simps)

lemma sha1_group:
  "i \<le> 15 \<Longrightarrow> sha1_group (sha1_F1, 0x5a827999, i)"
  "20 \<le> i \<Longrightarrow> i \<le> 35 \<Longrightarrow> sha1_group (sha1_F2, 0x6ed9eba1, i)"
  "40 \<le> i \<Longrightarrow> i \<le> 55 \<Longrightarrow> sha1_group (sha1_F3, 0x8f1bbcdc, i)"
  "60 \<le> i \<Longrightarrow> sha1_group (sha1_F4, 0xca62c1d6, i)"
  by (simp_all add: sha1_group_def sha1_F k1_def)

primrec sha1_groups :: "nat \<Rightarrow> ((u32 \<Rightarrow> u32 \<Rightarrow> u32 \<Rightarrow> u32) \<times> u32 \<times> nat) list \<Rightarrow> bool" where
  "sha1_groups t [] = True"
| "sha1_groups t (g # gs) = (snd (snd g) = t \<and> sha1_group g \<and> sha1_groups (t + 5) gs)"

lemma sha1_groups_rounds:
  assumes "sha1_groups t gs" "window (W1 m) t x"
  shows "\<exists>x'. foldl (\<lambda>s (f, k, i). sha1_steps_5 f k i s) (r, x) gs = (rounds (step1 m) (5 * length gs) t r, x')"
  using assms
proof (induction gs arbitrary: t r x)
  case (Cons g gs)
  obtain f k where g: "g = (f, k, t)" "sha1_group (f, k, t)" "sha1_groups (t + 5) gs" using Cons.prems(1) by (cases g) auto
  obtain x1 where x1: "sha1_steps_5 f k t (r, x) = (rounds (step1 m) 5 t r, x1)" "window (W1 m) (t + 5) x1"
    using sha1_steps_5_rounds [OF Cons.prems(2), of f k r] g(2) by (auto simp: sha1_group_def)
  from Cons.IH [OF g(3) x1(2), of "rounds (step1 m) 5 t r"] show ?case
    using rounds_add [of "step1 m" 5 "5 * length gs" t r] by (simp add: g(1) x1(1))
qed simp

lemma sha1_steps_rounds:
  assumes "length m = 16"
  shows "\<exists>x'. sha1_steps (r, m) = (rounds (step1 m) 80 0 r, x')"
proof -
  have "window (W1 m) 0 m" using assms by (intro window_first) (simp_all add: W1.simps)
  moreover have "sha1_groups 0 sha1_table" by (simp add: sha1_table_def sha1_group)
  moreover have "length sha1_table = 16" by (simp add: sha1_table_def)
  ultimately show ?thesis using sha1_groups_rounds [of 0 sha1_table m m r] by (simp add: sha1_steps_def)
qed

lemma sha1_transform_compress:
  assumes "length st = 8"
  shows "map ucast (take 5 (sha1_transform st data)) = compress1 (map ucast (take 5 st)) data \<and> length (sha1_transform st data) = 8"
proof -
  let ?m = "map (\<lambda>k. read_swap32 (drop (4 * k) data)) [0..<16]"
  let ?r = "(ucast (st ! 0), ucast (st ! 1), ucast (st ! 2), ucast (st ! 3), ucast (st ! 4)) :: regs1"
  obtain x' where l: "sha1_steps (?r, ?m) = (rounds (step1 ?m) 80 0 ?r, x')" using sha1_steps_rounds [of ?m ?r] by auto
  obtain a b c d e where r: "rounds (step1 ?m) 80 0 ?r = (a, b, c, d, e)" by (cases "rounds (step1 ?m) 80 0 ?r") auto
  obtain s0 s1 s2 s3 s4 s5 s6 s7 where st: "st = [s0, s1, s2, s3, s4, s5, s6, s7]"
    using assms by (auto simp: eval_nat_numeral length_Suc_conv)
  have "sha1_transform st data = [s0 + ucast a, s1 + ucast b, s2 + ucast c, s3 + ucast d, s4 + ucast e, s5, s6, s7]"
    unfolding sha1_transform_def sha1_transform_cc_def Let_def l r by (simp add: st)
  moreover have "compress1 (map ucast (take 5 st)) data = [ucast s0 + a, ucast s1 + b, ucast s2 + c, ucast s3 + d, ucast s4 + e]"
    unfolding compress1_def using r by (simp add: st)
  ultimately show ?thesis by (simp add: ucast_add_32 ucast_up_down_32)
qed

lemma sha1_blocks:
  "length st = 8 \<Longrightarrow> map ucast (take 5 (foldl sha1_transform st bs)) = foldl compress1 (map ucast (take 5 st)) bs \<and>
    length (foldl sha1_transform st bs) = 8"
  by (induction bs arbitrary: st) (simp_all add: sha1_transform_compress)

section \<open>The digest\<close>

interpretation sha1: message_digest "\<lambda>ctx m. absorbed SHA1_BLOCKSIZE sha1_transform (state sha1_init) ctx m"
  sha1_init sha1_write sha1_final SHA1_HASHSIZE SHA1
proof
  show "absorbed SHA1_BLOCKSIZE sha1_transform (state sha1_init) sha1_init []"
    by (simp add: absorbed_def sha1_init_def SHA1_BLOCKSIZE_def)
  show "absorbed SHA1_BLOCKSIZE sha1_transform (state sha1_init) (sha1_write ctx d) (m @ d)"
    if "absorbed SHA1_BLOCKSIZE sha1_transform (state sha1_init) ctx m" for ctx m d
    using that block_write_absorbed block_size_64 by (simp add: sha1_write_def SHA1_BLOCKSIZE_def)
  show "\<exists>ctx'. sha1_final ctx = Some ctx' \<and> take SHA1_HASHSIZE (buf ctx') = SHA1 m"
    if a: "absorbed SHA1_BLOCKSIZE sha1_transform (state sha1_init) ctx m" for ctx m
  proof -
    let ?st = "foldl sha1_transform (state sha1_init) (chunks 64 (padded 64 56 (\<lambda>n. be64_bytes (push_bit 3 (of_nat n))) m))"
    have init: "map ucast (take 5 (state sha1_init)) = H0_1" "length (state sha1_init) = 8"
      by (simp_all add: sha1_init_def H0_1_def)
    have st: "concat (map be32_bytes (map ucast (take 5 ?st))) = SHA1 m" "length ?st = 8"
      using sha1_blocks [OF init(2)] by (simp_all only: SHA1_def push_bit_3_of_nat init(1))
    have "\<exists>c'. block_final 64 56 sha1_transform (\<lambda>count. put_bitcount 64 (push_bit 3 count)) (write_words 4 (\<lambda>w. be32_bytes (ucast w)) 5) ctx = Some c' \<and>
        take (4 * 5) (buf c') = words_bytes (\<lambda>w. be32_bytes (ucast w)) 5 ?st"
      by (rule block_final_words [OF block_size_64 _ _ a [unfolded SHA1_BLOCKSIZE_def]])
        (simp_all add: put_bitcount MAX_BLOCKSIZE_def)
    moreover have "words_bytes (\<lambda>w. be32_bytes (ucast w)) 5 ?st = SHA1 m"
      using st words_bytes_take [of 5 ?st] by (simp add: comp_def)
    ultimately show ?thesis by (simp add: sha1_final_def SHA1_BLOCKSIZE_def SHA1_HASHSIZE_def)
  qed
qed

end
