(* ===== verification/Sha256.thy ===== *)
theory Sha256
  imports Digest_Rounds
begin

text \<open>
  SHA-256 (\<open>src/src/hash.c\<close>, the portable implementation): constants, initial values, the
  transform with its circular message schedule and its rotating names, and the instances of the
  streaming layer. The standard (FIPS 180-4) is written down beside it, and the transform is shown
  to compute its compression function.

  The chaining values are kept in 64-bit words of which the transform uses the low halves; the
  additions at its end are not reduced, as in the source.
\<close>

section \<open>The code\<close>

definition SHA256_BLOCKSIZE :: nat where
  "SHA256_BLOCKSIZE = 64"

definition SHA256_HASHSIZE :: nat where
  "SHA256_HASHSIZE = 32"

definition K256 :: "u32 list" where
  "K256 = concat [
    [0x428a2f98, 0x71374491, 0xb5c0fbcf, 0xe9b5dba5, 0x3956c25b, 0x59f111f1, 0x923f82a4, 0xab1c5ed5],
    [0xd807aa98, 0x12835b01, 0x243185be, 0x550c7dc3, 0x72be5d74, 0x80deb1fe, 0x9bdc06a7, 0xc19bf174],
    [0xe49b69c1, 0xefbe4786, 0x0fc19dc6, 0x240ca1cc, 0x2de92c6f, 0x4a7484aa, 0x5cb0a9dc, 0x76f988da],
    [0x983e5152, 0xa831c66d, 0xb00327c8, 0xbf597fc7, 0xc6e00bf3, 0xd5a79147, 0x06ca6351, 0x14292967],
    [0x27b70a85, 0x2e1b2138, 0x4d2c6dfc, 0x53380d13, 0x650a7354, 0x766a0abb, 0x81c2c92e, 0x92722c85],
    [0xa2bfe8a1, 0xa81a664b, 0xc24b8b70, 0xc76c51a3, 0xd192e819, 0xd6990624, 0xf40e3585, 0x106aa070],
    [0x19a4c116, 0x1e376c08, 0x2748774c, 0x34b0bcb5, 0x391c0cb3, 0x4ed8aa4a, 0x5b9cca4f, 0x682e6ff3],
    [0x748f82ee, 0x78a5636f, 0x84c87814, 0x8cc70208, 0x90befffa, 0xa4506ceb, 0xbef9a3f7, 0xc67178f2]]"

definition sha256_init :: HASH_CONTEXT where
  "sha256_init = \<lparr>buf = replicate MAX_BLOCKSIZE 0,
     state = [0x6a09e667, 0xbb67ae85, 0x3c6ef372, 0xa54ff53a, 0x510e527f, 0x9b05688c, 0x1f83d9ab, 0x5be0cd19],
     bytecount = 0\<rparr>"

definition sha256_S0 :: "u32 \<Rightarrow> u32" where
  "sha256_S0 x = ROR32 (ROR32 (ROR32 x 9 XOR x) 11 XOR x) 2"

definition sha256_S1 :: "u32 \<Rightarrow> u32" where
  "sha256_S1 x = ROR32 (ROR32 (ROR32 x 14 XOR x) 5 XOR x) 6"

definition sha256_s0 :: "u32 \<Rightarrow> u32" where
  "sha256_s0 x = ROR32 (ROR32 x 11 XOR x) 7 XOR drop_bit 3 x"

definition sha256_s1 :: "u32 \<Rightarrow> u32" where
  "sha256_s1 x = ROR32 (ROR32 x 2 XOR x) 17 XOR drop_bit 10 x"

definition sha256_BLK2 :: "u32 list \<Rightarrow> nat \<Rightarrow> u32 list" where
  "sha256_BLK2 x i =
     x[i := x ! i + (sha256_s1 (x ! wrap16 i 2) + x ! wrap16 i 7 + sha256_s0 (x ! wrap16 i 15))]"

text \<open>The macro \<open>R\<close>: the new values of its arguments \<open>d\<close> and \<open>h\<close>, and the schedule.\<close>

definition sha256_R :: "nat \<Rightarrow> nat \<Rightarrow> u32 \<Rightarrow> u32 \<Rightarrow> u32 \<Rightarrow> u32 \<Rightarrow> u32 \<Rightarrow> u32 \<Rightarrow> u32 \<Rightarrow> u32 \<Rightarrow> u32 list \<Rightarrow> u32 \<times> u32 \<times> u32 list" where
  "sha256_R j i a b c d e f g h x =
     (let x = (if j \<noteq> 0 then sha256_BLK2 x i else x);
          h = h + (sha256_S1 e + Ch e f g + K256 ! (i + j) + x ! i);
          d = d + h;
          h = h + (sha256_S0 a + Ma a b c) in
      (d, h, x))"

type_synonym regs256 = "u32 regs8"

definition sha256_RX_8 :: "nat \<Rightarrow> nat \<Rightarrow> regs256 \<times> u32 list \<Rightarrow> regs256 \<times> u32 list" where
  "sha256_RX_8 j i = (\<lambda>((a, b, c, d, e, f, g, h), x).
     let (d, h, x) = sha256_R j i a b c d e f g h x;
         (c, g, x) = sha256_R j (i + 1) h a b c d e f g x;
         (b, f, x) = sha256_R j (i + 2) g h a b c d e f x;
         (a, e, x) = sha256_R j (i + 3) f g h a b c d e x;
         (h, d, x) = sha256_R j (i + 4) e f g h a b c d x;
         (g, c, x) = sha256_R j (i + 5) d e f g h a b c x;
         (f, b, x) = sha256_R j (i + 6) c d e f g h a b x;
         (e, a, x) = sha256_R j (i + 7) b c d e f g h a x in
     ((a, b, c, d, e, f, g, h), x))"

definition sha256_transform_cc :: transform where
  "sha256_transform_cc st data =
     (let x = map (\<lambda>k. read_swap32 (drop (4 * k) data)) [0..<16];
          r = (ucast (st ! 0), ucast (st ! 1), ucast (st ! 2), ucast (st ! 3),
               ucast (st ! 4), ucast (st ! 5), ucast (st ! 6), ucast (st ! 7));
          ((a, b, c, d, e, f, g, h), x) =
            foldl (\<lambda>s j. sha256_RX_8 j 8 (sha256_RX_8 j 0 s)) (r, x) [0, 16, 32, 48] in
      [st ! 0 + ucast a, st ! 1 + ucast b, st ! 2 + ucast c, st ! 3 + ucast d,
       st ! 4 + ucast e, st ! 5 + ucast f, st ! 6 + ucast g, st ! 7 + ucast h])"

definition sha256_transform :: transform where
  "sha256_transform = sha256_transform_cc"

definition sha256_write :: "HASH_CONTEXT \<Rightarrow> u8 list \<Rightarrow> HASH_CONTEXT" where
  "sha256_write = block_write SHA256_BLOCKSIZE sha256_transform"

definition sha256_final :: "HASH_CONTEXT \<Rightarrow> HASH_CONTEXT option" where
  "sha256_final = block_final SHA256_BLOCKSIZE (SHA256_BLOCKSIZE - 8) sha256_transform
     (\<lambda>count. put_bitcount SHA256_BLOCKSIZE (push_bit 3 count)) (write_words 4 (\<lambda>w. be32_bytes (ucast w)) 8)"

section \<open>The standard\<close>

definition Sigma0_256 :: "u32 \<Rightarrow> u32" where
  "Sigma0_256 x = ROR32 x 2 XOR ROR32 x 13 XOR ROR32 x 22"

definition Sigma1_256 :: "u32 \<Rightarrow> u32" where
  "Sigma1_256 x = ROR32 x 6 XOR ROR32 x 11 XOR ROR32 x 25"

definition sigma0_256 :: "u32 \<Rightarrow> u32" where
  "sigma0_256 x = ROR32 x 7 XOR ROR32 x 18 XOR drop_bit 3 x"

definition sigma1_256 :: "u32 \<Rightarrow> u32" where
  "sigma1_256 x = ROR32 x 17 XOR ROR32 x 19 XOR drop_bit 10 x"

fun W256 :: "u32 list \<Rightarrow> nat \<Rightarrow> u32" where
  "W256 m t = (if t < 16 then m ! t
     else sigma1_256 (W256 m (t - 2)) + W256 m (t - 7) + sigma0_256 (W256 m (t - 15)) + W256 m (t - 16))"

declare W256.simps [simp del]

fun round256 :: "u32 \<Rightarrow> u32 \<Rightarrow> regs256 \<Rightarrow> regs256" where
  "round256 k w (a, b, c, d, e, f, g, h) =
     (let T1 = h + Sigma1_256 e + ((e AND f) XOR (NOT e AND g)) + k + w;
          T2 = Sigma0_256 a + ((a AND b) XOR (a AND c) XOR (b AND c)) in
      (T1 + T2, a, b, c, d + T1, e, f, g))"

definition step256 :: "u32 list \<Rightarrow> nat \<Rightarrow> regs256 \<Rightarrow> regs256" where
  "step256 m t = round256 (K256 ! t) (W256 m t)"

text \<open>The compression function on eight 32-bit words and a block of bytes.\<close>

definition compress256 :: "u32 list \<Rightarrow> u8 list \<Rightarrow> u32 list" where
  "compress256 H data =
     (case rounds (step256 (map (\<lambda>k. read_swap32 (drop (4 * k) data)) [0..<16])) 64 0
        (H ! 0, H ! 1, H ! 2, H ! 3, H ! 4, H ! 5, H ! 6, H ! 7) of
      (a, b, c, d, e, f, g, h) \<Rightarrow>
        [H ! 0 + a, H ! 1 + b, H ! 2 + c, H ! 3 + d, H ! 4 + e, H ! 5 + f, H ! 6 + g, H ! 7 + h])"

definition H0_256 :: "u32 list" where
  "H0_256 = [0x6a09e667, 0xbb67ae85, 0x3c6ef372, 0xa54ff53a, 0x510e527f, 0x9b05688c, 0x1f83d9ab, 0x5be0cd19]"

definition SHA256 :: "u8 list \<Rightarrow> u8 list" where
  "SHA256 m = concat (map be32_bytes
     (foldl compress256 H0_256 (chunks 64 (padded 64 56 (\<lambda>n. be64_bytes (of_nat (8 * n))) m))))"

section \<open>The functions of the standard\<close>

lemma sha256_S0: "sha256_S0 x = Sigma0_256 x"
  by (simp add: sha256_S0_def Sigma0_256_def ROR32_xor ROR32_ROR32 xor.assoc xor.commute xor.left_commute)

lemma sha256_S1: "sha256_S1 x = Sigma1_256 x"
  by (simp add: sha256_S1_def Sigma1_256_def ROR32_xor ROR32_ROR32 xor.assoc xor.commute xor.left_commute)

lemma sha256_s0: "sha256_s0 x = sigma0_256 x"
  by (simp add: sha256_s0_def sigma0_256_def ROR32_xor ROR32_ROR32 xor.assoc xor.commute xor.left_commute)

lemma sha256_s1: "sha256_s1 x = sigma1_256 x"
  by (simp add: sha256_s1_def sigma1_256_def ROR32_xor ROR32_ROR32 xor.assoc xor.commute xor.left_commute)

lemma sha256_BLK2_window:
  assumes w: "window (W256 m) t x" and t: "16 \<le> t"
  shows "sha256_BLK2 x (t mod 16) = x[t mod 16 := W256 m t]"
proof -
  have "x ! (t mod 16) + (sha256_s1 (x ! wrap16 t 2) + x ! wrap16 t 7 + sha256_s0 (x ! wrap16 t 15)) = W256 m t"
    using window_slot [OF w t] window_oldest [OF w t] t
    by (subst W256.simps) (simp add: sha256_s0 sha256_s1 add_ac)
  then show ?thesis by (simp add: sha256_BLK2_def wrap16_mod)
qed

section \<open>The rounds\<close>

text \<open>The macro at round \<open>t\<close>: the loop counter \<open>j\<close> is the multiple of sixteen below it.\<close>

definition sha256_R_at :: "nat \<Rightarrow> u32 \<Rightarrow> u32 \<Rightarrow> u32 \<Rightarrow> u32 \<Rightarrow> u32 \<Rightarrow> u32 \<Rightarrow> u32 \<Rightarrow> u32 \<Rightarrow> u32 list \<Rightarrow> u32 \<times> u32 \<times> u32 list" where
  "sha256_R_at t = sha256_R (t - t mod 16) (t mod 16)"

interpretation r256: sha2_round sha256_R_at step256 "\<lambda>m. window (W256 m)"
proof
  fix m x :: "u32 list" and t and a b c d e f g h :: u32
  assume w: "window (W256 m) t x"
  let ?i = "t mod 16" and ?j = "t - t mod 16"
  let ?x = "if ?j \<noteq> 0 then sha256_BLK2 x ?i else x"
  have ij: "?i + ?j = t" by simp
  have "window (W256 m) (t + 1) ?x \<and> ?x ! ?i = W256 m t"
  proof (cases "t < 16")
    case True
    then show ?thesis using window_keep [OF w] by simp
  next
    case False
    then have "16 \<le> t" by simp
    moreover have "length x = 16" using w by (simp add: window_def)
    moreover have "?j \<noteq> 0" using False mod_less_divisor [of 16 t] by linarith
    ultimately show ?thesis using window_step [OF w] sha256_BLK2_window [OF w] by simp
  qed
  then show "\<exists>d' h' x'. sha256_R_at t a b c d e f g h x = (d', h', x') \<and> window (W256 m) (Suc t) x' \<and>
      step256 m t (a, b, c, d, e, f, g, h) = (h', a, b, c, d', e, f, g)"
    by (simp only: sha256_R_at_def sha256_R_def Let_def ij prod.case)
      (auto simp: Let_def step256_def Ch_spec Ma_spec sha256_S0 sha256_S1 add_ac)
qed

lemma sha256_RX_8_eight: "16 dvd j \<Longrightarrow> i + 8 \<le> 16 \<Longrightarrow> sha256_RX_8 j i = r256.eight (j + i)"
proof -
  assume "16 dvd j" "i + 8 \<le> 16"
  then have "(j + i + k) mod 16 = i + k" if "k < 8" for k
    using that by (auto simp: dvd_def add.assoc)
  then have "sha256_R_at (j + i + k) = sha256_R j (i + k)" if "k < 8" for k
    using that by (simp add: sha256_R_at_def)
  from this [of 0] this [of 1] this [of 2] this [of 3] this [of 4] this [of 5] this [of 6] this [of 7]
  show ?thesis unfolding sha256_RX_8_def r256.eight_def by simp
qed

lemma sha256_loop:
  assumes "length m = 16"
  shows "\<exists>x'. foldl (\<lambda>s j. sha256_RX_8 j 8 (sha256_RX_8 j 0 s)) (r, m) [0, 16, 32, 48] = (rounds (step256 m) 64 0 r, x')"
proof -
  have "window (W256 m) 0 m" using assms by (intro window_first) (simp_all add: W256.simps)
  from r256.eights_rounds [OF this, of r 8] show ?thesis
    by (auto simp: sha256_RX_8_eight upt_rec)
qed

lemma sha256_transform_compress:
  assumes "length st = 8"
  shows "map ucast (sha256_transform st data) = compress256 (map ucast st) data \<and> length (sha256_transform st data) = 8"
proof -
  let ?m = "map (\<lambda>k. read_swap32 (drop (4 * k) data)) [0..<16]"
  let ?r = "(ucast (st ! 0), ucast (st ! 1), ucast (st ! 2), ucast (st ! 3),
               ucast (st ! 4), ucast (st ! 5), ucast (st ! 6), ucast (st ! 7)) :: regs256"
  obtain x' where l: "foldl (\<lambda>s j. sha256_RX_8 j 8 (sha256_RX_8 j 0 s)) (?r, ?m) [0, 16, 32, 48] = (rounds (step256 ?m) 64 0 ?r, x')"
    using sha256_loop [of ?m ?r] by auto
  obtain a b c d e f g h where r: "rounds (step256 ?m) 64 0 ?r = (a, b, c, d, e, f, g, h)" by (cases "rounds (step256 ?m) 64 0 ?r") auto
  have "sha256_transform st data = [st ! 0 + ucast a, st ! 1 + ucast b, st ! 2 + ucast c, st ! 3 + ucast d,
       st ! 4 + ucast e, st ! 5 + ucast f, st ! 6 + ucast g, st ! 7 + ucast h]"
    unfolding sha256_transform_def sha256_transform_cc_def Let_def l r by simp
  moreover have "compress256 (map ucast st) data = [ucast (st ! 0) + a, ucast (st ! 1) + b, ucast (st ! 2) + c, ucast (st ! 3) + d,
      ucast (st ! 4) + e, ucast (st ! 5) + f, ucast (st ! 6) + g, ucast (st ! 7) + h]"
    unfolding compress256_def using assms r by simp
  ultimately show ?thesis by (simp add: ucast_add_32 ucast_up_down_32)
qed

lemma sha256_blocks:
  "length st = 8 \<Longrightarrow> map ucast (foldl sha256_transform st bs) = foldl compress256 (map ucast st) bs \<and>
    length (foldl sha256_transform st bs) = 8"
  by (induction bs arbitrary: st) (simp_all add: sha256_transform_compress)

section \<open>The digest\<close>

interpretation sha256: message_digest "absorbed SHA256_BLOCKSIZE sha256_transform (state sha256_init)"
  sha256_init sha256_write sha256_final SHA256_HASHSIZE SHA256
proof
  show "absorbed SHA256_BLOCKSIZE sha256_transform (state sha256_init) sha256_init []"
    by (simp add: absorbed_def sha256_init_def SHA256_BLOCKSIZE_def)
  show "absorbed SHA256_BLOCKSIZE sha256_transform (state sha256_init) (sha256_write ctx d) (m @ d)"
    if "absorbed SHA256_BLOCKSIZE sha256_transform (state sha256_init) ctx m" for ctx m d
    using that block_write_absorbed block_size_64 by (simp add: sha256_write_def SHA256_BLOCKSIZE_def)
  show "\<exists>ctx'. sha256_final ctx = Some ctx' \<and> take SHA256_HASHSIZE (buf ctx') = SHA256 m"
    if a: "absorbed SHA256_BLOCKSIZE sha256_transform (state sha256_init) ctx m" for ctx m
  proof -
    let ?st = "foldl sha256_transform (state sha256_init) (chunks 64 (padded 64 56 (\<lambda>n. be64_bytes (push_bit 3 (of_nat n))) m))"
    have "map ucast ?st = foldl compress256 (map ucast (state sha256_init)) (chunks 64 (padded 64 56 (\<lambda>n. be64_bytes (push_bit 3 (of_nat n))) m))"
      "length ?st = 8" using sha256_blocks [of "state sha256_init"] by (simp_all add: sha256_init_def)
    moreover have "map ucast (state sha256_init) = H0_256" by (simp add: sha256_init_def H0_256_def)
    ultimately have st: "concat (map be32_bytes (map ucast ?st)) = SHA256 m" "length ?st = 8"
      by (simp_all only: SHA256_def push_bit_3_of_nat)
    have "\<exists>c'. block_final 64 56 sha256_transform (\<lambda>count. put_bitcount 64 (push_bit 3 count)) (write_words 4 (\<lambda>w. be32_bytes (ucast w)) 8) ctx = Some c' \<and>
        take (4 * 8) (buf c') = words_bytes (\<lambda>w. be32_bytes (ucast w)) 8 ?st"
      by (rule block_final_words [OF block_size_64 _ _ a [unfolded SHA256_BLOCKSIZE_def]])
        (simp_all add: put_bitcount MAX_BLOCKSIZE_def)
    then show ?thesis using st words_bytes_map [OF st(2)] by (simp add: sha256_final_def SHA256_BLOCKSIZE_def SHA256_HASHSIZE_def comp_def)
  qed
qed

end
