(* ===== verification/Sha512.thy ===== *)
theory Sha512
  imports Digest_Rounds
begin

text \<open>
  SHA-512 (\<open>src/src/hash.c\<close>): constants, initial values, the transform with the whole schedule in
  an array of eighty words, and the instances of the streaming layer with the 128-bit message
  length. The standard (FIPS 180-4) is written down beside it.
\<close>

section \<open>The code\<close>

definition SHA512_BLOCKSIZE :: nat where
  "SHA512_BLOCKSIZE = 128"

definition SHA512_HASHSIZE :: nat where
  "SHA512_HASHSIZE = 64"

definition K512 :: "u64 list" where
  "K512 = concat [
    [0x428a2f98d728ae22, 0x7137449123ef65cd, 0xb5c0fbcfec4d3b2f, 0xe9b5dba58189dbbc],
    [0x3956c25bf348b538, 0x59f111f1b605d019, 0x923f82a4af194f9b, 0xab1c5ed5da6d8118],
    [0xd807aa98a3030242, 0x12835b0145706fbe, 0x243185be4ee4b28c, 0x550c7dc3d5ffb4e2],
    [0x72be5d74f27b896f, 0x80deb1fe3b1696b1, 0x9bdc06a725c71235, 0xc19bf174cf692694],
    [0xe49b69c19ef14ad2, 0xefbe4786384f25e3, 0x0fc19dc68b8cd5b5, 0x240ca1cc77ac9c65],
    [0x2de92c6f592b0275, 0x4a7484aa6ea6e483, 0x5cb0a9dcbd41fbd4, 0x76f988da831153b5],
    [0x983e5152ee66dfab, 0xa831c66d2db43210, 0xb00327c898fb213f, 0xbf597fc7beef0ee4],
    [0xc6e00bf33da88fc2, 0xd5a79147930aa725, 0x06ca6351e003826f, 0x142929670a0e6e70],
    [0x27b70a8546d22ffc, 0x2e1b21385c26c926, 0x4d2c6dfc5ac42aed, 0x53380d139d95b3df],
    [0x650a73548baf63de, 0x766a0abb3c77b2a8, 0x81c2c92e47edaee6, 0x92722c851482353b],
    [0xa2bfe8a14cf10364, 0xa81a664bbc423001, 0xc24b8b70d0f89791, 0xc76c51a30654be30],
    [0xd192e819d6ef5218, 0xd69906245565a910, 0xf40e35855771202a, 0x106aa07032bbd1b8],
    [0x19a4c116b8d2d0c8, 0x1e376c085141ab53, 0x2748774cdf8eeb99, 0x34b0bcb5e19b48a8],
    [0x391c0cb3c5c95a63, 0x4ed8aa4ae3418acb, 0x5b9cca4f7763e373, 0x682e6ff3d6b2b8a3],
    [0x748f82ee5defb2fc, 0x78a5636f43172f60, 0x84c87814a1f0ab72, 0x8cc702081a6439ec],
    [0x90befffa23631e28, 0xa4506cebde82bde9, 0xbef9a3f7b2c67915, 0xc67178f2e372532b],
    [0xca273eceea26619c, 0xd186b8c721c0c207, 0xeada7dd6cde0eb1e, 0xf57d4f7fee6ed178],
    [0x06f067aa72176fba, 0x0a637dc5a2c898a6, 0x113f9804bef90dae, 0x1b710b35131c471b],
    [0x28db77f523047d84, 0x32caab7b40c72493, 0x3c9ebe0a15c9bebc, 0x431d67c49c100d4c],
    [0x4cc5d4becb3e42b6, 0x597f299cfc657e2a, 0x5fcb6fab3ad6faec, 0x6c44198c4a475817]]"

definition sha512_init :: HASH_CONTEXT where
  "sha512_init = \<lparr>buf = replicate MAX_BLOCKSIZE 0,
     state = [0x6a09e667f3bcc908, 0xbb67ae8584caa73b, 0x3c6ef372fe94f82b, 0xa54ff53a5f1d36f1,
       0x510e527fade682d1, 0x9b05688c2b3e6c1f, 0x1f83d9abfb41bd6b, 0x5be0cd19137e2179],
     bytecount = 0\<rparr>"

definition sha512_S0 :: "u64 \<Rightarrow> u64" where
  "sha512_S0 x = ROR64 (ROR64 (ROR64 x 5 XOR x) 6 XOR x) 28"

definition sha512_S1 :: "u64 \<Rightarrow> u64" where
  "sha512_S1 x = ROR64 (ROR64 (ROR64 x 23 XOR x) 4 XOR x) 14"

definition sha512_s0 :: "u64 \<Rightarrow> u64" where
  "sha512_s0 x = ROR64 (ROR64 x 7 XOR x) 1 XOR drop_bit 7 x"

definition sha512_s1 :: "u64 \<Rightarrow> u64" where
  "sha512_s1 x = ROR64 (ROR64 x 42 XOR x) 19 XOR drop_bit 6 x"

text \<open>The macro \<open>R\<close>: the new values of its arguments \<open>d\<close> and \<open>h\<close>; the array is only read.\<close>

definition sha512_R :: "nat \<Rightarrow> u64 \<Rightarrow> u64 \<Rightarrow> u64 \<Rightarrow> u64 \<Rightarrow> u64 \<Rightarrow> u64 \<Rightarrow> u64 \<Rightarrow> u64 \<Rightarrow> u64 list \<Rightarrow> u64 \<times> u64 \<times> u64 list" where
  "sha512_R i a b c d e f g h W =
     (let h = h + (sha512_S1 e + Ch e f g + K512 ! i + W ! i);
          d = d + h;
          h = h + (sha512_S0 a + Ma a b c) in
      (d, h, W))"

text \<open>The first loop: the array is filled from the left, the first sixteen words from the block.\<close>

definition sha512_schedule :: "u8 list \<Rightarrow> u64 list" where
  "sha512_schedule data = foldl (\<lambda>W i.
     W[i := if i < 16 then read_swap64 (drop (8 * i) data)
            else sha512_s1 (W ! (i - 2)) + W ! (i - 7) + sha512_s0 (W ! (i - 15)) + W ! (i - 16)])
     (replicate 80 0) [0..<80]"

text \<open>The body of the second loop.\<close>

definition sha512_RX_8 :: "nat \<Rightarrow> u64 regs8 \<times> u64 list \<Rightarrow> u64 regs8 \<times> u64 list" where
  "sha512_RX_8 i = (\<lambda>((a, b, c, d, e, f, g, h), W).
     let (d, h, W) = sha512_R i a b c d e f g h W;
         (c, g, W) = sha512_R (i + 1) h a b c d e f g W;
         (b, f, W) = sha512_R (i + 2) g h a b c d e f W;
         (a, e, W) = sha512_R (i + 3) f g h a b c d e W;
         (h, d, W) = sha512_R (i + 4) e f g h a b c d W;
         (g, c, W) = sha512_R (i + 5) d e f g h a b c W;
         (f, b, W) = sha512_R (i + 6) c d e f g h a b W;
         (e, a, W) = sha512_R (i + 7) b c d e f g h a W in
     ((a, b, c, d, e, f, g, h), W))"

definition sha512_transform :: transform where
  "sha512_transform st data =
     (let W = sha512_schedule data;
          r = (st ! 0, st ! 1, st ! 2, st ! 3, st ! 4, st ! 5, st ! 6, st ! 7);
          ((a, b, c, d, e, f, g, h), W) =
            foldl (\<lambda>s i. sha512_RX_8 i s) (r, W) [0, 8, 16, 24, 32, 40, 48, 56, 64, 72] in
      [st ! 0 + a, st ! 1 + b, st ! 2 + c, st ! 3 + d, st ! 4 + e, st ! 5 + f, st ! 6 + g, st ! 7 + h])"

definition sha512_write :: "HASH_CONTEXT \<Rightarrow> u8 list \<Rightarrow> HASH_CONTEXT" where
  "sha512_write = block_write SHA512_BLOCKSIZE sha512_transform"

definition sha512_put_bitcount :: "u64 \<Rightarrow> u8 list \<Rightarrow> u8 list" where
  "sha512_put_bitcount count b =
     (let bitcount_lo = push_bit 3 count; bitcount_hi = drop_bit (64 - 3) count in
      put_bitcount (SHA512_BLOCKSIZE - 8) bitcount_hi (put_bitcount SHA512_BLOCKSIZE bitcount_lo b))"

definition sha512_final :: "HASH_CONTEXT \<Rightarrow> HASH_CONTEXT option" where
  "sha512_final = block_final SHA512_BLOCKSIZE (SHA512_BLOCKSIZE - 2 * 8) sha512_transform
     sha512_put_bitcount (write_words 8 be64_bytes 8)"

section \<open>The standard\<close>

definition Sigma0_512 :: "u64 \<Rightarrow> u64" where
  "Sigma0_512 x = ROR64 x 28 XOR ROR64 x 34 XOR ROR64 x 39"

definition Sigma1_512 :: "u64 \<Rightarrow> u64" where
  "Sigma1_512 x = ROR64 x 14 XOR ROR64 x 18 XOR ROR64 x 41"

definition sigma0_512 :: "u64 \<Rightarrow> u64" where
  "sigma0_512 x = ROR64 x 1 XOR ROR64 x 8 XOR drop_bit 7 x"

definition sigma1_512 :: "u64 \<Rightarrow> u64" where
  "sigma1_512 x = ROR64 x 19 XOR ROR64 x 61 XOR drop_bit 6 x"

fun W512 :: "u64 list \<Rightarrow> nat \<Rightarrow> u64" where
  "W512 m t = (if t < 16 then m ! t
     else sigma1_512 (W512 m (t - 2)) + W512 m (t - 7) + sigma0_512 (W512 m (t - 15)) + W512 m (t - 16))"

declare W512.simps [simp del]

fun round512 :: "u64 \<Rightarrow> u64 \<Rightarrow> u64 regs8 \<Rightarrow> u64 regs8" where
  "round512 k w (a, b, c, d, e, f, g, h) =
     (let T1 = h + Sigma1_512 e + ((e AND f) XOR (NOT e AND g)) + k + w;
          T2 = Sigma0_512 a + ((a AND b) XOR (a AND c) XOR (b AND c)) in
      (T1 + T2, a, b, c, d + T1, e, f, g))"

definition step512 :: "(nat \<Rightarrow> u64) \<Rightarrow> nat \<Rightarrow> u64 regs8 \<Rightarrow> u64 regs8" where
  "step512 W t = round512 (K512 ! t) (W t)"

definition compress512 :: "u64 list \<Rightarrow> u8 list \<Rightarrow> u64 list" where
  "compress512 H data =
     (case rounds (step512 (W512 (map (\<lambda>k. read_swap64 (drop (8 * k) data)) [0..<16]))) 80 0
        (H ! 0, H ! 1, H ! 2, H ! 3, H ! 4, H ! 5, H ! 6, H ! 7) of
      (a, b, c, d, e, f, g, h) \<Rightarrow>
        [H ! 0 + a, H ! 1 + b, H ! 2 + c, H ! 3 + d, H ! 4 + e, H ! 5 + f, H ! 6 + g, H ! 7 + h])"

text \<open>The message length in bits, as a 128-bit number.\<close>

definition be128_bytes :: "nat \<Rightarrow> u8 list" where
  "be128_bytes n = be64_bytes (of_nat (n div 2 ^ 64)) @ be64_bytes (of_nat n)"

definition H0_512 :: "u64 list" where
  "H0_512 = [0x6a09e667f3bcc908, 0xbb67ae8584caa73b, 0x3c6ef372fe94f82b, 0xa54ff53a5f1d36f1,
     0x510e527fade682d1, 0x9b05688c2b3e6c1f, 0x1f83d9abfb41bd6b, 0x5be0cd19137e2179]"

definition SHA512 :: "u8 list \<Rightarrow> u8 list" where
  "SHA512 m = concat (map be64_bytes
     (foldl compress512 H0_512 (chunks 128 (padded 128 112 (\<lambda>n. be128_bytes (8 * n)) m))))"

section \<open>The functions of the standard\<close>

lemma sha512_S0: "sha512_S0 x = Sigma0_512 x"
  by (simp add: sha512_S0_def Sigma0_512_def ROR64_xor ROR64_ROR64 xor.assoc xor.commute xor.left_commute)

lemma sha512_S1: "sha512_S1 x = Sigma1_512 x"
  by (simp add: sha512_S1_def Sigma1_512_def ROR64_xor ROR64_ROR64 xor.assoc xor.commute xor.left_commute)

lemma sha512_s0: "sha512_s0 x = sigma0_512 x"
  by (simp add: sha512_s0_def sigma0_512_def ROR64_xor ROR64_ROR64 xor.assoc xor.commute xor.left_commute)

lemma sha512_s1: "sha512_s1 x = sigma1_512 x"
  by (simp add: sha512_s1_def sigma1_512_def ROR64_xor ROR64_ROR64 xor.assoc xor.commute xor.left_commute)

lemma sha512_schedule_prefix:
  assumes "n \<le> 80"
  shows "let V = foldl (\<lambda>W i.
      W[i := if i < 16 then read_swap64 (drop (8 * i) data)
             else sha512_s1 (W ! (i - 2)) + W ! (i - 7) + sha512_s0 (W ! (i - 15)) + W ! (i - 16)]) (replicate 80 0) [0..<n] in
    length V = 80 \<and> (\<forall>i<n. V ! i = W512 (map (\<lambda>k. read_swap64 (drop (8 * k) data)) [0..<16]) i)"
  using assms
proof (induction n)
  case (Suc n)
  then show ?case by (auto simp: Let_def less_Suc_eq sha512_s0 sha512_s1 W512.simps [of _ n])
qed simp

lemma sha512_schedule_nth:
  "i < 80 \<Longrightarrow> sha512_schedule data ! i = W512 (map (\<lambda>k. read_swap64 (drop (8 * k) data)) [0..<16]) i"
  using sha512_schedule_prefix [of 80 data] by (simp add: sha512_schedule_def Let_def)

section \<open>The rounds\<close>

interpretation r512: sha2_round sha512_R "\<lambda>m. step512 ((!) m)" "\<lambda>m _ W. W = m"
proof
  show "\<exists>d' h' x'. sha512_R t a b c d e f g h x = (d', h', x') \<and> x' = m \<and>
      step512 ((!) m) t (a, b, c, d, e, f, g, h) = (h', a, b, c, d', e, f, g)"
    if "x = m" for m x t a b c d e f g h
    using that by (simp add: sha512_R_def step512_def Let_def Ch_spec Ma_spec sha512_S0 sha512_S1 add_ac)
qed

lemma sha512_RX_8_eight: "sha512_RX_8 = r512.eight"
  by (intro ext) (simp add: sha512_RX_8_def r512.eight_def)

lemma sha512_loop:
  "foldl (\<lambda>s i. sha512_RX_8 i s) (r, W) [0, 8, 16, 24, 32, 40, 48, 56, 64, 72] = (rounds (step512 ((!) W)) 80 0 r, W)"
  using r512.eights_rounds [of W W 0 r 10] by (simp add: sha512_RX_8_eight upt_rec)

lemma rounds_cong:
  "(\<And>u. t \<le> u \<Longrightarrow> u < t + n \<Longrightarrow> f u = g u) \<Longrightarrow> rounds f n t r = rounds g n t r"
  by (induction n arbitrary: t r) simp_all

lemma sha512_transform_compress:
  assumes "length st = 8"
  shows "sha512_transform st data = compress512 st data"
proof -
  have "rounds (step512 ((!) (sha512_schedule data))) 80 0 r =
      rounds (step512 (W512 (map (\<lambda>k. read_swap64 (drop (8 * k) data)) [0..<16]))) 80 0 r" for r
    by (rule rounds_cong) (simp add: step512_def sha512_schedule_nth)
  then show ?thesis
    unfolding sha512_transform_def compress512_def Let_def sha512_loop by (simp split: prod.splits)
qed

lemma sha512_blocks:
  "length st = 8 \<Longrightarrow> foldl sha512_transform st bs = foldl compress512 st bs \<and> length (foldl compress512 st bs) = 8"
proof (induction bs arbitrary: st)
  case (Cons b bs)
  have "length (compress512 st b) = 8" by (auto simp: compress512_def split: prod.splits)
  then show ?case using Cons by (simp add: sha512_transform_compress)
qed simp

section \<open>The digest\<close>

lemma memcpy_at_memcpy_at:
  "off + length xs + length ys \<le> length b \<Longrightarrow> memcpy_at off xs (memcpy_at (off + length xs) ys b) = memcpy_at off (xs @ ys) b"
  by (simp add: memcpy_at_def add.assoc)

lemma sha512_put_bitcount:
  assumes "128 \<le> length b"
  shows "sha512_put_bitcount w b = memcpy_at 112 (be64_bytes (drop_bit 61 w) @ be64_bytes (push_bit 3 w)) b"
  using assms memcpy_at_memcpy_at [of 112 "be64_bytes (drop_bit 61 w)" "be64_bytes (push_bit 3 w)" b]
  by (simp add: sha512_put_bitcount_def SHA512_BLOCKSIZE_def put_bitcount Let_def)

lemma sha512_length_bytes:
  assumes "n < 2 ^ 64"
  shows "be64_bytes (drop_bit 61 (of_nat n)) @ be64_bytes (push_bit 3 (of_nat n)) = be128_bytes (8 * n)"
proof -
  have "unat (of_nat n :: u64) = n" using assms by (simp add: unat_of_nat)
  then have "drop_bit 61 (of_nat n :: u64) = of_nat (n div 2 ^ 61)"
    by (metis drop_bit_eq_div unat_drop_bit_eq of_nat_unat ucast_id)
  moreover have "8 * n div 2 ^ 64 = n div 2 ^ 61" by simp
  ultimately show ?thesis by (simp only: be128_bytes_def push_bit_3_of_nat)
qed

interpretation sha512: message_digest "absorbed SHA512_BLOCKSIZE sha512_transform (state sha512_init)"
  sha512_init sha512_write sha512_final SHA512_HASHSIZE SHA512
proof
  show "absorbed SHA512_BLOCKSIZE sha512_transform (state sha512_init) sha512_init []"
    by (simp add: absorbed_def sha512_init_def SHA512_BLOCKSIZE_def)
  show "absorbed SHA512_BLOCKSIZE sha512_transform (state sha512_init) (sha512_write ctx d) (m @ d)"
    if "absorbed SHA512_BLOCKSIZE sha512_transform (state sha512_init) ctx m" for ctx m d
    using that block_write_absorbed block_size_128 by (simp add: sha512_write_def SHA512_BLOCKSIZE_def)
  show "\<exists>ctx'. sha512_final ctx = Some ctx' \<and> take SHA512_HASHSIZE (buf ctx') = SHA512 m"
    if a: "absorbed SHA512_BLOCKSIZE sha512_transform (state sha512_init) ctx m" and n: "length m < 2 ^ 64" for ctx m
  proof -
    have init: "state sha512_init = H0_512" "length H0_512 = 8" by (simp_all add: sha512_init_def H0_512_def)
    let ?lb = "\<lambda>w. be64_bytes (drop_bit 61 w) @ be64_bytes (push_bit 3 w)"
    let ?st = "foldl sha512_transform (state sha512_init) (chunks 128 (padded 128 112 (\<lambda>n. ?lb (of_nat n)) m))"
    have "padded 128 112 (\<lambda>n. ?lb (of_nat n)) m = padded 128 112 (\<lambda>n. be128_bytes (8 * n)) m"
      using sha512_length_bytes [OF n] by (simp add: padded_def)
    then have st: "concat (map be64_bytes ?st) = SHA512 m" "length ?st = 8"
      using sha512_blocks [of H0_512] by (simp_all add: init SHA512_def)
    have "\<exists>c'. block_final 128 112 sha512_transform sha512_put_bitcount (write_words 8 be64_bytes 8) ctx = Some c' \<and>
        take (8 * 8) (buf c') = words_bytes be64_bytes 8 ?st"
      by (rule block_final_words [OF block_size_128 _ _ a [unfolded SHA512_BLOCKSIZE_def]])
        (simp_all add: sha512_put_bitcount MAX_BLOCKSIZE_def)
    then show ?thesis using st words_bytes_map [OF st(2)] by (simp add: sha512_final_def SHA512_BLOCKSIZE_def SHA512_HASHSIZE_def)
  qed
qed

end
