(* ===== verification/Hash_Api.thy ===== *)
theory Hash_Api
  imports Md5 Sha1 Sha256 Sha512
begin

text \<open>
  The users of the four digests (\<open>src/src/hash.c\<close>): the tables indexed by the hash type,
  \<open>HashBuffer\<close> and \<open>HashFile\<close>, the hexadecimal form of a digest and its reader
  \<open>StringToHash\<close>, and the lookups in the database of known hashes.

  The parameter \<open>after\<close> is the memory behind the source buffer of a write (see theory \<open>Md5\<close>). A
  function that returns \<open>FALSE\<close> gives \<open>None\<close>.
\<close>

section \<open>The tables\<close>

type_synonym memory_after = "HASH_CONTEXT \<Rightarrow> u8 list \<Rightarrow> u8 list"

definition HASH_MAX :: nat where
  "HASH_MAX = 4"

definition hash_init :: "HASH_CONTEXT list" where
  "hash_init = [md5_init, sha1_init, sha256_init, sha512_init]"

definition hash_write :: "memory_after \<Rightarrow> (HASH_CONTEXT \<Rightarrow> u8 list \<Rightarrow> HASH_CONTEXT) list" where
  "hash_write after = [\<lambda>ctx d. md5_write (after ctx d) ctx d, sha1_write, sha256_write, sha512_write]"

definition hash_final :: "(HASH_CONTEXT \<Rightarrow> HASH_CONTEXT option) list" where
  "hash_final = [md5_final, sha1_final, sha256_final, sha512_final]"

definition hash_count :: "nat list" where
  "hash_count = [MD5_HASHSIZE, SHA1_HASHSIZE, SHA256_HASHSIZE, SHA512_HASHSIZE]"

text \<open>The standards the entries implement.\<close>

definition hash_standard :: "(u8 list \<Rightarrow> u8 list) list" where
  "hash_standard = [MD5, SHA1, SHA256, SHA512]"

definition hash_taken :: "nat \<Rightarrow> HASH_CONTEXT \<Rightarrow> u8 list \<Rightarrow> bool" where
  "hash_taken type = [absorbed 64 md5_transform (state md5_init),
     absorbed SHA1_BLOCKSIZE sha1_transform (state sha1_init),
     absorbed SHA256_BLOCKSIZE sha256_transform (state sha256_init),
     absorbed SHA512_BLOCKSIZE sha512_transform (state sha512_init)] ! type"

lemma hash_type_cases:
  assumes "type < HASH_MAX"
  obtains "type = 0" | "type = 1" | "type = 2" | "type = 3"
  using assms unfolding HASH_MAX_def by linarith

lemma message_digest_table:
  assumes "type < HASH_MAX"
  shows "message_digest (hash_taken type) (hash_init ! type) (hash_write after ! type) (hash_final ! type)
    (hash_count ! type) (hash_standard ! type)"
  using assms
proof (cases rule: hash_type_cases)
  case 1
  then show ?thesis using md5.message_digest_axioms
    by (simp add: hash_taken_def hash_init_def hash_write_def hash_final_def hash_count_def hash_standard_def)
next
  case 2
  then show ?thesis using sha1.message_digest_axioms
    by (simp add: hash_taken_def hash_init_def hash_write_def hash_final_def hash_count_def hash_standard_def)
next
  case 3
  then show ?thesis using sha256.message_digest_axioms
    by (simp add: hash_taken_def hash_init_def hash_write_def hash_final_def hash_count_def hash_standard_def)
next
  case 4
  then show ?thesis using sha512.message_digest_axioms
    by (simp add: hash_taken_def hash_init_def hash_write_def hash_final_def hash_count_def hash_standard_def)
qed

lemma length_foldl: "length h = n \<Longrightarrow> (\<And>h b. length (f h b) = n) \<Longrightarrow> length (foldl f h bs) = n"
  by (induction bs arbitrary: h) auto

lemma length_words: "(\<And>w. length (f w) = k) \<Longrightarrow> length (concat (map f ws)) = k * length ws"
  by (induction ws) auto

lemma length_standard:
  assumes "type < HASH_MAX"
  shows "length ((hash_standard ! type) m) = hash_count ! type"
proof -
  have "length (compress5 h b) = 4" for h b by (simp add: compress5_def split: prod.split)
  then have 1: "length (MD5 m) = 16"
    using length_foldl [of H0_5 4 compress5] by (simp add: MD5_def length_words [where k = 4] H0_5_def)
  have "length (compress1 h b) = 5" for h b by (simp add: compress1_def split: prod.split)
  then have 2: "length (SHA1 m) = 20"
    using length_foldl [of H0_1 5 compress1] by (simp add: SHA1_def length_words [where k = 4] H0_1_def)
  have "length (compress256 h b) = 8" for h b by (simp add: compress256_def split: prod.split)
  then have 3: "length (SHA256 m) = 32"
    using length_foldl [of H0_256 8 compress256] by (simp add: SHA256_def length_words [where k = 4] H0_256_def)
  have "length (compress512 h b) = 8" for h b by (simp add: compress512_def split: prod.split)
  then have 4: "length (SHA512 m) = 64"
    using length_foldl [of H0_512 8 compress512] by (simp add: SHA512_def length_words [where k = 8] H0_512_def)
  from assms show ?thesis
    by (cases rule: hash_type_cases) (simp_all add: 1 2 3 4 hash_standard_def hash_count_def MD5_HASHSIZE_def SHA1_HASHSIZE_def
        SHA256_HASHSIZE_def SHA512_HASHSIZE_def)
qed

lemma hash_count_le: "type < HASH_MAX \<Longrightarrow> hash_count ! type \<le> 64"
  by (erule hash_type_cases)
    (simp_all add: hash_count_def MD5_HASHSIZE_def SHA1_HASHSIZE_def SHA256_HASHSIZE_def SHA512_HASHSIZE_def)

text \<open>Whatever pieces the bytes come in, the table entry gives the digest of all of them.\<close>

lemma table_digest:
  assumes "type < HASH_MAX" "length (concat ds) < 2 ^ 64"
  shows "\<exists>ctx'. (hash_final ! type) (foldl (hash_write after ! type) (hash_init ! type) ds) = Some ctx' \<and>
    take (hash_count ! type) (buf ctx') = (hash_standard ! type) (concat ds)"
  by (rule message_digest.digest_of_pieces [OF message_digest_table [OF assms(1)] assms(2)])

section \<open>Hashing a buffer and a file\<close>

text \<open>\<open>hash_null\<close> says that the caller gave no place for the result.\<close>

definition HashBuffer :: "memory_after \<Rightarrow> nat \<Rightarrow> u8 list \<Rightarrow> bool \<Rightarrow> u8 list option" where
  "HashBuffer after type buffer hash_null =
     (if type \<ge> HASH_MAX \<or> hash_null then None
      else
        let ctx = hash_init ! type;
            ctx = (hash_write after ! type) ctx buffer in
        do { ctx \<leftarrow> (hash_final ! type) ctx; Some (take (hash_count ! type) (buf ctx)) })"

text \<open>
  What the system does during one round of the read loop of \<open>HashFile\<close>: the user has cancelled, the
  read fails, or it delivers bytes, none at the end of the file. A system that has nothing to say
  yet leaves the function waiting.
\<close>

datatype read_event = Cancelled | ReadFailed | ReadBytes "u8 list"

datatype file_error = INVALID_ARGUMENT | ERROR_OPEN_FAILED | ERROR_READ_FAULT | ERROR_CANCELLED

datatype 'a outcome = Waiting | FALSE file_error | TRUE 'a

fun hash_file_loop :: "memory_after \<Rightarrow> nat \<Rightarrow> HASH_CONTEXT \<Rightarrow> read_event list \<Rightarrow> HASH_CONTEXT outcome" where
  "hash_file_loop after type ctx [] = Waiting"
| "hash_file_loop after type ctx (Cancelled # es) = FALSE ERROR_CANCELLED"
| "hash_file_loop after type ctx (ReadFailed # es) = FALSE ERROR_READ_FAULT"
| "hash_file_loop after type ctx (ReadBytes d # es) =
     (if d = [] then TRUE ctx else hash_file_loop after type ((hash_write after ! type) ctx d) es)"

definition HashFile :: "memory_after \<Rightarrow> nat \<Rightarrow> bool \<Rightarrow> bool \<Rightarrow> bool \<Rightarrow> read_event list \<Rightarrow> u8 list outcome" where
  "HashFile after type path_null hash_null opens es =
     (if type \<ge> HASH_MAX \<or> path_null \<or> hash_null then FALSE INVALID_ARGUMENT
      else if \<not> opens then FALSE ERROR_OPEN_FAILED
      else (case hash_file_loop after type (hash_init ! type) es of
          Waiting \<Rightarrow> Waiting
        | FALSE e \<Rightarrow> FALSE e
        | TRUE ctx \<Rightarrow>
            (case (hash_final ! type) ctx of None \<Rightarrow> Waiting | Some ctx \<Rightarrow> TRUE (take (hash_count ! type) (buf ctx)))))"

lemma hash_file_loop_prefix:
  "[] \<notin> set ds \<Longrightarrow> hash_file_loop after type ctx (map ReadBytes ds @ es) =
     hash_file_loop after type (foldl (hash_write after ! type) ctx ds) es"
  by (induction ds arbitrary: ctx) auto

text \<open>C14. Whatever pieces a buffer or a file is delivered in, the entry of each hash type gives the digest
  of the standard (MD5, SHA-1, SHA-256 and SHA-512) of all the bytes; in particular the bytes that
  lie behind the caller's buffers do not matter.\<close>

theorem digests_of_pieces:
  assumes "type < HASH_MAX" "length (concat ds) < 2 ^ 64"
  shows "map_option (\<lambda>ctx. take (hash_count ! type) (buf ctx))
      ((hash_final ! type) (foldl (hash_write after ! type) (hash_init ! type) ds)) =
    Some (([MD5, SHA1, SHA256, SHA512] ! type) (concat ds))"
  using table_digest [OF assms, of after] by (auto simp: hash_standard_def)

theorem digests_of_pieces_witness:
  "map_option (\<lambda>ctx. take 16 (buf ctx))
      (md5_final (md5_write [] (md5_write [0xff, 0xff] md5_init [0x61]) [0x62, 0x63])) = Some (MD5 [0x61, 0x62, 0x63])"
  using digests_of_pieces [of 0 "[[0x61], [0x62, 0x63]]" "\<lambda>_ d. if d = [0x61] then [0xff, 0xff] else []"]
  by (simp add: HASH_MAX_def hash_count_def MD5_HASHSIZE_def hash_final_def hash_write_def hash_init_def)

text \<open>\<open>HashBuffer\<close> succeeds exactly when the type is known and there is a place for the result,
  and then the result is the digest of the buffer.\<close>

theorem HashBuffer_digest:
  assumes "length d < 2 ^ 64"
  shows "HashBuffer after type d hash_null =
    (if type < HASH_MAX \<and> \<not> hash_null then Some ((hash_standard ! type) d) else None)"
proof (cases "type < HASH_MAX")
  case True
  then show ?thesis using table_digest [OF True, of "[d]" after] assms by (auto simp: HashBuffer_def)
qed (simp add: HashBuffer_def)

theorem HashBuffer_digest_witness: "HashBuffer (\<lambda>_ _. []) 2 [0x61, 0x62, 0x63] False = Some (SHA256 [0x61, 0x62, 0x63])"
  using HashBuffer_digest [of "[0x61, 0x62, 0x63]" "\<lambda>_ _. []" 2 False] by (simp add: HASH_MAX_def hash_standard_def)

text \<open>C16. \<open>HashFile\<close> after any number of reads that delivered bytes: it goes on waiting, or the user
  cancelled, or a read failed, each with its error status, or the end of the file was reached and the
  result is the digest of everything that was read.\<close>

theorem HashFile_digest:
  assumes "type < HASH_MAX" "[] \<notin> set ds" "length (concat ds) < 2 ^ 64"
  shows "HashFile after type False False True (map ReadBytes ds) = Waiting \<and>
    HashFile after type False False True (map ReadBytes ds @ Cancelled # es) = FALSE ERROR_CANCELLED \<and>
    HashFile after type False False True (map ReadBytes ds @ ReadFailed # es) = FALSE ERROR_READ_FAULT \<and>
    HashFile after type False False True (map ReadBytes ds @ ReadBytes [] # es) = TRUE ((hash_standard ! type) (concat ds))"
proof -
  note loop = hash_file_loop_prefix [OF assms(2), where after = after and type = type and ctx = "hash_init ! type"]
  show ?thesis using loop loop [of "[]"] table_digest [OF assms(1,3), of after] assms(1) by (auto simp: HashFile_def)
qed

theorem HashFile_digest_witness:
  "HashFile (\<lambda>_ _. []) 1 False False True [ReadBytes [0x61], ReadBytes [0x62], ReadBytes []] = TRUE (SHA1 [0x61, 0x62])"
  using HashFile_digest [of 1 "[[0x61], [0x62]]" "\<lambda>_ _. []" "[]"] by (simp add: HASH_MAX_def hash_standard_def)

section \<open>Hexadecimal digests\<close>

text \<open>The two characters of a byte, as the hash threads write them, and the row of \<open>hash_str\<close>.\<close>

definition hex_char :: "u8 \<Rightarrow> u8" where
  "hex_char v = (if v < 10 then v + 0x30 else v - 0xa + 0x61)"

definition hash_string :: "nat \<Rightarrow> u8 list \<Rightarrow> u8 list" where
  "hash_string count b =
     (foldl (\<lambda>s j. s[2 * j := hex_char (drop_bit 4 (b ! j)), 2 * j + 1 := hex_char (b ! j AND 15)])
        (replicate 150 0) [0..<count])[2 * count := 0]"

definition tolower :: "u8 \<Rightarrow> u8" where
  "tolower c = (if 0x41 \<le> c \<and> c \<le> 0x5a then c + 0x20 else c)"

definition MAX_HASHSIZE :: nat where
  "MAX_HASHSIZE = SHA512_HASHSIZE"

text \<open>The loop of \<open>StringToHash\<close>: the value, the array and the position.\<close>

fun string_to_hash_loop :: "nat \<Rightarrow> u8 \<Rightarrow> u8 list \<Rightarrow> u8 list \<Rightarrow> u8 list option" where
  "string_to_hash_loop i val ret [] = Some ret"
| "string_to_hash_loop i val ret (ch # s) =
     (let val = push_bit 4 val; c = tolower ch in
      if \<not> ((0x30 \<le> c \<and> c \<le> 0x39) \<or> (0x61 \<le> c \<and> c \<le> 0x66)) then None
      else
        let val = val OR (if c - 0x30 < 0xa then c - 0x30 else c - 0x61 + 0xa) in
        string_to_hash_loop (i + 1) val (if i mod 2 \<noteq> 0 then ret[i div 2 := val] else ret) s)"

definition StringToHash :: "u8 list \<Rightarrow> u8 list option" where
  "StringToHash str =
     (if length str div 2 \<in> {MD5_HASHSIZE, SHA1_HASHSIZE, SHA256_HASHSIZE, SHA512_HASHSIZE}
      then string_to_hash_loop 0 0 (replicate MAX_HASHSIZE 0) str else None)"

definition hex_pair :: "u8 \<Rightarrow> u8 list" where
  "hex_pair v = [hex_char (drop_bit 4 v), hex_char (v AND 15)]"

lemma hash_string_prefix:
  assumes "2 * count < 150" "count \<le> length b"
  shows "let s = foldl (\<lambda>s j. s[2 * j := hex_char (drop_bit 4 (b ! j)), 2 * j + 1 := hex_char (b ! j AND 15)])
      (replicate 150 0) [0..<count] in
    length s = 150 \<and> take (2 * count) s = concat (map hex_pair (take count b))"
  using assms
proof (induction count)
  case (Suc n)
  then show ?case
    by (simp add: Let_def take_Suc_conv_app_nth hex_pair_def)
qed simp

text \<open>Reading back one character, over the sixteen values.\<close>

definition hex_ok :: "u8 \<Rightarrow> bool" where
  "hex_ok v \<longleftrightarrow> (let c = tolower (hex_char v) in hex_char v \<noteq> 0 \<and> ((0x30 \<le> c \<and> c \<le> 0x39) \<or> (0x61 \<le> c \<and> c \<le> 0x66)) \<and>
     (if c - 0x30 < 0xa then c - 0x30 else c - 0x61 + 0xa) = v)"

lemma hex_ok_nibble: "v < 16 \<Longrightarrow> hex_ok v"
proof -
  assume "v < 16"
  then have "unat v < 16" by (simp add: word_less_nat_alt)
  moreover have "\<forall>n \<in> set [0..<16]. hex_ok (of_nat n)" by code_simp
  ultimately have "hex_ok (of_nat (unat v))" by (metis atLeastLessThan_upt atLeastLessThan_iff zero_le)
  then show ?thesis by simp
qed

lemma nibbles: "(drop_bit 4 v :: u8) < 16" "v AND 15 < (16 :: u8)"
proof -
  have "(2 :: nat) ^ LENGTH(8) = 16 * 16" by simp
  then have "unat v < 16 * 16" by (metis unsigned_less)
  then have "unat v div 16 < 16" by (rule less_mult_imp_div_less)
  then show "drop_bit 4 v < (16 :: u8)" by (simp add: word_less_nat_alt drop_bit_eq_div unat_div_distrib)
  have "v AND 15 = take_bit 4 v" by (simp add: take_bit_eq_mask mask_eq_exp_minus_1)
  then show "v AND 15 < (16 :: u8)" by (simp add: word_less_nat_alt take_bit_eq_mod unat_mod_distrib)
qed

lemma join_nibbles: "push_bit 4 (push_bit 4 val OR drop_bit 4 v) OR (v AND 15) = (v :: u8)"
proof (rule bit_word_eqI)
  fix n assume "n < LENGTH(8)"
  moreover have "bit (15 :: u8) n = (n < 4)" if "n < 8"
    using bit_mask_iff [of 4 n, where 'a = u8] that by (simp add: mask_eq_exp_minus_1)
  ultimately show "bit (push_bit 4 (push_bit 4 val OR drop_bit 4 v) OR (v AND 15)) n = bit v n"
    by (auto simp: bit_simps)
qed

lemma string_to_hash_char:
  assumes "v < 16"
  shows "string_to_hash_loop i val ret (hex_char v # s) =
    string_to_hash_loop (i + 1) (push_bit 4 val OR v) (if i mod 2 \<noteq> 0 then ret[i div 2 := push_bit 4 val OR v] else ret) s"
  using hex_ok_nibble [OF assms] by (auto simp: hex_ok_def Let_def)

lemma string_to_hash_pair:
  "string_to_hash_loop (2 * k) val ret (hex_pair v @ s) = string_to_hash_loop (2 * k + 2) v (ret[k := v]) s"
proof -
  have "string_to_hash_loop (2 * k) val ret (hex_pair v @ s) =
      string_to_hash_loop (2 * k + 1) (push_bit 4 val OR drop_bit 4 v) ret (hex_char (v AND 15) # s)"
    unfolding hex_pair_def append_Cons append_Nil by (subst string_to_hash_char [OF nibbles(1)]) simp
  also have "\<dots> = string_to_hash_loop (2 * k + 1 + 1) v (ret[k := v]) s"
    by (subst string_to_hash_char [OF nibbles(2)], unfold join_nibbles) simp
  finally show ?thesis by simp
qed

lemma string_to_hash_pairs:
  "k + length d \<le> length ret \<Longrightarrow>
    string_to_hash_loop (2 * k) val ret (concat (map hex_pair d)) = Some (memcpy_at k d ret)"
proof (induction d arbitrary: k val ret)
  case (Cons v d)
  then show ?case
    using string_to_hash_pair [of k val ret v "concat (map hex_pair d)"] Cons.IH [of "k + 1" "ret[k := v]" v]
      memcpy_at_Cons [of k ret d v] by simp
qed simp

lemma hex_pairs_nonzero: "0 \<notin> set (concat (map hex_pair d))"
  using hex_ok_nibble [OF nibbles(1)] hex_ok_nibble [OF nibbles(2)] by (auto simp: hex_pair_def hex_ok_def Let_def)

lemma length_hex_pairs [simp]: "length (concat (map hex_pair d)) = 2 * length d"
  by (induction d) (simp_all add: hex_pair_def)

lemma hash_string_c_string:
  assumes "2 * count < 150" "count \<le> length b"
  shows "takeWhile (\<lambda>c. c \<noteq> 0) (hash_string count b) = concat (map hex_pair (take count b)) \<and> length (hash_string count b) = 150"
proof -
  define s where "s = foldl (\<lambda>s j. s[2 * j := hex_char (drop_bit 4 (b ! j)), 2 * j + 1 := hex_char (b ! j AND 15)])
      (replicate 150 0) [0..<count]"
  have s: "length s = 150" "take (2 * count) s = concat (map hex_pair (take count b))"
    using hash_string_prefix [OF assms] by (simp_all add: s_def Let_def)
  have "s[2 * count := 0] = concat (map hex_pair (take count b)) @ 0 # drop (2 * count + 1) s"
    using s assms(1) by (simp add: upd_conv_take_nth_drop)
  moreover have "takeWhile (\<lambda>c. c \<noteq> 0) (concat (map hex_pair (take count b)) @ 0 # drop (2 * count + 1) s) =
      concat (map hex_pair (take count b))"
    using hex_pairs_nonzero [of "take count b"] by (simp add: takeWhile_append)
  ultimately show ?thesis using s(1) unfolding hash_string_def s_def [symmetric] by (metis length_list_update)
qed

text \<open>C15. Round trip: the hexadecimal string a hash thread shows for a digest of any of the four sizes
  fits its row, and reading it back with \<open>StringToHash\<close> gives the digest, padded with zeros to the
  largest size.\<close>

theorem StringToHash_hash_string:
  assumes "length d \<in> {16, 20, 32, 64}"
  shows "length (hash_string (length d) d) = 150 \<and>
    StringToHash (takeWhile (\<lambda>c. c \<noteq> 0) (hash_string (length d) d)) = Some (d @ replicate (64 - length d) 0)"
proof -
  have "StringToHash (concat (map hex_pair d)) = Some (memcpy_at 0 d (replicate 64 0))"
    using assms string_to_hash_pairs [of 0 d "replicate 64 0" 0]
    by (auto simp: StringToHash_def MAX_HASHSIZE_def MD5_HASHSIZE_def SHA1_HASHSIZE_def SHA256_HASHSIZE_def SHA512_HASHSIZE_def)
  then show ?thesis using assms hash_string_c_string [of "length d" d] by (auto simp: memcpy_at_def)
qed

theorem StringToHash_hash_string_witness:
  "StringToHash (takeWhile (\<lambda>c. c \<noteq> 0) (hash_string 16 (replicate 15 0xab @ [0x0c]))) =
     Some (replicate 15 0xab @ [0x0c] @ replicate 48 0)"
  using StringToHash_hash_string [of "replicate 15 0xab @ [0x0c]"] by simp

section \<open>The hash database\<close>

text \<open>The loop over the concatenated entries of the database.\<close>

function hash_in_db :: "u8 list \<Rightarrow> u8 list \<Rightarrow> bool" where
  "hash_in_db hash db =
     (if db = [] then False
      else if hash = take SHA256_HASHSIZE db then True
      else hash_in_db hash (drop SHA256_HASHSIZE db))"
  by pat_completeness auto
termination
  by (relation "measure (\<lambda>(_, db). length db)") (auto simp: SHA256_HASHSIZE_def)

declare hash_in_db.simps [simp del]

definition IsBufferInDB :: "memory_after \<Rightarrow> u8 list \<Rightarrow> u8 list \<Rightarrow> bool" where
  "IsBufferInDB after sha256db d =
     (case HashBuffer after 2 d False of None \<Rightarrow> False | Some hash \<Rightarrow> hash_in_db hash sha256db)"

definition IsFileInDB :: "memory_after \<Rightarrow> u8 list \<Rightarrow> bool \<Rightarrow> bool \<Rightarrow> read_event list \<Rightarrow> bool outcome" where
  "IsFileInDB after sha256db path_null opens es =
     (case HashFile after 2 path_null False opens es of
        Waiting \<Rightarrow> Waiting | FALSE e \<Rightarrow> TRUE False | TRUE hash \<Rightarrow> TRUE (hash_in_db hash sha256db))"

text \<open>The comparison with a string: \<open>None\<close> is the use of the null pointer \<open>StringToHash\<close> returns
  for a string that is not a digest.\<close>

definition BufferMatchesHash :: "memory_after \<Rightarrow> u8 list \<Rightarrow> u8 list \<Rightarrow> bool option" where
  "BufferMatchesHash after d str =
     (case HashBuffer after 2 d False of None \<Rightarrow> Some False
      | Some hash \<Rightarrow> map_option (\<lambda>h. hash = take SHA256_HASHSIZE h) (StringToHash str))"

definition FileMatchesHash :: "memory_after \<Rightarrow> bool \<Rightarrow> bool \<Rightarrow> read_event list \<Rightarrow> u8 list \<Rightarrow> bool option outcome" where
  "FileMatchesHash after path_null opens es str =
     (case HashFile after 2 path_null False opens es of
        Waiting \<Rightarrow> Waiting | FALSE e \<Rightarrow> TRUE (Some False)
      | TRUE hash \<Rightarrow> TRUE (map_option (\<lambda>h. hash = take SHA256_HASHSIZE h) (StringToHash str)))"

lemma hash_in_db_chunks: "hash_in_db h db \<longleftrightarrow> h \<in> set (chunks SHA256_HASHSIZE db)"
proof (induction h db rule: hash_in_db.induct)
  case (1 h db)
  then show ?case by (subst hash_in_db.simps, subst chunks.simps) (auto simp: SHA256_HASHSIZE_def)
qed

text \<open>A buffer is found in the database exactly when its SHA-256 is one of the entries, and a
  buffer matches the hexadecimal form of a SHA-256 digest exactly when that is its digest.\<close>

theorem buffer_database_and_match:
  assumes "length d < 2 ^ 64"
  shows "(IsBufferInDB after db d \<longleftrightarrow> SHA256 d \<in> set (chunks 32 db)) \<and>
    (length h = 32 \<longrightarrow> BufferMatchesHash after d (takeWhile (\<lambda>c. c \<noteq> 0) (hash_string 32 h)) = Some (SHA256 d = h))"
proof -
  have h: "HashBuffer after 2 d False = Some (SHA256 d)"
    using table_digest [of 2 "[d]" after] assms by (auto simp: HashBuffer_def HASH_MAX_def hash_standard_def)
  have s: "StringToHash (takeWhile (\<lambda>c. c \<noteq> 0) (hash_string 32 h)) = Some (h @ replicate 32 0)" if "length h = 32"
    using string_to_hash_pairs [of 0 h "replicate 64 0" 0] hash_string_c_string [of 32 h] that
    by (simp add: StringToHash_def MAX_HASHSIZE_def MD5_HASHSIZE_def SHA1_HASHSIZE_def SHA256_HASHSIZE_def SHA512_HASHSIZE_def memcpy_at_def)
  show ?thesis using h s by (auto simp: IsBufferInDB_def BufferMatchesHash_def hash_in_db_chunks SHA256_HASHSIZE_def)
qed

theorem buffer_database_and_match_witness:
  "IsBufferInDB (\<lambda>_ _. []) (replicate 32 0 @ SHA256 [0x61]) [0x61] \<longleftrightarrow> SHA256 [0x61] \<in> set (chunks 32 (replicate 32 0 @ SHA256 [0x61]))"
  using buffer_database_and_match [of "[0x61]" "\<lambda>_ _. []" "replicate 32 0 @ SHA256 [0x61]"] by simp

end
