(* ===== verification/Hash_Threads.thy ===== *)
theory Hash_Threads
  imports Hash_Api
begin

text \<open>
  The parallel computation of the digests of an image (\<open>HashThread\<close> and \<open>IndividualHashThread\<close> of
  \<open>src/src/hash.c\<close>) as a transition system: one reader that fills three buffers in turn with
  asynchronous reads, and one thread per digest. Reader and threads hand over with two auto-reset
  events per thread. A step is one event operation, one access to the shared variables or the
  completion of a read by the system; every interleaving is a run.

  \<open>reads k\<close> is what the \<open>k\<close>-th read of the file delivers, empty at its end. Normal steps are the
  relation \<open>hstep\<close>; time-outs and failing system calls are the relation \<open>hfault\<close>.
\<close>

section \<open>State\<close>

datatype reader_pc =
    R_Create nat \<comment> \<open>next thread to create\<close>
  | R_Open
  | R_Loop
  | R_WaitRead
  | R_Launch
  | R_WaitReady
  | R_SetProc
  | R_Signal nat \<comment> \<open>next thread to signal\<close>
  | R_WaitExit
  | R_Done
  | R_Out

datatype thread_pc =
    T_None
  | T_Start HASH_CONTEXT
  | T_Wait HASH_CONTEXT
  | T_Work HASH_CONTEXT
  | T_Ready HASH_CONTEXT
  | T_Done
  | T_Failed

text \<open>The asynchronous read: its buffer, and the size once the system has completed it.\<close>

datatype async_read = NoRead | InFlight nat | Complete nat nat

record hstate =
  pc :: reader_pc
  thread :: "nat \<Rightarrow> thread_pc"
  data_ready :: "nat \<Rightarrow> bool"
  thread_ready :: "nat \<Rightarrow> bool"
  buffer :: "nat \<Rightarrow> u8 list"
  read_size :: "nat \<Rightarrow> nat"
  read_bufnum :: nat
  proc_bufnum :: nat
  pending :: async_read
  nread :: nat \<comment> \<open>reads accounted for: the file offset\<close>
  hash_str :: "nat \<Rightarrow> u8 list"

definition NUM_BUFFERS :: nat where
  "NUM_BUFFERS = 3"

definition hash_start :: "hstate \<Rightarrow> bool" where
  "hash_start s \<longleftrightarrow> pc s = R_Create 0 \<and> (\<forall>i. thread s i = T_None)"

definition all_threads :: "nat \<Rightarrow> (nat \<Rightarrow> bool) \<Rightarrow> bool" where
  "all_threads n P \<longleftrightarrow> list_all P [0..<n]"

definition finished :: "thread_pc \<Rightarrow> bool" where
  "finished t \<longleftrightarrow> t = T_Done \<or> t = T_Failed"

section \<open>Steps\<close>

inductive hstep :: "memory_after \<Rightarrow> (nat \<Rightarrow> u8 list) \<Rightarrow> nat \<Rightarrow> hstate \<Rightarrow> hstate \<Rightarrow> bool"
  for after :: memory_after and reads :: "nat \<Rightarrow> u8 list" and num_hashes :: nat where
  create: "pc s = R_Create i \<Longrightarrow> i < num_hashes \<Longrightarrow>
    hstep after reads num_hashes s (s\<lparr>pc := R_Create (i + 1), thread := (thread s)(i := T_Start (hash_init ! i)),
      data_ready := (data_ready s)(i := False), thread_ready := (thread_ready s)(i := False)\<rparr>)"
| created: "pc s = R_Create num_hashes \<Longrightarrow> hstep after reads num_hashes s (s\<lparr>pc := R_Open\<rparr>)"
| open_file: "pc s = R_Open \<Longrightarrow>
    hstep after reads num_hashes s (s\<lparr>pc := R_Loop, nread := 0, read_bufnum := 0, proc_bufnum := 1,
      read_size := (read_size s)(1 := 1), pending := InFlight 0\<rparr>)"
| loop: "pc s = R_Loop \<Longrightarrow> read_size s (proc_bufnum s) \<noteq> 0 \<Longrightarrow> hstep after reads num_hashes s (s\<lparr>pc := R_WaitRead\<rparr>)"
| leave: "pc s = R_Loop \<Longrightarrow> read_size s (proc_bufnum s) = 0 \<Longrightarrow> hstep after reads num_hashes s (s\<lparr>pc := R_WaitExit\<rparr>)"
| complete: "pending s = InFlight b \<Longrightarrow>
    hstep after reads num_hashes s (s\<lparr>pending := Complete b (length (reads (nread s))),
      buffer := (buffer s)(b := memcpy_at 0 (reads (nread s)) (buffer s b))\<rparr>)"
| wait_read: "pc s = R_WaitRead \<Longrightarrow> pending s = Complete b sz \<Longrightarrow>
    hstep after reads num_hashes s (s\<lparr>pc := R_Launch, pending := NoRead, nread := nread s + 1,
      read_size := (read_size s)(read_bufnum s := sz)\<rparr>)"
| launch: "pc s = R_Launch \<Longrightarrow> b = (read_bufnum s + 1) mod NUM_BUFFERS \<Longrightarrow>
    hstep after reads num_hashes s (s\<lparr>pc := R_WaitReady, read_bufnum := b, pending := InFlight b\<rparr>)"
| wait_ready: "pc s = R_WaitReady \<Longrightarrow> all_threads num_hashes (thread_ready s) \<Longrightarrow>
    hstep after reads num_hashes s (s\<lparr>pc := R_SetProc,
      thread_ready := (\<lambda>i. if i < num_hashes then False else thread_ready s i)\<rparr>)"
| set_proc: "pc s = R_SetProc \<Longrightarrow>
    hstep after reads num_hashes s (s\<lparr>pc := R_Signal 0, proc_bufnum := (read_bufnum s + NUM_BUFFERS - 1) mod NUM_BUFFERS\<rparr>)"
| signal: "pc s = R_Signal i \<Longrightarrow> i < num_hashes \<Longrightarrow>
    hstep after reads num_hashes s (s\<lparr>pc := R_Signal (i + 1), data_ready := (data_ready s)(i := True)\<rparr>)"
| signalled: "pc s = R_Signal num_hashes \<Longrightarrow> hstep after reads num_hashes s (s\<lparr>pc := R_Loop\<rparr>)"
| wait_exit: "pc s = R_WaitExit \<Longrightarrow> all_threads num_hashes (\<lambda>i. finished (thread s i)) \<Longrightarrow>
    hstep after reads num_hashes s (s\<lparr>pc := R_Done\<rparr>)"
| t_start: "i < num_hashes \<Longrightarrow> thread s i = T_Start ctx \<Longrightarrow>
    hstep after reads num_hashes s (s\<lparr>thread := (thread s)(i := T_Wait ctx), thread_ready := (thread_ready s)(i := True)\<rparr>)"
| t_wait: "i < num_hashes \<Longrightarrow> thread s i = T_Wait ctx \<Longrightarrow> data_ready s i \<Longrightarrow>
    hstep after reads num_hashes s (s\<lparr>thread := (thread s)(i := T_Work ctx), data_ready := (data_ready s)(i := False)\<rparr>)"
| t_write: "i < num_hashes \<Longrightarrow> thread s i = T_Work ctx \<Longrightarrow> read_size s (proc_bufnum s) \<noteq> 0 \<Longrightarrow>
    ctx' = (hash_write after ! i) ctx (take (read_size s (proc_bufnum s)) (buffer s (proc_bufnum s))) \<Longrightarrow>
    hstep after reads num_hashes s (s\<lparr>thread := (thread s)(i := T_Ready ctx')\<rparr>)"
| t_ready: "i < num_hashes \<Longrightarrow> thread s i = T_Ready ctx \<Longrightarrow>
    hstep after reads num_hashes s (s\<lparr>thread := (thread s)(i := T_Wait ctx), thread_ready := (thread_ready s)(i := True)\<rparr>)"
| t_final: "i < num_hashes \<Longrightarrow> thread s i = T_Work ctx \<Longrightarrow> read_size s (proc_bufnum s) = 0 \<Longrightarrow> (hash_final ! i) ctx = Some ctx' \<Longrightarrow>
    hstep after reads num_hashes s (s\<lparr>thread := (thread s)(i := T_Done),
      hash_str := (hash_str s)(i := hash_string (hash_count ! i) (buf ctx'))\<rparr>)"

text \<open>What can go wrong: the reader gives up while it creates threads, opens, reads, waits or signals,
  or because the user cancels; a thread gives up when its wait times out or an event cannot be set.\<close>

inductive hfault :: "nat \<Rightarrow> hstate \<Rightarrow> hstate \<Rightarrow> bool" for num_hashes :: nat where
  reader_fault: "pc s \<in> {R_Create i, R_Open, R_Loop, R_WaitRead, R_WaitReady, R_Signal i, R_WaitExit} \<Longrightarrow>
    hfault num_hashes s (s\<lparr>pc := R_Out\<rparr>)"
| thread_fault: "i < num_hashes \<Longrightarrow> thread s i \<in> {T_Start ctx, T_Wait ctx, T_Ready ctx} \<Longrightarrow>
    hfault num_hashes s (s\<lparr>thread := (thread s)(i := T_Failed)\<rparr>)"

inductive hash_reach :: "memory_after \<Rightarrow> (nat \<Rightarrow> u8 list) \<Rightarrow> nat \<Rightarrow> hstate \<Rightarrow> bool"
  for after :: memory_after and reads :: "nat \<Rightarrow> u8 list" and num_hashes :: nat where
  start: "hash_start s \<Longrightarrow> hash_reach after reads num_hashes s"
| step: "hash_reach after reads num_hashes s \<Longrightarrow> hstep after reads num_hashes s s' \<Longrightarrow> hash_reach after reads num_hashes s'"
| fault: "hash_reach after reads num_hashes s \<Longrightarrow> hfault num_hashes s s' \<Longrightarrow> hash_reach after reads num_hashes s'"

section \<open>Invariant\<close>

definition read_so_far :: "(nat \<Rightarrow> u8 list) \<Rightarrow> nat \<Rightarrow> u8 list" where
  "read_so_far reads k = concat (map reads [0..<k])"

text \<open>Buffer \<open>k mod 3\<close> holds what the \<open>k\<close>-th read delivered.\<close>

definition holds :: "(nat \<Rightarrow> u8 list) \<Rightarrow> hstate \<Rightarrow> nat \<Rightarrow> bool" where
  "holds reads s k \<longleftrightarrow> read_size s (k mod 3) = length (reads k) \<and> take (length (reads k)) (buffer s (k mod 3)) = reads k"

text \<open>The \<open>k\<close>-th read is under way.\<close>

definition reading :: "(nat \<Rightarrow> u8 list) \<Rightarrow> hstate \<Rightarrow> nat \<Rightarrow> bool" where
  "reading reads s k \<longleftrightarrow> nread s = k \<and> read_bufnum s = k mod 3 \<and>
     (pending s = InFlight (k mod 3) \<or>
      pending s = Complete (k mod 3) (length (reads k)) \<and> take (length (reads k)) (buffer s (k mod 3)) = reads k)"

text \<open>Thread \<open>i\<close> has been signalled \<open>k\<close> times and is somewhere on its way to answer.\<close>

definition answering :: "(nat \<Rightarrow> u8 list) \<Rightarrow> hstate \<Rightarrow> nat \<Rightarrow> nat \<Rightarrow> bool" where
  "answering reads s k i =
     (case thread s i of
        T_None \<Rightarrow> False
      | T_Start ctx \<Rightarrow> k = 0 \<and> \<not> data_ready s i \<and> \<not> thread_ready s i \<and> hash_taken i ctx []
      | T_Wait ctx \<Rightarrow> (data_ready s i \<and> \<not> thread_ready s i \<and> 0 < k \<and> hash_taken i ctx (read_so_far reads (k - 1))) \<or>
          (\<not> data_ready s i \<and> thread_ready s i \<and> (0 < k \<longrightarrow> reads (k - 1) \<noteq> []) \<and> hash_taken i ctx (read_so_far reads k))
      | T_Work ctx \<Rightarrow> \<not> data_ready s i \<and> \<not> thread_ready s i \<and> 0 < k \<and> hash_taken i ctx (read_so_far reads (k - 1))
      | T_Ready ctx \<Rightarrow> \<not> data_ready s i \<and> \<not> thread_ready s i \<and> 0 < k \<and> reads (k - 1) \<noteq> [] \<and> hash_taken i ctx (read_so_far reads k)
      | T_Done \<Rightarrow> 0 < k \<and> \<not> thread_ready s i \<and> reads (k - 1) = [] \<and>
          takeWhile (\<lambda>c. c \<noteq> 0) (hash_str s i) = concat (map hex_pair ((hash_standard ! i) (read_so_far reads (k - 1))))
      | T_Failed \<Rightarrow> True)"

text \<open>Thread \<open>i\<close> has answered all \<open>k\<close> signals and its answer has been taken.\<close>

definition idle :: "(nat \<Rightarrow> u8 list) \<Rightarrow> hstate \<Rightarrow> nat \<Rightarrow> nat \<Rightarrow> bool" where
  "idle reads s k i =
     (case thread s i of
        T_Wait ctx \<Rightarrow> \<not> data_ready s i \<and> \<not> thread_ready s i \<and> hash_taken i ctx (read_so_far reads k)
      | T_Failed \<Rightarrow> True | _ \<Rightarrow> False)"

text \<open>The threads that have been signalled \<open>m\<close> times may work on what the last round read.\<close>

definition published :: "(nat \<Rightarrow> u8 list) \<Rightarrow> hstate \<Rightarrow> nat \<Rightarrow> bool" where
  "published reads s m \<longleftrightarrow> (0 < m \<longrightarrow> proc_bufnum s = (m - 1) mod 3 \<and> holds reads s (m - 1))"

text \<open>What thread \<open>i\<close> is doing in round \<open>k\<close>, by the place of the reader.\<close>

definition thread_inv :: "(nat \<Rightarrow> u8 list) \<Rightarrow> hstate \<Rightarrow> nat \<Rightarrow> nat \<Rightarrow> bool" where
  "thread_inv reads s k i =
     (case pc s of
        R_Create j \<Rightarrow> if i < j then answering reads s 0 i else thread s i = T_None
      | R_SetProc \<Rightarrow> idle reads s k i
      | R_Signal j \<Rightarrow> if i < j then answering reads s (k + 1) i else idle reads s k i
      | R_Done \<Rightarrow> answering reads s k i \<and> finished (thread s i)
      | R_Out \<Rightarrow> True
      | _ \<Rightarrow> answering reads s k i)"

text \<open>The buffers in round \<open>k\<close>, by the place of the reader.\<close>

definition reader_inv :: "(nat \<Rightarrow> u8 list) \<Rightarrow> nat \<Rightarrow> hstate \<Rightarrow> nat \<Rightarrow> bool" where
  "reader_inv reads n s k =
     (case pc s of
        R_Create j \<Rightarrow> j \<le> n \<and> k = 0
      | R_Open \<Rightarrow> k = 0
      | R_Loop \<Rightarrow> published reads s k \<and> (k = 0 \<longrightarrow> read_size s (proc_bufnum s) \<noteq> 0) \<and> reading reads s k \<and> (\<forall>j. j + 1 < k \<longrightarrow> reads j \<noteq> [])
      | R_WaitRead \<Rightarrow> published reads s k \<and> reading reads s k \<and> (\<forall>j<k. reads j \<noteq> [])
      | R_Launch \<Rightarrow> published reads s k \<and> nread s = k + 1 \<and> read_bufnum s = k mod 3 \<and> pending s = NoRead \<and> holds reads s k \<and> (\<forall>j<k. reads j \<noteq> [])
      | R_WaitReady \<Rightarrow> published reads s k \<and> reading reads s (k + 1) \<and> holds reads s k \<and> (\<forall>j<k. reads j \<noteq> [])
      | R_SetProc \<Rightarrow> reading reads s (k + 1) \<and> holds reads s k \<and> (\<forall>j<k. reads j \<noteq> [])
      | R_Signal j \<Rightarrow> j \<le> n \<and> published reads s (k + 1) \<and> reading reads s (k + 1) \<and> (\<forall>j<k. reads j \<noteq> [])
      | R_WaitExit \<Rightarrow> published reads s k \<and> reading reads s k \<and> 0 < k \<and> reads (k - 1) = [] \<and> (\<forall>j. j + 1 < k \<longrightarrow> reads j \<noteq> [])
      | R_Done \<Rightarrow> published reads s k \<and> reading reads s k \<and> 0 < k \<and> reads (k - 1) = [] \<and> (\<forall>j. j + 1 < k \<longrightarrow> reads j \<noteq> [])
      | R_Out \<Rightarrow> True)"

definition hash_inv :: "(nat \<Rightarrow> u8 list) \<Rightarrow> nat \<Rightarrow> hstate \<Rightarrow> bool" where
  "hash_inv reads n s \<longleftrightarrow> pc s = R_Out \<or> (\<exists>k. reader_inv reads n s k \<and> (\<forall>i<n. thread_inv reads s k i))"

section \<open>Frame conditions\<close>

lemma answering_frame:
  "thread s' i = thread s i \<Longrightarrow> data_ready s' i = data_ready s i \<Longrightarrow> thread_ready s' i = thread_ready s i \<Longrightarrow>
   hash_str s' i = hash_str s i \<Longrightarrow> answering reads s' k i = answering reads s k i"
  by (simp add: answering_def split: thread_pc.splits)

lemma idle_frame:
  "thread s' i = thread s i \<Longrightarrow> data_ready s' i = data_ready s i \<Longrightarrow> thread_ready s' i = thread_ready s i \<Longrightarrow>
   idle reads s' k i = idle reads s k i"
  by (simp add: idle_def split: thread_pc.splits)

lemma thread_inv_frame:
  "pc s' = pc s \<Longrightarrow> thread s' i = thread s i \<Longrightarrow> data_ready s' i = data_ready s i \<Longrightarrow> thread_ready s' i = thread_ready s i \<Longrightarrow>
   hash_str s' i = hash_str s i \<Longrightarrow> thread_inv reads s' k i = thread_inv reads s k i"
  by (simp add: thread_inv_def answering_frame [of s' i s] idle_frame [of s' i s] split: reader_pc.splits)

lemma reader_inv_frame:
  "pc s' = pc s \<Longrightarrow> buffer s' = buffer s \<Longrightarrow> read_size s' = read_size s \<Longrightarrow> read_bufnum s' = read_bufnum s \<Longrightarrow>
   proc_bufnum s' = proc_bufnum s \<Longrightarrow> pending s' = pending s \<Longrightarrow> nread s' = nread s \<Longrightarrow> reader_inv reads n s' k = reader_inv reads n s k"
  by (simp add: reader_inv_def published_def holds_def reading_def split: reader_pc.splits)

text \<open>Consecutive reads go to different buffers.\<close>

lemma next_buffer: "Suc k mod 3 \<noteq> k mod 3" "Suc (Suc k) mod 3 \<noteq> k mod 3"
  by (simp_all add: mod_Suc)

lemma previous_buffer: "((k + 1) mod 3 + NUM_BUFFERS - 1) mod NUM_BUFFERS = k mod 3"
  using mod_less_divisor [of 3 k] by (auto simp: NUM_BUFFERS_def mod_Suc)

lemma read_so_far_Suc: "read_so_far reads (Suc k) = read_so_far reads k @ reads k"
  by (simp add: read_so_far_def)

section \<open>The threads\<close>

lemma hash_final_string:
  assumes i: "i < HASH_MAX" and t: "hash_taken i ctx m" "length m < 2 ^ 64" and f: "(hash_final ! i) ctx = Some ctx'"
  shows "takeWhile (\<lambda>c. c \<noteq> 0) (hash_string (hash_count ! i) (buf ctx')) = concat (map hex_pair ((hash_standard ! i) m))"
proof -
  have d: "take (hash_count ! i) (buf ctx') = (hash_standard ! i) m"
    using message_digest.taken_final [OF message_digest_table [OF i, of "\<lambda>_ _. []"] t] f by auto
  have "hash_count ! i \<le> length (buf ctx')"
    using arg_cong [OF d, of length] length_standard [OF i, of m] by simp
  moreover have "2 * (hash_count ! i) < 150" using hash_count_le [OF i] by simp
  ultimately show ?thesis using hash_string_c_string [of "hash_count ! i" "buf ctx'"] d by simp
qed

lemma hash_write_taken:
  "i < HASH_MAX \<Longrightarrow> hash_taken i ctx m \<Longrightarrow> hash_taken i ((hash_write after ! i) ctx d) (m @ d)"
  by (rule message_digest.taken_update [OF message_digest_table])

lemma hash_init_taken: "i < HASH_MAX \<Longrightarrow> hash_taken i (hash_init ! i) []"
  by (rule message_digest.taken_init [OF message_digest_table [where after = "\<lambda>_ _. []"]])

text \<open>The steps of a thread: they change nothing but the thread, its events and its string.\<close>

definition thread_step :: "memory_after \<Rightarrow> nat \<Rightarrow> hstate \<Rightarrow> hstate \<Rightarrow> bool" where
  "thread_step after i s s' \<longleftrightarrow>
     (\<exists>ctx. thread s i = T_Start ctx \<and>
        s' = s\<lparr>thread := (thread s)(i := T_Wait ctx), thread_ready := (thread_ready s)(i := True)\<rparr>) \<or>
     (\<exists>ctx. thread s i = T_Wait ctx \<and> data_ready s i \<and>
        s' = s\<lparr>thread := (thread s)(i := T_Work ctx), data_ready := (data_ready s)(i := False)\<rparr>) \<or>
     (\<exists>ctx. thread s i = T_Work ctx \<and> read_size s (proc_bufnum s) \<noteq> 0 \<and>
        s' = s\<lparr>thread := (thread s)(i := T_Ready ((hash_write after ! i) ctx (take (read_size s (proc_bufnum s)) (buffer s (proc_bufnum s)))))\<rparr>) \<or>
     (\<exists>ctx. thread s i = T_Ready ctx \<and>
        s' = s\<lparr>thread := (thread s)(i := T_Wait ctx), thread_ready := (thread_ready s)(i := True)\<rparr>) \<or>
     (\<exists>ctx ctx'. thread s i = T_Work ctx \<and> read_size s (proc_bufnum s) = 0 \<and> (hash_final ! i) ctx = Some ctx' \<and>
        s' = s\<lparr>thread := (thread s)(i := T_Done), hash_str := (hash_str s)(i := hash_string (hash_count ! i) (buf ctx'))\<rparr>) \<or>
     (\<exists>ctx. thread s i \<in> {T_Start ctx, T_Wait ctx, T_Ready ctx} \<and> s' = s\<lparr>thread := (thread s)(i := T_Failed)\<rparr>)"

lemma thread_step_answering:
  assumes st: "thread_step after i s s'" and a: "answering reads s k i" and p: "published reads s k"
    and i: "i < HASH_MAX" and len: "length (read_so_far reads (k - 1)) < 2 ^ 64"
  shows "answering reads s' k i"
proof -
  from st consider
    (start) ctx where "thread s i = T_Start ctx" "s' = s\<lparr>thread := (thread s)(i := T_Wait ctx), thread_ready := (thread_ready s)(i := True)\<rparr>"
  | (wait) ctx where "thread s i = T_Wait ctx" "data_ready s i" "s' = s\<lparr>thread := (thread s)(i := T_Work ctx), data_ready := (data_ready s)(i := False)\<rparr>"
  | (hashing) ctx where "thread s i = T_Work ctx" "read_size s (proc_bufnum s) \<noteq> 0"
      "s' = s\<lparr>thread := (thread s)(i := T_Ready ((hash_write after ! i) ctx (take (read_size s (proc_bufnum s)) (buffer s (proc_bufnum s)))))\<rparr>"
  | (ready) ctx where "thread s i = T_Ready ctx" "s' = s\<lparr>thread := (thread s)(i := T_Wait ctx), thread_ready := (thread_ready s)(i := True)\<rparr>"
  | (final) ctx ctx' where "thread s i = T_Work ctx" "read_size s (proc_bufnum s) = 0" "(hash_final ! i) ctx = Some ctx'"
      "s' = s\<lparr>thread := (thread s)(i := T_Done), hash_str := (hash_str s)(i := hash_string (hash_count ! i) (buf ctx'))\<rparr>"
  | (fail) ctx where "thread s i \<in> {T_Start ctx, T_Wait ctx, T_Ready ctx}" "s' = s\<lparr>thread := (thread s)(i := T_Failed)\<rparr>"
    unfolding thread_step_def by blast
  then show ?thesis
  proof cases
    case hashing
    then have w: "0 < k" "hash_taken i ctx (read_so_far reads (k - 1))" "\<not> data_ready s i" "\<not> thread_ready s i"
      using a by (simp_all add: answering_def)
    have "take (read_size s (proc_bufnum s)) (buffer s (proc_bufnum s)) = reads (k - 1)"
      using p w(1) by (simp add: published_def holds_def)
    moreover have "read_so_far reads k = read_so_far reads (k - 1) @ reads (k - 1)"
      using read_so_far_Suc [of reads "k - 1"] w(1) by simp
    moreover have "reads (k - 1) \<noteq> []" using p w(1) hashing(2) by (auto simp: published_def holds_def)
    ultimately show ?thesis using hashing w hash_write_taken [OF i w(2)] by (simp add: answering_def)
  next
    case final
    then have w: "0 < k" "hash_taken i ctx (read_so_far reads (k - 1))" "\<not> data_ready s i" "\<not> thread_ready s i"
      using a by (simp_all add: answering_def)
    have "reads (k - 1) = []" using p w(1) final(2) by (simp add: published_def holds_def)
    then show ?thesis using final w hash_final_string [OF i w(2) len final(3)] by (simp add: answering_def)
  qed (use a in \<open>auto simp: answering_def read_so_far_def\<close>)
qed

lemma thread_step_idle:
  assumes "thread_step after i s s'" "idle reads s k i"
  shows "idle reads s' k i"
  using assms by (auto simp: thread_step_def idle_def)

lemma thread_step_frame:
  assumes "thread_step after i s s'"
  shows "pc s' = pc s" "buffer s' = buffer s" "read_size s' = read_size s" "read_bufnum s' = read_bufnum s"
    "proc_bufnum s' = proc_bufnum s" "pending s' = pending s" "nread s' = nread s"
    "j \<noteq> i \<Longrightarrow> thread s' j = thread s j" "j \<noteq> i \<Longrightarrow> data_ready s' j = data_ready s j"
    "j \<noteq> i \<Longrightarrow> thread_ready s' j = thread_ready s j" "j \<noteq> i \<Longrightarrow> hash_str s' j = hash_str s j"
  using assms by (auto simp: thread_step_def)

lemma thread_step_inv:
  assumes st: "thread_step after i s s'" and r: "reader_inv reads n s k" and t: "thread_inv reads s k i"
    and i: "i < HASH_MAX" and len: "\<And>k. length (read_so_far reads k) < 2 ^ 64"
  shows "thread_inv reads s' k i"
proof -
  note a = thread_step_answering [OF st _ _ i len]
  have no: "finished (thread s i) \<Longrightarrow> False" "thread s i = T_None \<Longrightarrow> False" using st by (auto simp: thread_step_def finished_def)
  show ?thesis using r t a [where k = k] a [where k = 0] a [where k = "k + 1"] thread_step_idle [OF st, of reads k] no
    unfolding thread_inv_def reader_inv_def thread_step_frame(1) [OF st]
    by (auto split: reader_pc.splits if_splits simp: published_def)
qed

section \<open>The reader\<close>

lemma hash_inv_I: "reader_inv reads n s k \<Longrightarrow> (\<And>i. i < n \<Longrightarrow> thread_inv reads s k i) \<Longrightarrow> hash_inv reads n s"
  by (auto simp: hash_inv_def)

lemma memcpy_at_0: "take (length xs) (memcpy_at 0 xs b) = xs"
  by (simp add: memcpy_at_def)

text \<open>Completing a read leaves the buffers of the last two rounds alone.\<close>

definition complete_read :: "(nat \<Rightarrow> u8 list) \<Rightarrow> nat \<Rightarrow> hstate \<Rightarrow> hstate" where
  "complete_read reads b s = s\<lparr>pending := Complete b (length (reads (nread s))),
     buffer := (buffer s)(b := memcpy_at 0 (reads (nread s)) (buffer s b))\<rparr>"

lemma complete_read_reading:
  assumes "pending s = InFlight b" "reading reads s k"
  shows "reading reads (complete_read reads b s) k" "b = k mod 3"
  using assms by (auto simp: reading_def complete_read_def memcpy_at_0)

lemma complete_read_holds: "holds reads s j \<Longrightarrow> j mod 3 \<noteq> b \<Longrightarrow> holds reads (complete_read reads b s) j"
  by (simp add: holds_def complete_read_def)

lemma complete_read_published:
  assumes "published reads s m" "b = m mod 3 \<or> b = Suc m mod 3"
  shows "published reads (complete_read reads b s) m"
  using assms complete_read_holds [of reads s "m - 1" b] next_buffer [of "m - 1"]
  by (cases "m = 0") (auto simp: published_def complete_read_def)

lemma complete_reader_inv:
  assumes r: "reader_inv reads n s k" and p: "pending s = InFlight b"
  shows "reader_inv reads n (complete_read reads b s) k"
proof -
  have same: "pc (complete_read reads b s) = pc s" "read_size (complete_read reads b s) = read_size s"
    "proc_bufnum (complete_read reads b s) = proc_bufnum s" by (simp_all add: complete_read_def)
  note rd = complete_read_reading [OF p]
  have pub0: "published reads (complete_read reads b s) k" if "published reads s k" "reading reads s k"
    using complete_read_published [OF that(1)] rd(2) [OF that(2)] by simp
  have pub1: "published reads (complete_read reads b s) k" if "published reads s k" "reading reads s (Suc k)"
    using complete_read_published [OF that(1)] rd(2) [OF that(2)] by simp
  have pub2: "published reads (complete_read reads b s) (Suc k)" if "published reads s (Suc k)" "reading reads s (Suc k)"
    using complete_read_published [OF that(1)] rd(2) [OF that(2)] by simp
  have hold: "holds reads (complete_read reads b s) k" if "holds reads s k" "reading reads s (Suc k)"
    using complete_read_holds [OF that(1)] rd(2) [OF that(2)] next_buffer(1) [of k] by metis
  show ?thesis using r p unfolding reader_inv_def same
    by (cases "pc s") (simp_all add: pub0 pub1 pub2 hold rd(1))
qed

section \<open>Preservation\<close>

lemma wait_ready_idle:
  "answering reads s k i \<Longrightarrow> thread_ready s i \<Longrightarrow> i < n \<Longrightarrow>
   idle reads (s\<lparr>pc := R_SetProc, thread_ready := (\<lambda>i. if i < n then False else thread_ready s i)\<rparr>) k i"
  by (auto simp: answering_def idle_def split: thread_pc.splits)

lemma signal_answering:
  "idle reads s k i \<Longrightarrow> answering reads (s\<lparr>pc := R_Signal (i + 1), data_ready := (data_ready s)(i := True)\<rparr>) (k + 1) i"
  by (auto simp: answering_def idle_def split: thread_pc.splits)

lemma thread_step_hash_inv:
  assumes st: "thread_step after i s s'" and inv: "hash_inv reads n s" and i: "i < n" "n \<le> HASH_MAX"
    and len: "\<And>k. length (read_so_far reads k) < 2 ^ 64"
  shows "hash_inv reads n s'"
proof (cases "pc s = R_Out")
  case True
  then show ?thesis using thread_step_frame(1) [OF st] by (simp add: hash_inv_def)
next
  case False
  then obtain k where k: "reader_inv reads n s k" "\<And>j. j < n \<Longrightarrow> thread_inv reads s k j" using inv by (auto simp: hash_inv_def)
  have "thread_inv reads s' k j" if "j < n" for j
  proof (cases "j = i")
    case True
    then show ?thesis using thread_step_inv [OF st k(1) k(2) _ len] i by simp
  next
    case False
    then show ?thesis using k(2) [OF that] thread_inv_frame [of s' s j reads k] thread_step_frame [OF st] by simp
  qed
  moreover have "reader_inv reads n s' k" using k(1) reader_inv_frame [of s' s reads n k] thread_step_frame [OF st] by simp
  ultimately show ?thesis by (auto simp: hash_inv_def)
qed

lemma answering_update:
  "answering reads (s\<lparr>pc := p\<rparr>) k i = answering reads s k i"
  "answering reads (s\<lparr>nread := m\<rparr>) k i = answering reads s k i"
  "answering reads (s\<lparr>read_bufnum := m\<rparr>) k i = answering reads s k i"
  "answering reads (s\<lparr>proc_bufnum := m\<rparr>) k i = answering reads s k i"
  "answering reads (s\<lparr>read_size := z\<rparr>) k i = answering reads s k i"
  "answering reads (s\<lparr>pending := q\<rparr>) k i = answering reads s k i"
  "answering reads (s\<lparr>buffer := bs\<rparr>) k i = answering reads s k i"
  by (rule answering_frame; simp)+

lemma idle_update:
  "idle reads (s\<lparr>pc := p\<rparr>) k i = idle reads s k i"
  "idle reads (s\<lparr>proc_bufnum := m\<rparr>) k i = idle reads s k i"
  "idle reads (s\<lparr>pending := q\<rparr>) k i = idle reads s k i"
  "idle reads (s\<lparr>buffer := bs\<rparr>) k i = idle reads s k i"
  by (rule idle_frame; simp)+

lemma reader_frame_update:
  "holds reads (s\<lparr>pc := p\<rparr>) k = holds reads s k"
  "reading reads (s\<lparr>pc := p\<rparr>) k = reading reads s k"
  "published reads (s\<lparr>pc := p\<rparr>) k = published reads s k"
  "holds reads (s\<lparr>thread_ready := r\<rparr>) k = holds reads s k"
  "reading reads (s\<lparr>thread_ready := r\<rparr>) k = reading reads s k"
  "holds reads (s\<lparr>data_ready := r\<rparr>) k = holds reads s k"
  "reading reads (s\<lparr>data_ready := r\<rparr>) k = reading reads s k"
  "published reads (s\<lparr>data_ready := r\<rparr>) k = published reads s k"
  by (simp_all add: holds_def reading_def published_def)

lemmas updates = answering_update idle_update reader_frame_update

lemma hash_inv_round:
  assumes "hash_inv reads n s" "pc s \<noteq> R_Out"
  obtains k where "reader_inv reads n s k" "\<And>i. i < n \<Longrightarrow> thread_inv reads s k i"
  using assms by (auto simp: hash_inv_def)

lemma create_inv:
  assumes inv: "hash_inv reads n s" and p: "pc s = R_Create i" "i < n" "n \<le> HASH_MAX"
  shows "hash_inv reads n (s\<lparr>pc := R_Create (i + 1), thread := (thread s)(i := T_Start (hash_init ! i)),
      data_ready := (data_ready s)(i := False), thread_ready := (thread_ready s)(i := False)\<rparr>)" (is "hash_inv reads n ?s")
proof -
  obtain k where k: "reader_inv reads n s k" "\<And>j. j < n \<Longrightarrow> thread_inv reads s k j"
    using hash_inv_round [OF inv] p(1) by auto
  have "answering reads ?s 0 i" using hash_init_taken [of i] p by (simp add: answering_def)
  moreover have "j \<noteq> i \<Longrightarrow> answering reads ?s 0 j = answering reads s 0 j" for j by (rule answering_frame) simp_all
  ultimately have "thread_inv reads ?s k j" if "j < n" for j
    using k(2) [OF that] p(1) by (cases j i rule: linorder_cases) (auto simp: thread_inv_def)
  then show ?thesis using k(1) p by (intro hash_inv_I [of _ _ _ k]) (simp_all add: reader_inv_def)
qed

lemma wait_read_inv:
  assumes inv: "hash_inv reads n s" and p: "pc s = R_WaitRead" "pending s = Complete b sz"
  shows "hash_inv reads n (s\<lparr>pc := R_Launch, pending := NoRead, nread := nread s + 1,
      read_size := (read_size s)(read_bufnum s := sz)\<rparr>)" (is "hash_inv reads n ?s")
proof -
  obtain k where k: "reader_inv reads n s k" "\<And>j. j < n \<Longrightarrow> thread_inv reads s k j"
    using hash_inv_round [OF inv] p(1) by auto
  have r: "published reads s k" "reading reads s k" "\<forall>j<k. reads j \<noteq> []" using k(1) p(1) by (simp_all add: reader_inv_def)
  have "published reads ?s k"
    using r(1,2) next_buffer(1) [of "k - 1"] by (cases "k = 0") (auto simp: published_def holds_def reading_def)
  moreover have "holds reads ?s k" using r(2) p(2) by (simp add: holds_def reading_def)
  ultimately have "reader_inv reads n ?s k" using r(2,3) by (simp add: reader_inv_def reading_def)
  moreover have "thread_inv reads ?s k j" if "j < n" for j using k(2) [OF that] p(1) by (simp add: thread_inv_def updates)
  ultimately show ?thesis by (auto simp: hash_inv_def)
qed

lemma launch_inv:
  assumes inv: "hash_inv reads n s" and p: "pc s = R_Launch"
  shows "hash_inv reads n (s\<lparr>pc := R_WaitReady, read_bufnum := (read_bufnum s + 1) mod NUM_BUFFERS,
      pending := InFlight ((read_bufnum s + 1) mod NUM_BUFFERS)\<rparr>)" (is "hash_inv reads n ?s")
proof -
  obtain k where k: "reader_inv reads n s k" "\<And>j. j < n \<Longrightarrow> thread_inv reads s k j"
    using hash_inv_round [OF inv] p by auto
  have "(k mod 3 + 1) mod NUM_BUFFERS = Suc k mod 3" by (simp add: NUM_BUFFERS_def mod_simps)
  then have "reader_inv reads n ?s k" using k(1) p by (simp add: reader_inv_def reading_def published_def holds_def)
  moreover have "thread_inv reads ?s k j" if "j < n" for j using k(2) [OF that] p by (simp add: thread_inv_def updates)
  ultimately show ?thesis by (auto simp: hash_inv_def)
qed

lemma wait_ready_inv:
  assumes inv: "hash_inv reads n s" and p: "pc s = R_WaitReady" "all_threads n (thread_ready s)"
  shows "hash_inv reads n (s\<lparr>pc := R_SetProc, thread_ready := (\<lambda>i. if i < n then False else thread_ready s i)\<rparr>)" (is "hash_inv reads n ?s")
proof -
  obtain k where k: "reader_inv reads n s k" "\<And>j. j < n \<Longrightarrow> thread_inv reads s k j"
    using hash_inv_round [OF inv] p by auto
  have "reader_inv reads n ?s k" using k(1) p(1) by (simp add: reader_inv_def updates)
  moreover have "thread_inv reads ?s k j" if "j < n" for j
    using wait_ready_idle [of reads s k j n] k(2) [OF that] p that by (simp add: thread_inv_def all_threads_def list_all_iff)
  ultimately show ?thesis by (rule hash_inv_I)
qed

lemma signal_inv:
  assumes inv: "hash_inv reads n s" and p: "pc s = R_Signal i" "i < n"
  shows "hash_inv reads n (s\<lparr>pc := R_Signal (i + 1), data_ready := (data_ready s)(i := True)\<rparr>)" (is "hash_inv reads n ?s")
proof -
  obtain k where k: "reader_inv reads n s k" "\<And>j. j < n \<Longrightarrow> thread_inv reads s k j"
    using hash_inv_round [OF inv] p(1) by auto
  have "answering reads ?s (k + 1) i" using signal_answering [of reads s k i] k(2) [OF p(2)] p(1) by (simp add: thread_inv_def)
  moreover have "j \<noteq> i \<Longrightarrow> answering reads ?s m j = answering reads s m j" for j m by (rule answering_frame) simp_all
  moreover have "j \<noteq> i \<Longrightarrow> idle reads ?s m j = idle reads s m j" for j m by (rule idle_frame) simp_all
  ultimately have "thread_inv reads ?s k j" if "j < n" for j
    using k(2) [OF that] p(1) by (cases j i rule: linorder_cases) (auto simp: thread_inv_def)
  moreover have "reader_inv reads n ?s k" using k(1) p by (simp add: reader_inv_def updates)
  ultimately show ?thesis by (auto simp: hash_inv_def)
qed

text \<open>The steps that only move the reader on: the round stays the same, or is the next one.\<close>

lemma move_inv:
  assumes inv: "hash_inv reads n s"
  shows "pc s = R_Create n \<Longrightarrow> hash_inv reads n (s\<lparr>pc := R_Open\<rparr>)"
    and "pc s = R_Open \<Longrightarrow> hash_inv reads n (s\<lparr>pc := R_Loop, nread := 0, read_bufnum := 0, proc_bufnum := 1,
      read_size := (read_size s)(1 := 1), pending := InFlight 0\<rparr>)"
    and "pc s = R_SetProc \<Longrightarrow> hash_inv reads n (s\<lparr>pc := R_Signal 0, proc_bufnum := (read_bufnum s + NUM_BUFFERS - 1) mod NUM_BUFFERS\<rparr>)"
    and "pc s = R_WaitExit \<Longrightarrow> all_threads n (\<lambda>i. finished (thread s i)) \<Longrightarrow> hash_inv reads n (s\<lparr>pc := R_Done\<rparr>)"
proof -
  show "pc s = R_Create n \<Longrightarrow> hash_inv reads n (s\<lparr>pc := R_Open\<rparr>)"
    using inv by (auto simp: hash_inv_def reader_inv_def thread_inv_def updates)
  show "pc s = R_Open \<Longrightarrow> hash_inv reads n (s\<lparr>pc := R_Loop, nread := 0, read_bufnum := 0, proc_bufnum := 1,
      read_size := (read_size s)(1 := 1), pending := InFlight 0\<rparr>)"
    using inv by (auto simp: hash_inv_def reader_inv_def thread_inv_def updates published_def reading_def)
  show "pc s = R_SetProc \<Longrightarrow> hash_inv reads n (s\<lparr>pc := R_Signal 0, proc_bufnum := (read_bufnum s + NUM_BUFFERS - 1) mod NUM_BUFFERS\<rparr>)"
    using inv previous_buffer
    by (auto simp: hash_inv_def reader_inv_def thread_inv_def updates published_def reading_def holds_def)
  show "pc s = R_WaitExit \<Longrightarrow> all_threads n (\<lambda>i. finished (thread s i)) \<Longrightarrow> hash_inv reads n (s\<lparr>pc := R_Done\<rparr>)"
    using inv by (auto simp: hash_inv_def reader_inv_def thread_inv_def updates all_threads_def list_all_iff)
qed

lemma loop_inv:
  assumes inv: "hash_inv reads n s" and p: "pc s = R_Loop"
  shows "read_size s (proc_bufnum s) \<noteq> 0 \<Longrightarrow> hash_inv reads n (s\<lparr>pc := R_WaitRead\<rparr>)"
    and "read_size s (proc_bufnum s) = 0 \<Longrightarrow> hash_inv reads n (s\<lparr>pc := R_WaitExit\<rparr>)"
proof -
  obtain k where k: "reader_inv reads n s k" "\<And>j. j < n \<Longrightarrow> thread_inv reads s k j"
    using hash_inv_round [OF inv] p by auto
  have r: "published reads s k" "k = 0 \<longrightarrow> read_size s (proc_bufnum s) \<noteq> 0" "reading reads s k" "\<forall>j. j + 1 < k \<longrightarrow> reads j \<noteq> []"
    using k(1) p by (simp_all add: reader_inv_def)
  have t: "thread_inv reads (s\<lparr>pc := R_WaitRead\<rparr>) k j" "thread_inv reads (s\<lparr>pc := R_WaitExit\<rparr>) k j" if "j < n" for j
    using k(2) [OF that] p by (simp_all add: thread_inv_def updates)
  have last: "read_size s (proc_bufnum s) = length (reads (k - 1))" if "0 < k" using r(1) that by (simp add: published_def holds_def)
  show "hash_inv reads n (s\<lparr>pc := R_WaitRead\<rparr>)" if z: "read_size s (proc_bufnum s) \<noteq> 0"
  proof -
    have "reads j \<noteq> []" if "j < k" for j
    proof (cases "j + 1 < k")
      case False
      then have "j = k - 1" "0 < k" using that by simp_all
      then show ?thesis using last z by auto
    qed (use r(4) in blast)
    then show ?thesis using r t(1) by (intro hash_inv_I [of _ _ _ k]) (simp_all add: reader_inv_def updates)
  qed
  show "hash_inv reads n (s\<lparr>pc := R_WaitExit\<rparr>)" if z: "read_size s (proc_bufnum s) = 0"
    using last z r t(2) by (intro hash_inv_I [of _ _ _ k]) (auto simp: reader_inv_def updates)
qed

lemma signalled_inv:
  assumes inv: "hash_inv reads n s" and p: "pc s = R_Signal n"
  shows "hash_inv reads n (s\<lparr>pc := R_Loop\<rparr>)"
proof -
  obtain k where k: "reader_inv reads n s k" "\<And>j. j < n \<Longrightarrow> thread_inv reads s k j"
    using hash_inv_round [OF inv] p by auto
  show ?thesis using k p by (intro hash_inv_I [of _ _ _ "Suc k"]) (simp_all add: reader_inv_def thread_inv_def updates)
qed

lemma complete_inv:
  assumes inv: "hash_inv reads n s" and p: "pending s = InFlight b"
  shows "hash_inv reads n (complete_read reads b s)"
proof (cases "pc s = R_Out")
  case False
  then obtain k where k: "reader_inv reads n s k" "\<And>j. j < n \<Longrightarrow> thread_inv reads s k j"
    using hash_inv_round [OF inv] by auto
  have "thread_inv reads (complete_read reads b s) k j = thread_inv reads s k j" for j
    by (rule thread_inv_frame) (simp_all add: complete_read_def)
  then show ?thesis using complete_reader_inv [OF k(1) p] k(2) by (auto simp: hash_inv_def)
qed (simp add: hash_inv_def complete_read_def)

lemma hstep_inv:
  assumes "hstep after reads n s s'" and inv: "hash_inv reads n s" and n: "n \<le> HASH_MAX"
    and len: "\<And>k. length (read_so_far reads k) < 2 ^ 64"
  shows "hash_inv reads n s'"
  using assms(1)
proof (cases rule: hstep.cases)
  case (create i)
  then show ?thesis using create_inv [OF inv _ _ n] by simp
next
  case created
  then show ?thesis using move_inv(1) [OF inv] by simp
next
  case open_file
  then show ?thesis using move_inv(2) [OF inv] by simp
next
  case loop
  then show ?thesis using loop_inv(1) [OF inv] by simp
next
  case leave
  then show ?thesis using loop_inv(2) [OF inv] by simp
next
  case (complete b)
  then show ?thesis using complete_inv [OF inv, of b] by (simp add: complete_read_def)
next
  case (wait_read b sz)
  then show ?thesis using wait_read_inv [OF inv] by simp
next
  case (launch b)
  then show ?thesis using launch_inv [OF inv] by simp
next
  case wait_ready
  then show ?thesis using wait_ready_inv [OF inv] by simp
next
  case set_proc
  then show ?thesis using move_inv(3) [OF inv] by simp
next
  case (signal i)
  then show ?thesis using signal_inv [OF inv] by simp
next
  case signalled
  then show ?thesis using signalled_inv [OF inv] by simp
next
  case wait_exit
  then show ?thesis using move_inv(4) [OF inv] by simp
next
  case (t_start i ctx)
  then show ?thesis using thread_step_hash_inv [OF _ inv _ n len, of after i s'] by (simp add: thread_step_def)
next
  case (t_wait i ctx)
  then show ?thesis using thread_step_hash_inv [OF _ inv _ n len, of after i s'] by (simp add: thread_step_def)
next
  case (t_write i ctx ctx')
  then show ?thesis using thread_step_hash_inv [OF _ inv _ n len, of after i s'] by (simp add: thread_step_def)
next
  case (t_ready i ctx)
  then show ?thesis using thread_step_hash_inv [OF _ inv _ n len, of after i s'] by (simp add: thread_step_def)
next
  case (t_final i ctx ctx')
  then show ?thesis using thread_step_hash_inv [OF _ inv _ n len, of after i s'] by (simp add: thread_step_def)
qed

lemma hfault_inv:
  assumes "hfault n s s'" and inv: "hash_inv reads n s" and n: "n \<le> HASH_MAX"
    and len: "\<And>k. length (read_so_far reads k) < 2 ^ 64"
  shows "hash_inv reads n s'"
  using assms(1)
proof (cases rule: hfault.cases)
  case (reader_fault i)
  then show ?thesis by (simp add: hash_inv_def)
next
  case (thread_fault i ctx)
  then show ?thesis using thread_step_hash_inv [OF _ inv _ n len, of "\<lambda>_ _. []" i s'] by (auto simp: thread_step_def)
qed

lemma hash_reach_inv:
  assumes "hash_reach after reads n s" "n \<le> HASH_MAX" "\<And>k. length (read_so_far reads k) < 2 ^ 64"
  shows "hash_inv reads n s"
  using assms(1)
proof induction
  case (start s)
  then show ?case by (intro hash_inv_I [of _ _ _ 0]) (simp_all add: hash_start_def reader_inv_def thread_inv_def)
next
  case (step s s')
  then show ?case using hstep_inv assms(2,3) by blast
next
  case (fault s s')
  then show ?case using hfault_inv assms(2,3) by blast
qed

section \<open>Results\<close>

definition BUFFER_SIZE :: nat where
  "BUFFER_SIZE = 64 * 1024"

text \<open>A file that delivers full buffers as long as it can.\<close>

definition file_reads :: "u8 list \<Rightarrow> nat \<Rightarrow> u8 list" where
  "file_reads data k = (if k < length (chunks BUFFER_SIZE data) then chunks BUFFER_SIZE data ! k else [])"

lemma read_so_far_file: "read_so_far (file_reads data) k = concat (take k (chunks BUFFER_SIZE data))"
proof (induction k)
  case (Suc k)
  then show ?case by (simp add: read_so_far_Suc file_reads_def take_Suc_conv_app_nth)
qed (simp add: read_so_far_def)

lemma length_read_so_far_file: "length (read_so_far (file_reads data) k) \<le> length data"
proof -
  have "length (concat (take k cs)) \<le> length (concat cs)" for cs :: "u8 list list"
    by (metis append_take_drop_id concat_append le_add1 length_append)
  then show ?thesis using concat_chunks [of BUFFER_SIZE data] by (metis read_so_far_file BUFFER_SIZE_def zero_less_numeral mult_pos_pos)
qed

lemma file_reads_empty:
  assumes "file_reads data k = []" "length data < 2 ^ 64"
  shows "read_so_far (file_reads data) k = data"
proof -
  have pos: "0 < BUFFER_SIZE" by (simp add: BUFFER_SIZE_def)
  have "[] \<notin> set (chunks n xs)" if "0 < n" for n and xs :: "u8 list"
    using that by (induction n xs rule: chunks.induct) (subst chunks.simps, auto)
  then have "length (chunks BUFFER_SIZE data) \<le> k"
    using assms(1) pos nth_mem [of k "chunks BUFFER_SIZE data"] by (fastforce simp: file_reads_def split: if_splits)
  then show ?thesis using concat_chunks [OF pos] by (simp add: read_so_far_file)
qed

text \<open>C11. If the parallel computation ends with success, every thread that did not time out shows the
  digest of the whole file in hexadecimal, whatever the interleaving of reader, threads and system.\<close>

theorem hash_threads_digest:
  assumes "hash_reach after (file_reads data) n s" "n \<le> HASH_MAX" "length data < 2 ^ 64"
    and "pc s = R_Done" "i < n" "thread s i \<noteq> T_Failed"
  shows "takeWhile (\<lambda>c. c \<noteq> 0) (hash_str s i) = concat (map hex_pair ((hash_standard ! i) data))"
proof -
  have "length (read_so_far (file_reads data) k) < 2 ^ 64" for k
    using length_read_so_far_file [of data k] assms(3) by (rule le_less_trans)
  then have "hash_inv (file_reads data) n s" using hash_reach_inv [OF assms(1,2)] by blast
  then obtain k where k: "answering (file_reads data) s k i" "thread s i = T_Done"
    using assms(4-6) by (auto simp: hash_inv_def thread_inv_def finished_def)
  then show ?thesis using file_reads_empty [OF _ assms(3), of "k - 1"] by (simp add: answering_def)
qed

text \<open>C13. While a thread works and the reader has not given up, the variables the thread reads stay as they are: no step of
  the reader, of another thread or of the system changes the number of the processed buffer, its size or its bytes. A reader
  that has given up (\<open>R_Out\<close>) terminates the threads and frees the buffers; nothing is said of that state.\<close>

theorem hash_threads_no_race:
  assumes "hash_reach after reads n s" "n \<le> HASH_MAX" "\<forall>k. length (read_so_far reads k) < 2 ^ 64"
    and "i < n" "thread s i = T_Work ctx" "pc s \<noteq> R_Out" "hstep after reads n s s'"
  shows "proc_bufnum s' = proc_bufnum s \<and> read_size s' (proc_bufnum s) = read_size s (proc_bufnum s) \<and>
    buffer s' (proc_bufnum s) = buffer s (proc_bufnum s)"
proof -
  have inv: "hash_inv reads n s" using hash_reach_inv [OF assms(1,2)] assms(3) by blast
  then obtain k where k: "reader_inv reads n s k" "thread_inv reads s k i" using assms(4,6) by (auto simp: hash_inv_def)
  obtain m where m: "published reads s m" "0 < m" "pc s \<noteq> R_SetProc" "pc s \<noteq> R_Open" "pc s \<noteq> R_Create j"
    "reading reads s m \<or> reading reads s (Suc m) \<or> (pending s = NoRead \<and> read_bufnum s = m mod 3)" for j
  proof -
    have "(published reads s k \<and> 0 < k \<and> (reading reads s k \<or> reading reads s (Suc k) \<or> (pending s = NoRead \<and> read_bufnum s = k mod 3)) \<or>
        published reads s (Suc k) \<and> reading reads s (Suc k)) \<and> pc s \<noteq> R_SetProc \<and> pc s \<noteq> R_Open \<and> (\<forall>j. pc s \<noteq> R_Create j)"
      using k assms(5,6) by (cases "pc s") (auto simp: reader_inv_def thread_inv_def answering_def idle_def split: if_splits)
    then show ?thesis using that [of k] that [of "Suc k"] by blast
  qed
  have b: "proc_bufnum s = (m - 1) mod 3" using m(1,2) by (simp add: published_def)
  have o: "read_bufnum s \<noteq> proc_bufnum s" "pending s = InFlight c \<Longrightarrow> c \<noteq> proc_bufnum s" for c
    using m(2,6) b next_buffer [of "m - 1"] by (auto simp: reading_def)
  from assms(7) show ?thesis by (cases rule: hstep.cases) (use o m(3-5) in auto)
qed

section \<open>Progress\<close>

text \<open>A thread that has work to do can take a step.\<close>

lemma thread_progress:
  assumes a: "answering reads s k i" and f: "thread s i \<noteq> T_Failed" "\<not> thread_ready s i" "\<not> finished (thread s i)"
    and i: "i < n" "n \<le> HASH_MAX" and len: "\<And>k. length (read_so_far reads k) < 2 ^ 64"
  shows "\<exists>s'. hstep after reads n s s'"
proof (cases "thread s i")
  case (T_Work ctx)
  show ?thesis
  proof (cases "read_size s (proc_bufnum s) = 0")
    case True
    have "hash_taken i ctx (read_so_far reads (k - 1))" using a T_Work by (simp add: answering_def)
    then obtain ctx' where "(hash_final ! i) ctx = Some ctx'"
      using message_digest.taken_final [OF message_digest_table [of i "\<lambda>_ _. []"] _ len] i by fastforce
    then show ?thesis using hstep.t_final [OF i(1) T_Work True] by blast
  next
    case False
    then show ?thesis using hstep.t_write [OF i(1) T_Work False refl] by blast
  qed
next
  case (T_Wait ctx)
  then have "data_ready s i" using a f(2) by (simp add: answering_def)
  then show ?thesis using hstep.t_wait [OF i(1) T_Wait] by blast
qed (use a f i(1) in \<open>auto simp: answering_def finished_def intro: hstep.t_start hstep.t_ready\<close>)

lemma hash_progress:
  assumes inv: "hash_inv reads n s" and n: "n \<le> HASH_MAX" and len: "\<And>k. length (read_so_far reads k) < 2 ^ 64"
    and ok: "\<And>i. i < n \<Longrightarrow> thread s i \<noteq> T_Failed" and p: "pc s \<noteq> R_Done" "pc s \<noteq> R_Out"
  shows "\<exists>s'. hstep after reads n s s'"
proof -
  obtain k where k: "reader_inv reads n s k" "\<And>i. i < n \<Longrightarrow> thread_inv reads s k i" using hash_inv_round [OF inv p(2)] by blast
  note tp = thread_progress [OF _ ok _ _ _ n len, where after = after]
  show ?thesis
  proof (cases "pc s")
    case (R_Create j)
    then show ?thesis using k(1) hstep.create [of s j n] hstep.created [of s n]
      by (cases "j = n") (force simp: reader_inv_def)+
  next
    case R_WaitRead
    then have "reading reads s k" using k(1) by (simp add: reader_inv_def)
    then show ?thesis using R_WaitRead hstep.complete [of s "k mod 3"] hstep.wait_read [of s "k mod 3"]
      unfolding reading_def by blast
  next
    case R_WaitReady
    show ?thesis
    proof (cases "all_threads n (thread_ready s)")
      case False
      then obtain i where i: "i < n" "\<not> thread_ready s i" by (auto simp: all_threads_def list_all_iff)
      have a: "answering reads s k i" using k(2) [OF i(1)] R_WaitReady by (simp add: thread_inv_def)
      have "\<forall>j<k. reads j \<noteq> []" using k(1) R_WaitReady by (simp add: reader_inv_def)
      then have "\<not> finished (thread s i)" using a ok [OF i(1)] by (auto simp: finished_def answering_def)
      then show ?thesis using tp [OF a i(1,2) _ i(1)] by blast
    qed (use R_WaitReady hstep.wait_ready in blast)
  next
    case R_WaitExit
    show ?thesis
    proof (cases "all_threads n (\<lambda>i. finished (thread s i))")
      case False
      then obtain i where i: "i < n" "\<not> finished (thread s i)" by (auto simp: all_threads_def list_all_iff)
      have a: "answering reads s k i" using k(2) [OF i(1)] R_WaitExit by (simp add: thread_inv_def)
      have "reads (k - 1) = []" "0 < k" using k(1) R_WaitExit by (simp_all add: reader_inv_def)
      then have "\<not> thread_ready s i" using a i(2) ok [OF i(1)] by (auto simp: finished_def answering_def split: thread_pc.splits)
      then show ?thesis using tp [OF a i(1) _ i(2,1)] by blast
    qed (use R_WaitExit hstep.wait_exit in blast)
  next
    case (R_Signal j)
    then show ?thesis using k(1) hstep.signal [of s j n] hstep.signalled [of s n]
      by (cases "j = n") (force simp: reader_inv_def)+
  qed (use p in \<open>blast intro: hstep.open_file hstep.loop hstep.leave hstep.launch hstep.set_proc\<close>)+
qed

section \<open>Termination\<close>

primrec thread_rank :: "thread_pc \<Rightarrow> nat" where
  "thread_rank T_None = 0"
| "thread_rank (T_Start ctx) = 1"
| "thread_rank (T_Wait ctx) = 0"
| "thread_rank (T_Work ctx) = 3"
| "thread_rank (T_Ready ctx) = 2"
| "thread_rank T_Done = 0"
| "thread_rank T_Failed = 0"

primrec reader_rank :: "nat \<Rightarrow> reader_pc \<Rightarrow> nat" where
  "reader_rank n (R_Create i) = 6 + 2 * (n - i)"
| "reader_rank n R_Open = 5"
| "reader_rank n R_Loop = 3"
| "reader_rank n R_WaitRead = 2"
| "reader_rank n R_Launch = 8 + 5 * n"
| "reader_rank n R_WaitReady = 6 + 5 * n"
| "reader_rank n R_SetProc = 5 + 5 * n"
| "reader_rank n (R_Signal i) = 4 + 5 * (n - i)"
| "reader_rank n R_WaitExit = 1"
| "reader_rank n R_Done = 0"
| "reader_rank n R_Out = 0"

definition reads_left :: "nat \<Rightarrow> hstate \<Rightarrow> nat" where
  "reads_left K s = (case pc s of R_Create i \<Rightarrow> K + 2 | R_Open \<Rightarrow> K + 2 | _ \<Rightarrow> K + 2 - nread s)"

definition threads_rank :: "nat \<Rightarrow> hstate \<Rightarrow> nat" where
  "threads_rank n s = (\<Sum>i<n. thread_rank (thread s i) + (if data_ready s i then 4 else 0))"

definition run_rank :: "nat \<Rightarrow> nat \<Rightarrow> hstate \<Rightarrow> nat" where
  "run_rank K n s = (10 + 5 * n) * reads_left K s + reader_rank n (pc s) +
     (case pending s of InFlight b \<Rightarrow> 1 | _ \<Rightarrow> 0) + threads_rank n s"

lemma threads_rank_update:
  assumes "i < n" "\<And>j. j \<noteq> i \<Longrightarrow> thread s' j = thread s j \<and> data_ready s' j = data_ready s j"
  shows "threads_rank n s' + (thread_rank (thread s i) + (if data_ready s i then 4 else 0)) =
    threads_rank n s + (thread_rank (thread s' i) + (if data_ready s' i then 4 else 0))"
proof -
  have *: "threads_rank n u = (thread_rank (thread u i) + (if data_ready u i then 4 else 0)) +
      (\<Sum>j\<in>{..<n} - {i}. thread_rank (thread u j) + (if data_ready u j then 4 else 0))" for u
    unfolding threads_rank_def using assms(1) by (intro sum.remove) simp_all
  have "(\<Sum>j\<in>{..<n} - {i}. thread_rank (thread s' j) + (if data_ready s' j then 4 else 0)) =
      (\<Sum>j\<in>{..<n} - {i}. thread_rank (thread s j) + (if data_ready s j then 4 else 0))"
    using assms(2) by (intro sum.cong) auto
  then show ?thesis using * [of s] * [of s'] by simp
qed

lemma threads_rank_same: "thread s' = thread s \<Longrightarrow> data_ready s' = data_ready s \<Longrightarrow> threads_rank n s' = threads_rank n s"
  by (simp add: threads_rank_def)

lemma reads_left_same: "pc s' = pc s \<Longrightarrow> nread s' = nread s \<Longrightarrow> reads_left K s' = reads_left K s"
  by (simp add: reads_left_def split: reader_pc.splits)

lemma thread_rank_step:
  assumes "i < n" "\<And>j. j \<noteq> i \<Longrightarrow> thread s' j = thread s j \<and> data_ready s' j = data_ready s j"
    and "thread_rank (thread s' i) + (if data_ready s' i then 4 else 0) < thread_rank (thread s i) + (if data_ready s i then 4 else 0)"
    and "pc s' = pc s" "nread s' = nread s" "pending s' = pending s"
  shows "run_rank K n s' < run_rank K n s"
  using threads_rank_update [OF assms(1,2)] assms(3-6) by (simp add: run_rank_def reads_left_same [OF assms(4,5)])

lemma wait_read_rank:
  assumes inv: "hash_inv reads n s" and p: "pc s = R_WaitRead" "pending s = Complete b sz" and K: "reads K = []"
  shows "run_rank K n (s\<lparr>pc := R_Launch, pending := NoRead, nread := nread s + 1, read_size := z\<rparr>) < run_rank K n s"
proof -
  obtain k where "reader_inv reads n s k" using hash_inv_round [OF inv] p(1) by auto
  then have "nread s = k" "\<forall>j<k. reads j \<noteq> []" using p(1) by (simp_all add: reader_inv_def reading_def)
  then have "nread s \<le> K" using K by (metis not_less)
  then obtain d where d: "K = nread s + d" using le_Suc_ex by blast
  have "threads_rank n (s\<lparr>pc := R_Launch, pending := NoRead, nread := nread s + 1, read_size := z\<rparr>) = threads_rank n s"
    by (rule threads_rank_same) simp_all
  then show ?thesis using p by (simp add: run_rank_def reads_left_def d)
qed

lemma hstep_rank:
  assumes "hstep after reads n s s'" and inv: "hash_inv reads n s" and K: "reads K = []"
  shows "run_rank K n s' < run_rank K n s"
  using assms(1)
proof (cases rule: hstep.cases)
  case (create i)
  then show ?thesis using threads_rank_update [of i n s' s] inv
    by (auto simp: run_rank_def reads_left_def hash_inv_def thread_inv_def split: async_read.splits)
next
  case (complete b)
  then show ?thesis using threads_rank_same [of s' s n] reads_left_same [of s' s K] by (simp add: run_rank_def)
next
  case (wait_read b sz)
  then show ?thesis using wait_read_rank [OF inv _ _ K] by simp
next
  case (signal i)
  then show ?thesis using threads_rank_update [of i n s' s]
    by (auto simp: run_rank_def reads_left_def split: if_splits)
next
  case wait_ready
  then show ?thesis using threads_rank_same [of s' s n] by (simp add: run_rank_def reads_left_def)
next
  case open_file
  then show ?thesis using threads_rank_same [of s' s n] by (auto simp: run_rank_def reads_left_def split: async_read.splits)
next
  case created
  then show ?thesis using threads_rank_same [of s' s n] by (simp add: run_rank_def reads_left_def)
next
  case (t_start i ctx)
  then show ?thesis by (intro thread_rank_step [of i]) simp_all
next
  case (t_wait i ctx)
  then show ?thesis by (intro thread_rank_step [of i]) simp_all
next
  case (t_write i ctx ctx')
  then show ?thesis by (intro thread_rank_step [of i]) simp_all
next
  case (t_ready i ctx)
  then show ?thesis by (intro thread_rank_step [of i]) simp_all
next
  case (t_final i ctx ctx')
  then show ?thesis by (intro thread_rank_step [of i]) simp_all
next
  case (launch b)
  then show ?thesis using threads_rank_same [of s' s n] by (auto simp: run_rank_def reads_left_def split: async_read.splits)
qed (use threads_rank_same [of s' s n] in \<open>simp_all add: run_rank_def reads_left_def\<close>)

text \<open>Runs without time-outs and failing system calls.\<close>

lemma fault_free:
  assumes "(hstep after reads n)\<^sup>*\<^sup>* s0 s" "hash_start s0"
  shows "hash_reach after reads n s \<and> (\<forall>i. thread s i \<noteq> T_Failed) \<and> pc s \<noteq> R_Out"
  using assms
proof induction
  case base
  then show ?case by (auto simp: hash_start_def intro: hash_reach.start)
next
  case (step s s')
  then have "hash_reach after reads n s'" by (blast intro: hash_reach.step)
  moreover have "(\<forall>i. thread s' i \<noteq> T_Failed) \<and> pc s' \<noteq> R_Out"
    using step.hyps(2) step.IH [OF step.prems] by (cases rule: hstep.cases) auto
  ultimately show ?case by blast
qed

lemma fault_free_inv:
  assumes "(hstep after reads n)\<^sup>*\<^sup>* s0 s" "hash_start s0" "n \<le> HASH_MAX" "\<And>k. length (read_so_far reads k) < 2 ^ 64"
  shows "hash_inv reads n s"
  using hash_reach_inv fault_free [OF assms(1,2)] assms(3,4) by blast

lemma fault_free_runs_end:
  assumes "(hstep after reads n)\<^sup>*\<^sup>* s0 s" "hash_start s0" "n \<le> HASH_MAX" "\<And>k. length (read_so_far reads k) < 2 ^ 64" "reads K = []"
  shows "\<exists>s'. (hstep after reads n)\<^sup>*\<^sup>* s s' \<and> pc s' = R_Done"
  using assms(1)
proof (induction "run_rank K n s" arbitrary: s rule: less_induct)
  case less
  note inv = fault_free_inv [OF less.prems assms(2-4)]
  show ?case
  proof (cases "pc s = R_Done")
    case False
    then obtain s' where s': "hstep after reads n s s'"
      using hash_progress [OF inv assms(3,4)] fault_free [OF less.prems assms(2)] by blast
    have "run_rank K n s' < run_rank K n s" using hstep_rank [OF s' inv assms(5)] .
    from less.hyps [OF this] obtain s'' where "(hstep after reads n)\<^sup>*\<^sup>* s' s''" "pc s'' = R_Done"
      using rtranclp.rtrancl_into_rtrancl [OF less.prems s'] by blast
    then show ?thesis using s' by (meson converse_rtranclp_into_rtranclp)
  qed blast
qed

lemma file_length: "length data < 2 ^ 64 \<Longrightarrow> length (read_so_far (file_reads data) k) < 2 ^ 64"
  using length_read_so_far_file [of data k] by simp

text \<open>C12. Without time-outs and failing system calls the computation always ends: no run goes on forever,
  a state from which no step is possible is the reader's success, and from every state on the way
  success can be reached.\<close>

theorem hash_threads_terminate:
  assumes "hash_start s0" "n \<le> HASH_MAX" "length data < 2 ^ 64" "(hstep after (file_reads data) n)\<^sup>*\<^sup>* s0 s"
  shows "\<not> (\<exists>f. f 0 = s \<and> (\<forall>m. hstep after (file_reads data) n (f m) (f (Suc m)))) \<and>
    ((\<nexists>s'. hstep after (file_reads data) n s s') \<longrightarrow> pc s = R_Done) \<and>
    (\<exists>s'. (hstep after (file_reads data) n)\<^sup>*\<^sup>* s s' \<and> pc s' = R_Done)"
proof -
  define K where "K = length (chunks BUFFER_SIZE data)"
  have K: "file_reads data K = []" by (simp add: file_reads_def K_def)
  note inv = fault_free_inv [OF _ assms(1,2) file_length [OF assms(3)]]
  have "False" if f: "f 0 = s" "\<And>m. hstep after (file_reads data) n (f m) (f (Suc m))" for f
  proof -
    have r: "(hstep after (file_reads data) n)\<^sup>*\<^sup>* s0 (f m)" for m
      by (induction m) (use assms(4) f in \<open>auto intro: rtranclp.rtrancl_into_rtrancl\<close>)
    have "run_rank K n (f m) + m \<le> run_rank K n (f 0)" for m
    proof (induction m)
      case (Suc m)
      then show ?case using hstep_rank [OF f(2) inv [OF r] K, of m] by simp
    qed simp
    from this [of "Suc (run_rank K n (f 0))"] show False by simp
  qed
  moreover have "pc s = R_Done" if "\<nexists>s'. hstep after (file_reads data) n s s'"
    using hash_progress [OF inv [OF assms(4)] assms(2) file_length [OF assms(3)]] fault_free [OF assms(4,1)] that by blast
  ultimately show ?thesis using fault_free_runs_end [OF assms(4,1,2) file_length [OF assms(3)] K] by blast
qed

text \<open>The globals before the first computation.\<close>

definition hash_state0 :: hstate where
  "hash_state0 = \<lparr>pc = R_Create 0, thread = (\<lambda>_. T_None), data_ready = (\<lambda>_. False), thread_ready = (\<lambda>_. False),
     buffer = (\<lambda>_. replicate BUFFER_SIZE 0), read_size = (\<lambda>_. 0), read_bufnum = 0, proc_bufnum = 0,
     pending = NoRead, nread = 0, hash_str = (\<lambda>_. replicate 150 0)\<rparr>"

lemma hash_start_state0: "hash_start hash_state0"
  by (simp add: hash_start_def hash_state0_def)

lemma success_reachable:
  assumes "length data < 2 ^ 64" "n \<le> HASH_MAX"
  shows "\<exists>s. hash_reach after (file_reads data) n s \<and> pc s = R_Done \<and> (\<forall>i. thread s i \<noteq> T_Failed)"
proof -
  have "file_reads data (length (chunks BUFFER_SIZE data)) = []" by (simp add: file_reads_def)
  from fault_free_runs_end [OF rtranclp.rtrancl_refl hash_start_state0 assms(2) file_length [OF assms(1)] this, of after]
  obtain s where s: "(hstep after (file_reads data) n)\<^sup>*\<^sup>* hash_state0 s" "pc s = R_Done" by blast
  then show ?thesis using fault_free [OF s(1) hash_start_state0] by blast
qed

lemma done_was_working:
  assumes "(hstep after reads n)\<^sup>*\<^sup>* s0 s" "hash_start s0" "thread s i = T_Done"
  shows "\<exists>u u' ctx. (hstep after reads n)\<^sup>*\<^sup>* s0 u \<and> thread u i = T_Work ctx \<and> hstep after reads n u u' \<and> i < n"
  using assms
proof induction
  case base
  then show ?case by (simp add: hash_start_def)
next
  case (step s s')
  show ?case
  proof (cases "thread s i = T_Done")
    case False
    from step.hyps(2) step.prems False have "\<exists>ctx. thread s i = T_Work ctx \<and> i < n"
      by (cases rule: hstep.cases) (auto split: if_splits)
    then show ?thesis using step.hyps by blast
  qed (use step in blast)
qed

theorem hash_threads_digest_witness:
  "\<exists>s :: hstate. pc s = R_Done \<and> takeWhile (\<lambda>c. c \<noteq> 0) (hash_str s 0) = concat (map hex_pair (MD5 [0x61, 0x62, 0x63]))"
proof -
  obtain s where s: "hash_reach (\<lambda>_ _. []) (file_reads [0x61, 0x62, 0x63]) 4 s" "pc s = R_Done" "\<forall>i. thread s i \<noteq> T_Failed"
    using success_reachable [of "[0x61, 0x62, 0x63]" 4] by (auto simp: HASH_MAX_def)
  then show ?thesis using hash_threads_digest [OF s(1) _ _ s(2), of 0] by (auto simp: HASH_MAX_def hash_standard_def)
qed

text \<open>A reachable state, before the reader gives up, in which the first of three threads works.\<close>

theorem hash_threads_no_race_witness:
  "\<exists>s s' ctx. hash_reach (\<lambda>_ _. []) (file_reads [0x61]) 3 s \<and> pc s \<noteq> R_Out \<and> thread s 0 = T_Work ctx \<and>
    hstep (\<lambda>_ _. []) (file_reads [0x61]) 3 s s' \<and> proc_bufnum s' = proc_bufnum s \<and>
    read_size s' (proc_bufnum s) = read_size s (proc_bufnum s) \<and> buffer s' (proc_bufnum s) = buffer s (proc_bufnum s)"
proof -
  let ?r = "file_reads [0x61]" and ?a = "\<lambda>_ _. []"
  have len: "\<forall>k. length (read_so_far ?r k) < 2 ^ 64" using file_length [of "[0x61]"] by simp
  obtain s where s: "(hstep ?a ?r 3)\<^sup>*\<^sup>* hash_state0 s" "pc s = R_Done"
    using fault_free_runs_end [OF rtranclp.rtrancl_refl hash_start_state0, of 3 ?r "length (chunks BUFFER_SIZE [0x61 :: u8])" ?a] len
    by (auto simp: HASH_MAX_def file_reads_def)
  have "hash_inv ?r 3 s" using fault_free_inv [OF s(1) hash_start_state0] len by (simp add: HASH_MAX_def)
  then have "thread s 0 = T_Done" using s(2) fault_free [OF s(1) hash_start_state0] by (auto simp: hash_inv_def thread_inv_def finished_def)
  from done_was_working [OF s(1) hash_start_state0 this] obtain u u' ctx
    where u: "(hstep ?a ?r 3)\<^sup>*\<^sup>* hash_state0 u" "thread u 0 = T_Work ctx" "hstep ?a ?r 3 u u'" by blast
  have r: "hash_reach ?a ?r 3 u" "pc u \<noteq> R_Out" using fault_free [OF u(1) hash_start_state0] by auto
  then show ?thesis using hash_threads_no_race [OF r(1) _ len _ u(2) r(2) u(3)] u by (auto simp: HASH_MAX_def)
qed

theorem hash_threads_terminate_witness:
  "\<exists>s'. (hstep (\<lambda>_ _. []) (file_reads [0x61, 0x62, 0x63]) 4)\<^sup>*\<^sup>* hash_state0 s' \<and> pc s' = R_Done"
  using hash_threads_terminate [OF hash_start_state0, of 4 "[0x61, 0x62, 0x63]" "\<lambda>_ _. []" hash_state0] by (simp add: HASH_MAX_def)

section \<open>Threads that time out\<close>

text \<open>
  The reader waits up to fifteen seconds for the disk, a thread only five for the reader. A thread
  that has announced itself and then times out leaves its event set, so that the reader counts it as
  ready, and its end counts as the end of its work.
\<close>

definition reached :: "memory_after \<Rightarrow> nat \<Rightarrow> (nat \<Rightarrow> u8 list) \<Rightarrow> hstate \<Rightarrow> bool" where
  "reached after n str s \<longleftrightarrow> hash_reach after (\<lambda>_. []) n s \<and> hash_str s = str"

lemma reached_step: "reached after n str s \<Longrightarrow> hstep after (\<lambda>_. []) n s s' \<Longrightarrow> hash_str s' = str \<Longrightarrow> reached after n str s'"
  unfolding reached_def by (blast intro: hash_reach.step)

lemma reached_fault: "reached after n str s \<Longrightarrow> hfault n s s' \<Longrightarrow> hash_str s' = str \<Longrightarrow> reached after n str s'"
  unfolding reached_def by (blast intro: hash_reach.fault)

lemma hash_str_reached: "reached after n str s \<Longrightarrow> hash_str s = str"
  by (simp add: reached_def)

lemma threads_created: "j \<le> n \<Longrightarrow> \<exists>s. reached after n str s \<and> pc s = R_Create j \<and> (\<forall>i<j. \<exists>ctx. thread s i = T_Start ctx)"
proof (induction j)
  case 0
  have "hash_start (hash_state0\<lparr>hash_str := str\<rparr>)" by (simp add: hash_start_def hash_state0_def)
  then have "reached after n str (hash_state0\<lparr>hash_str := str\<rparr>)" by (simp add: reached_def hash_reach.start)
  then show ?case by (intro exI [of _ "hash_state0\<lparr>hash_str := str\<rparr>"]) (simp add: hash_state0_def)
next
  case (Suc j)
  then obtain s where s: "reached after n str s" "pc s = R_Create j" "\<forall>i<j. \<exists>ctx. thread s i = T_Start ctx" by auto
  show ?case using reached_step [OF s(1) hstep.create [OF s(2)]] s Suc.prems
    by (intro exI [of _ "s\<lparr>pc := R_Create (j + 1), thread := (thread s)(j := T_Start (hash_init ! j)),
      data_ready := (data_ready s)(j := False), thread_ready := (thread_ready s)(j := False)\<rparr>"])
      (auto simp: less_Suc_eq hash_str_reached)
qed

lemma opened: "\<exists>s. reached after n str s \<and> pc s = R_Loop \<and> read_size s (proc_bufnum s) \<noteq> 0 \<and> pending s = InFlight 0 \<and> read_bufnum s = 0 \<and>
    (\<forall>i<n. \<exists>ctx. thread s i = T_Start ctx)"
proof -
  obtain s where s: "reached after n str s" "pc s = R_Create n" "\<forall>i<n. \<exists>ctx. thread s i = T_Start ctx" using threads_created [OF order_refl, of after n str] by auto
  define u where "u = s\<lparr>pc := R_Open\<rparr>"
  have "reached after n str u" using reached_step [OF s(1) hstep.created [OF s(2)]] s(1) by (simp add: u_def hash_str_reached)
  from reached_step [OF this hstep.open_file] show ?thesis
    by (intro exI [of _ "u\<lparr>pc := R_Loop, nread := 0, read_bufnum := 0, proc_bufnum := 1,
      read_size := (read_size u)(1 := 1), pending := InFlight 0\<rparr>"]) (use s hash_str_reached in \<open>simp add: u_def\<close>)
qed

text \<open>All threads have announced themselves and the reader waits for the first read.\<close>

lemma announced: "j \<le> n \<Longrightarrow> \<exists>s. reached after n str s \<and> pc s = R_Loop \<and> read_size s (proc_bufnum s) \<noteq> 0 \<and>
    (\<forall>i<j. (\<exists>ctx. thread s i = T_Wait ctx) \<and> thread_ready s i) \<and> (\<forall>i. j \<le> i \<and> i < n \<longrightarrow> (\<exists>ctx. thread s i = T_Start ctx))"
proof (induction j)
  case 0
  then show ?case using opened [of after n str] by auto
next
  case (Suc j)
  then obtain s ctx where s: "reached after n str s" "pc s = R_Loop" "read_size s (proc_bufnum s) \<noteq> 0"
    "\<forall>i<j. (\<exists>ctx. thread s i = T_Wait ctx) \<and> thread_ready s i" "\<forall>i. j \<le> i \<and> i < n \<longrightarrow> (\<exists>ctx. thread s i = T_Start ctx)" "thread s j = T_Start ctx"
    by (auto simp: Suc_le_eq) (metis order_refl)
  have j: "j < n" using Suc.prems by simp
  let ?u = "s\<lparr>thread := (thread s)(j := T_Wait ctx), thread_ready := (thread_ready s)(j := True)\<rparr>"
  have "reached after n str ?u" using reached_step [OF s(1) hstep.t_start [OF j s(6)]] s(1) by (simp add: hash_str_reached)
  then show ?case by (intro exI [of _ ?u]) (use s in \<open>auto simp: less_Suc_eq\<close>)
qed

text \<open>Threads that waited and timed out.\<close>

lemma faults_of_waiting:
  assumes "\<forall>i<n. \<exists>ctx. thread s i = T_Wait ctx" "j \<le> n"
  shows "(hfault n)\<^sup>*\<^sup>* s (s\<lparr>thread := (\<lambda>i. if i < j then T_Failed else thread s i)\<rparr>)"
  using assms(2)
proof (induction j)
  case (Suc j)
  let ?s = "s\<lparr>thread := (\<lambda>i. if i < j then T_Failed else thread s i)\<rparr>"
  have "j < n" using Suc.prems by simp
  then obtain ctx where "thread ?s j = T_Wait ctx" using assms(1) by auto
  then have "hfault n ?s (?s\<lparr>thread := (thread ?s)(j := T_Failed)\<rparr>)" using Suc.prems by (intro hfault.thread_fault) auto
  moreover have "(thread ?s)(j := T_Failed) = (\<lambda>i. if i < Suc j then T_Failed else thread s i)" by (auto simp: fun_eq_iff)
  ultimately show ?case using Suc by (simp add: rtranclp.rtrancl_into_rtrancl)
qed simp

lemma failed_stay:
  assumes "(hstep after reads n)\<^sup>*\<^sup>* u v" "\<forall>i<n. thread u i = T_Failed" "\<forall>i. pc u \<noteq> R_Create i"
  shows "hash_str v = hash_str u \<and> (\<forall>i<n. thread v i = T_Failed) \<and> (\<forall>i. pc v \<noteq> R_Create i)"
  using assms
proof induction
  case (step v w)
  then have v: "hash_str v = hash_str u" "\<forall>i<n. thread v i = T_Failed" "\<forall>i. pc v \<noteq> R_Create i" by auto
  from step.hyps(2) show ?case by (cases rule: hstep.cases) (use v in auto)
qed simp

lemma signals_sent:
  assumes "pc s = R_Signal 0" "j \<le> n"
  shows "(hstep after reads n)\<^sup>*\<^sup>* s (s\<lparr>pc := R_Signal j, data_ready := (\<lambda>i. i < j \<or> data_ready s i)\<rparr>)"
  using assms(2)
proof (induction j)
  case 0
  have "s\<lparr>pc := R_Signal 0\<rparr> = s" using assms(1) by simp
  then show ?case by simp
next
  case (Suc j)
  let ?s = "s\<lparr>pc := R_Signal j, data_ready := (\<lambda>i. i < j \<or> data_ready s i)\<rparr>"
  have "hstep after reads n ?s (?s\<lparr>pc := R_Signal (j + 1), data_ready := (data_ready ?s)(j := True)\<rparr>)"
    using Suc.prems by (intro hstep.signal) auto
  moreover have "(data_ready ?s)(j := True) = (\<lambda>i. i < Suc j \<or> data_ready s i)" by (auto simp: fun_eq_iff)
  ultimately show ?case using Suc by (simp add: rtranclp.rtrancl_into_rtrancl)
qed

text \<open>The reader alone, from an empty read it waits for to its end.\<close>

lemma reader_alone:
  assumes p: "pc s = R_WaitRead" "read_bufnum s < 3" "pending s = InFlight (read_bufnum s) \<or> pending s = Complete (read_bufnum s) 0" "reads (nread s) = []"
    and t: "\<forall>i<n. thread s i = T_Failed \<and> thread_ready s i"
  shows "\<exists>v. (hstep after reads n)\<^sup>*\<^sup>* s v \<and> pc v = R_Done"
proof -
  let ?R = "(hstep after reads n)\<^sup>*\<^sup>*" and ?b = "read_bufnum s"
  obtain s2 where s2: "?R s s2" "pc s2 = R_WaitRead" "pending s2 = Complete ?b 0" "read_bufnum s2 = ?b" "thread s2 = thread s" "thread_ready s2 = thread_ready s"
  proof (cases "pending s = Complete ?b 0")
    case False
    then have "pending s = InFlight ?b" using p(3) by blast
    then have "hstep after reads n s (complete_read reads ?b s)" unfolding complete_read_def by (rule hstep.complete)
    then have "?R s (complete_read reads ?b s)" by blast
    then show ?thesis using that p by (simp add: complete_read_def)
  qed (use p that [of s] in auto)
  define s3 where "s3 = s2\<lparr>pc := R_Launch, pending := NoRead, nread := nread s2 + 1, read_size := (read_size s2)(read_bufnum s2 := 0)\<rparr>"
  define s4 where "s4 = s3\<lparr>pc := R_WaitReady, read_bufnum := (read_bufnum s3 + 1) mod NUM_BUFFERS, pending := InFlight ((read_bufnum s3 + 1) mod NUM_BUFFERS)\<rparr>"
  define s5 where "s5 = s4\<lparr>pc := R_SetProc, thread_ready := (\<lambda>i. if i < n then False else thread_ready s4 i)\<rparr>"
  define s6 where "s6 = s5\<lparr>pc := R_Signal 0, proc_bufnum := (read_bufnum s5 + NUM_BUFFERS - 1) mod NUM_BUFFERS\<rparr>"
  define s7 where "s7 = s6\<lparr>pc := R_Signal n, data_ready := (\<lambda>i. i < n \<or> data_ready s6 i)\<rparr>"
  note defs = s3_def s4_def s5_def s6_def s7_def
  have 3: "hstep after reads n s2 s3" unfolding s3_def using s2(2,3) by (rule hstep.wait_read)
  have 4: "hstep after reads n s3 s4" unfolding s4_def by (rule hstep.launch) (simp_all add: s3_def)
  have 5: "hstep after reads n s4 s5" unfolding s5_def
    by (rule hstep.wait_ready) (use t s2(6) in \<open>simp_all add: s4_def s3_def all_threads_def list_all_iff\<close>)
  have 6: "hstep after reads n s5 s6" unfolding s6_def by (rule hstep.set_proc) (simp add: s5_def)
  have 7: "?R s6 s7" unfolding s7_def by (rule signals_sent) (simp_all add: s6_def)
  have 8: "hstep after reads n s7 (s7\<lparr>pc := R_Loop\<rparr>)" by (rule hstep.signalled) (simp add: s7_def)
  have "proc_bufnum s7 = ?b" using p(2) s2(4) by (auto simp: defs NUM_BUFFERS_def mod_Suc)
  then have "read_size s7 (proc_bufnum s7) = 0" using s2(4) by (simp add: defs)
  then have 9: "hstep after reads n (s7\<lparr>pc := R_Loop\<rparr>) (s7\<lparr>pc := R_WaitExit\<rparr>)" using hstep.leave [of "s7\<lparr>pc := R_Loop\<rparr>" after reads n] by simp
  have "all_threads n (\<lambda>i. finished (thread s7 i))" using t s2(5) by (simp add: defs all_threads_def list_all_iff finished_def)
  then have 10: "hstep after reads n (s7\<lparr>pc := R_WaitExit\<rparr>) (s7\<lparr>pc := R_Done\<rparr>)" using hstep.wait_exit [of "s7\<lparr>pc := R_WaitExit\<rparr>" n after reads] by simp
  have "?R s (s7\<lparr>pc := R_Done\<rparr>)"
    using s2(1) 3 4 5 6 7 8 9 10 by (meson rtranclp.rtrancl_into_rtrancl rtranclp_trans)
  then show ?thesis by (intro exI [of _ "s7\<lparr>pc := R_Done\<rparr>"]) simp
qed

text \<open>C27. Time-outs of the threads during the last read go unnoticed. The model has no clock: a time-out is a step a waiting
  thread may take at any moment, and in the source it may take it here, since the reader waits three times as long for the
  disk as a thread waits for the reader. Take any reachable state in which the reader waits for the read that finds the end of
  the file, and all threads have announced that they are ready and wait. If they all time out there, no continuation of the
  run changes the strings shown any more, and still the reader can go on to its end with success.\<close>

theorem timed_out_threads_unnoticed:
  assumes "hash_reach after (file_reads data) n s" "n \<le> HASH_MAX" "length data < 2 ^ 64"
    and "pc s = R_WaitRead" "file_reads data (nread s) = []" "all_threads n (\<lambda>i. (\<exists>ctx. thread s i = T_Wait ctx) \<and> thread_ready s i)"
  shows "\<exists>u. (hfault n)\<^sup>*\<^sup>* s u \<and> all_threads n (\<lambda>i. thread u i = T_Failed) \<and>
    (\<forall>v. (hstep after (file_reads data) n)\<^sup>*\<^sup>* u v \<longrightarrow> hash_str v = hash_str s) \<and>
    (\<exists>v. (hstep after (file_reads data) n)\<^sup>*\<^sup>* u v \<and> pc v = R_Done)"
proof -
  let ?u = "s\<lparr>thread := (\<lambda>i. if i < n then T_Failed else thread s i)\<rparr>"
  have w: "\<forall>i<n. (\<exists>ctx. thread s i = T_Wait ctx) \<and> thread_ready s i" using assms(6) by (simp add: all_threads_def list_all_iff)
  have f: "(hfault n)\<^sup>*\<^sup>* s ?u" using w by (intro faults_of_waiting) auto
  have "hash_inv (file_reads data) n s" using hash_reach_inv [OF assms(1,2)] file_length [OF assms(3)] by blast
  then obtain k where "reading (file_reads data) s k" using assms(4) by (auto simp: hash_inv_def reader_inv_def)
  then have r: "read_bufnum s < 3" "pending s = InFlight (read_bufnum s) \<or> pending s = Complete (read_bufnum s) 0"
    using assms(5) by (auto simp: reading_def)
  have "\<exists>v. (hstep after (file_reads data) n)\<^sup>*\<^sup>* ?u v \<and> pc v = R_Done"
    using assms(4,5) r w by (intro reader_alone) auto
  moreover have "hash_str v = hash_str s" if "(hstep after (file_reads data) n)\<^sup>*\<^sup>* ?u v" for v
    using failed_stay [OF that] assms(4) by simp
  ultimately show ?thesis using f by (intro exI [of _ ?u]) (auto simp: all_threads_def list_all_iff)
qed

text \<open>On the empty file with four digests: success, and the strings are whatever they were.\<close>

theorem timed_out_threads_unnoticed_witness:
  "\<exists>s. hash_reach (\<lambda>_ _. []) (file_reads []) 4 s \<and> pc s = R_Done \<and> hash_str s = (\<lambda>_. [0x3f, 0])"
proof -
  let ?a = "\<lambda>_ _. []" and ?str = "\<lambda>_ :: nat. [0x3f, 0] :: u8 list"
  have e: "file_reads [] = (\<lambda>_. [])" by (simp add: file_reads_def fun_eq_iff)
  obtain s where s: "reached ?a 4 ?str s" "pc s = R_Loop" "read_size s (proc_bufnum s) \<noteq> 0" "\<forall>i<4. (\<exists>ctx. thread s i = T_Wait ctx) \<and> thread_ready s i"
    using announced [OF order_refl, of ?a 4 ?str] by auto
  let ?w = "s\<lparr>pc := R_WaitRead\<rparr>"
  have w: "hash_reach ?a (file_reads []) 4 ?w" "hash_str ?w = ?str"
    using reached_step [OF s(1) hstep.loop [OF s(2,3)]] s(1) by (simp_all add: e reached_def)
  obtain u v where u: "(hfault 4)\<^sup>*\<^sup>* ?w u" "(hstep ?a (file_reads []) 4)\<^sup>*\<^sup>* u v" "pc v = R_Done" "hash_str v = ?str"
    using timed_out_threads_unnoticed [OF w(1)] w(2) s(4) by (auto simp: HASH_MAX_def e all_threads_def list_all_iff)
  have "hash_reach ?a (file_reads []) 4 u" using u(1) w(1) by induction (blast intro: hash_reach.fault)+
  then have "hash_reach ?a (file_reads []) 4 v" using u(2) by (induction rule: rtranclp_induct [OF u(2)]) (blast intro: hash_reach.step)+
  then show ?thesis using u(3,4) by blast
qed

end
