(* ===== verification/Json.thy ===== *)
theory Json
  imports Prelude
begin

text \<open>
  The bounded JSON walker of \<open>src/src/nawam_security.h\<close>. A cursor into the text is the list of the
  bytes from the cursor to the end of the text, so a walk cannot leave the text by construction of the
  tests \<open>*p < end\<close> and \<open>*p == end\<close> of the source, each of which is a case of a list; a walker returns
  the cursor behind what it recognised, or \<open>None\<close>.

  The reference is the grammar of RFC 8259 as an inductive definition, with the nesting cap.
\<close>

section \<open>The walker\<close>

definition NawamHexDigit :: "u8 \<Rightarrow> int" where
  "NawamHexDigit c =
     (if 0x30 \<le> c \<and> c \<le> 0x39 then int (unat c) - 0x30
      else if 0x61 \<le> c \<and> c \<le> 0x66 then int (unat c) - 0x61 + 10
      else if 0x41 \<le> c \<and> c \<le> 0x46 then int (unat c) - 0x41 + 10
      else -1)"

definition json_blank :: "u8 \<Rightarrow> bool" where
  "json_blank c \<longleftrightarrow> c = 0x20 \<or> c = 0x09 \<or> c = 0x0d \<or> c = 0x0a"

definition NawamJsonSpace :: "u8 list \<Rightarrow> u8 list" where
  "NawamJsonSpace p = dropWhile json_blank p"

text \<open>The four digits of an escape.\<close>

fun json_hex :: "nat \<Rightarrow> u8 list \<Rightarrow> u8 list option" where
  "json_hex 0 p = Some p"
| "json_hex (Suc n) [] = None"
| "json_hex (Suc n) (c # p) = (if NawamHexDigit c < 0 then None else json_hex n p)"

lemma json_hex_length: "json_hex n p = Some q \<Longrightarrow> length p = n + length q"
  by (induction n p rule: json_hex.induct) (auto split: if_splits)

definition json_escapes :: "u8 list" where
  "json_escapes = [0x22, 0x5c, 0x2f, 0x62, 0x66, 0x6e, 0x72, 0x74]"

text \<open>The loop over the characters of a string.\<close>

function json_chars :: "u8 list \<Rightarrow> u8 list option" where
  "json_chars p =
     (case p of
        [] \<Rightarrow> None
      | c # p \<Rightarrow>
          if c = 0x22 then Some p
          else if c < 32 then None
          else if c = 0x5c then
            (case p of
               [] \<Rightarrow> None
             | c # p \<Rightarrow>
                 if c = 0x75 then
                   (case json_hex 4 p of None \<Rightarrow> None | Some q \<Rightarrow> json_chars q)
                 else if c \<notin> set json_escapes \<or> c = 0 then None
                 else json_chars p)
          else json_chars p)"
  by pat_completeness auto
termination
  by (relation "measure length") (auto dest: json_hex_length)

declare json_chars.simps [simp del]

definition NawamJsonString :: "u8 list \<Rightarrow> u8 list option" where
  "NawamJsonString p = (case p of [] \<Rightarrow> None | c # p \<Rightarrow> if c \<noteq> 0x22 then None else json_chars p)"

definition json_digit :: "u8 \<Rightarrow> bool" where
  "json_digit c \<longleftrightarrow> 0x30 \<le> c \<and> c \<le> 0x39"

text \<open>\<open>start = p; while (digit) p++; if (p == start) return 0;\<close>\<close>

definition json_digits :: "u8 list \<Rightarrow> u8 list option" where
  "json_digits p = (if takeWhile json_digit p = [] then None else Some (dropWhile json_digit p))"

definition json_integer :: "u8 list \<Rightarrow> u8 list option" where
  "json_integer p = (case p of [] \<Rightarrow> None | c # r \<Rightarrow> if c = 0x30 then Some r else json_digits p)"

definition json_fraction :: "u8 list \<Rightarrow> u8 list option" where
  "json_fraction p = (case p of c # r \<Rightarrow> if c = 0x2e then json_digits r else Some p | [] \<Rightarrow> Some p)"

definition json_sign :: "u8 list \<Rightarrow> u8 list" where
  "json_sign p = (case p of c # r \<Rightarrow> if c = 0x2b \<or> c = 0x2d then r else p | [] \<Rightarrow> p)"

definition json_minus :: "u8 list \<Rightarrow> u8 list" where
  "json_minus p = (case p of c # r \<Rightarrow> if c = 0x2d then r else p | [] \<Rightarrow> p)"

definition json_exponent :: "u8 list \<Rightarrow> u8 list option" where
  "json_exponent p = (case p of
       c # r \<Rightarrow>
         if c = 0x65 \<or> c = 0x45 then
           json_digits (json_sign r)
         else Some p
     | [] \<Rightarrow> Some p)"

text \<open>The part of \<open>NawamJsonValue\<close> behind the strings, objects and arrays.\<close>

definition json_true :: "u8 list" where "json_true = [0x74, 0x72, 0x75, 0x65]"
definition json_null :: "u8 list" where "json_null = [0x6e, 0x75, 0x6c, 0x6c]"
definition json_false :: "u8 list" where "json_false = [0x66, 0x61, 0x6c, 0x73, 0x65]"

definition json_scalar :: "u8 list \<Rightarrow> u8 list option" where
  "json_scalar p =
     (if length p \<ge> 4 \<and> (take 4 p = json_true \<or> take 4 p = json_null) then Some (drop 4 p)
      else if length p \<ge> 5 \<and> take 5 p = json_false then Some (drop 5 p)
      else
        do { p \<leftarrow> json_integer (json_minus p);
             p \<leftarrow> json_fraction p;
             json_exponent p })"

text \<open>The key of a member and its colon; an element of an array has none.\<close>

definition json_key :: "u8 \<Rightarrow> u8 list \<Rightarrow> u8 list option" where
  "json_key close p =
     (if close = 0x7d
      then (case NawamJsonString p of None \<Rightarrow> None
            | Some q \<Rightarrow> (case NawamJsonSpace q of [] \<Rightarrow> None | c # r \<Rightarrow> if c \<noteq> 0x3a then None else Some r))
      else Some p)"

text \<open>A walker never moves its cursor back.\<close>

lemma json_space_length: "length (NawamJsonSpace p) \<le> length p"
  by (simp add: NawamJsonSpace_def length_dropWhile_le)

lemma json_chars_cases:
  assumes "json_chars p = Some q"
  obtains (quote) "p = 0x22 # q"
  | (unicode) r s where "p = 0x5c # 0x75 # r" "json_hex 4 r = Some s" "json_chars s = Some q"
  | (escape) c r where "p = 0x5c # c # r" "c \<noteq> 0x75" "c \<in> set json_escapes" "json_chars r = Some q"
  | (plain) c r where "p = c # r" "c \<noteq> 0x22" "\<not> c < 32" "c \<noteq> 0x5c" "json_chars r = Some q"
  using assms by (subst (asm) json_chars.simps) (auto split: list.splits if_splits option.splits)

lemma json_chars_length: "json_chars p = Some q \<Longrightarrow> length q < length p"
proof (induction p rule: length_induct)
  case (1 p)
  note ih = "1.IH" [rule_format]
  from "1.prems" show ?case
  proof (cases rule: json_chars_cases)
    case (unicode r s)
    then show ?thesis using ih [of s] json_hex_length [of 4 r s] by simp
  next
    case (escape c r)
    then show ?thesis using ih [of r] by simp
  next
    case (plain c r)
    then show ?thesis using ih [of r] by simp
  qed simp
qed

lemma json_string_length: "NawamJsonString p = Some q \<Longrightarrow> length q < length p"
  by (auto simp: NawamJsonString_def split: list.splits if_splits dest: json_chars_length)

lemma json_digits_length: "json_digits p = Some q \<Longrightarrow> length q < length p"
  by (cases p) (auto simp: json_digits_def split: if_splits intro: le_imp_less_Suc length_dropWhile_le)

lemma json_integer_length: "json_integer p = Some q \<Longrightarrow> length q < length p"
  by (auto simp: json_integer_def split: list.splits if_splits dest: json_digits_length)

lemma json_fraction_length: "json_fraction p = Some q \<Longrightarrow> length q \<le> length p"
  by (auto simp: json_fraction_def split: list.splits if_splits dest!: json_digits_length)

lemma json_exponent_length: "json_exponent p = Some q \<Longrightarrow> length q \<le> length p"
  by (auto simp: json_exponent_def json_sign_def split: list.splits if_splits dest!: json_digits_length)

lemma json_scalar_length: "json_scalar p = Some q \<Longrightarrow> length q \<le> length p"
  by (auto simp: json_scalar_def json_minus_def bind_eq_Some_conv split: list.splits if_splits
      dest!: json_integer_length json_fraction_length json_exponent_length)

lemma json_space_Cons_length: "NawamJsonSpace p = c # r \<Longrightarrow> length r < length p"
  using json_space_length [of p] by simp

lemma json_key_length: "json_key close p = Some q \<Longrightarrow> length q \<le> length p"
  by (auto simp: json_key_def split: if_splits option.splits list.splits
      dest!: json_string_length json_space_Cons_length)

text \<open>\<open>NawamJsonValue\<close> and its loop over the members of an object or the elements of an array.\<close>

function NawamJsonValue :: "nat \<Rightarrow> u8 list \<Rightarrow> u8 list option"
  and json_members :: "u8 \<Rightarrow> nat \<Rightarrow> u8 list \<Rightarrow> u8 list option" where
  "NawamJsonValue depth p =
     (if depth > 32 then None
      else case NawamJsonSpace p of
        [] \<Rightarrow> None
      | c # r \<Rightarrow>
          if c = 0x22 then NawamJsonString (c # r)
          else if c = 0x7b \<or> c = 0x5b then
            let close = (if c = 0x7b then 0x7d else 0x5d); p' = NawamJsonSpace r in
            if p' \<noteq> [] \<and> hd p' = close then Some (tl p') else json_members close depth p'
          else json_scalar (c # r))"
| "json_members close depth p =
     (case json_key close p of
        None \<Rightarrow> None
      | Some p1 \<Rightarrow>
          (case NawamJsonValue (depth + 1) p1 of
             None \<Rightarrow> None
           | Some p2 \<Rightarrow>
               (case NawamJsonSpace p2 of
                  [] \<Rightarrow> None
                | c # r \<Rightarrow>
                    if c = close then Some r
                    else if c \<noteq> 0x2c then None
                    else json_members close depth (NawamJsonSpace r))))"
  by pat_completeness auto
termination
proof -
  have shorter:
    "NawamJsonValue_json_members_dom (Inl (d, p)) \<Longrightarrow> \<forall>q. NawamJsonValue d p = Some q \<longrightarrow> length q \<le> length p"
    "NawamJsonValue_json_members_dom (Inr (c, e, r)) \<Longrightarrow> \<forall>q. json_members c e r = Some q \<longrightarrow> length q \<le> length r"
    for d p c e r
  proof (induction d p and c e r rule: NawamJsonValue_json_members.pinduct)
    case (1 depth p)
    show ?case
    proof (intro allI impI)
      fix q
      assume v: "NawamJsonValue depth p = Some q"
      then obtain c r where sp: "NawamJsonSpace p = c # r" and d: "\<not> 32 < depth"
        by (auto simp: NawamJsonValue.psimps [OF "1.hyps"] split: if_splits list.splits)
      consider "c = 0x22" | "c \<noteq> 0x22" "c = 0x7b \<or> c = 0x5b" | "c \<noteq> 0x22" "\<not> (c = 0x7b \<or> c = 0x5b)"
        by blast
      then show "length q \<le> length p"
      proof cases
        case 1
        then show ?thesis
          using v sp d json_string_length [of "c # r" q] json_space_length [of p]
          by (simp add: NawamJsonValue.psimps [OF "1.hyps"])
      next
        case 2
        then show ?thesis
          using v sp d json_space_length [of p] json_space_length [of r]
            "1.IH" [OF d sp 2 refl refl]
          by (auto simp: NawamJsonValue.psimps [OF "1.hyps"] Let_def split: if_splits)
      next
        case 3
        then show ?thesis
          using v sp d json_scalar_length [of "c # r" q] json_space_length [of p]
          by (simp add: NawamJsonValue.psimps [OF "1.hyps"])
      qed
    qed
  next
    case (2 close depth p)
    show ?case
    proof (intro allI impI)
      fix q
      assume m: "json_members close depth p = Some q"
      then obtain p1 p2 c r where p: "json_key close p = Some p1" "NawamJsonValue (depth + 1) p1 = Some p2"
        "NawamJsonSpace p2 = c # r" and q: "q = r \<or> c = 0x2c \<and> c \<noteq> close \<and> json_members close depth (NawamJsonSpace r) = Some q"
        by (auto simp: json_members.psimps [OF "2.hyps"] split: if_splits option.splits list.splits)
      have "length p2 \<le> length p1" using "2.IH"(1) p by simp
      moreover have "length p1 \<le> length p" by (rule json_key_length [OF p(1)])
      moreover have "length r < length p2" by (rule json_space_Cons_length [OF p(3)])
      moreover have "length q \<le> length r"
        using q "2.IH"(2) [OF p] json_space_length [of r] by auto
      ultimately show "length q \<le> length p" by linarith
    qed
  qed
  show ?thesis
  proof (relation "measure (\<lambda>x. case x of Inl (d, p) \<Rightarrow> 2 * length p | Inr (c, d, p) \<Rightarrow> 2 * length p + 1)", goal_cases)
    case 1
    show ?case by simp
  next
    case (2 depth p c r close p')
    then show ?case using json_space_Cons_length [of p c r] json_space_length [of r] by simp
  next
    case (3 close depth p p1)
    then show ?case using json_key_length [of close p p1] by simp
  next
    case (4 close depth p p1 p2 c r)
    then show ?case
      using json_key_length [of close p p1] shorter(1) [of "depth + 1" p1] json_space_Cons_length [of p2 c r]
        json_space_length [of r]
      by simp
  qed
qed

declare NawamJsonValue.simps [simp del] json_members.simps [simp del]

section \<open>The grammar\<close>

text \<open>
  The productions of RFC 8259 over bytes (its encoding rules for characters above 127 are not checked
  by the program); a value carries the depth it stands at, at most 32.
\<close>

definition jspace :: "u8 list \<Rightarrow> bool" where
  "jspace w \<longleftrightarrow> list_all json_blank w"

inductive jchars :: "u8 list \<Rightarrow> bool" where
  jchars_end: "jchars [0x22]"
| jchars_plain: "\<not> c < 32 \<Longrightarrow> c \<noteq> 0x22 \<Longrightarrow> c \<noteq> 0x5c \<Longrightarrow> jchars s \<Longrightarrow> jchars (c # s)"
| jchars_escape: "c \<in> set json_escapes \<Longrightarrow> jchars s \<Longrightarrow> jchars (0x5c # c # s)"
| jchars_unicode: "length h = 4 \<Longrightarrow> list_all (\<lambda>c. NawamHexDigit c \<ge> 0) h \<Longrightarrow> jchars s \<Longrightarrow> jchars (0x5c # 0x75 # h @ s)"

inductive jstring :: "u8 list \<Rightarrow> bool" where
  jstringI: "jchars s \<Longrightarrow> jstring (0x22 # s)"

definition jdigits :: "u8 list \<Rightarrow> bool" where
  "jdigits s \<longleftrightarrow> s \<noteq> [] \<and> list_all json_digit s"

definition jinteger :: "u8 list \<Rightarrow> bool" where
  "jinteger s \<longleftrightarrow> s = [0x30] \<or> (jdigits s \<and> hd s \<noteq> 0x30)"

definition jfraction :: "u8 list \<Rightarrow> bool" where
  "jfraction s \<longleftrightarrow> s = [] \<or> (\<exists>t. s = 0x2e # t \<and> jdigits t)"

definition jexponent :: "u8 list \<Rightarrow> bool" where
  "jexponent s \<longleftrightarrow> s = [] \<or>
     (\<exists>e g t. s = e # g @ t \<and> e \<in> {0x65, 0x45} \<and> g \<in> {[], [0x2b], [0x2d]} \<and> jdigits t)"

inductive jnumber :: "u8 list \<Rightarrow> bool" where
  jnumberI: "m \<in> {[], [0x2d]} \<Longrightarrow> jinteger i \<Longrightarrow> jfraction f \<Longrightarrow> jexponent e \<Longrightarrow> jnumber (m @ i @ f @ e)"

definition jkey :: "u8 \<Rightarrow> u8 list \<Rightarrow> bool" where
  "jkey close k \<longleftrightarrow> (if close = 0x7d then \<exists>s w. k = s @ w @ [0x3a] \<and> jstring s \<and> jspace w else k = [])"

definition jclose :: "u8 \<Rightarrow> u8" where
  "jclose c = (if c = 0x7b then 0x7d else 0x5d)"

inductive jvalue :: "nat \<Rightarrow> u8 list \<Rightarrow> bool"
  and jitems :: "u8 \<Rightarrow> nat \<Rightarrow> u8 list \<Rightarrow> bool" where
  jvalue_string: "d \<le> 32 \<Longrightarrow> jstring s \<Longrightarrow> jvalue d s"
| jvalue_number: "d \<le> 32 \<Longrightarrow> jnumber s \<Longrightarrow> jvalue d s"
| jvalue_literal: "d \<le> 32 \<Longrightarrow> s \<in> {json_true, json_null, json_false} \<Longrightarrow> jvalue d s"
| jvalue_empty: "d \<le> 32 \<Longrightarrow> c \<in> {0x7b, 0x5b} \<Longrightarrow> jspace w \<Longrightarrow> jvalue d (c # w @ [jclose c])"
| jvalue_items: "d \<le> 32 \<Longrightarrow> c \<in> {0x7b, 0x5b} \<Longrightarrow> jspace w \<Longrightarrow> jitems (jclose c) d s \<Longrightarrow> jvalue d (c # w @ s)"
| jitems_one: "jkey close k \<Longrightarrow> jspace w \<Longrightarrow> jvalue (d + 1) v \<Longrightarrow> jspace w' \<Longrightarrow>
    jitems close d (k @ w @ v @ w' @ [close])"
| jitems_more: "jkey close k \<Longrightarrow> jspace w \<Longrightarrow> jvalue (d + 1) v \<Longrightarrow> jspace w' \<Longrightarrow> jspace w'' \<Longrightarrow>
    jitems close d s \<Longrightarrow> jitems close d (k @ w @ v @ w' @ [0x2c] @ w'' @ s)"

section \<open>The walker recognises only the grammar\<close>

lemma space_split: "\<exists>w. p = w @ NawamJsonSpace p \<and> jspace w"
  by (rule exI [of _ "takeWhile json_blank p"])
    (auto simp: NawamJsonSpace_def jspace_def list_all_iff dest: set_takeWhileD)

lemma space_append: "jspace w \<Longrightarrow> NawamJsonSpace (w @ q) = NawamJsonSpace q"
  by (simp add: NawamJsonSpace_def jspace_def list_all_iff dropWhile_append2)

lemma space_Cons: "\<not> json_blank c \<Longrightarrow> NawamJsonSpace (c # q) = c # q"
  by (simp add: NawamJsonSpace_def)

lemma space_Nil [simp]: "NawamJsonSpace [] = []"
  by (simp add: NawamJsonSpace_def)

lemma json_hex_split: "json_hex n p = Some q \<Longrightarrow>
  \<exists>h. p = h @ q \<and> length h = n \<and> list_all (\<lambda>c. NawamHexDigit c \<ge> 0) h"
proof (induction n p rule: json_hex.induct)
  case (3 n c p)
  then obtain h where "p = h @ q \<and> length h = n \<and> list_all (\<lambda>c. NawamHexDigit c \<ge> 0) h"
    by (auto split: if_splits)
  with "3.prems" show ?case by (auto intro!: exI [of _ "c # h"] split: if_splits)
qed auto

lemma json_chars_split: "json_chars p = Some q \<Longrightarrow> \<exists>s. p = s @ q \<and> jchars s"
proof (induction p rule: length_induct)
  case (1 p)
  note ih = "1.IH" [rule_format]
  from "1.prems" show ?case
  proof (cases rule: json_chars_cases)
    case quote
    then show ?thesis using jchars_end by (metis append_Cons append_Nil)
  next
    case (unicode r s)
    from json_hex_split [OF unicode(2)] obtain h where
      h: "r = h @ s" "length h = 4" "list_all (\<lambda>c. NawamHexDigit c \<ge> 0) h" by blast
    then obtain t where t: "s = t @ q" "jchars t" using ih [of s] unicode by auto
    show ?thesis
      by (rule exI [of _ "0x5c # 0x75 # h @ t"]) (use unicode h t in \<open>auto intro: jchars_unicode\<close>)
  next
    case (escape c r)
    then obtain t where t: "r = t @ q" "jchars t" using ih [of r] by auto
    show ?thesis
      by (rule exI [of _ "0x5c # c # t"]) (use escape t in \<open>auto intro: jchars_escape\<close>)
  next
    case (plain c r)
    then obtain t where t: "r = t @ q" "jchars t" using ih [of r] by auto
    show ?thesis
      by (rule exI [of _ "c # t"]) (use plain t in \<open>auto intro: jchars_plain\<close>)
  qed
qed

lemma json_string_split: "NawamJsonString p = Some q \<Longrightarrow> \<exists>s. p = s @ q \<and> jstring s"
  by (fastforce simp: NawamJsonString_def split: list.splits if_splits dest!: json_chars_split
      intro: jstringI)

lemma json_digits_split: "json_digits p = Some q \<Longrightarrow> \<exists>s. p = s @ q \<and> jdigits s"
  by (rule exI [of _ "takeWhile json_digit p"])
    (auto simp: json_digits_def jdigits_def list_all_iff split: if_splits dest: set_takeWhileD)

lemma json_integer_split:
  assumes "json_integer p = Some q"
  shows "\<exists>s. p = s @ q \<and> jinteger s"
proof (cases "hd p = 0x30")
  case True
  with assms have "p = [0x30] @ q" by (auto simp: json_integer_def split: list.splits if_splits)
  then show ?thesis by (auto simp: jinteger_def)
next
  case False
  with assms have "json_digits p = Some q" by (auto simp: json_integer_def split: list.splits if_splits)
  from json_digits_split [OF this] False show ?thesis
    by (auto simp: jinteger_def jdigits_def)
qed

lemma json_fraction_split: "json_fraction p = Some q \<Longrightarrow> \<exists>s. p = s @ q \<and> jfraction s"
  by (auto simp: json_fraction_def jfraction_def split: list.splits if_splits dest!: json_digits_split)

lemma json_sign_split: "\<exists>g. r = g @ json_sign r \<and> g \<in> {[], [0x2b], [0x2d]}"
  by (auto simp: json_sign_def split: list.splits)

lemma json_minus_split: "\<exists>g. r = g @ json_minus r \<and> g \<in> {[], [0x2d]}"
  by (auto simp: json_minus_def split: list.splits)

lemma json_exponent_split:
  assumes "json_exponent p = Some q"
  shows "\<exists>s. p = s @ q \<and> jexponent s"
proof -
  consider "p = q" | e r where "p = e # r" "e \<in> {0x65, 0x45}" "json_digits (json_sign r) = Some q"
    using assms by (auto simp: json_exponent_def split: list.splits if_splits)
  then show ?thesis
  proof cases
    case 1
    then show ?thesis by (auto simp: jexponent_def)
  next
    case (2 e r)
    from json_digits_split [OF 2(3)] obtain t where t: "json_sign r = t @ q" "jdigits t" by blast
    from json_sign_split obtain g where g: "r = g @ json_sign r" "g \<in> {[], [0x2b], [0x2d]}" by blast
    have "p = (e # g @ t) @ q" using g(1) 2(1) t(1) by simp
    moreover have "jexponent (e # g @ t)" using 2(2) g(2) t(2) by (auto simp: jexponent_def)
    ultimately show ?thesis by blast
  qed
qed

lemma json_scalar_split:
  assumes "json_scalar p = Some q"
  shows "\<exists>s. p = s @ q \<and> (jnumber s \<or> s \<in> {json_true, json_null, json_false})"
proof -
  consider (lit) n where "take n p \<in> {json_true, json_null, json_false}" "q = drop n p"
    | (num) a b where "json_integer (json_minus p) = Some a" "json_fraction a = Some b" "json_exponent b = Some q"
    using assms by (auto simp: json_scalar_def bind_eq_Some_conv split: if_splits)
  then show ?thesis
  proof cases
    case lit
    then show ?thesis by (metis append_take_drop_id)
  next
    case num
    obtain m where m: "p = m @ json_minus p" "m \<in> {[], [0x2d]}" using json_minus_split by blast
    obtain i f e where "json_minus p = i @ a" "a = f @ b" "b = e @ q" "jinteger i" "jfraction f" "jexponent e"
      using num json_integer_split json_fraction_split json_exponent_split by blast
    then have "p = (m @ i @ f @ e) @ q" "jnumber (m @ i @ f @ e)"
      using m(1) jnumberI [OF m(2)] by simp_all
    then show ?thesis by blast
  qed
qed

lemma json_key_split:
  assumes "json_key close p = Some q"
  shows "\<exists>k. p = k @ q \<and> jkey close k"
proof (cases "close = 0x7d")
  case True
  with assms obtain r where r: "NawamJsonString p = Some r" "NawamJsonSpace r = 0x3a # q"
    by (auto simp: json_key_def split: option.splits list.splits if_splits)
  obtain s where s: "p = s @ r" "jstring s" using json_string_split [OF r(1)] by blast
  obtain w where "r = w @ 0x3a # q" "jspace w" using space_split [of r] r(2) by auto
  with s True have "p = (s @ w @ [0x3a]) @ q" "jkey close (s @ w @ [0x3a])" by (auto simp: jkey_def)
  then show ?thesis by blast
qed (use assms in \<open>auto simp: json_key_def jkey_def\<close>)

lemma json_members_cases:
  assumes "json_members close depth p = Some q"
  obtains p1 p2 where "json_key close p = Some p1" "NawamJsonValue (depth + 1) p1 = Some p2" "NawamJsonSpace p2 = close # q"
  | p1 p2 r where "json_key close p = Some p1" "NawamJsonValue (depth + 1) p1 = Some p2" "NawamJsonSpace p2 = 0x2c # r"
      "0x2c \<noteq> close" "json_members close depth (NawamJsonSpace r) = Some q"
  using assms by (subst (asm) json_members.simps) (auto split: option.splits list.splits if_splits)

lemma json_value_cases:
  assumes "NawamJsonValue depth p = Some q"
  obtains (strings) "depth \<le> 32" "NawamJsonString (NawamJsonSpace p) = Some q"
  | (empty) c r where "depth \<le> 32" "NawamJsonSpace p = c # r" "c \<in> {0x7b, 0x5b}" "NawamJsonSpace r = jclose c # q"
  | (items) c r where "depth \<le> 32" "NawamJsonSpace p = c # r" "c \<in> {0x7b, 0x5b}"
      "\<not> (NawamJsonSpace r \<noteq> [] \<and> hd (NawamJsonSpace r) = jclose c)"
      "json_members (jclose c) depth (NawamJsonSpace r) = Some q"
  | (scalar) "depth \<le> 32" "json_scalar (NawamJsonSpace p) = Some q"
proof -
  from assms obtain c r where sp: "NawamJsonSpace p = c # r" and d: "depth \<le> 32"
    by (subst (asm) NawamJsonValue.simps) (auto split: if_splits list.splits)
  consider "c = 0x22" | "c \<noteq> 0x22" "c = 0x7b \<or> c = 0x5b" | "c \<noteq> 0x22" "\<not> (c = 0x7b \<or> c = 0x5b)"
    by blast
  then show thesis
  proof cases
    case 1
    with assms sp d show thesis by (intro strings) (simp_all add: NawamJsonValue.simps [of _ p])
  next
    case 2
    note v = assms [unfolded NawamJsonValue.simps [of _ p] sp]
    show thesis
    proof (cases "NawamJsonSpace r \<noteq> [] \<and> hd (NawamJsonSpace r) = jclose c")
      case True
      with v d 2 have "NawamJsonSpace r = jclose c # q"
        by (cases "NawamJsonSpace r") (auto simp: jclose_def Let_def)
      with 2 sp d show thesis by (intro empty) auto
    next
      case False
      with v d 2 have "json_members (jclose c) depth (NawamJsonSpace r) = Some q"
        by (auto simp: jclose_def Let_def split: if_splits)
      with False 2 sp d show thesis by (intro items [OF d sp]) auto
    qed
  next
    case 3
    with assms sp d show thesis by (intro scalar) (simp_all add: NawamJsonValue.simps [of _ p])
  qed
qed

lemma json_value_split:
  "NawamJsonValue d p = Some q \<Longrightarrow> \<exists>w v. p = w @ v @ q \<and> jspace w \<and> jvalue d v"
  "json_members c e r = Some q \<Longrightarrow> \<exists>s. r = s @ q \<and> jitems c e s"
proof (induction d p and c e r arbitrary: q and q rule: NawamJsonValue_json_members.induct)
  case (1 depth p)
  obtain w where w: "p = w @ NawamJsonSpace p" "jspace w" using space_split by blast
  from "1.prems" have "\<exists>v. NawamJsonSpace p = v @ q \<and> jvalue depth v"
  proof (cases rule: json_value_cases)
    case strings
    then show ?thesis using json_string_split jvalue_string by blast
  next
    case (empty c r)
    then show ?thesis using space_split [of r] jvalue_empty [of depth c] by fastforce
  next
    case (items c r)
    obtain w' where w': "r = w' @ NawamJsonSpace r" "jspace w'" using space_split by blast
    have "\<exists>s. NawamJsonSpace r = s @ q \<and> jitems (jclose c) depth s"
      using items by (intro "1.IH" [of c r]) (auto simp: jclose_def)
    then obtain s where s: "NawamJsonSpace r = s @ q" "jitems (jclose c) depth s" by blast
    have "NawamJsonSpace p = (c # w' @ s) @ q" using items(2) w'(1) s(1) by simp
    then show ?thesis using jvalue_items [OF items(1,3) w'(2) s(2)] by blast
  next
    case scalar
    then show ?thesis using json_scalar_split jvalue_number jvalue_literal by blast
  qed
  with w show ?case by metis
next
  case (2 close depth p)
  have value_split: "\<exists>k w v w'. p = k @ w @ v @ w' @ NawamJsonSpace p2 \<and> jkey close k \<and> jspace w \<and> jvalue (depth + 1) v \<and> jspace w'"
    if v: "json_key close p = Some p1" "NawamJsonValue (depth + 1) p1 = Some p2" for p1 p2
  proof -
    obtain k where k: "p = k @ p1" "jkey close k" using json_key_split v(1) by blast
    obtain w v where wv: "p1 = w @ v @ p2" "jspace w" "jvalue (depth + 1) v" using "2.IH"(1) [OF v] by blast
    obtain w' where "p2 = w' @ NawamJsonSpace p2" "jspace w'" using space_split by blast
    with k wv show ?thesis by metis
  qed
  from "2.prems" show ?case
  proof (cases rule: json_members_cases)
    case (1 p1 p2)
    from value_split [OF 1(1,2)] 1(3) obtain k w v w' where
      "p = (k @ w @ v @ w' @ [close]) @ q" "jkey close k" "jspace w" "jvalue (depth + 1) v" "jspace w'" by auto
    then show ?thesis using jitems_one by blast
  next
    case (2 p1 p2 r)
    obtain w'' where w'': "r = w'' @ NawamJsonSpace r" "jspace w''" using space_split by blast
    obtain s where s: "NawamJsonSpace r = s @ q" "jitems close depth s"
      using "2.IH"(2) [OF 2(1,2,3) 2(4) _ 2(5)] by auto
    from value_split [OF 2(1,2)] 2(3) obtain k w v w' where
      "p = k @ w @ v @ w' @ 0x2c # r" "jkey close k" "jspace w" "jvalue (depth + 1) v" "jspace w'" by auto
    then have "p = (k @ w @ v @ w' @ [0x2c] @ w'' @ s) @ q" "jitems close depth (k @ w @ v @ w' @ [0x2c] @ w'' @ s)"
      using w'' s jitems_more [of close k w depth v w' w'' s] by auto
    then show ?thesis by blast
  qed
qed

section \<open>The walker recognises all of the grammar\<close>

text \<open>What may follow a value: a number is read as far as it goes.\<close>

definition jstop :: "u8 list \<Rightarrow> bool" where
  "jstop q \<longleftrightarrow> (case q of [] \<Rightarrow> True | c # r \<Rightarrow> \<not> json_digit c \<and> c \<notin> {0x2e, 0x65, 0x45})"

lemma json_hex_complete: "list_all (\<lambda>c. NawamHexDigit c \<ge> 0) h \<Longrightarrow> json_hex (length h) (h @ q) = Some q"
  by (induction h) auto

lemma json_chars_complete: "jchars s \<Longrightarrow> json_chars (s @ q) = Some q"
proof (induction rule: jchars.induct)
  case jchars_end
  show ?case by (simp add: json_chars.simps)
next
  case (jchars_plain c s)
  then show ?case by (subst json_chars.simps) simp
next
  case (jchars_escape c s)
  then have "c \<noteq> 0 \<and> c \<noteq> 0x75" by (auto simp: json_escapes_def)
  with jchars_escape show ?case by (subst json_chars.simps) simp
next
  case (jchars_unicode h s)
  then show ?case using json_hex_complete [of h "s @ q"] by (subst json_chars.simps) simp
qed

lemma json_string_complete: "jstring s \<Longrightarrow> NawamJsonString (s @ q) = Some q"
  by (auto simp: NawamJsonString_def json_chars_complete elim: jstring.cases)

lemma json_digits_complete:
  "jdigits s \<Longrightarrow> q = [] \<or> \<not> json_digit (hd q) \<Longrightarrow> json_digits (s @ q) = Some q"
  by (cases s; cases q)
    (auto simp: json_digits_def jdigits_def list_all_iff takeWhile_append2 dropWhile_append2)

lemma jstopD: "jstop q \<Longrightarrow> q = [] \<or> \<not> json_digit (hd q) \<and> hd q \<notin> {0x2e, 0x65, 0x45}"
  by (auto simp: jstop_def split: list.splits)

lemma json_exponent_complete:
  assumes "jexponent s" "jstop q"
  shows "json_exponent (s @ q) = Some q"
  using assms(1) unfolding jexponent_def
proof (elim disjE exE conjE)
  assume "s = []"
  with jstopD [OF assms(2)] show ?thesis by (auto simp: json_exponent_def split: list.splits)
next
  fix e g t
  assume s: "s = e # g @ t" "e \<in> {0x65, 0x45}" "g \<in> {[], [0x2b], [0x2d]}" "jdigits t"
  have "json_sign (g @ t @ q) = t @ q"
    using s(3,4) by (cases t) (auto simp: json_sign_def jdigits_def json_digit_def)
  with s json_digits_complete [OF s(4), of q] jstopD [OF assms(2)] show ?thesis
    by (auto simp: json_exponent_def)
qed

lemma jexponent_head: "jexponent e \<Longrightarrow> jstop q \<Longrightarrow> e @ q = [] \<or> \<not> json_digit (hd (e @ q)) \<and> hd (e @ q) \<noteq> 0x2e"
  by (cases e) (auto simp: jexponent_def json_digit_def dest: jstopD)

lemma json_fraction_complete:
  assumes "jfraction f" "q = [] \<or> \<not> json_digit (hd q) \<and> hd q \<noteq> 0x2e"
  shows "json_fraction (f @ q) = Some q"
  using assms json_digits_complete [of "tl f" q]
  by (auto simp: jfraction_def json_fraction_def split: list.splits)

lemma jfraction_head: "jfraction f \<Longrightarrow> q = [] \<or> \<not> json_digit (hd q) \<Longrightarrow> f @ q = [] \<or> \<not> json_digit (hd (f @ q))"
  by (cases f) (auto simp: jfraction_def json_digit_def)

lemma json_integer_complete:
  assumes "jinteger i" "q = [] \<or> \<not> json_digit (hd q)"
  shows "json_integer (i @ q) = Some q"
  using assms json_digits_complete [of i q]
  by (cases i) (auto simp: jinteger_def json_integer_def jdigits_def)

lemma jnumber_head:
  assumes "jnumber s"
  shows "\<exists>c r. s = c # r \<and> (json_digit c \<or> c = 0x2d)"
  using assms
proof cases
  case (jnumberI m i f e)
  then show ?thesis by (cases i) (auto simp: jinteger_def jdigits_def json_digit_def)
qed

lemma json_number_complete:
  assumes "jnumber s" "jstop q"
  shows "json_scalar (s @ q) = Some q"
proof -
  obtain c r where c: "s = c # r" "json_digit c \<or> c = 0x2d" using jnumber_head [OF assms(1)] by blast
  from assms(1) show ?thesis
  proof cases
    case (jnumberI m i f e)
    obtain x y where xy: "i = x # y" "json_digit x"
      using jnumberI by (cases i) (auto simp: jinteger_def jdigits_def json_digit_def)
    have "json_minus (s @ q) = i @ f @ e @ q"
      using jnumberI(1,2) xy by (auto simp: json_minus_def json_digit_def)
    moreover have "json_integer (i @ f @ e @ q) = Some (f @ e @ q)"
      using jexponent_head [OF jnumberI(5) assms(2)] jfraction_head [OF jnumberI(4), of "e @ q"]
      by (intro json_integer_complete jnumberI(3)) auto
    moreover have "json_fraction (f @ e @ q) = Some (e @ q)"
      by (rule json_fraction_complete [OF jnumberI(4) jexponent_head [OF jnumberI(5) assms(2)]])
    moreover have "json_exponent (e @ q) = Some q" by (rule json_exponent_complete [OF jnumberI(5) assms(2)])
    moreover have "take 4 (s @ q) \<noteq> json_true" "take 4 (s @ q) \<noteq> json_null" "take 5 (s @ q) \<noteq> json_false"
      using c by (auto simp: json_true_def json_null_def json_false_def json_digit_def)
    ultimately show ?thesis by (simp add: json_scalar_def)
  qed
qed

lemma json_literal_complete: "s \<in> {json_true, json_null, json_false} \<Longrightarrow> json_scalar (s @ q) = Some q"
  by (auto simp: json_scalar_def json_true_def json_null_def json_false_def)

lemma json_key_complete: "jkey close k \<Longrightarrow> json_key close (k @ q) = Some q"
  by (auto simp: jkey_def json_key_def json_string_complete space_append space_Cons json_blank_def split: if_splits)

lemma jstop_space: "jspace w \<Longrightarrow> c \<in> {0x2c, 0x7d, 0x5d} \<Longrightarrow> jstop (w @ c # q)"
  by (cases w) (auto simp: jstop_def jspace_def json_blank_def json_digit_def)

lemma jclose_cases: "jclose c \<in> {0x7d, 0x5d}"
  by (simp add: jclose_def)

lemma jstring_head: "jstring s \<Longrightarrow> \<exists>r. s = 0x22 # r"
  by (auto elim: jstring.cases)

lemma jvalue_head:
  assumes "jvalue d v"
  shows "\<exists>c r. v = c # r \<and> \<not> json_blank c \<and> c \<notin> {0x7d, 0x5d}"
  using assms
proof (cases rule: jvalue.cases)
  case jvalue_string
  then show ?thesis using jstring_head by (fastforce simp: json_blank_def)
next
  case jvalue_number
  then show ?thesis using jnumber_head by (fastforce simp: json_blank_def json_digit_def)
qed (auto simp: json_blank_def json_true_def json_null_def json_false_def)

lemma json_value_scalar:
  "d \<le> 32 \<Longrightarrow> NawamJsonSpace p = c # r \<Longrightarrow> c \<notin> {0x22, 0x7b, 0x5b} \<Longrightarrow> NawamJsonValue d p = json_scalar (c # r)"
  by (subst NawamJsonValue.simps) simp

lemma json_value_string:
  "d \<le> 32 \<Longrightarrow> NawamJsonSpace p = 0x22 # r \<Longrightarrow> NawamJsonValue d p = NawamJsonString (0x22 # r)"
  by (subst NawamJsonValue.simps) simp

lemma json_value_items:
  "d \<le> 32 \<Longrightarrow> NawamJsonSpace p = c # r \<Longrightarrow> c \<in> {0x7b, 0x5b} \<Longrightarrow>
   NawamJsonValue d p = (let p' = NawamJsonSpace r in
     if p' \<noteq> [] \<and> hd p' = jclose c then Some (tl p') else json_members (jclose c) d p')"
  by (subst NawamJsonValue.simps) (auto simp: jclose_def Let_def)

lemma space_idem [simp]: "NawamJsonSpace (NawamJsonSpace p) = NawamJsonSpace p"
  by (simp add: NawamJsonSpace_def dropWhile_idem)

lemma json_value_space [simp]: "NawamJsonValue d (NawamJsonSpace p) = NawamJsonValue d p"
  by (simp add: NawamJsonValue.simps [of d])

lemma item_start:
  assumes "jkey close k" "jspace w" "jvalue e v"
  shows "\<exists>c r. NawamJsonSpace (k @ w @ v @ t) = c # r \<and> c \<notin> {0x7d, 0x5d}"
    and "\<exists>p. json_key close (NawamJsonSpace (k @ w @ v @ t)) = Some p \<and> NawamJsonValue d p = NawamJsonValue d (w @ v @ t)"
proof -
  obtain c r where c: "v = c # r" "\<not> json_blank c" "c \<notin> {0x7d, 0x5d}" using jvalue_head [OF assms(3)] by blast
  have "(\<exists>c r. NawamJsonSpace (k @ w @ v @ t) = c # r \<and> c \<notin> {0x7d, 0x5d}) \<and>
    (\<exists>p. json_key close (NawamJsonSpace (k @ w @ v @ t)) = Some p \<and> NawamJsonValue d p = NawamJsonValue d (w @ v @ t))"
  proof (cases "close = 0x7d")
    case True
    then obtain s where "k = 0x22 # s" using assms(1) jstring_head by (fastforce simp: jkey_def)
    then have "NawamJsonSpace (k @ w @ v @ t) = k @ w @ v @ t" by (simp add: space_Cons json_blank_def)
    then show ?thesis using \<open>k = 0x22 # s\<close> json_key_complete [OF assms(1)] by auto
  next
    case False
    then have "k = []" using assms(1) by (simp add: jkey_def)
    then show ?thesis using False c space_append [OF assms(2), of "v @ t"]
      by (auto simp: json_key_def space_Cons) (metis append_Cons json_value_space space_Cons)
  qed
  then show "\<exists>c r. NawamJsonSpace (k @ w @ v @ t) = c # r \<and> c \<notin> {0x7d, 0x5d}"
    and "\<exists>p. json_key close (NawamJsonSpace (k @ w @ v @ t)) = Some p \<and> NawamJsonValue d p = NawamJsonValue d (w @ v @ t)"
    by blast+
qed

lemma json_members_more:
  "json_key close p = Some p1 \<Longrightarrow> NawamJsonValue (d + 1) p1 = Some p2 \<Longrightarrow> NawamJsonSpace p2 = 0x2c # r \<Longrightarrow>
   close \<noteq> 0x2c \<Longrightarrow> json_members close d p = json_members close d (NawamJsonSpace r)"
  by (subst json_members.simps) simp

lemma json_value_complete:
  "jvalue d v \<Longrightarrow> jspace w \<Longrightarrow> jstop q \<Longrightarrow> NawamJsonValue d (w @ v @ q) = Some q"
  "jitems close e s \<Longrightarrow> close \<in> {0x7d, 0x5d} \<Longrightarrow>
     (\<exists>c r. NawamJsonSpace (s @ t) = c # r \<and> c \<noteq> close) \<and> json_members close e (NawamJsonSpace (s @ t)) = Some t"
proof (induction d v and close e s arbitrary: w q and t rule: jvalue_jitems.inducts)
  case (jvalue_string d s)
  then obtain r where "s = 0x22 # r" using jstring_head by blast
  then show ?case using json_string_complete [OF jvalue_string(2), of q] jvalue_string
    by (simp add: json_value_string space_append space_Cons json_blank_def)
next
  case (jvalue_number d s)
  then obtain c r where c: "s = c # r" "json_digit c \<or> c = 0x2d" using jnumber_head by blast
  then have "\<not> json_blank c" by (auto simp: json_blank_def json_digit_def)
  with c have "NawamJsonValue d (w @ s @ q) = json_scalar (s @ q)"
    using jvalue_number by (subst json_value_scalar [of d _ c "r @ q"])
      (auto simp: space_append space_Cons json_digit_def)
  then show ?case using json_number_complete jvalue_number by simp
next
  case (jvalue_literal d s)
  then have "NawamJsonValue d (w @ s @ q) = json_scalar (s @ q)"
    by (subst json_value_scalar [of d _ "hd s" "tl s @ q"])
      (auto simp: space_append space_Cons json_blank_def json_true_def json_false_def json_null_def)
  then show ?case using json_literal_complete jvalue_literal by simp
next
  case (jvalue_empty d c w')
  then have "NawamJsonValue d (w @ (c # w' @ [jclose c]) @ q) = Some q"
    by (subst json_value_items [of d _ c "w' @ jclose c # q"])
      (auto simp: space_append space_Cons json_blank_def jclose_def)
  then show ?case by simp
next
  case (jvalue_items d c w' s)
  then show ?case using jvalue_items.IH [OF jclose_cases, of q]
    by (subst json_value_items [of d _ c "w' @ s @ q"])
      (auto simp: space_append space_Cons json_blank_def Let_def)
next
  case (jitems_one close k w d v w')
  let ?t = "w' @ close # t"
  have "NawamJsonValue (d + 1) (w @ v @ ?t) = Some ?t"
    using jitems_one.prems by (intro jitems_one.IH jitems_one jstop_space) auto
  moreover have "NawamJsonSpace ?t = close # t" using jitems_one by (auto simp: space_append space_Cons json_blank_def)
  ultimately show ?case
    using item_start(1) [OF jitems_one(1-3), of ?t] item_start(2) [OF jitems_one(1-3), of ?t "d + 1"]
      jitems_one.prems by (auto simp: json_members.simps [of close d])
next
  case (jitems_more close k w d v w' w'' s)
  let ?t = "w' @ 0x2c # w'' @ s @ t"
  have "NawamJsonValue (d + 1) (w @ v @ ?t) = Some ?t"
    using jitems_more by (intro jitems_more.IH jstop_space) auto
  have "NawamJsonSpace ?t = 0x2c # w'' @ s @ t" using jitems_more by (auto simp: space_append space_Cons json_blank_def)
  then have "json_members close d (NawamJsonSpace (k @ w @ v @ ?t)) = json_members close d (NawamJsonSpace (w'' @ s @ t))"
    using item_start(2) [OF jitems_more(1-3), of ?t "d + 1"] jitems_more.prems \<open>NawamJsonValue (d + 1) _ = _\<close>
    by (auto intro: json_members_more)
  then show ?case
    using item_start(1) [OF jitems_more(1-3), of ?t] jitems_more.IH(2) [of t] jitems_more.prems jitems_more.hyps
    by (auto simp: space_append)
qed

lemma jvalue_shallower:
  "jvalue d v \<Longrightarrow> d' \<le> d \<Longrightarrow> jvalue d' v"
  "jitems close d s \<Longrightarrow> d' \<le> d \<Longrightarrow> jitems close d' s"
  by (induction d v and close d s arbitrary: d' and d' rule: jvalue_jitems.inducts)
    (auto intro: jvalue_jitems.intros(1,2,3) jvalue_empty jvalue_items jitems_one jitems_more [simplified])

section \<open>Whole texts\<close>

text \<open>
  The syntax check at the start of \<open>NawamCommitTimestamp\<close>: one value, then nothing but blanks.
\<close>

definition json_text :: "u8 list \<Rightarrow> bool" where
  "json_text t = (case NawamJsonValue 0 t of None \<Rightarrow> False | Some p \<Rightarrow> NawamJsonSpace p = [])"

lemma json_text_grammar:
  "json_text t \<longleftrightarrow> (\<exists>w v w'. t = w @ v @ w' \<and> jspace w \<and> jspace w' \<and> jvalue 0 v)"
proof
  assume "json_text t"
  then obtain p where p: "NawamJsonValue 0 t = Some p" "NawamJsonSpace p = []"
    by (auto simp: json_text_def split: option.splits)
  from json_value_split(1) [OF p(1)] space_split [of p] p(2)
  show "\<exists>w v w'. t = w @ v @ w' \<and> jspace w \<and> jspace w' \<and> jvalue 0 v" by auto
next
  assume "\<exists>w v w'. t = w @ v @ w' \<and> jspace w \<and> jspace w' \<and> jvalue 0 v"
  then obtain w v w' where t: "t = w @ v @ w'" "jspace w" "jspace w'" "jvalue 0 v" by blast
  then have "jstop w'" by (cases w') (auto simp: jstop_def jspace_def json_blank_def json_digit_def)
  with t have "NawamJsonValue 0 t = Some w'" by (simp add: json_value_complete(1))
  moreover have "NawamJsonSpace w' = []" using space_append [OF t(3), of "[]"] by simp
  ultimately show "json_text t" by (simp add: json_text_def)
qed

text \<open>C35. The bounded walker accepts a text exactly when the text is a value of the JSON grammar of RFC 8259,
  with at most 32 levels of nesting, between blanks: the hand-written walker and the grammar define the same language.\<close>

theorem json_text_iff_grammar:
  "json_text t \<longleftrightarrow> (\<exists>w v w'. t = w @ v @ w' \<and> jspace w \<and> jspace w' \<and> jvalue 0 v)"
  by (rule json_text_grammar)

end
