(* ===== verification/Security_Text.thy ===== *)
theory Security_Text
  imports Json Sha1
begin

text \<open>
  The text files of the Secure Boot data: the strict validator \<open>NawamSecurityTextValid\<close> of
  \<open>src/src/nawam_security.h\<close>, and the permissive parsers of \<open>src/src/parser.c\<close> that run behind it,
  \<open>GetThumbprintEntries\<close> and \<open>GetSbatEntries\<close>, which changes the text it parses.

  The validator walks with a cursor, the rest of the text. The parsers work on a buffer that holds the text, its
  terminator and what lies behind it, with checked reads and writes: an access outside of a block is a value of its
  own, not an undefined result.
\<close>

section \<open>The validator\<close>

text \<open>One line and the cursor behind it: control characters, bytes above 126 and stray returns end the validation.\<close>

fun sec_line :: "u8 list \<Rightarrow> (u8 list \<times> u8 list) option" where
  "sec_line [] = Some ([], [])"
| "sec_line (c # p) =
     (if c = 0x0a then Some ([], p)
      else if (c < 32 \<and> c \<noteq> 0x09 \<and> c \<noteq> 0x0d) \<or> c > 126 then None
      else if c = 0x0d \<and> (p = [] \<or> hd p \<noteq> 0x0a) then None
      else case sec_line p of None \<Rightarrow> None | Some (l, r) \<Rightarrow> Some (c # l, r))"

definition strip_cr :: "u8 list \<Rightarrow> u8 list" where
  "strip_cr l = (if l \<noteq> [] \<and> last l = 0x0d then butlast l else l)"

definition product_char :: "u8 \<Rightarrow> bool" where
  "product_char c \<longleftrightarrow> (0x61 \<le> c \<and> c \<le> 0x7a) \<or> (0x41 \<le> c \<and> c \<le> 0x5a) \<or> (0x30 \<le> c \<and> c \<le> 0x39) \<or>
     c = 0x2e \<or> c = 0x5f \<or> c = 0x2d"

text \<open>The loop over the digits of a version, up to a comma or the end of the line.\<close>

fun version_loop :: "nat \<Rightarrow> u8 list \<Rightarrow> nat \<Rightarrow> (nat \<times> u8 list) option" where
  "version_loop base [] v = Some (v, [])"
| "version_loop base (c # s) v =
     (if c = 0x2c then Some (v, c # s)
      else if NawamHexDigit c < 0 \<or> nat (NawamHexDigit c) \<ge> base \<or>
              v > (4294967295 - nat (NawamHexDigit c)) div base then None
      else version_loop base s (v * base + nat (NawamHexDigit c)))"

definition hex_version :: "u8 list \<Rightarrow> bool" where
  "hex_version r \<longleftrightarrow> length r \<ge> 2 \<and> r ! 0 = 0x30 \<and> r ! 1 = 0x78"

definition str_sbat :: "u8 list" where
  "str_sbat = [0x73, 0x62, 0x61, 0x74]"

definition sbat_row_valid :: "u8 list \<Rightarrow> nat \<Rightarrow> u8 list \<Rightarrow> bool" where
  "sbat_row_valid text start l =
     (let name = takeWhile (\<lambda>c. c \<noteq> 0x2c) l; comma = start + length name in
      list_all product_char name \<and> name \<noteq> [] \<and> length name \<le> 127 \<and> length name \<noteq> length l \<and>
      (let r = drop (length name + 1) l;
           base = (if hex_version r then 16 else 10);
           ds = (if hex_version r then drop 2 r else r) in
       case version_loop base ds 0 of
         None \<Rightarrow> False
       | Some (version, e) \<Rightarrow>
           e \<noteq> ds \<and> version \<noteq> 0 \<and>
           (e = [] \<or>
            (4 \<le> comma \<and> take 4 (drop (comma - 4) text) = str_sbat \<and> length e = 11 \<and> list_all json_digit (tl e)))))"

definition thumbprint_row_valid :: "u8 list \<Rightarrow> bool" where
  "thumbprint_row_valid l \<longleftrightarrow> length l = 40 \<and> list_all (\<lambda>c. NawamHexDigit c \<ge> 0) l"

lemma sec_line_length: "sec_line p = Some (l, r) \<Longrightarrow> length r \<le> length p"
  by (induction p arbitrary: l r) (auto split: if_splits option.splits intro: le_SucI)

lemma sec_line_shorter: "sec_line p = Some (l, r) \<Longrightarrow> p \<noteq> [] \<Longrightarrow> length r < length p"
  by (cases p) (auto split: if_splits option.splits dest: sec_line_length)

function sec_loop :: "bool \<Rightarrow> u8 list \<Rightarrow> u8 list \<Rightarrow> nat \<Rightarrow> nat option" where
  "sec_loop kind text p count =
     (if p = [] then Some count
      else case sec_line p of
        None \<Rightarrow> None
      | Some (l, r) \<Rightarrow>
          let l' = strip_cr l in
          if l' = [] \<or> hd l' = 0x23 then sec_loop kind text r count
          else if (if kind then thumbprint_row_valid l' else sbat_row_valid text (length text - length p) l')
          then sec_loop kind text r (count + 1)
          else None)"
  by pat_completeness auto
termination
  by (relation "measure (\<lambda>(kind, text, p, count). length p)") (auto dest: sec_line_shorter)

declare sec_loop.simps [simp del]

definition NawamSecurityTextValid :: "u8 list option \<Rightarrow> bool \<Rightarrow> nat" where
  "NawamSecurityTextValid text kind =
     (case text of
        None \<Rightarrow> 0
      | Some t \<Rightarrow>
          if length t = 0 \<or> length t > 64 * 1024 then 0
          else case sec_loop kind t t 0 of None \<Rightarrow> 0 | Some count \<Rightarrow> count)"

section \<open>Certificate thumbprints\<close>

definition IS_HEXASCII :: "u8 \<Rightarrow> bool" where
  "IS_HEXASCII c \<longleftrightarrow> (0x30 \<le> c \<and> c \<le> 0x39) \<or> (0x41 \<le> c \<and> c \<le> 0x46) \<or> (0x61 \<le> c \<and> c \<le> 0x66)"

definition FROM_HEXASCII :: "u8 \<Rightarrow> u8" where
  "FROM_HEXASCII c =
     (if 0x30 \<le> c \<and> c \<le> 0x39 then c - 0x30
      else if 0x41 \<le> c \<and> c \<le> 0x5a then c - 0x41 + 10
      else if 0x61 \<le> c \<and> c \<le> 0x7a then c - 0x61 + 10
      else 0)"

text \<open>
  The rows of the allocated list, and the loop over the characters of one row: \<open>None\<close> is a read behind the buffer
  or a write behind the allocated rows.
\<close>

type_synonym rows = "u8 list list"

definition row_nibble :: "u8 list \<Rightarrow> nat \<Rightarrow> u8 \<Rightarrow> u8 list" where
  "row_nibble row j n = row[j div 2 := push_bit 4 (row ! (j div 2)) OR n]"

fun thumb_row :: "u8 list \<Rightarrow> nat \<Rightarrow> rows \<Rightarrow> nat \<Rightarrow> (u8 list \<times> rows \<times> nat) option" where
  "thumb_row [] j list count = None"
| "thumb_row (c # p) j list count =
     (if c = 0x0a \<or> c = 0 then Some (c # p, list, count)
      else if \<not> IS_HEXASCII c then Some (c # p, list, count)
      else if j div 2 \<ge> SHA1_HASHSIZE then Some (c # p, list, count)
      else if count \<ge> length list then None
      else thumb_row p (j + 1) (list[count := row_nibble (list ! count) j (FROM_HEXASCII c)])
             (if j = 2 * SHA1_HASHSIZE - 1 then count + 1 else count))"

text \<open>\<open>while (text[i] != '\n' && text[i] != '\0') i++\<close>\<close>

fun to_eol :: "u8 list \<Rightarrow> u8 list option" where
  "to_eol [] = None"
| "to_eol (c # p) = (if c \<noteq> 0x0a \<and> c \<noteq> 0 then to_eol p else Some (c # p))"

lemma thumb_row_length: "thumb_row p j list count = Some (q, list', count') \<Longrightarrow> length q \<le> length p"
  by (induction p j list count rule: thumb_row.induct) (auto split: if_splits)

lemma to_eol_length: "to_eol p = Some q \<Longrightarrow> length q \<le> length p"
  by (induction p rule: to_eol.induct) (auto split: if_splits)

function thumb_loop :: "u8 list \<Rightarrow> rows \<Rightarrow> nat \<Rightarrow> (rows \<times> nat) option" where
  "thumb_loop p list count =
     (case p of
        [] \<Rightarrow> None
      | c # r \<Rightarrow>
          if c = 0 then Some (list, count)
          else if c = 0x0a then thumb_loop r list count
          else if \<not> IS_HEXASCII c then
            (case to_eol r of None \<Rightarrow> None | Some q \<Rightarrow> thumb_loop q list count)
          else
            (case thumb_row (c # r) 0 list count of
               None \<Rightarrow> None
             | Some (q, list', count') \<Rightarrow>
                 (case to_eol q of None \<Rightarrow> None | Some q' \<Rightarrow> thumb_loop q' list' count')))"
  by pat_completeness auto
termination
proof (relation "measure (\<lambda>(p, list, count). length p)", goal_cases)
  case (4 p list count c r x q y list' count' q')
  then have "length q \<le> length r"
    by (auto simp: SHA1_HASHSIZE_def split: if_splits dest: thumb_row_length)
  then show ?case using 4 to_eol_length [of q q'] by simp
qed (auto dest: to_eol_length)

declare thumb_loop.simps [simp del]

text \<open>
  \<open>GetThumbprintEntries\<close> on a buffer: \<open>None\<close> is an access outside of a block, \<open>Some None\<close> the result NULL, and
  otherwise the rows and their count. The allocation is taken to succeed. The number of the lines and the size of the rows
  are 32-bit numbers: when the size wraps around, only the rows that are wholly in the block are there. On a text of
  \<open>2 ^ 32\<close> bytes or more the index wraps around too and the loops do not come to its end, which is \<open>None\<close> as well.
\<close>

definition GetThumbprintEntries :: "u8 list \<Rightarrow> (rows \<times> nat) option option" where
  "GetThumbprintEntries b =
     (if 0 \<notin> set b \<or> 4294967296 \<le> int (length (takeWhile (\<lambda>c. c \<noteq> 0) b)) then None
      else
        let num_entries = 1 + of_nat (length (filter (\<lambda>c. c = 0x0a) (takeWhile (\<lambda>c. c \<noteq> 0) b))) :: u32;
            size' = unat (num_entries * of_nat SHA1_HASHSIZE) in
        case thumb_loop b (replicate (size' div SHA1_HASHSIZE) (replicate SHA1_HASHSIZE 0)) 0 of
          None \<Rightarrow> None
        | Some (list, count) \<Rightarrow> Some (if count = 0 then None else Some (list, count)))"

section \<open>Lines\<close>

text \<open>The reference view of such a text: its lines, and the lines that carry data.\<close>

fun lines :: "u8 list \<Rightarrow> u8 list list" where
  "lines [] = [[]]"
| "lines (c # t) = (if c = 0x0a then [] # lines t else (c # hd (lines t)) # tl (lines t))"

definition data_lines :: "u8 list \<Rightarrow> u8 list list" where
  "data_lines t = filter (\<lambda>l. l \<noteq> [] \<and> hd l \<noteq> 0x23) (map strip_cr (lines t))"

lemma lines_not_Nil [simp]: "lines t \<noteq> []"
  by (cases t) auto

lemma sec_line_lines: "sec_line p = Some (l, r) \<Longrightarrow> p \<noteq> [] \<Longrightarrow>
  (p = l @ 0x0a # r \<and> lines p = l # lines r) \<or> (p = l \<and> r = [] \<and> lines p = [l] \<and> 0x0d \<notin> set l)"
proof (induction p arbitrary: l r)
  case (Cons c p)
  show ?case
  proof (cases "c = 0x0a \<or> p = []")
    case True
    with Cons.prems show ?thesis by (auto split: if_splits option.splits)
  next
    case False
    then obtain l' where "sec_line p = Some (l', r)" "l = c # l'" "c = 0x0d \<longrightarrow> hd p = 0x0a"
      using Cons.prems(1) by (auto split: if_splits option.splits)
    with Cons.IH [of l' r] False show ?thesis by (cases p) auto
  qed
qed simp

section \<open>What the thumbprint parser returns\<close>

text \<open>The bytes of a row of hexadecimal digits, and the rows of a text.\<close>

fun pair_bytes :: "u8 list \<Rightarrow> u8 list" where
  "pair_bytes (a # b # ns) = (push_bit 4 (FROM_HEXASCII a) OR FROM_HEXASCII b) # pair_bytes ns"
| "pair_bytes _ = []"

definition thumb_line :: "u8 list \<Rightarrow> bool" where
  "thumb_line l \<longleftrightarrow> length l \<ge> 40 \<and> list_all IS_HEXASCII (take 40 l)"

definition thumbprints :: "u8 list \<Rightarrow> u8 list list" where
  "thumbprints t = map (\<lambda>l. pair_bytes (take 40 l)) (filter thumb_line (lines t))"

fun feed :: "nat \<Rightarrow> u8 list \<Rightarrow> u8 list \<Rightarrow> u8 list" where
  "feed j row [] = row"
| "feed j row (c # cs) = feed (Suc j) (row_nibble row j (FROM_HEXASCII c)) cs"

lemma length_row_nibble [simp]: "length (row_nibble row j n) = length row"
  by (simp add: row_nibble_def)

lemma length_feed [simp]: "length (feed j row cs) = length row"
  by (induction j row cs rule: feed.induct) auto

lemma two_nibbles: "push_bit 4 (push_bit 4 (x :: u8) OR a) OR b = push_bit 4 a OR b"
  by (rule bit_word_eqI) (auto simp: bit_or_iff bit_push_bit_iff)

lemma feed_pairs:
  "length cs = 2 * m \<Longrightarrow> k + m \<le> length row \<Longrightarrow> feed (2 * k) row cs = take k row @ pair_bytes cs @ drop (k + m) row"
proof (induction m arbitrary: k row cs)
  case (Suc m)
  then obtain a b ns where cs: "cs = a # b # ns" "length ns = 2 * m"
    by (metis length_Suc_conv add_Suc_right mult_Suc_right numeral_2_eq_2 plus_nat.simps)
  let ?v = "push_bit 4 (FROM_HEXASCII a) OR FROM_HEXASCII b"
  have "feed (2 * k) row cs = feed (2 * Suc k) (row[k := ?v]) ns"
    using Suc.prems by (simp add: cs row_nibble_def two_nibbles)
  also have "\<dots> = take (Suc k) (row[k := ?v]) @ pair_bytes ns @ drop (Suc k + m) (row[k := ?v])"
    using Suc.prems cs by (intro Suc.IH) auto
  finally show ?case using Suc.prems by (simp add: cs take_Suc_conv_app_nth)
qed simp

lemma hexascii_not_eol: "IS_HEXASCII c \<Longrightarrow> c \<noteq> 0x0a \<and> c \<noteq> 0"
  by (auto simp: IS_HEXASCII_def)

lemma thumb_row_stop:
  "\<not> IS_HEXASCII x \<or> j = 40 \<Longrightarrow> thumb_row (x # r) j list count = Some (x # r, list, count)"
  by (auto simp: SHA1_HASHSIZE_def)

lemma thumb_row_feed:
  assumes "list_all IS_HEXASCII hs" "\<not> IS_HEXASCII x \<or> j + length hs = 40" "j + length hs \<le> 40" "count < length list"
  shows "thumb_row (hs @ x # r) j list count =
    Some (x # r, list[count := feed j (list ! count) hs], if hs \<noteq> [] \<and> j + length hs = 40 then count + 1 else count)"
  using assms
proof (induction hs arbitrary: j list)
  case Nil
  then show ?case using thumb_row_stop [of x j r list count] by simp
next
  case (Cons c hs)
  let ?list = "list[count := row_nibble (list ! count) j (FROM_HEXASCII c)]"
  have step: "thumb_row ((c # hs) @ x # r) j list count =
      thumb_row (hs @ x # r) (Suc j) ?list (if j = 39 then count + 1 else count)"
    using Cons.prems hexascii_not_eol [of c] by (auto simp: SHA1_HASHSIZE_def)
  show ?case
  proof (cases "j = 39")
    case True
    then have "hs = []" using Cons.prems by simp
    then show ?thesis using step True thumb_row_stop [of x 40 r ?list "count + 1"] by simp
  next
    case False
    then show ?thesis using step Cons.IH [of "Suc j" ?list] Cons.prems by (auto simp del: thumb_row.simps)
  qed
qed

lemma to_eol_skip: "0x0a \<notin> set l \<Longrightarrow> 0 \<notin> set l \<Longrightarrow> to_eol (l @ q) = to_eol q"
  by (induction l) auto

lemma to_eol_stop: "c = 0x0a \<or> c = 0 \<Longrightarrow> to_eol (c # q) = Some (c # q)"
  by auto

lemma hex_prefix:
  "\<exists>hs rest. l = hs @ rest \<and> list_all IS_HEXASCII hs \<and> length hs \<le> 40 \<and> (l \<noteq> [] \<and> IS_HEXASCII (hd l) \<longrightarrow> hs \<noteq> []) \<and>
     (length hs = 40 \<or> rest = [] \<or> \<not> IS_HEXASCII (hd rest))"
proof (cases "length (takeWhile IS_HEXASCII l) < 40")
  case True
  moreover have "dropWhile IS_HEXASCII l = [] \<or> \<not> IS_HEXASCII (hd (dropWhile IS_HEXASCII l))"
    using hd_dropWhile by blast
  moreover have "list_all IS_HEXASCII (takeWhile IS_HEXASCII l)" by (auto simp: list_all_iff dest: set_takeWhileD)
  moreover have "l \<noteq> [] \<and> IS_HEXASCII (hd l) \<longrightarrow> takeWhile IS_HEXASCII l \<noteq> []" by (simp add: takeWhile_eq_Nil_iff)
  ultimately show ?thesis by (metis less_imp_le takeWhile_dropWhile_id)
next
  case False
  then have len: "40 \<le> length l" using length_takeWhile_le [of IS_HEXASCII l] by linarith
  have "take 40 l = take 40 (takeWhile IS_HEXASCII l)"
    using False by (metis takeWhile_eq_take take_take min.absorb1 not_less)
  then have "list_all IS_HEXASCII (take 40 l)"
    by (auto simp: list_all_iff dest: in_set_takeD set_takeWhileD)
  then show ?thesis using len by (intro exI [of _ "take 40 l"] exI [of _ "drop 40 l"]) auto
qed

text \<open>One line of the text, up to the newline or the terminator.\<close>

lemma thumb_loop_line:
  assumes "0x0a \<notin> set l" "0 \<notin> set l" "e = 0x0a \<or> e = 0" "count < length list" "list_all (\<lambda>r. length r = 20) list"
  shows "\<exists>row. length row = 20 \<and> thumb_loop (l @ e # q) list count =
    thumb_loop (e # q) (list[count := row]) (if thumb_line l then count + 1 else count) \<and>
    (thumb_line l \<longrightarrow> row = pair_bytes (take 40 l))"
proof (cases l)
  case Nil
  have "length (list ! count) = 20" using assms(4,5) by (auto simp: list_all_length)
  then show ?thesis by (intro exI [of _ "list ! count"]) (simp add: Nil thumb_line_def)
next
  case (Cons c l')
  have c: "c \<noteq> 0" "c \<noteq> 0x0a" using assms(1,2) Cons by auto
  show ?thesis
  proof (cases "IS_HEXASCII c")
    case False
    have "thumb_loop (l @ e # q) list count = thumb_loop (e # q) list count"
      using False c assms(1-3) to_eol_skip [of l' "e # q"] to_eol_stop [of e q]
      by (subst thumb_loop.simps) (simp add: Cons)
    moreover have "length (list ! count) = 20" using assms(4,5) by (auto simp: list_all_length)
    ultimately show ?thesis using False by (intro exI [of _ "list ! count"]) (auto simp: Cons thumb_line_def)
  next
    case True
    obtain hs rest where hs: "l = hs @ rest" "list_all IS_HEXASCII hs" "length hs \<le> 40" "hs \<noteq> []"
      "length hs = 40 \<or> rest = [] \<or> \<not> IS_HEXASCII (hd rest)"
      using hex_prefix [of l] True Cons by auto
    obtain x y where xy: "rest @ e # q = x # y" by (cases rest) auto
    have x: "\<not> IS_HEXASCII x \<or> 0 + length hs = 40"
      using hs(5) xy assms(3) hexascii_not_eol by (cases rest) auto
    have "to_eol (x # y) = Some (e # q)"
      using to_eol_skip [of rest "e # q"] to_eol_stop [of e q] assms(1-3) hs(1) xy by simp
    moreover have "thumb_row (l @ e # q) 0 list count =
        Some (x # y, list[count := feed 0 (list ! count) hs], if length hs = 40 then count + 1 else count)"
      using thumb_row_feed [OF hs(2) x, of count list y] hs(1,3,4) xy assms(4) by simp
    ultimately have "thumb_loop (l @ e # q) list count =
        thumb_loop (e # q) (list[count := feed 0 (list ! count) hs]) (if length hs = 40 then count + 1 else count)"
      using True c by (subst thumb_loop.simps) (simp add: Cons del: thumb_row.simps to_eol.simps)
    moreover have full: "thumb_line l \<longleftrightarrow> length hs = 40"
      using hs by (cases rest; cases "40 - length hs") (auto simp: thumb_line_def)
    moreover have len: "length (list ! count) = 20" using assms(4,5) by (auto simp: list_all_length)
    moreover have "length hs = 40 \<Longrightarrow> feed 0 (list ! count) hs = pair_bytes (take 40 l)"
      using feed_pairs [of hs 20 0 "list ! count"] len hs(1) by simp
    ultimately show ?thesis by (intro exI [of _ "feed 0 (list ! count) hs"]) auto
  qed
qed

lemma newlines_lines: "length (lines t) = 1 + length (filter (\<lambda>c. c = 0x0a) t)"
  by (induction t) auto

lemma lines_append: "0x0a \<notin> set l \<Longrightarrow> lines (l @ 0x0a # r) = l # lines r"
  by (induction l) auto

lemma lines_one: "0x0a \<notin> set l \<Longrightarrow> lines l = [l]"
  by (induction l) auto

lemma line_cases:
  obtains "0x0a \<notin> set t" | l r where "t = l @ 0x0a # r" "0x0a \<notin> set l"
  by (metis split_list_first)

lemma list_update_take: "k \<le> count \<Longrightarrow> take k (list[count := x]) = take k list"
  by (simp add: take_update_cancel)

lemma thumb_loop_lines:
  assumes "0 \<notin> set t" "count + length (lines t) \<le> length list" "list_all (\<lambda>r. length r = 20) list"
  shows "\<exists>list'. thumb_loop (t @ 0 # z) list count = Some (list', count + length (thumbprints t)) \<and>
    length list' = length list \<and> take (count + length (thumbprints t)) list' = take count list @ thumbprints t"
  using assms
proof (induction "length t" arbitrary: t list count rule: less_induct)
  case less
  have finish: "thumb_loop (0 # z) list count = Some (list, count)" for list count
    by (simp add: thumb_loop.simps)
  show ?case
  proof (cases rule: line_cases [of t])
    case 1
    then obtain row where row: "length row = 20" "thumb_loop (t @ 0 # z) list count =
        thumb_loop (0 # z) (list[count := row]) (if thumb_line t then count + 1 else count)"
      "thumb_line t \<longrightarrow> row = pair_bytes (take 40 t)"
      using thumb_loop_line [of t 0 count list z] less.prems lines_one [of t] by auto
    have "count < length list" using less.prems lines_one [OF 1] by simp
    with row finish show ?thesis
      by (auto simp: thumbprints_def lines_one [OF 1] take_Suc_conv_app_nth)
  next
    case (2 l r)
    have len: "count < length list" using less.prems(2) by (cases "lines t") auto
    obtain row where row: "length row = 20" "thumb_loop (t @ 0 # z) list count =
        thumb_loop (0x0a # r @ 0 # z) (list[count := row]) (if thumb_line l then count + 1 else count)"
      "thumb_line l \<longrightarrow> row = pair_bytes (take 40 l)"
      using thumb_loop_line [of l "0x0a" count list "r @ 0 # z"] less.prems len 2 by auto
    let ?c = "if thumb_line l then count + 1 else count"
    have "thumb_loop (0x0a # r @ 0 # z) (list[count := row]) ?c = thumb_loop (r @ 0 # z) (list[count := row]) ?c"
      by (subst thumb_loop.simps) simp
    moreover have "list_all (\<lambda>r. length r = 20) (list[count := row])"
      using less.prems(3) row(1) len by (auto simp: list_all_length nth_list_update)
    moreover have "?c + length (lines r) \<le> length (list[count := row])"
      using less.prems(2) 2(1) lines_append [OF 2(2), of r] by simp
    ultimately obtain list' where list': "thumb_loop (t @ 0 # z) list count = Some (list', ?c + length (thumbprints r))"
      "length list' = length list" "take (?c + length (thumbprints r)) list' = take ?c (list[count := row]) @ thumbprints r"
      using less.hyps [of r "?c" "list[count := row]"] less.prems(1) 2 row(2) by auto
    have "thumbprints t = (if thumb_line l then [pair_bytes (take 40 l)] else []) @ thumbprints r"
      by (simp add: thumbprints_def lines_append [OF 2(2)] 2(1))
    with list' row(3) len show ?thesis by (auto simp: take_Suc_conv_app_nth)
  qed
qed

lemma rows_allocated:
  assumes "length t < 214748364"
  shows "unat ((1 + of_nat (length (filter P t))) * of_nat SHA1_HASHSIZE :: u32) div SHA1_HASHSIZE = 1 + length (filter P t)"
proof -
  have "length (filter P t) < 214748364" using assms length_filter_le [of P t] by linarith
  moreover have "(1 + of_nat (length (filter P t))) * of_nat SHA1_HASHSIZE = (of_nat ((1 + length (filter P t)) * 20) :: u32)" by (simp add: SHA1_HASHSIZE_def)
  ultimately show ?thesis by (simp only: unat_of_nat) (simp add: SHA1_HASHSIZE_def)
qed

lemma thumb_entries:
  assumes "0 \<notin> set t" "length t < 214748364"
  shows "\<exists>list. GetThumbprintEntries (t @ 0 # z) = Some (if thumbprints t = [] then None else Some (list, length (thumbprints t))) \<and>
    take (length (thumbprints t)) list = thumbprints t"
proof -
  have "takeWhile (\<lambda>c. c \<noteq> 0) (t @ 0 # z) = t" using assms(1) by (induction t) auto
  moreover obtain list where "thumb_loop (t @ 0 # z) (replicate (length (lines t)) (replicate 20 0)) 0 = Some (list, length (thumbprints t))"
    "take (length (thumbprints t)) list = thumbprints t"
    using thumb_loop_lines [of t 0 "replicate (length (lines t)) (replicate 20 0)" z] assms by (auto simp: list_all_length)
  moreover have "replicate SHA1_HASHSIZE 0 = replicate 20 (0 :: u8)" by (simp add: SHA1_HASHSIZE_def)
  ultimately show ?thesis
    using assms(2) newlines_lines [of t] unfolding GetThumbprintEntries_def Let_def by (auto simp: rows_allocated)
qed

text \<open>C38. The thumbprint parser on any text of less than 214748364 bytes (a twentieth of the range of 32 bits, so that the size
  of its rows does not wrap around): it stays inside the text, whatever its lines are, and inside the rows it allocated; it
  returns NULL when no line starts with 40 hexadecimal digits, and otherwise exactly the thumbprints of the lines that do,
  in their order.\<close>

theorem thumbprint_entries_lines:
  assumes "0 \<notin> set t" "length t < 214748364"
  shows "case GetThumbprintEntries (t @ 0 # z) of
      None \<Rightarrow> False
    | Some None \<Rightarrow> thumbprints t = []
    | Some (Some (list, count)) \<Rightarrow> thumbprints t \<noteq> [] \<and> count = length (thumbprints t) \<and> take count list = thumbprints t"
  using thumb_entries [OF assms, of z] by (auto split: if_splits)

theorem thumbprint_entries_lines_witness:
  "0 \<notin> set (replicate 40 (0x61 :: u8)) \<and> length (replicate 40 (0x61 :: u8)) < 214748364 \<and>
   (case GetThumbprintEntries (replicate 40 0x61 @ 0 # []) of
      None \<Rightarrow> False
    | Some None \<Rightarrow> thumbprints (replicate 40 0x61) = []
    | Some (Some (list, count)) \<Rightarrow> thumbprints (replicate 40 0x61) \<noteq> [] \<and>
        count = length (thumbprints (replicate 40 0x61)) \<and> take count list = thumbprints (replicate 40 0x61))"
  using thumbprint_entries_lines [of "replicate 40 0x61" "[]"] by simp

text \<open>Without the bound the rows are too few: for 214748365 lines the size wraps around to 4 bytes, and there is no row.\<close>

lemma rows_wrap_around: "unat (of_nat 214748365 * of_nat SHA1_HASHSIZE :: u32) div SHA1_HASHSIZE = 0"
  by (simp add: SHA1_HASHSIZE_def)

section \<open>Validated texts\<close>

lemma sec_line_chars: "sec_line p = Some (l, r) \<Longrightarrow> 0x0a \<notin> set l \<and> 0 \<notin> set l"
  by (induction p arbitrary: l r) (auto split: if_splits option.splits)

text \<open>A return stands only at the end of a line that ends in a newline.\<close>

lemma sec_line_cr: "sec_line p = Some (l, r) \<Longrightarrow> \<exists>core. (l = core \<or> l = core @ [0x0d]) \<and> 0x0d \<notin> set core"
proof (induction p arbitrary: l r)
  case (Cons c p)
  show ?case
  proof (cases "c = 0x0a")
    case False
    with Cons.prems obtain l' where l': "sec_line p = Some (l', r)" "l = c # l'" "c = 0x0d \<longrightarrow> p \<noteq> [] \<and> hd p = 0x0a"
      by (auto split: if_splits option.splits)
    show ?thesis
    proof (cases "c = 0x0d")
      case True
      with l' have "l' = []" by (cases p) auto
      with l' True show ?thesis by auto
    next
      case False
      obtain core where "(l' = core \<or> l' = core @ [0x0d]) \<and> 0x0d \<notin> set core" using Cons.IH [OF l'(1)] by blast
      with l'(2) False show ?thesis by (intro exI [of _ "c # core"]) auto
    qed
  qed (use Cons.prems in auto)
qed simp

lemma sec_line_core:
  assumes "sec_line p = Some (l, r)"
  shows "l = strip_cr l \<or> l = strip_cr l @ [0x0d]" "set (strip_cr l) \<inter> {0, 0x0a, 0x0d} = {}"
proof -
  obtain core where core: "l = core \<or> l = core @ [0x0d]" "0x0d \<notin> set core" using sec_line_cr [OF assms] by blast
  have "strip_cr l = core" using core by (auto simp: strip_cr_def) (metis last_in_set)
  moreover have "set core \<subseteq> set l" using core(1) by auto
  ultimately show "l = strip_cr l \<or> l = strip_cr l @ [0x0d]" "set (strip_cr l) \<inter> {0, 0x0a, 0x0d} = {}"
    using core sec_line_chars [OF assms] by auto
qed

text \<open>One round of the validation.\<close>

lemma sec_loop_cases:
  assumes "sec_loop kind text p count = Some n" "p \<noteq> []"
  obtains l r where "sec_line p = Some (l, r)" "lines p = l # lines r \<or> (lines p = [l] \<and> r = [] \<and> p = l)"
      "strip_cr l = [] \<or> hd (strip_cr l) = 0x23" "sec_loop kind text r count = Some n"
  | l r where "sec_line p = Some (l, r)" "lines p = l # lines r \<or> (lines p = [l] \<and> r = [] \<and> p = l)"
      "strip_cr l \<noteq> []" "hd (strip_cr l) \<noteq> 0x23"
      "if kind then thumbprint_row_valid (strip_cr l) else sbat_row_valid text (length text - length p) (strip_cr l)"
      "sec_loop kind text r (count + 1) = Some n"
  using assms sec_line_lines [of p]
  by (subst (asm) sec_loop.simps) (auto simp: Let_def split: if_splits option.splits)

lemma data_lines_Nil [simp]: "data_lines [] = []"
  by (simp add: data_lines_def strip_cr_def)

lemma data_lines_step:
  assumes "lines p = l # lines r \<or> (lines p = [l] \<and> r = [] \<and> p = l)"
  shows "data_lines p = (if strip_cr l = [] \<or> hd (strip_cr l) = 0x23 then [] else [strip_cr l]) @ data_lines r"
  using assms by (auto simp: data_lines_def strip_cr_def)

lemma sec_loop_count: "sec_loop kind full p count = Some n \<Longrightarrow> n = count + length (data_lines p)"
proof (induction kind full p count rule: sec_loop.induct)
  case (1 kind full p count)
  show ?case
  proof (cases "p = []")
    case True
    then show ?thesis using "1.prems" by (simp add: sec_loop.simps)
  next
    case False
    show ?thesis
      using "1.prems" False
    proof (cases rule: sec_loop_cases)
      case (1 l r)
      then show ?thesis using "1.IH"(1) [of "(l, r)" l r] False by (auto simp: data_lines_step)
    next
      case (2 l r)
      then show ?thesis using "1.IH"(2) [of "(l, r)" l r] False by (auto simp: data_lines_step)
    qed
  qed
qed

text \<open>Every line of an accepted text passed the checks of a line; its data lines passed those of a row.\<close>

lemma sec_loop_induct [consumes 1, case_names finish skip row]:
  assumes "sec_loop kind full p count = Some n"
    and "\<And>count. P [] count"
    and "\<And>p count l r. p \<noteq> [] \<Longrightarrow> sec_line p = Some (l, r) \<Longrightarrow>
      lines p = l # lines r \<or> (lines p = [l] \<and> r = [] \<and> p = l) \<Longrightarrow>
      strip_cr l = [] \<or> hd (strip_cr l) = 0x23 \<Longrightarrow> P r count \<Longrightarrow> P p count"
    and "\<And>p count l r. p \<noteq> [] \<Longrightarrow> sec_line p = Some (l, r) \<Longrightarrow>
      lines p = l # lines r \<or> (lines p = [l] \<and> r = [] \<and> p = l) \<Longrightarrow> strip_cr l \<noteq> [] \<Longrightarrow> hd (strip_cr l) \<noteq> 0x23 \<Longrightarrow>
      (if kind then thumbprint_row_valid (strip_cr l) else sbat_row_valid full (length full - length p) (strip_cr l)) \<Longrightarrow>
      P r (count + 1) \<Longrightarrow> P p count"
  shows "P p count"
  using assms(1)
proof (induction "length p" arbitrary: p count rule: less_induct)
  case less
  show ?case
  proof (cases "p = []")
    case False
    with less.prems show ?thesis
    proof (cases rule: sec_loop_cases)
      case (1 l r)
      then show ?thesis using less.hyps [of r count] sec_line_shorter [of p l r] False assms(3) by blast
    next
      case (2 l r)
      then show ?thesis using less.hyps [of r "count + 1"] sec_line_shorter [of p l r] False assms(4) by blast
    qed
  qed (simp add: assms(2))
qed

lemma hexdigit_hexascii: "NawamHexDigit c \<ge> 0 \<Longrightarrow> IS_HEXASCII c"
  by (auto simp: NawamHexDigit_def IS_HEXASCII_def split: if_splits)

lemma thumb_line_core:
  assumes "l = core \<or> l = core @ [0x0d]"
  shows "core = [] \<or> hd core = 0x23 \<Longrightarrow> \<not> thumb_line l"
    and "thumbprint_row_valid core \<Longrightarrow> thumb_line l \<and> take 40 l = core"
proof -
  show "\<not> thumb_line l" if "core = [] \<or> hd core = 0x23"
  proof
    assume t: "thumb_line l"
    then have "core \<noteq> []" using assms by (auto simp: thumb_line_def)
    with that have "take 40 l \<noteq> [] \<and> hd (take 40 l) = 0x23" using assms by auto
    with t show False by (cases "take 40 l") (auto simp: thumb_line_def IS_HEXASCII_def)
  qed
  show "thumb_line l \<and> take 40 l = core" if "thumbprint_row_valid core"
    using that assms by (auto simp: thumb_line_def thumbprint_row_valid_def list_all_iff hexdigit_hexascii)
qed

lemma thumbprints_step:
  "lines p = l # lines r \<or> (lines p = [l] \<and> r = [] \<and> p = l) \<Longrightarrow>
   thumbprints p = (if thumb_line l then [pair_bytes (take 40 l)] else []) @ thumbprints r"
  by (auto simp: thumbprints_def thumb_line_def)

lemma valid_thumbprints:
  "sec_loop True full p count = Some n \<Longrightarrow> thumbprints p = map pair_bytes (data_lines p) \<and> 0 \<notin> set p"
proof (induction rule: sec_loop_induct)
  case (finish count)
  show ?case by (simp add: thumbprints_def thumb_line_def)
next
  case (skip p count l r)
  then show ?case
    using thumbprints_step [of p l r] data_lines_step [of p l r] thumb_line_core(1) [OF sec_line_core(1) [OF skip(2)]]
      sec_line_lines [of p l r] sec_line_chars [of p l r] by auto
next
  case (row p count l r)
  then show ?case
    using thumbprints_step [of p l r] data_lines_step [of p l r] thumb_line_core(2) [OF sec_line_core(1) [OF row(2)]]
      sec_line_lines [of p l r] sec_line_chars [of p l r] by auto
qed

lemma valid_thumbprint_entries:
  assumes "NawamSecurityTextValid (Some t) True = n" "n \<noteq> 0"
  shows "\<exists>list. GetThumbprintEntries (t @ 0 # z) = Some (Some (list, n)) \<and> take n list = map pair_bytes (data_lines t)"
proof -
  have loop: "sec_loop True t t 0 = Some n"
    using assms by (auto simp: NawamSecurityTextValid_def split: if_splits option.splits)
  have "n = length (data_lines t)" using sec_loop_count [OF loop] by simp
  moreover have "thumbprints t = map pair_bytes (data_lines t)" "0 \<notin> set t" using valid_thumbprints [OF loop] by auto
  moreover have "length t < 214748364" using assms by (auto simp: NawamSecurityTextValid_def split: if_splits)
  ultimately show ?thesis
    using thumb_entries [of t z] assms(2) by auto
qed

text \<open>C37. A certificate list that the validator accepts is parsed completely: the parser stays in its blocks and returns
  exactly as many thumbprints as the validator counted, each the 20 bytes of one data line.\<close>

theorem valid_thumbprint_text:
  assumes "NawamSecurityTextValid (Some t) True = n" "n \<noteq> 0"
  shows "\<exists>list. GetThumbprintEntries (t @ 0 # z) = Some (Some (list, n)) \<and> take n list = map pair_bytes (data_lines t)"
  using assms by (rule valid_thumbprint_entries)

lemma sec_line_plain: "list_all (\<lambda>c. \<not> c < 32 \<and> \<not> c > 126) l \<Longrightarrow> sec_line l = Some (l, [])"
  by (induction l) auto

lemma valid_thumbprint_line:
  assumes "thumbprint_row_valid l"
  shows "NawamSecurityTextValid (Some l) True = 1"
proof -
  have plain: "NawamHexDigit c \<ge> 0 \<Longrightarrow> \<not> c < 32 \<and> \<not> c > 126 \<and> c \<noteq> 0x23 \<and> c \<noteq> 0x0d" for c
    by (auto simp: NawamHexDigit_def word_le_def word_less_def split: if_splits)
  have l: "list_all (\<lambda>c. NawamHexDigit c \<ge> 0) l" "length l = 40" using assms by (simp_all add: thumbprint_row_valid_def)
  then have "l \<noteq> []" by auto
  have "sec_line l = Some (l, [])" using l(1) plain by (intro sec_line_plain) (simp add: list_all_iff)
  moreover have "strip_cr l = l" using l(1) \<open>l \<noteq> []\<close> plain last_in_set [of l] by (auto simp: strip_cr_def list_all_iff)
  moreover have "hd l \<noteq> 0x23" using l(1) \<open>l \<noteq> []\<close> plain by (cases l) auto
  ultimately have "sec_loop True l l 0 = Some 1"
    using \<open>l \<noteq> []\<close> assms by (simp add: sec_loop.simps [of _ _ l] sec_loop.simps [of _ _ "[]"] Let_def)
  then show ?thesis using l(2) by (simp add: NawamSecurityTextValid_def)
qed

theorem valid_thumbprint_text_witness:
  "NawamSecurityTextValid (Some (replicate 40 0x61)) True = 1 \<and>
   (\<exists>list. GetThumbprintEntries (replicate 40 0x61 @ 0 # []) = Some (Some (list, 1)) \<and>
      take 1 list = map pair_bytes (data_lines (replicate 40 0x61)))"
proof -
  have "NawamSecurityTextValid (Some (replicate 40 0x61)) True = 1"
    by (rule valid_thumbprint_line) (simp add: thumbprint_row_valid_def list_all_iff NawamHexDigit_def)
  with valid_thumbprint_text [of "replicate 40 0x61" 1 "[]"] show ?thesis by simp
qed

end
