(* ===== verification/Sbat_Text.thy ===== *)
theory Sbat_Text
  imports Security_Text
begin

text \<open>
  \<open>GetSbatEntries\<close> of \<open>src/src/parser.c\<close>, which cuts the SBAT text into product names in place, the C library's
  \<open>strtoul\<close> as it uses it (\<open>unsigned long\<close> has 32 bits on the program's platform), and what both make of a text that
  the validator accepted.
\<close>

section \<open>The parser\<close>

definition c_space :: "u8 \<Rightarrow> bool" where
  "c_space c \<longleftrightarrow> c = 0x20 \<or> (0x09 \<le> c \<and> c \<le> 0x0d)"

text \<open>The value of the leading digits of a string in a base.\<close>

fun digits_value :: "nat \<Rightarrow> u8 list \<Rightarrow> nat \<Rightarrow> nat" where
  "digits_value base [] v = v"
| "digits_value base (c # s) v =
     (if NawamHexDigit c < 0 \<or> nat (NawamHexDigit c) \<ge> base then v
      else digits_value base s (v * base + nat (NawamHexDigit c)))"

definition skip_sign :: "u8 list \<Rightarrow> u8 list" where
  "skip_sign s = (case s of c # r \<Rightarrow> if c = 0x2b \<or> c = 0x2d then r else s | [] \<Rightarrow> s)"

definition skip_0x :: "nat \<Rightarrow> u8 list \<Rightarrow> u8 list" where
  "skip_0x base s = (if base = 16 \<and> length s \<ge> 2 \<and> s ! 0 = 0x30 \<and> (s ! 1 = 0x78 \<or> s ! 1 = 0x58) then drop 2 s else s)"

text \<open>\<open>strtoul (s, NULL, base)\<close> for the bases 10 and 16; a value too large gives ULONG_MAX.\<close>

definition strtoul :: "u8 list \<Rightarrow> nat \<Rightarrow> u32" where
  "strtoul s base =
     (let s = dropWhile c_space s;
          neg = (s \<noteq> [] \<and> hd s = 0x2d);
          v = digits_value base (skip_0x base (skip_sign s)) 0 in
      if v > 4294967295 then -1 else if neg then - of_nat v else of_nat v)"

text \<open>The scan for a stop character; \<open>None\<close> when it leaves the buffer.\<close>

definition scan_to :: "u8 list \<Rightarrow> u8 list \<Rightarrow> nat \<Rightarrow> nat option" where
  "scan_to stops b i =
     (let j = i + length (takeWhile (\<lambda>c. c \<notin> set stops) (drop i b)) in if j < length b then Some j else None)"

lemma scan_to_bounds: "scan_to stops b i = Some j \<Longrightarrow> i \<le> j \<and> j < length b \<and> b ! j \<in> set stops"
proof -
  assume s: "scan_to stops b i = Some j"
  let ?t = "takeWhile (\<lambda>c. c \<notin> set stops) (drop i b)"
  have j: "j = i + length ?t" "j < length b" using s by (auto simp: scan_to_def Let_def split: if_splits)
  then have "length ?t < length (drop i b)" by simp
  then have "\<not> (drop i b) ! length ?t \<notin> set stops" by (rule nth_length_takeWhile)
  with j show ?thesis by simp
qed

lemma scan_to_skips: "scan_to stops b i = Some j \<Longrightarrow> i < length b \<Longrightarrow> b ! i \<notin> set stops \<Longrightarrow> i < j"
  using scan_to_bounds [of stops b i j] by (cases "i = j") auto

definition c_str :: "u8 list \<Rightarrow> nat \<Rightarrow> u8 list" where
  "c_str b i = takeWhile (\<lambda>c. c \<noteq> 0) (drop i b)"

text \<open>
  An entry: the product, as its offset in the text or NULL, and the version. The outcome of the loop is \<open>None\<close> for an
  access outside of the text or of the allocated entries, and otherwise the text, the entries and their number.
\<close>

type_synonym sbat_entry = "nat option \<times> u32"

function sbat_loop :: "u8 list \<Rightarrow> nat \<Rightarrow> sbat_entry list \<Rightarrow> nat \<Rightarrow> (u8 list \<times> sbat_entry list \<times> nat) option" where
  "sbat_loop b i xs n =
     (if i \<ge> length b then None
      else if b ! i = 0 then Some (b, xs, n)
      else if b ! i = 0x0a then sbat_loop b (i + 1) xs n
      else if b ! i = 0x23 then
        (case scan_to [0x0a, 0] b i of None \<Rightarrow> None | Some j \<Rightarrow> sbat_loop b j xs n)
      else if n \<ge> length xs then None
      else
        let xs = xs[n := (Some i, snd (xs ! n))] in
        case scan_to [0x2c, 0, 0x0a] b i of
          None \<Rightarrow> None
        | Some j \<Rightarrow>
            if b ! j = 0 \<or> b ! j = 0x0a then Some (b, xs, n)
            else
              let b = b[j := 0] in
              (case scan_to [0x2c, 0, 0x0a] b (j + 1) of
                 None \<Rightarrow> None
               | Some k \<Rightarrow>
                   let eol = (b ! k = 0 \<or> b ! k = 0x0a); eof = (b ! k = 0);
                       b = b[k := 0];
                       i = (if eof then k else k + 1);
                       version_str = c_str b (j + 1);
                       version = strtoul version_str (if hex_version version_str then 16 else 10);
                       xs = xs[n := (fst (xs ! n), version)] in
                   (case (if eol then Some i else scan_to [0, 0x0a] b i) of
                      None \<Rightarrow> None
                    | Some i \<Rightarrow> sbat_loop b i xs (if version \<noteq> 0 then n + 1 else n))))"
  by pat_completeness auto

termination
proof (relation "measure (\<lambda>(b, i, xs, n). length b - i)", goal_cases)
  case (3 b i xs n j)
  then show ?case using scan_to_bounds [of "[0x0a, 0]" b i j] scan_to_skips [of "[0x0a, 0]" b i j] by auto
next
  case (4 b i xs n xs' j b' k eol eof b'' i' vs v xs'' i'')
  then have "i \<le> j" "j < length b" "j + 1 \<le> k" "k < length b"
    using scan_to_bounds [of "[0x2c, 0, 0x0a]" b i j] scan_to_bounds [of "[0x2c, 0, 0x0a]" b' "j + 1" k] by auto
  moreover have "k \<le> i'" "i' \<le> i''"
    using 4 scan_to_bounds [of "[0, 0x0a]" b'' i' i''] by (auto split: if_splits)
  ultimately show ?case using 4 by auto
qed auto

declare sbat_loop.simps [simp del]

text \<open>The first pass counts the newlines and turns returns into newlines.\<close>

definition cr_to_lf :: "u8 \<Rightarrow> u8" where
  "cr_to_lf c = (if c = 0x0d then 0x0a else c)"

text \<open>\<open>None\<close> is an access outside of a block; otherwise the changed text and the entries, or NULL. The allocation is taken to succeed.\<close>

definition GetSbatEntries :: "u8 list \<Rightarrow> (u8 list \<times> sbat_entry list option) option" where
  "GetSbatEntries b =
     (if 0 \<notin> set b then None
      else
        let t = takeWhile (\<lambda>c. c \<noteq> 0) b;
            num_entries = 1 + length (filter (\<lambda>c. c = 0x0a) t);
            b' = map cr_to_lf t @ drop (length t) b in
        case sbat_loop b' 0 (replicate (num_entries + 1) (None, 0)) 0 of
          None \<Rightarrow> None
        | Some (b'', xs, n) \<Rightarrow> Some (b'', if n = 0 then None else Some xs))"

section \<open>Versions\<close>

lemma version_loop_split:
  "version_loop base s v = Some (w, e) \<Longrightarrow> v \<le> 4294967295 \<Longrightarrow> 0 < base \<Longrightarrow>
   \<exists>d. s = d @ e \<and> (e = [] \<or> hd e = 0x2c) \<and> list_all (\<lambda>c. NawamHexDigit c \<ge> 0 \<and> nat (NawamHexDigit c) < base) d \<and>
     digits_value base d v = w \<and> w \<le> 4294967295"
proof (induction base s v rule: version_loop.induct)
  case (2 base c s v)
  show ?case
  proof (cases "c = 0x2c")
    case True
    with 2 show ?thesis by auto
  next
    case False
    let ?d = "nat (NawamHexDigit c)"
    have d: "NawamHexDigit c \<ge> 0" "?d < base" "v \<le> (4294967295 - ?d) div base" "version_loop base s (v * base + ?d) = Some (w, e)"
      using False "2.prems" by (auto split: if_splits)
    have "NawamHexDigit c \<le> 15" by (auto simp: NawamHexDigit_def word_le_def)
    moreover have "v * base \<le> 4294967295 - ?d" using d(3) "2.prems"(3) by (simp add: less_eq_div_iff_mult_less_eq)
    ultimately have "v * base + ?d \<le> 4294967295" by linarith
    then obtain d' where "s = d' @ e" "e = [] \<or> hd e = 0x2c" "list_all (\<lambda>c. NawamHexDigit c \<ge> 0 \<and> nat (NawamHexDigit c) < base) d'"
      "digits_value base d' (v * base + ?d) = w" "w \<le> 4294967295"
      using 2 False d by auto
    with d show ?thesis by (intro exI [of _ "c # d'"]) auto
  qed
qed auto

text \<open>The product and the version of a row.\<close>

definition version_value :: "u8 list \<Rightarrow> nat" where
  "version_value s = (if hex_version s then digits_value 16 (drop 2 s) 0 else digits_value 10 s 0)"

definition sbat_row :: "u8 list \<Rightarrow> u8 list \<times> nat" where
  "sbat_row l = (let name = takeWhile (\<lambda>c. c \<noteq> 0x2c) l in
     (name, version_value (takeWhile (\<lambda>c. c \<noteq> 0x2c) (drop (length name + 1) l))))"

lemma hex_version_prefix: "e = [] \<or> hd e = 0x2c \<Longrightarrow> hex_version (s @ e) \<longleftrightarrow> hex_version s"
  by (cases s; cases e; cases "tl s") (auto simp: hex_version_def)

lemma hexdigit_plain: "NawamHexDigit c \<ge> 0 \<Longrightarrow> \<not> c_space c \<and> c \<noteq> 0x2b \<and> c \<noteq> 0x2d \<and> c \<noteq> 0x2c"
  by (auto simp: NawamHexDigit_def c_space_def word_le_def split: if_splits)

lemma hex_zero: "NawamHexDigit 0x30 = 0"
  by (simp add: NawamHexDigit_def)

lemma strtoul_version:
  assumes "s \<noteq> []" "NawamHexDigit (hd s) \<ge> 0" "version_value s \<le> 4294967295"
  shows "strtoul s (if hex_version s then 16 else 10) = of_nat (version_value s)"
proof -
  have "dropWhile c_space s = s" "skip_sign s = s" "hd s \<noteq> 0x2d"
    using assms(1) hexdigit_plain [OF assms(2)] by (cases s; auto simp: skip_sign_def)+
  then show ?thesis
    using assms(3) by (auto simp: strtoul_def version_value_def skip_0x_def hex_version_def Let_def)
qed

lemma take_while_split: "takeWhile (\<lambda>c. c \<noteq> x) l = p \<Longrightarrow> length p \<noteq> length l \<Longrightarrow> l = p @ x # drop (length p + 1) l \<and> x \<notin> set p"
  by (induction l arbitrary: p) (auto split: if_splits)

lemma take_while_stop: "x \<notin> set p \<Longrightarrow> e = [] \<or> hd e = x \<Longrightarrow> takeWhile (\<lambda>c. c \<noteq> x) (p @ e) = p"
  by (induction p) (cases e, auto)

lemma sbat_row_valid_split:
  assumes "sbat_row_valid full start l"
  obtains name ver tail where "l = name @ 0x2c # ver @ tail" "0x2c \<notin> set name" "0x2c \<notin> set ver" "name \<noteq> []"
    "list_all product_char name" "tail = [] \<or> hd tail = 0x2c" "sbat_row l = (name, version_value ver)"
    "strtoul ver (if hex_version ver then 16 else 10) = of_nat (version_value ver)" "0 < version_value ver" "version_value ver \<le> 4294967295"
proof -
  define name where "name = takeWhile (\<lambda>c. c \<noteq> 0x2c) l"
  define r where "r = drop (length name + 1) l"
  let ?base = "if hex_version r then 16 else 10 :: nat"
  let ?ds = "if hex_version r then drop 2 r else r"
  obtain version e where v: "list_all product_char name" "name \<noteq> []" "length name \<noteq> length l"
    "version_loop ?base ?ds 0 = Some (version, e)" "e \<noteq> ?ds" "version \<noteq> 0"
    using assms unfolding sbat_row_valid_def name_def r_def Let_def by (auto split: option.splits prod.splits)
  have l: "l = name @ 0x2c # r" "0x2c \<notin> set name" using take_while_split [OF name_def [symmetric] v(3)] r_def by auto
  have "0 < ?base" by simp
  from version_loop_split [OF v(4) _ this] obtain d where d: "?ds = d @ e" "e = [] \<or> hd e = 0x2c"
    "list_all (\<lambda>c. NawamHexDigit c \<ge> 0 \<and> nat (NawamHexDigit c) < ?base) d" "digits_value ?base d 0 = version" "version \<le> 4294967295"
    by auto
  have "d \<noteq> []" using v(5) d(1) by auto
  have nc: "0x2c \<notin> set d" using d(3) hexdigit_plain by (auto simp: list_all_iff)
  define ver where "ver = (if hex_version r then [0x30, 0x78] @ d else d)"
  have r: "r = ver @ e"
  proof (cases "hex_version r")
    case True
    then have "r = [0x30, 0x78] @ drop 2 r" by (cases r; cases "tl r") (auto simp: hex_version_def)
    with True d(1) show ?thesis by (simp add: ver_def)
  qed (use d(1) in \<open>simp add: ver_def\<close>)
  have hv: "hex_version ver \<longleftrightarrow> hex_version r" using hex_version_prefix [OF d(2), of ver] r by simp
  have vv: "version_value ver = version" using d(4) hv by (auto simp: version_value_def ver_def)
  have hd: "NawamHexDigit (hd ver) \<ge> 0" using d(3) \<open>d \<noteq> []\<close> hex_zero by (cases d) (auto simp: ver_def)
  have "0x2c \<notin> set ver" using nc by (auto simp: ver_def)
  moreover have "ver \<noteq> []" using \<open>d \<noteq> []\<close> by (simp add: ver_def)
  moreover have "sbat_row l = (name, version_value ver)"
    using take_while_stop [OF \<open>0x2c \<notin> set ver\<close> d(2)] r
    unfolding sbat_row_def Let_def name_def [symmetric] r_def [symmetric] by simp
  ultimately show thesis
    using that [of name ver e] l r v(1,2,6) d(2,5) strtoul_version [of ver] hd vv by auto
qed

section \<open>The parser on a line\<close>

lemma scan_to_at:
  "drop i b = s @ c # r \<Longrightarrow> c \<in> set stops \<Longrightarrow> set s \<inter> set stops = {} \<Longrightarrow> scan_to stops b i = Some (i + length s)"
proof -
  assume b: "drop i b = s @ c # r" and c: "c \<in> set stops" and s: "set s \<inter> set stops = {}"
  have "takeWhile (\<lambda>c. c \<notin> set stops) (s @ c # r) = s" using c s by (induction s) auto
  moreover have "i + length s < length b" using arg_cong [OF b, of length] by simp
  ultimately show ?thesis by (simp add: scan_to_def b Let_def)
qed

lemma nth_drop_eq: "drop i b = s @ c # r \<Longrightarrow> i + length s < length b \<and> b ! (i + length s) = c"
proof -
  assume b: "drop i b = s @ c # r"
  have "i + length s < length b" using arg_cong [OF b, of length] by simp
  then show ?thesis using arg_cong [OF b, of "\<lambda>x. x ! length s"] by simp
qed

lemma drop_drop_eq: "drop i b = s @ r \<Longrightarrow> drop (i + length s) b = r"
  by (metis append_eq_conv_conj drop_drop add.commute)

lemma sbat_loop_blank: "drop i b = 0x0a # r \<Longrightarrow> sbat_loop b i xs n = sbat_loop b (i + 1) xs n"
  using nth_drop_eq [of i b "[]"] by (subst sbat_loop.simps) simp

lemma sbat_loop_end: "drop i b = 0 # r \<Longrightarrow> sbat_loop b i xs n = Some (b, xs, n)"
  using nth_drop_eq [of i b "[]"] by (subst sbat_loop.simps) simp

lemma sbat_loop_comment:
  assumes "drop i b = core @ e # r" "e = 0x0a \<or> e = 0" "core = [] \<or> hd core = 0x23" "0x0a \<notin> set core" "0 \<notin> set core"
  shows "sbat_loop b i xs n = sbat_loop b (i + length core) xs n"
proof (cases core)
  case (Cons c s)
  then have "b ! i = 0x23 \<and> i < length b" using nth_drop_eq [of i b "[]" c "s @ e # r"] assms by simp
  moreover have "scan_to [0x0a, 0] b i = Some (i + length core)" using assms by (intro scan_to_at) auto
  ultimately show ?thesis by (subst sbat_loop.simps) simp
qed simp

text \<open>The state after a row: the product and the version are cut off by terminators.\<close>

definition row_cut :: "u8 list \<Rightarrow> nat \<Rightarrow> u8 list \<Rightarrow> u8 list \<Rightarrow> u8 list" where
  "row_cut b i name ver = b[i + length name := 0, i + length name + 1 + length ver := 0]"

lemma sbat_loop_step:
  "\<lbrakk> i < length b; b ! i \<notin> {0, 0x0a, 0x23}; n < length xs; scan_to [0x2c, 0, 0x0a] b i = Some j; b ! j = 0x2c;
    b' = b[j := 0]; scan_to [0x2c, 0, 0x0a] b' (j + 1) = Some k; b'' = b'[k := 0];
    version = strtoul (c_str b'' (j + 1)) (if hex_version (c_str b'' (j + 1)) then 16 else 10);
    (if b' ! k = 0 \<or> b' ! k = 0x0a then Some (if b' ! k = 0 then k else k + 1)
     else scan_to [0, 0x0a] b'' (k + 1)) = Some i' \<rbrakk> \<Longrightarrow>
   sbat_loop b i xs n = sbat_loop b'' i' (xs[n := (Some i, version)]) (if version \<noteq> 0 then n + 1 else n)"
  by (subst sbat_loop.simps) (auto simp: Let_def split: if_splits)

lemma sbat_loop_row:
  assumes b: "drop i b = name @ 0x2c # ver @ tail @ e # r" and e: "e = 0x0a \<or> e = 0"
    and name: "name \<noteq> []" "hd name \<noteq> 0x23" "set name \<inter> {0x2c, 0, 0x0a} = {}"
    and ver: "set ver \<inter> {0x2c, 0, 0x0a} = {}"
    and tail: "tail = [] \<or> hd tail = 0x2c" "set tail \<inter> {0, 0x0a} = {}"
    and v: "v = strtoul ver (if hex_version ver then 16 else 10)" "v \<noteq> 0" and n: "n < length xs"
  shows "sbat_loop b i xs n =
    (if e = 0 then Some (row_cut b i name ver, xs[n := (Some i, v)], n + 1)
     else sbat_loop (row_cut b i name ver) (i + length (name @ 0x2c # ver @ tail) + 1) (xs[n := (Some i, v)]) (n + 1))"
proof -
  define j where "j = i + length name"
  define k where "k = j + 1 + length ver"
  define b' where "b' = b[j := 0]"
  define b2 where "b2 = row_cut b i name ver"
  have b2: "b2 = b'[k := 0]" by (simp add: b2_def b'_def row_cut_def j_def k_def)
  obtain c name' where c: "name = c # name'" using name(1) by (cases name) auto
  obtain x y where xy: "tail @ e # r = x # y" "x \<in> {0x2c, 0, 0x0a}" using tail(1) e by (cases tail) auto
  have i: "i < length b" "b ! i = c" using nth_drop_eq [of i b "[]" c] b c by auto
  have j: "scan_to [0x2c, 0, 0x0a] b i = Some j" "b ! j = 0x2c" "j < length b"
    using scan_to_at [OF b, of "[0x2c, 0, 0x0a]"] nth_drop_eq [OF b] name(3) by (auto simp: j_def)
  have bj: "drop (j + 1) b = ver @ x # y"
    using drop_drop_eq [of i b "name @ [0x2c]" "ver @ x # y"] b xy(1) by (simp add: j_def)
  have b'j: "drop (j + 1) b' = ver @ x # y" using bj by (simp add: b'_def)
  have k: "scan_to [0x2c, 0, 0x0a] b' (j + 1) = Some k" "b' ! k = x" "k < length b'"
    using scan_to_at [OF b'j, of "[0x2c, 0, 0x0a]"] nth_drop_eq [OF b'j] ver xy(2) by (auto simp: k_def)
  have b2j: "drop (j + 1) b2 = ver @ 0 # y"
    using k(3) b'j by (simp add: b2 k_def drop_update_swap list_update_append)
  have str: "c_str b2 (j + 1) = ver" unfolding c_str_def b2j by (rule take_while_stop) (use ver in auto)
  have bk: "drop (k + 1) b2 = y" using drop_drop_eq [of "j + 1" b2 "ver @ [0]" y] b2j by (simp add: k_def)
  have ci: "b ! i \<notin> {0, 0x0a, 0x23}" using i(2) c name(2,3) by auto
  have ver': "v = strtoul (c_str b2 (j + 1)) (if hex_version (c_str b2 (j + 1)) then 16 else 10)"
    unfolding str by (rule v(1))
  note step = sbat_loop_step [OF i(1) ci n j(1,2) b'_def k(1) b2 ver', unfolded k(2)]
  show ?thesis
  proof (cases tail)
    case Nil
    then have x: "x = e" "y = r" using xy by auto
    show ?thesis
    proof (cases "e = 0")
      case True
      have "drop k b2 = 0 # y" using drop_drop_eq [OF b2j] by (simp add: k_def)
      then show ?thesis using step [of k] sbat_loop_end [of k b2] True x v(2) by (simp add: b2_def)
    next
      case False
      then show ?thesis using step [of "k + 1"] e x v(2) Nil by (simp add: b2_def k_def j_def add.assoc)
    qed
  next
    case (Cons t ts)
    then have x: "x = 0x2c" "y = ts @ e # r" using xy tail(1) by auto
    have "scan_to [0, 0x0a] b2 (k + 1) = Some (k + 1 + length ts)"
      using bk x(2) tail(2) e Cons by (intro scan_to_at) auto
    then have "sbat_loop b i xs n = sbat_loop b2 (k + 1 + length ts) (xs[n := (Some i, v)]) (n + 1)"
      using step [of "k + 1 + length ts"] x v(2) by simp
    moreover have "drop (k + 1 + length ts) b2 = e # r" using drop_drop_eq [of "k + 1" b2 ts] bk x(2) by simp
    ultimately show ?thesis
      using e sbat_loop_end [of "k + 1 + length ts" b2 r] sbat_loop_blank [of "k + 1 + length ts" b2 r] Cons
      by (auto simp: b2_def k_def j_def add.assoc)
  qed
qed

section \<open>The parser on an accepted text\<close>

lemma cr_to_lf_id: "0x0d \<notin> set l \<Longrightarrow> map cr_to_lf l = l"
  by (induction l) (auto simp: cr_to_lf_def)

lemma mapped_line:
  assumes "p \<noteq> []" "sec_line p = Some (l, r)"
  obtains (last) "r = []" "map cr_to_lf p = strip_cr l"
  | (newline) w where "w \<in> {[], [0x0a]}" "map cr_to_lf p = strip_cr l @ 0x0a # w @ map cr_to_lf r"
proof -
  have core: "l = strip_cr l \<or> l = strip_cr l @ [0x0d]" "set (strip_cr l) \<inter> {0, 0x0a, 0x0d} = {}"
    using sec_line_core [OF assms(2)] by auto
  then have id: "map cr_to_lf (strip_cr l) = strip_cr l" by (intro cr_to_lf_id) auto
  from sec_line_lines [OF assms(2,1)] show thesis
  proof (elim disjE conjE)
    assume p: "p = l @ 0x0a # r"
    from core(1) show thesis
    proof
      assume "l = strip_cr l"
      then have "map cr_to_lf l = strip_cr l" using id by simp
      with p show thesis by (intro newline [of "[]"]) (auto simp: cr_to_lf_def)
    next
      assume "l = strip_cr l @ [0x0d]"
      then have "map cr_to_lf l = strip_cr l @ [0x0a]" using id by (metis cr_to_lf_def list.simps(8,9) map_append)
      with p show thesis by (intro newline [of "[0x0a]"]) (auto simp: cr_to_lf_def)
    qed
  next
    assume p: "p = l" "r = []" "0x0d \<notin> set l"
    then have "map cr_to_lf p = l" using cr_to_lf_id by simp
    moreover have "strip_cr l = l" using core(1) p(3) by (metis in_set_conv_decomp)
    ultimately show thesis using last p(2) by simp
  qed
qed

lemma sbat_loop_opt_blank:
  "w \<in> {[], [0x0a]} \<Longrightarrow> drop i b = w @ t \<Longrightarrow> sbat_loop b i xs n = sbat_loop b (i + length w) xs n \<and> drop (i + length w) b = t"
  using drop_drop_eq [of i b w t] sbat_loop_blank [of i b t xs n] by auto

text \<open>An entry of the result stands for a row: its product is a string of the changed text.\<close>

definition entry_is :: "u8 list \<Rightarrow> sbat_entry \<Rightarrow> u8 list \<times> nat \<Rightarrow> bool" where
  "entry_is b x r \<longleftrightarrow> (\<exists>off. fst x = Some off \<and> c_str b off = fst r \<and> snd x = of_nat (snd r))"

definition sbat_done :: "u8 list \<Rightarrow> nat \<Rightarrow> sbat_entry list \<Rightarrow> nat \<Rightarrow> (u8 list \<times> nat) list \<Rightarrow> (u8 list \<times> sbat_entry list \<times> nat) option \<Rightarrow> bool" where
  "sbat_done b i xs n rs res \<longleftrightarrow>
     (\<exists>b' xs'. res = Some (b', xs', n + length rs) \<and> take i b' = take i b \<and>
        (\<exists>ys. xs' = take n xs @ ys @ drop (n + length rs) xs \<and> list_all2 (entry_is b') ys rs))"

lemma take_eq_shorter: "take j b' = take j b \<Longrightarrow> i \<le> j \<Longrightarrow> take i b' = take i b"
  by (metis take_take min.absorb1)

lemma sbat_done_skip:
  assumes "sbat_done b j xs n rs res" "i \<le> j"
  shows "sbat_done b i xs n rs res"
  using assms(1) take_eq_shorter [OF _ assms(2)] unfolding sbat_done_def by blast

lemma row_cut_take:
  assumes "take (length name) (drop i b) = name" "i + length name < length b"
  shows "take (i + length name + 1) (row_cut b i name ver) = take i b @ name @ [0]"
proof -
  have "take (i + length name + 1) (row_cut b i name ver) = take (i + length name) b @ [0]"
    using assms(2) by (simp add: row_cut_def take_Suc_conv_app_nth)
  then show ?thesis using assms(1) by (simp add: take_add)
qed

lemma sbat_done_row:
  assumes d: "sbat_done (row_cut b i name ver) j (xs[n := (Some i, of_nat v)]) (n + 1) rs res"
    and j: "j > i + length name" and n: "n < length xs" and name: "take (length name) (drop i b) = name" "0 \<notin> set name"
    and b: "i + length name < length b"
  shows "sbat_done b i xs n ((name, v) # rs) res"
proof -
  let ?x = "(Some i, of_nat v) :: sbat_entry"
  from d obtain b' ys where res: "res = Some (b', take (n + 1) (xs[n := ?x]) @ ys @ drop (n + 1 + length rs) (xs[n := ?x]), n + 1 + length rs)"
    and b': "take j b' = take j (row_cut b i name ver)" and ys: "list_all2 (entry_is b') ys rs"
    unfolding sbat_done_def by blast
  have "take (i + length name + 1) b' = take i b @ name @ [0]"
    using take_eq_shorter [OF b', of "i + length name + 1"] j row_cut_take [OF name(1) b] by simp
  then have "b' = (take i b @ name @ [0]) @ drop (i + length name + 1) b'" by (metis append_take_drop_id)
  moreover have "length (take i b) = i" using b by simp
  ultimately have "take i b' = take i b" "drop i b' = name @ 0 # drop (i + length name + 1) b'"
    by (metis append_assoc append_eq_conv_conj, metis append_assoc append_Cons append_Nil append_eq_conv_conj)
  then have "c_str b' i = name" using name(2) take_while_stop [of 0 name "0 # _"] by (simp add: c_str_def)
  then have "list_all2 (entry_is b') (?x # ys) ((name, v) # rs)" using ys by (simp add: entry_is_def)
  moreover have "take (n + 1) (xs[n := ?x]) @ ys @ drop (n + 1 + length rs) (xs[n := ?x]) =
      take n xs @ (?x # ys) @ drop (n + length ((name, v) # rs)) xs"
    using n by (simp add: take_Suc_conv_app_nth)
  ultimately show ?thesis using res \<open>take i b' = take i b\<close> unfolding sbat_done_def by auto
qed

lemma sbat_done_Nil: "sbat_done b i xs n [] (Some (b, xs, n))"
  by (simp add: sbat_done_def)

definition sbat_parses :: "u8 list \<Rightarrow> u8 list \<Rightarrow> bool" where
  "sbat_parses z p \<longleftrightarrow> (\<forall>b i xs n. drop i b = map cr_to_lf p @ 0 # z \<longrightarrow> n + length (data_lines p) \<le> length xs \<longrightarrow>
     sbat_done b i xs n (map sbat_row (data_lines p)) (sbat_loop b i xs n))"

lemma sbat_parsesD:
  "sbat_parses z p \<Longrightarrow> drop i b = map cr_to_lf p @ 0 # z \<Longrightarrow> n + length (data_lines p) \<le> length xs \<Longrightarrow>
   sbat_done b i xs n (map sbat_row (data_lines p)) (sbat_loop b i xs n)"
  by (simp add: sbat_parses_def)

lemma sbat_parses_skip:
  assumes "p \<noteq> []" "sec_line p = Some (l, r)" "strip_cr l = [] \<or> hd (strip_cr l) = 0x23" "sbat_parses z r"
    and data: "data_lines p = data_lines r"
  shows "sbat_parses z p"
  unfolding sbat_parses_def
proof (intro allI impI)
  fix b i n and xs :: "sbat_entry list"
  assume b: "drop i b = map cr_to_lf p @ 0 # z" and n: "n + length (data_lines p) \<le> length xs"
  let ?c = "strip_cr l"
  have core: "0x0a \<notin> set ?c" "0 \<notin> set ?c" using sec_line_core(2) [OF assms(2)] by auto
  from assms(1,2) show "sbat_done b i xs n (map sbat_row (data_lines p)) (sbat_loop b i xs n)"
  proof (cases rule: mapped_line)
    case last
    have "sbat_loop b i xs n = sbat_loop b (i + length ?c) xs n"
      using b last(2) core assms(3) by (intro sbat_loop_comment) auto
    also have "\<dots> = Some (b, xs, n)" using drop_drop_eq [of i b ?c "0 # z"] b last(2) by (intro sbat_loop_end) simp
    finally show ?thesis using data last(1) by (simp add: sbat_done_Nil)
  next
    case (newline w)
    let ?i = "i + length ?c + 1 + length w"
    have 1: "sbat_loop b i xs n = sbat_loop b (i + length ?c) xs n"
      using b newline(2) core assms(3) by (intro sbat_loop_comment [of i b ?c "0x0a"]) auto
    have d: "drop (i + length ?c) b = 0x0a # w @ map cr_to_lf r @ 0 # z"
      using drop_drop_eq [of i b ?c] b newline(2) by simp
    have "drop (i + length ?c + 1) b = w @ map cr_to_lf r @ 0 # z"
      using drop_drop_eq [of "i + length ?c" b "[0x0a]"] d by simp
    from sbat_loop_opt_blank [OF newline(1) this, of xs n] 1 sbat_loop_blank [OF d, of xs n]
    have "sbat_loop b i xs n = sbat_loop b ?i xs n" "drop ?i b = map cr_to_lf r @ 0 # z" by simp_all
    with sbat_parsesD [OF assms(4), of ?i b n xs] n data show ?thesis
      by (auto intro: sbat_done_skip)
  qed
qed

lemma sbat_parses_row:
  assumes "p \<noteq> []" "sec_line p = Some (l, r)" "hd (strip_cr l) \<noteq> 0x23" "sbat_row_valid full start (strip_cr l)" "sbat_parses z r"
    and data: "data_lines p = strip_cr l # data_lines r"
  shows "sbat_parses z p"
  unfolding sbat_parses_def
proof (intro allI impI)
  fix b i n and xs :: "sbat_entry list"
  assume b: "drop i b = map cr_to_lf p @ 0 # z" and n: "n + length (data_lines p) \<le> length xs"
  obtain name ver tail where row: "strip_cr l = name @ 0x2c # ver @ tail" "0x2c \<notin> set name" "0x2c \<notin> set ver" "name \<noteq> []"
    "tail = [] \<or> hd tail = 0x2c" "sbat_row (strip_cr l) = (name, version_value ver)"
    "strtoul ver (if hex_version ver then 16 else 10) = of_nat (version_value ver)" "0 < version_value ver" "version_value ver \<le> 4294967295"
    using assms(4) by (rule sbat_row_valid_split)
  let ?v = "of_nat (version_value ver) :: u32"
  have core: "set (strip_cr l) \<inter> {0, 0x0a, 0x0d} = {}" by (rule sec_line_core(2) [OF assms(2)])
  have v: "?v \<noteq> 0" using row(8,9) by (simp add: of_nat_eq_0_iff unsigned_of_nat word_unat_eq_iff take_bit_nat_eq_self)
  have n': "n < length xs" using n data by simp
  have loop: "sbat_loop b i xs n =
      (if e = 0 then Some (row_cut b i name ver, xs[n := (Some i, ?v)], n + 1)
       else sbat_loop (row_cut b i name ver) (i + length (strip_cr l) + 1) (xs[n := (Some i, ?v)]) (n + 1))"
    if "drop i b = strip_cr l @ e # t" "e = 0x0a \<or> e = 0" for e t
    using that core row v n' assms(3) unfolding row(1)
    by (intro sbat_loop_row [where r = t]) auto
  have pre: "take (length name) (drop i b) = name" "i + length name < length b" if "drop i b = strip_cr l @ t" for t
    using that row(1) nth_drop_eq [of i b name "0x2c"] by auto
  from assms(1,2) show "sbat_done b i xs n (map sbat_row (data_lines p)) (sbat_loop b i xs n)"
  proof (cases rule: mapped_line)
    case last
    then have d: "drop i b = strip_cr l @ 0 # z" using b by simp
    have "sbat_done b i xs n [(name, version_value ver)] (sbat_loop b i xs n)"
      using loop [OF d] pre [OF d] n' core row(1)
      by (intro sbat_done_row [where j = "i + length name + 1" and ver = ver]) (auto simp: sbat_done_Nil)
    then show ?thesis using data last(1) row(6) by simp
  next
    case (newline w)
    then have d: "drop i b = strip_cr l @ 0x0a # w @ map cr_to_lf r @ 0 # z" using b by simp
    let ?b = "row_cut b i name ver"
    let ?k = "i + length (strip_cr l) + 1"
    have "drop ?k ?b = drop ?k b" using row(1) by (simp add: row_cut_def)
    also have "\<dots> = w @ map cr_to_lf r @ 0 # z" using drop_drop_eq [of i b "strip_cr l @ [0x0a]"] d by simp
    finally have k: "sbat_loop ?b ?k (xs[n := (Some i, ?v)]) (n + 1) = sbat_loop ?b (?k + length w) (xs[n := (Some i, ?v)]) (n + 1)"
      "drop (?k + length w) ?b = map cr_to_lf r @ 0 # z"
      using sbat_loop_opt_blank [OF newline(1)] by blast+
    have "sbat_done ?b (?k + length w) (xs[n := (Some i, ?v)]) (n + 1) (map sbat_row (data_lines r)) (sbat_loop b i xs n)"
      using sbat_parsesD [OF assms(5) k(2), of "n + 1" "xs[n := (Some i, ?v)]"] loop [OF d] k(1) n data by simp
    then have "sbat_done b i xs n ((name, version_value ver) # map sbat_row (data_lines r)) (sbat_loop b i xs n)"
      by (rule sbat_done_row) (use pre [OF d] n' core row(1) in auto)
    then show ?thesis using data row(6) by simp
  qed
qed

lemma sbat_text: "sec_loop False full p count = Some m \<Longrightarrow> sbat_parses z p \<and> 0 \<notin> set p"
proof (induction rule: sec_loop_induct)
  case (finish count)
  show ?case by (auto simp: sbat_parses_def sbat_loop_end sbat_done_Nil)
next
  case (skip p count l r)
  then show ?case
    using sbat_parses_skip [OF skip(1,2,4)] data_lines_step [OF skip(3)] sec_line_lines [OF skip(2,1)] sec_line_chars [OF skip(2)]
    by auto
next
  case (row p count l r)
  then show ?case
    using sbat_parses_row [OF row(1,2,5)] data_lines_step [OF row(3)] sec_line_lines [OF row(2,1)] sec_line_chars [OF row(2)]
    by auto
qed

lemma take_text: "0 \<notin> set t \<Longrightarrow> takeWhile (\<lambda>c. c \<noteq> 0) (t @ 0 # z) = t"
  by (rule take_while_stop) auto

lemma data_lines_le: "length (data_lines t) \<le> 1 + length (filter (\<lambda>c. c = 0x0a) t)"
proof -
  have "length (data_lines t) \<le> length (map strip_cr (lines t))" unfolding data_lines_def by (rule length_filter_le)
  then show ?thesis by (simp add: newlines_lines)
qed

lemma valid_sbat_entries:
  assumes "NawamSecurityTextValid (Some t) False = n" "n \<noteq> 0"
  shows "\<exists>b xs. GetSbatEntries (t @ 0 # z) = Some (b, Some xs) \<and> n = length (data_lines t) \<and>
    list_all2 (entry_is b) (take n xs) (map sbat_row (data_lines t)) \<and> n < length xs \<and> fst (xs ! n) = None"
proof -
  have loop: "sec_loop False t t 0 = Some n"
    using assms by (auto simp: NawamSecurityTextValid_def split: if_splits option.splits)
  have n: "n = length (data_lines t)" using sec_loop_count [OF loop] by simp
  have p: "sbat_parses z t" "0 \<notin> set t" using sbat_text [OF loop] by auto
  let ?b = "map cr_to_lf t @ 0 # z"
  define xs :: "sbat_entry list" where "xs = replicate (1 + length (filter (\<lambda>c. c = 0x0a) t) + 1) (None, 0)"
  have le: "n < length xs" using data_lines_le [of t] n by (simp add: xs_def)
  then have null: "xs ! n = (None, 0)" by (simp only: xs_def length_replicate nth_replicate)
  have "sbat_done ?b 0 xs 0 (map sbat_row (data_lines t)) (sbat_loop ?b 0 xs 0)"
    using n le by (intro sbat_parsesD [OF p(1)]) auto
  then obtain b ys where res: "sbat_loop ?b 0 xs 0 = Some (b, ys @ drop n xs, n)" "list_all2 (entry_is b) ys (map sbat_row (data_lines t))"
    using n by (auto simp: sbat_done_def)
  have len: "length ys = n" using list_all2_lengthD [OF res(2)] n by simp
  have "GetSbatEntries (t @ 0 # z) = Some (b, Some (ys @ drop n xs))"
    using res(1) assms(2) by (simp only: GetSbatEntries_def take_text [OF p(2)] Let_def xs_def [symmetric]) simp
  moreover have "(ys @ drop n xs) ! n = (None, 0)" using len le null by (simp add: nth_append)
  ultimately show ?thesis using n len res(2) le by auto
qed

text \<open>C36. An SBAT text that the validator accepts is parsed completely: the parser stays inside the text and inside the
  entries it allocated, the number of entries is what the validator counted, every entry has the product name and the
  version of its data line, in their order, and the entry behind them is the NULL its readers stop at.\<close>

theorem valid_sbat_text:
  assumes "NawamSecurityTextValid (Some t) False = n" "n \<noteq> 0"
  shows "\<exists>b xs. GetSbatEntries (t @ 0 # z) = Some (b, Some xs) \<and> n = length (data_lines t) \<and>
    list_all2 (entry_is b) (take n xs) (map sbat_row (data_lines t)) \<and> n < length xs \<and> fst (xs ! n) = None"
  using assms by (rule valid_sbat_entries)

theorem valid_sbat_text_witness:
  "NawamSecurityTextValid (Some [0x61, 0x2c, 0x31]) False = 1 \<and>
   (\<exists>b xs. GetSbatEntries ([0x61, 0x2c, 0x31] @ 0 # []) = Some (b, Some xs) \<and> 1 = length (data_lines [0x61, 0x2c, 0x31]) \<and>
      list_all2 (entry_is b) (take 1 xs) (map sbat_row (data_lines [0x61, 0x2c, 0x31])) \<and> 1 < length xs \<and> fst (xs ! 1) = None)"
proof -
  have "sbat_row_valid [0x61, 0x2c, 0x31] 0 [0x61, 0x2c, 0x31]"
    by (simp add: sbat_row_valid_def product_char_def hex_version_def NawamHexDigit_def)
  then have "NawamSecurityTextValid (Some [0x61, 0x2c, 0x31]) False = 1"
    by (simp add: NawamSecurityTextValid_def sec_loop.simps strip_cr_def)
  with valid_sbat_text [of "[0x61, 0x2c, 0x31]" 1 "[]"] show ?thesis by simp
qed

text \<open>A text whose lines end in lone returns, which only the validator refuses.\<close>

definition cr_text :: "u8 list" where
  "cr_text = [0x61, 0x2c, 0x31, 0x0d, 0x62, 0x2c, 0x32, 0x0d, 0x63, 0x2c, 0x33]"

text \<open>Without the validator the SBAT parser overruns its entries: it counts newlines before it turns returns into
  newlines, so a text of three rows separated by lone returns gets room for two entries, and the parser writes a third.\<close>

theorem sbat_cr_overrun:
  "GetSbatEntries (cr_text @ [0]) = None \<and> NawamSecurityTextValid (Some cr_text) False = 0"
proof
  let ?b = "map cr_to_lf cr_text @ [0]"
  let ?b1 = "row_cut ?b 0 [0x61] [0x31]"
  let ?b2 = "row_cut ?b1 4 [0x62] [0x32]"
  have v: "strtoul [0x31] 10 = 1" "strtoul [0x32] 10 = 2"
    by (simp_all add: strtoul_def c_space_def skip_sign_def skip_0x_def NawamHexDigit_def)
  have h: "\<not> hex_version [0x31]" "\<not> hex_version [0x32]" by (simp_all add: hex_version_def)
  have four: "Suc (Suc (Suc (Suc 0))) = 4" by simp
  let ?xs = "[(None, 0), (None, 0)] :: sbat_entry list"
  have "sbat_loop ?b 0 ?xs 0 = sbat_loop ?b1 4 (?xs[0 := (Some 0, 1)]) 1"
    using sbat_loop_row [of 0 ?b "[0x61]" "[0x31]" "[]" "0x0a" "[0x62, 0x2c, 0x32, 0x0a, 0x63, 0x2c, 0x33, 0]" 1 0 ?xs] v h
    by (simp add: cr_text_def cr_to_lf_def four)
  also have "\<dots> = sbat_loop ?b2 8 (?xs[0 := (Some 0, 1), 1 := (Some 4, 2)]) (Suc (Suc 0))"
    using sbat_loop_row [of 4 ?b1 "[0x62]" "[0x32]" "[]" "0x0a" "[0x63, 0x2c, 0x33, 0]" 2 1 "?xs[0 := (Some 0, 1)]"] v h
    by (simp add: cr_text_def cr_to_lf_def row_cut_def)
  also have "\<dots> = None" by (subst sbat_loop.simps) (simp add: cr_text_def cr_to_lf_def row_cut_def)
  finally show "GetSbatEntries (cr_text @ [0]) = None"
    by (simp add: GetSbatEntries_def cr_text_def cr_to_lf_def)
  show "NawamSecurityTextValid (Some cr_text) False = 0"
    by (simp add: NawamSecurityTextValid_def sec_loop.simps cr_text_def)
qed

end
