(* ===== verification/Json_Commit.thy ===== *)
theory Json_Commit
  imports Json
begin

text \<open>
  The lookups over a validated JSON text of \<open>src/src/nawam_security.h\<close>: \<open>NawamJsonMember\<close> and
  \<open>NawamCommitTimestamp\<close>, which takes the identifier and the date of the one commit of a GitHub
  answer. A cursor is again the list of the bytes up to the end the callee is given.

  \<open>NawamCommitTimestamp\<close> is specified by the document it accepts: an array of one object with unique
  members, whose date is a valid date and whose stamp is the number of seconds of the proleptic
  Gregorian calendar since 1970.
\<close>

section \<open>The lookups\<close>

text \<open>The test of \<open>NawamJsonMember\<close> on the span of a key, from its quote to behind its quote.\<close>

definition key_matches :: "u8 list \<Rightarrow> u8 list \<Rightarrow> u8 list \<Rightarrow> bool" where
  "key_matches name key value \<longleftrightarrow>
     length key - length value = length name + 2 \<and> take (length name) (drop 1 key) = name"

lemma json_value_length: "NawamJsonValue d p = Some q \<Longrightarrow> length q \<le> length p"
  by (auto dest!: json_value_split(1))

function json_member_loop :: "u8 list \<Rightarrow> u8 list option \<Rightarrow> u8 list \<Rightarrow> u8 list option" where
  "json_member_loop name found p =
     (let key = NawamJsonSpace p in
      if key = [] \<or> hd key = 0x7d then found
      else case NawamJsonString key of
        None \<Rightarrow> None
      | Some value \<Rightarrow>
          (case NawamJsonSpace value of
             [] \<Rightarrow> None
           | c # r \<Rightarrow>
               if c \<noteq> 0x3a then None
               else let q = NawamJsonSpace r in
                 if key_matches name key value \<and> found \<noteq> None then None
                 else let found' = (if key_matches name key value then Some q else found) in
                   (case NawamJsonValue 0 q of
                      None \<Rightarrow> None
                    | Some q' \<Rightarrow>
                        (case NawamJsonSpace q' of
                           [] \<Rightarrow> found'
                         | d # r' \<Rightarrow>
                             if d = 0x7d then found'
                             else if d \<noteq> 0x2c then None
                             else json_member_loop name found' r'))))"
  by pat_completeness auto
termination
proof (relation "measure (\<lambda>(name, found, p). length p)", goal_cases)
  case 1
  show ?case by simp
next
  case (2 name found p key v c r q found' q' d r')
  then show ?case
    using json_space_length [of p] json_string_length [of key v] json_space_Cons_length [of v c r]
      json_space_length [of r] json_value_length [of 0 q q'] json_space_Cons_length [of q' d r']
    by simp
qed

declare json_member_loop.simps [simp del]

definition NawamJsonMember :: "u8 list \<Rightarrow> u8 list \<Rightarrow> u8 list option" where
  "NawamJsonMember p name =
     (case NawamJsonSpace p of
        [] \<Rightarrow> None
      | c # r \<Rightarrow> if c \<noteq> 0x7b then None else json_member_loop name None r)"

text \<open>The names of the members.\<close>

definition name_sha :: "u8 list" where "name_sha = [0x73, 0x68, 0x61]"
definition name_commit :: "u8 list" where "name_commit = [0x63, 0x6f, 0x6d, 0x6d, 0x69, 0x74]"
definition name_committer :: "u8 list" where "name_committer = name_commit @ [0x74, 0x65, 0x72]"
definition name_date :: "u8 list" where "name_date = [0x64, 0x61, 0x74, 0x65]"

text \<open>The check of the twenty characters of the date, and the digits read from them.\<close>

definition date_sep :: "nat \<Rightarrow> u8" where
  "date_sep i = (if i = 4 \<or> i = 7 then 0x2d else if i = 10 then 0x54 else if i = 13 \<or> i = 16 then 0x3a
                 else if i = 19 then 0x5a else 0)"

definition date_format :: "u8 list \<Rightarrow> bool" where
  "date_format s = list_all (\<lambda>i. if date_sep i \<noteq> 0 then s ! i = date_sep i else json_digit (s ! i)) [0..<20]"

definition NAWAM_DEC2 :: "u8 list \<Rightarrow> nat \<Rightarrow> nat" where
  "NAWAM_DEC2 s n = (unat (s ! n) - 0x30) * 10 + (unat (s ! (n + 1)) - 0x30)"

definition mdays :: "nat list" where
  "mdays = [31, 28, 31, 30, 31, 30, 31, 31, 30, 31, 30, 31]"

text \<open>\<open>x % 4 == 0 && (x % 100 != 0 || x % 400 == 0)\<close>, as the number a truth value is in a sum.\<close>

definition leap :: "nat \<Rightarrow> nat" where
  "leap y = (if y mod 4 = 0 \<and> (y mod 100 \<noteq> 0 \<or> y mod 400 = 0) then 1 else 0)"

definition leap_day :: "nat \<Rightarrow> nat \<Rightarrow> nat" where
  "leap_day year month = (if month = 2 then leap year else 0)"

definition date_days :: "nat \<Rightarrow> nat \<Rightarrow> u64" where
  "date_days year month =
     fold (\<lambda>i days. days + of_nat (mdays ! (i - 1) + leap_day year i)) [1..<month]
       (fold (\<lambda>i days. days + of_nat (365 + leap i)) [1970..<year] 0)"

definition date_stamp :: "u8 list \<Rightarrow> u64 option" where
  "date_stamp s =
     (if \<not> date_format s then None
      else
        let year = NAWAM_DEC2 s 0 * 100 + NAWAM_DEC2 s 2; month = NAWAM_DEC2 s 5; day = NAWAM_DEC2 s 8;
            hour = NAWAM_DEC2 s 11; minute = NAWAM_DEC2 s 14; second = NAWAM_DEC2 s 17 in
        if year < 1970 \<or> month < 1 \<or> month > 12 \<or> hour > 23 \<or> minute > 59 \<or> second > 59 then None
        else if day = 0 \<or> day > mdays ! (month - 1) + leap_day year month then None
        else Some (((date_days year month + of_nat day - 1) * 24 + of_nat hour) * 3600 +
                   of_nat (minute * 60) + of_nat second))"

definition commit_stamp :: "u8 list \<Rightarrow> u64 option" where
  "commit_stamp ob =
     do { s \<leftarrow> NawamJsonMember ob name_commit;
          s \<leftarrow> NawamJsonMember s name_committer;
          s \<leftarrow> NawamJsonMember s name_date;
          if length s < 22 \<or> s ! 0 \<noteq> 0x22 \<or> s ! 21 \<noteq> 0x22 then None else date_stamp (drop 1 s) }"

definition commit_sha :: "u8 list \<Rightarrow> u8 list option" where
  "commit_sha ob =
     do { s \<leftarrow> NawamJsonMember ob name_sha;
          if length s < 42 \<or> s ! 0 \<noteq> 0x22 \<or> s ! 41 \<noteq> 0x22 then None
          else if \<not> list_all (\<lambda>i. NawamHexDigit (s ! (i + 1)) \<ge> 0) [0..<40] then None
          else Some (take 40 (drop 1 s) @ [0]) }"

text \<open>
  The result: the returned truth value, and what was written to \<open>*stamp\<close> and to \<open>sha\<close>. The members are
  looked up with the cursor \<open>p\<close> at the closing bracket as their end. The syntax check has seen a value, so
  the first cursor is not at the end of the text when its byte is read.
\<close>

definition NawamCommitTimestamp :: "u8 list option \<Rightarrow> bool \<times> u64 option \<times> u8 list option" where
  "NawamCommitTimestamp text =
     (case text of
        None \<Rightarrow> (False, None, None)
      | Some t \<Rightarrow>
          if t = [] \<or> length t > 1024 * 1024 then (False, None, None)
          else if \<not> json_text t then (False, None, None)
          else case NawamJsonSpace t of
            [] \<Rightarrow> (False, None, None)
          | c # r \<Rightarrow>
              if c \<noteq> 0x5b then (False, None, None)
              else
                let ob = NawamJsonSpace r in
                (case NawamJsonValue 0 ob of
                   None \<Rightarrow> (False, None, None)
                 | Some q \<Rightarrow>
                     let p = NawamJsonSpace q in
                     if p = [] \<or> hd p \<noteq> 0x5d then (False, None, None)
                     else
                       let ob = take (length ob - length p) ob in
                       (case commit_sha ob of
                          None \<Rightarrow> (False, None, None)
                        | Some sha \<Rightarrow>
                            (case commit_stamp ob of
                               None \<Rightarrow> (False, None, Some sha)
                             | Some stamp \<Rightarrow> (stamp \<noteq> 0, Some stamp, Some sha)))))"

section \<open>Members of an object\<close>

text \<open>The members of an object in the order of the text: the key with its quotes, and the text of the value.\<close>

inductive jmembers :: "nat \<Rightarrow> (u8 list \<times> u8 list) list \<Rightarrow> u8 list \<Rightarrow> bool" where
  jmembers_one: "jstring k \<Longrightarrow> jspace u \<Longrightarrow> jspace w \<Longrightarrow> jvalue d v \<Longrightarrow> jspace w' \<Longrightarrow>
    jmembers d [(k, v)] ((k @ u @ [0x3a]) @ w @ v @ w' @ [0x7d])"
| jmembers_more: "jstring k \<Longrightarrow> jspace u \<Longrightarrow> jspace w \<Longrightarrow> jvalue d v \<Longrightarrow> jspace w' \<Longrightarrow> jspace w'' \<Longrightarrow>
    jmembers d ms s \<Longrightarrow> jmembers d ((k, v) # ms) ((k @ u @ [0x3a]) @ w @ v @ w' @ [0x2c] @ w'' @ s)"

lemma jitems_jmembers_aux:
  "jvalue d v \<Longrightarrow> True"
  "jitems close d s \<Longrightarrow> close = 0x7d \<Longrightarrow> \<exists>ms. jmembers (d + 1) ms s"
proof (induction rule: jvalue_jitems.inducts)
  case (jitems_one close k w d v w')
  then obtain t u where "k = t @ u @ [0x3a]" "jstring t" "jspace u" by (auto simp: jkey_def)
  with jitems_one show ?case using jmembers_one [of t u w "d + 1" v w'] by auto
next
  case (jitems_more close k w d v w' w'' s)
  then obtain ms t u where "jmembers (d + 1) ms s" "k = t @ u @ [0x3a]" "jstring t" "jspace u"
    by (auto simp: jkey_def)
  with jitems_more show ?case using jmembers_more [of t u w "d + 1" v w' w'' ms s] by auto
qed auto

lemmas jitems_jmembers = jitems_jmembers_aux(2) [OF _ refl]

definition quoted :: "u8 list \<Rightarrow> u8 list" where
  "quoted name = 0x22 # name @ [0x22]"

text \<open>\<open>ob\<close> is an object in which exactly one member has the name, and \<open>v\<close> is the text of its value.\<close>

definition named :: "u8 list \<Rightarrow> (u8 list \<times> u8 list) list \<Rightarrow> u8 list list" where
  "named name ms = map snd (filter (\<lambda>m. fst m = quoted name) ms)"

definition jmember :: "u8 list \<Rightarrow> u8 list \<Rightarrow> u8 list \<Rightarrow> bool" where
  "jmember ob name v \<longleftrightarrow>
     (\<exists>w s ms d. ob = 0x7b # w @ s \<and> jspace w \<and> jmembers d ms s \<and> named name ms = [v])"

lemma jchars_last: "jchars s \<Longrightarrow> \<exists>t. s = t @ [0x22]"
  by (induction rule: jchars.induct) auto

lemma key_matches_iff:
  assumes "jstring k"
  shows "key_matches name (k @ r) r \<longleftrightarrow> k = quoted name"
proof -
  obtain t where k: "k = 0x22 # t @ [0x22]" using assms jchars_last by (fastforce elim!: jstring.cases)
  have "key_matches name (k @ r) r \<longleftrightarrow> length t = length name \<and> take (length name) (t @ [0x22] @ r) = name"
    by (auto simp: key_matches_def k)
  also have "\<dots> \<longleftrightarrow> t = name" by auto
  finally show ?thesis using k by (simp add: quoted_def)
qed

text \<open>One round of the loop at a member of the grammar.\<close>

lemma json_member_step:
  "\<lbrakk> NawamJsonSpace p = x # y; x \<noteq> 0x7d; NawamJsonString (x # y) = Some val; NawamJsonSpace val = 0x3a # r;
    NawamJsonSpace r = q; NawamJsonValue 0 q = Some q'; NawamJsonSpace q' = c # r' \<rbrakk> \<Longrightarrow>
   json_member_loop name found p =
    (if key_matches name (x # y) val \<and> found \<noteq> None then None
     else let found' = (if key_matches name (x # y) val then Some q else found) in
       if c = 0x7d then found' else if c \<noteq> 0x2c then None else json_member_loop name found' r')"
  by (subst json_member_loop.simps) (auto simp: Let_def)

lemma json_member_round:
  assumes "jstring k" "jspace u" "jspace w" "jvalue d v" "jspace w'" "c \<in> {0x2c, 0x7d}" "jspace w0"
    and found': "found' = (if k = quoted name then Some (v @ w' @ c # r) else found)"
  shows "json_member_loop name found (w0 @ k @ u @ 0x3a # w @ v @ w' @ c # r) =
    (if k = quoted name \<and> found \<noteq> None then None
     else if c = 0x7d then found' else json_member_loop name found' r)"
proof -
  obtain k' where k': "k = 0x22 # k'" using jstring_head [OF assms(1)] by blast
  obtain x y where v: "v = x # y" "\<not> json_blank x" using jvalue_head [OF assms(4)] by blast
  let ?val = "u @ 0x3a # w @ v @ w' @ c # r"
  let ?q = "v @ w' @ c # r"
  have "jvalue 0 v" by (rule jvalue_shallower(1) [OF assms(4)]) simp
  have 1: "NawamJsonSpace (w0 @ k @ ?val) = 0x22 # k' @ ?val"
    by (simp add: space_append assms(7) k' space_Cons json_blank_def)
  have 2: "NawamJsonString (0x22 # k' @ ?val) = Some ?val" using json_string_complete [OF assms(1), of ?val] k' by simp
  have 3: "NawamJsonSpace ?val = 0x3a # w @ ?q" by (simp add: space_append assms(2) space_Cons json_blank_def)
  have 4: "NawamJsonSpace (w @ ?q) = ?q" using v by (simp add: space_append assms(3) space_Cons)
  have "NawamJsonValue 0 ([] @ ?q) = Some (w' @ c # r)"
    by (intro json_value_complete(1) [OF \<open>jvalue 0 v\<close>] jstop_space assms) (use assms in \<open>auto simp: jspace_def\<close>)
  then have 5: "NawamJsonValue 0 ?q = Some (w' @ c # r)" by simp
  have 6: "NawamJsonSpace (w' @ c # r) = c # r" using assms(5,6) by (auto simp: space_append space_Cons json_blank_def)
  have 7: "key_matches name (0x22 # k' @ ?val) ?val \<longleftrightarrow> k = quoted name"
    using key_matches_iff [OF assms(1), of name ?val] k' by simp
  show ?thesis
    using json_member_step [OF 1 _ 2 3 4 5 6, of name found] assms(6) unfolding 7 found' Let_def by auto
qed

text \<open>What the loop returns after a found value and the members still to come.\<close>

definition member_result :: "u8 list option \<Rightarrow> u8 list list \<Rightarrow> u8 list option \<Rightarrow> bool" where
  "member_result found vs res =
     (case (found, vs) of
        (None, [v]) \<Rightarrow> \<exists>r. res = Some (v @ r)
      | (Some q, []) \<Rightarrow> res = Some q
      | _ \<Rightarrow> res = None)"

lemma member_result_simps [simp]:
  "member_result None [] res \<longleftrightarrow> res = None"
  "member_result None [v] res \<longleftrightarrow> (\<exists>r. res = Some (v @ r))"
  "member_result None (v # v' # vs) res \<longleftrightarrow> res = None"
  "member_result (Some q) [] res \<longleftrightarrow> res = Some q"
  "member_result (Some q) (v # vs) res \<longleftrightarrow> res = None"
  by (simp_all add: member_result_def)

lemma json_member_loop_members:
  "jmembers d ms s \<Longrightarrow> jspace w0 \<Longrightarrow> member_result found (named name ms) (json_member_loop name found (w0 @ s @ t))"
proof (induction arbitrary: found w0 rule: jmembers.induct)
  case (jmembers_one k u w d v w')
  then show ?case
    using json_member_round [of k u w d v w' "0x7d" w0 _ name t found, OF _ _ _ _ _ _ _ refl]
    by (cases found) (auto simp: named_def)
next
  case (jmembers_more k u w d v w' w'' ms s)
  have round: "json_member_loop name found (w0 @ (k @ u @ 0x3a # w @ v @ w' @ [0x2c] @ w'' @ s) @ t) =
    (if k = quoted name \<and> found \<noteq> None then None
     else json_member_loop name (if k = quoted name then Some (v @ w' @ 0x2c # w'' @ s @ t) else found) (w'' @ s @ t))"
    using json_member_round [of k u w d v w' "0x2c" w0 _ name "w'' @ s @ t" found, OF _ _ _ _ _ _ _ refl] jmembers_more
    by auto
  show ?case
  proof (cases "k = quoted name")
    case True
    then show ?thesis
      using round jmembers_more.IH [of w'' "Some (v @ w' @ 0x2c # w'' @ s @ t)"] \<open>jspace w''\<close>
      by (cases found; cases "named name ms") (auto simp: named_def)
  next
    case False
    then show ?thesis using round jmembers_more.IH [of w'' found] \<open>jspace w''\<close> by (simp add: named_def)
  qed
qed

lemma jvalue_object:
  assumes "jvalue d (0x7b # r)"
  obtains w where "r = w @ [0x7d]" "jspace w" | w s ms where "r = w @ s" "jspace w" "jmembers (d + 1) ms s"
  using assms
proof (cases rule: jvalue.cases)
  case jvalue_string
  then show ?thesis using jstring_head by fastforce
next
  case jvalue_number
  then show ?thesis using jnumber_head by (fastforce simp: json_digit_def)
next
  case (jvalue_items w s)
  then show ?thesis using jitems_jmembers that(2) by (fastforce simp: jclose_def)
qed (auto simp: json_true_def json_null_def json_false_def jclose_def intro: that)

lemma jmembers_values: "jmembers d ms s \<Longrightarrow> m \<in> set ms \<Longrightarrow> jvalue d (snd m)"
  by (induction rule: jmembers.induct) auto

lemma json_member_start: "jspace w \<Longrightarrow> NawamJsonMember (w @ 0x7b # r) name = json_member_loop name None r"
  by (simp add: NawamJsonMember_def space_append space_Cons json_blank_def)

lemma json_member_complete:
  assumes "jmember ob name v" "jspace w"
  shows "\<exists>r. NawamJsonMember (w @ ob @ t) name = Some (v @ r)"
proof -
  obtain w' s ms d where ob: "ob = 0x7b # w' @ s" "jspace w'" "jmembers d ms s" "named name ms = [v]"
    using assms(1) by (auto simp: jmember_def)
  then show ?thesis
    using json_member_loop_members [OF ob(3,2), of None name t] json_member_start [OF assms(2)] by simp
qed

lemma json_member_sound:
  assumes "jvalue d ob" "jspace w" "NawamJsonMember (w @ ob @ t) name = Some q"
  shows "\<exists>v r. jmember ob name v \<and> jvalue (d + 1) v \<and> q = v @ r"
proof -
  obtain c ob' where c: "ob = c # ob'" "\<not> json_blank c" using jvalue_head [OF assms(1)] by blast
  with assms(2,3) have "c = 0x7b"
    by (auto simp: NawamJsonMember_def space_append space_Cons split: if_splits)
  with assms c have loop: "json_member_loop name None (ob' @ t) = Some q" and ob: "jvalue d (0x7b # ob')"
    by (simp_all add: json_member_start)
  from ob show ?thesis
  proof (cases rule: jvalue_object)
    case (1 w')
    then have "json_member_loop name None (ob' @ t) = None"
      by (subst json_member_loop.simps) (simp add: space_append space_Cons json_blank_def Let_def)
    with loop show ?thesis by simp
  next
    case (2 w' s ms)
    from json_member_loop_members [OF 2(3,2), of None name t] loop 2(1)
    obtain v r where v: "named name ms = [v]" "q = v @ r"
      by (cases "named name ms" rule: remdups_adj.cases) auto
    then have "v \<in> set (named name ms)" by simp
    then have "jvalue (d + 1) v" using jmembers_values [OF 2(3)] by (auto simp: named_def)
    moreover have "jmember ob name v" using v(1) 2 c(1) \<open>c = 0x7b\<close> unfolding jmember_def by blast
    ultimately show ?thesis using v(2) by blast
  qed
qed

text \<open>On the text of a JSON value, the member lookup finds exactly what is asked for: it returns a cursor
  at the value of the one member of that name when the value is an object with exactly one such member, and NULL
  when the value is not an object, has no such member or has more than one.\<close>

theorem json_member_unique:
  assumes "jvalue d ob" "jspace w"
  shows "case NawamJsonMember (w @ ob @ t) name of
      Some q \<Rightarrow> \<exists>v r. jmember ob name v \<and> q = v @ r
    | None \<Rightarrow> \<not> (\<exists>v. jmember ob name v)"
  using json_member_sound [OF assms, of t name] json_member_complete [OF _ assms(2), of ob name _ t]
  by (auto split: option.split) (metis option.distinct(1))

definition sample_object :: "u8 list" where
  "sample_object = [0x7b, 0x22, 0x61, 0x22, 0x3a, 0x31, 0x7d]"

lemma sample_object_value: "jvalue 0 sample_object"
proof -
  have "jkey 0x7d [0x22, 0x61, 0x22, 0x3a]"
  proof -
    have "jstring [0x22, 0x61, 0x22]" by (intro jstringI jchars_plain jchars_end) simp_all
    then show ?thesis unfolding jkey_def by (simp add: exI [of _ "[0x22, 0x61, 0x22]"] exI [of _ "[]"] jspace_def)
  qed
  moreover have "jvalue (0 + 1) [0x31]"
    by (rule jvalue_number) (auto intro: jnumberI [of "[]" "[0x31]" "[]" "[]", simplified]
        simp: jinteger_def jfraction_def jexponent_def jdigits_def json_digit_def)
  ultimately have "jitems 0x7d 0 ([0x22, 0x61, 0x22, 0x3a] @ [] @ [0x31] @ [] @ [0x7d])"
    by (intro jitems_one) (auto simp: jspace_def)
  then show ?thesis
    unfolding sample_object_def using jvalue_items [of 0 "0x7b" "[]"] by (auto simp: jspace_def jclose_def)
qed

theorem json_member_unique_witness:
  "jvalue 0 sample_object \<and>
   (case NawamJsonMember ([] @ sample_object @ []) [0x61] of
      Some q \<Rightarrow> \<exists>v r. jmember sample_object [0x61] v \<and> q = v @ r
    | None \<Rightarrow> \<not> (\<exists>v. jmember sample_object [0x61] v))"
  using json_member_unique [OF sample_object_value, where w = "[]" and t = "[]" and name = "[0x61]"] sample_object_value by (simp add: jspace_def)

section \<open>Dates\<close>

text \<open>
  The reference: the days of the proleptic Gregorian calendar in closed form, the seconds since 1970, and the
  text of a date of ISO 8601.
\<close>

definition leaps :: "nat \<Rightarrow> nat" where
  "leaps y = y div 4 - y div 100 + y div 400"

definition month_start :: "nat \<Rightarrow> nat \<Rightarrow> nat" where
  "month_start y m = [0, 31, 59, 90, 120, 151, 181, 212, 243, 273, 304, 334] ! (m - 1) + (if m > 2 then leap y else 0)"

definition civil_days :: "nat \<Rightarrow> nat \<Rightarrow> nat \<Rightarrow> nat" where
  "civil_days y m d = 365 * (y - 1970) + (leaps (y - 1) - leaps 1969) + month_start y m + (d - 1)"

type_synonym date = "nat \<times> nat \<times> nat \<times> nat \<times> nat \<times> nat"

fun epoch :: "date \<Rightarrow> nat" where
  "epoch (y, mo, d, h, mi, s) = ((civil_days y mo d * 24 + h) * 60 + mi) * 60 + s"

fun valid_date :: "date \<Rightarrow> bool" where
  "valid_date (y, mo, d, h, mi, s) \<longleftrightarrow> 1970 \<le> y \<and> y \<le> 9999 \<and> 1 \<le> mo \<and> mo \<le> 12 \<and> 1 \<le> d \<and>
     d \<le> mdays ! (mo - 1) + leap_day y mo \<and> h \<le> 23 \<and> mi \<le> 59 \<and> s \<le> 59"

definition dig :: "nat \<Rightarrow> u8" where
  "dig n = of_nat (0x30 + n)"

definition two :: "nat \<Rightarrow> u8 list" where
  "two n = [dig (n div 10), dig (n mod 10)]"

fun iso_date :: "date \<Rightarrow> u8 list" where
  "iso_date (y, mo, d, h, mi, s) =
     two (y div 100) @ two (y mod 100) @ [0x2d] @ two mo @ [0x2d] @ two d @ [0x54] @
     two h @ [0x3a] @ two mi @ [0x3a] @ two s @ [0x5a]"

lemma leaps_Suc: "leaps (Suc y) = leaps y + leap (Suc y)"
proof -
  have "Suc y mod 400 = 0 \<Longrightarrow> Suc y mod 100 = 0" "Suc y mod 100 = 0 \<Longrightarrow> Suc y mod 4 = 0"
    unfolding mod_eq_0_iff_dvd by (erule dvd_trans [rotated], simp)+
  moreover have "y div 100 \<le> y div 4" by (simp add: div_le_mono2)
  ultimately show ?thesis unfolding leaps_def leap_def div_Suc by auto
qed

lemma leaps_mono: "1969 \<le> y \<Longrightarrow> leaps 1969 \<le> leaps y"
  by (induction y rule: dec_induct) (auto simp: leaps_Suc)

lemma year_days:
  assumes "1970 \<le> y"
  shows "fold (\<lambda>i days. days + of_nat (365 + leap i)) [1970..<y] (0::u64) =
    of_nat (365 * (y - 1970) + (leaps (y - 1) - leaps 1969))"
  using assms
proof (induction y rule: dec_induct)
  case (step n)
  then have "leaps 1969 \<le> leaps (n - 1)" by (intro leaps_mono) simp
  moreover have "leaps n = leaps (n - 1) + leap n" using leaps_Suc [of "n - 1"] step(1) by simp
  ultimately have "365 * (Suc n - 1970) + (leaps (Suc n - 1) - leaps 1969) =
    365 * (n - 1970) + (leaps (n - 1) - leaps 1969) + (365 + leap n)"
    using step(1) by simp
  then show ?case using step by (simp only: upt_Suc_append fold_append fold_simps comp_apply of_nat_add)
qed simp

lemma month_cases: "1 \<le> (m::nat) \<Longrightarrow> m \<le> 12 \<Longrightarrow> m = 1 \<or> m = 2 \<or> m = 3 \<or> m = 4 \<or> m = 5 \<or> m = 6 \<or> m = 7 \<or> m = 8 \<or> m = 9 \<or> m = 10 \<or> m = 11 \<or> m = 12"
  by presburger

lemma month_days:
  assumes "1 \<le> m" "m \<le> 12"
  shows "fold (\<lambda>i days. days + of_nat (mdays ! (i - 1) + leap_day y i)) [1..<m] (d :: u64) = d + of_nat (month_start y m)"
  using month_cases [OF assms]
  by (elim disjE) (simp_all add: upt_rec mdays_def leap_day_def month_start_def numeral_eq_Suc)

lemma date_days_civil:
  assumes "1970 \<le> y" "1 \<le> m" "m \<le> 12" "1 \<le> d"
  shows "date_days y m + of_nat d - 1 = of_nat (civil_days y m d)"
proof -
  have "of_nat d - 1 = (of_nat (d - 1) :: u64)" using assms(4) by (simp add: of_nat_diff)
  then show ?thesis
    unfolding date_days_def year_days [OF assms(1)] month_days [OF assms(2,3)] civil_days_def
    by (simp only: add_diff_eq [symmetric] of_nat_add)
qed

lemma epoch_bound: "valid_date dt \<Longrightarrow> epoch dt < 2 ^ 64"
proof (induction dt rule: valid_date.induct)
  case (1 y mo d h mi s)
  then have "leaps (y - 1) \<le> 9999" by (auto simp: leaps_def)
  moreover have "month_start y mo \<le> 335"
    using 1 month_cases [of mo] by (auto simp: month_start_def leap_def)
  moreover have "d \<le> 32" using 1 month_cases [of mo] by (auto simp: mdays_def leap_day_def leap_def split: if_splits)
  ultimately have "civil_days y mo d \<le> 3000000" unfolding civil_days_def using 1 by auto
  with 1 show ?case by auto
qed

lemma unat_dig: "n < 10 \<Longrightarrow> unat (dig n) = 0x30 + n"
  unfolding dig_def by (simp only: unat_of_nat) simp

lemma json_digit_dig: "n < 10 \<Longrightarrow> json_digit (dig n)"
  by (simp add: json_digit_def word_le_nat_alt unat_dig)

lemma dig_unat: "json_digit c \<Longrightarrow> dig (unat c - 0x30) = c \<and> unat c - 0x30 < 10"
  by (auto simp: json_digit_def dig_def word_le_nat_alt)

lemma two_dec2:
  assumes "json_digit (s ! n)" "json_digit (s ! Suc n)"
  shows "two (NAWAM_DEC2 s n) = [s ! n, s ! Suc n] \<and> NAWAM_DEC2 s n < 100"
  using dig_unat [OF assms(1)] dig_unat [OF assms(2)] by (simp add: two_def NAWAM_DEC2_def)

lemma dec2_two: "n < 100 \<Longrightarrow> s ! i = two n ! 0 \<Longrightarrow> s ! Suc i = two n ! 1 \<Longrightarrow> NAWAM_DEC2 s i = n"
  by (simp add: NAWAM_DEC2_def two_def unat_dig)

lemma upt_20: "[0..<20] = [0, 1, 2, 3, 4, 5, 6, 7, 8, 9, 10, 11, 12, 13, 14, 15, 16, 17, 18, 19]"
  by code_simp

lemma date_format_iff:
  "date_format s \<longleftrightarrow>
     json_digit (s ! 0) \<and> json_digit (s ! 1) \<and> json_digit (s ! 2) \<and> json_digit (s ! 3) \<and> s ! 4 = 0x2d \<and>
     json_digit (s ! 5) \<and> json_digit (s ! 6) \<and> s ! 7 = 0x2d \<and> json_digit (s ! 8) \<and> json_digit (s ! 9) \<and> s ! 10 = 0x54 \<and>
     json_digit (s ! 11) \<and> json_digit (s ! 12) \<and> s ! 13 = 0x3a \<and> json_digit (s ! 14) \<and> json_digit (s ! 15) \<and>
     s ! 16 = 0x3a \<and> json_digit (s ! 17) \<and> json_digit (s ! 18) \<and> s ! 19 = 0x5a"
  by (simp add: date_format_def date_sep_def upt_20)

definition read_date :: "u8 list \<Rightarrow> date" where
  "read_date s = (NAWAM_DEC2 s 0 * 100 + NAWAM_DEC2 s 2, NAWAM_DEC2 s 5, NAWAM_DEC2 s 8,
     NAWAM_DEC2 s 11, NAWAM_DEC2 s 14, NAWAM_DEC2 s 17)"

lemma nth20: "length s \<ge> 20 \<Longrightarrow> take 20 s = [s ! 0, s ! 1, s ! 2, s ! 3, s ! 4, s ! 5, s ! 6, s ! 7, s ! 8, s ! 9,
    s ! 10, s ! 11, s ! 12, s ! 13, s ! 14, s ! 15, s ! 16, s ! 17, s ! 18, s ! 19]"
  by (rule nth_equalityI) (auto simp: nth_Cons numeral_eq_Suc less_Suc_eq)

lemma read_date_format:
  assumes "date_format s" "length s \<ge> 20"
  shows "take 20 s = iso_date (read_date s)" "fst (read_date s) \<le> 9999"
proof -
  note d = assms(1) [unfolded date_format_iff]
  note t = two_dec2 [of s 0] two_dec2 [of s 2] two_dec2 [of s 5] two_dec2 [of s 8] two_dec2 [of s 11] two_dec2 [of s 14] two_dec2 [of s 17]
  show "take 20 s = iso_date (read_date s)"
    using d t unfolding nth20 [OF assms(2)] read_date_def by simp
  show "fst (read_date s) \<le> 9999" using d t by (simp add: read_date_def)
qed

lemma date_iso:
  assumes "valid_date dt"
  shows "date_format (iso_date dt @ x)" "read_date (iso_date dt @ x) = dt"
proof -
  obtain y mo d h mi s where dt: "dt = (y, mo, d, h, mi, s)" by (cases dt)
  have small: "y div 100 < 100" "y mod 100 < 100" "mo < 100" "d < 100" "h < 100" "mi < 100" "s < 100"
    using assms month_cases [of mo] by (auto simp: dt mdays_def leap_day_def leap_def split: if_splits)
  then show "date_format (iso_date dt @ x)" by (simp add: date_format_iff dt two_def json_digit_dig)
  let ?r = "NAWAM_DEC2 (iso_date dt @ x)"
  have "?r 0 = y div 100" "?r 2 = y mod 100" "?r 5 = mo" "?r 8 = d" "?r 11 = h" "?r 14 = mi" "?r 17 = s"
    by (rule dec2_two [OF small(1)] dec2_two [OF small(2)] dec2_two [OF small(3)] dec2_two [OF small(4)]
        dec2_two [OF small(5)] dec2_two [OF small(6)] dec2_two [OF small(7)]; simp add: dt two_def)+
  then show "read_date (iso_date dt @ x) = dt"
    unfolding read_date_def by (simp only: dt div_mult_mod_eq)
qed

lemma date_stamp_read:
  "length s \<ge> 20 \<Longrightarrow> date_stamp s = (if date_format s \<and> valid_date (read_date s) then Some (of_nat (epoch (read_date s))) else None)"
proof -
  assume len: "length s \<ge> 20"
  obtain y mo d h mi se where r: "read_date s = (y, mo, d, h, mi, se)" by (cases "read_date s")
  show ?thesis
  proof (cases "date_format s")
    case True
    then have "y \<le> 9999" using read_date_format(2) [OF _ len] r by simp
    have "of_nat (epoch (read_date s)) = ((of_nat (civil_days y mo d) * 24 + of_nat h) * 3600 + of_nat (mi * 60) + of_nat se :: u64)"
      by (simp add: r algebra_simps)
    with True \<open>y \<le> 9999\<close> r show ?thesis
      by (auto simp: date_stamp_def read_date_def Let_def date_days_civil not_less not_le)
  qed (simp add: date_stamp_def)
qed

lemma date_stamp_iso: "valid_date dt \<Longrightarrow> date_stamp (iso_date dt @ x) = Some (of_nat (epoch dt))"
  by (subst date_stamp_read) (simp_all add: date_iso, cases dt, simp add: two_def)

lemma date_stamp_SomeD:
  "date_stamp s = Some st \<Longrightarrow> length s \<ge> 20 \<Longrightarrow>
   \<exists>dt. valid_date dt \<and> take 20 s = iso_date dt \<and> st = of_nat (epoch dt)"
  by (rule exI [of _ "read_date s"]) (simp add: date_stamp_read read_date_format(1) split: if_splits)

lemma unat_epoch: "valid_date dt \<Longrightarrow> unat (of_nat (epoch dt) :: u64) = epoch dt"
  using epoch_bound by (simp add: unat_of_nat)

declare valid_date.simps [simp del] iso_date.simps [simp del] epoch.simps [simp del]

section \<open>The document of a commit\<close>

text \<open>The answer with one commit, and the members it must have.\<close>

definition commit_document :: "u8 list \<Rightarrow> u8 list \<Rightarrow> bool" where
  "commit_document t ob \<longleftrightarrow>
     (\<exists>w0 w1 w2 w3. t = w0 @ [0x5b] @ w1 @ ob @ w2 @ [0x5d] @ w3 \<and>
        jspace w0 \<and> jspace w1 \<and> jspace w2 \<and> jspace w3 \<and> jvalue 1 ob)"

definition commit_members :: "u8 list \<Rightarrow> u8 list \<Rightarrow> date \<Rightarrow> bool" where
  "commit_members ob sha dt \<longleftrightarrow>
     (\<exists>co ct. jmember ob name_sha (quoted sha) \<and> jmember ob name_commit co \<and>
        jmember co name_committer ct \<and> jmember ct name_date (quoted (iso_date dt)))"

lemma plain_string:
  assumes "list_all (\<lambda>c. \<not> c < 32 \<and> c \<noteq> 0x22 \<and> c \<noteq> 0x5c) h"
  shows "jstring (quoted h)"
proof -
  have "jchars (h @ [0x22])" using assms by (induction h) (auto intro: jchars.intros(1,2))
  then show ?thesis unfolding quoted_def by (rule jstringI)
qed

lemma quoted_prefix:
  assumes "list_all (\<lambda>c. \<not> c < 32 \<and> c \<noteq> 0x22 \<and> c \<noteq> 0x5c) h" "jvalue d v" "v @ r = quoted h @ x"
  shows "v = quoted h"
proof -
  have "jvalue d (0x22 # tl v)" "v = 0x22 # tl v" using jvalue_head [OF assms(2)] assms(2,3) by (auto simp: quoted_def)
  then have "jstring v"
    by (cases rule: jvalue.cases) (auto simp: json_true_def json_null_def json_false_def json_digit_def dest!: jnumber_head)
  then show ?thesis
    using json_string_complete [of v r] json_string_complete [OF plain_string [OF assms(1)], of x] assms(3) by simp
qed

lemma hex_digit_plain: "NawamHexDigit c \<ge> 0 \<Longrightarrow> \<not> c < 32 \<and> c \<noteq> 0x22 \<and> c \<noteq> 0x5c"
  by (auto simp: NawamHexDigit_def word_le_def word_less_def split: if_splits)

lemma dig_plain: "n < 10 \<Longrightarrow> \<not> dig n < 32 \<and> dig n \<noteq> 0x22 \<and> dig n \<noteq> 0x5c"
  using unat_dig [of n] by (auto simp: word_less_nat_alt)

lemma iso_plain:
  assumes "valid_date dt"
  shows "list_all (\<lambda>c. \<not> c < 32 \<and> c \<noteq> 0x22 \<and> c \<noteq> 0x5c) (iso_date dt)"
proof -
  obtain y mo d h mi s where dt: "dt = (y, mo, d, h, mi, s)" by (cases dt)
  have "y div 100 < 100" "mo < 100" "d < 100" "h < 100" "mi < 100" "s < 100"
    using assms month_cases [of mo] by (auto simp: valid_date.simps dt mdays_def leap_day_def leap_def split: if_splits)
  then show ?thesis by (simp add: dt iso_date.simps two_def dig_plain)
qed

lemma length_iso [simp]: "length (iso_date dt) = 20"
  by (cases dt) (simp add: iso_date.simps two_def)

lemma quote_split:
  assumes "n + 2 \<le> length s" "s ! 0 = 0x22" "s ! (n + 1) = 0x22"
  shows "s = quoted (take n (drop 1 s)) @ drop (n + 2) s"
proof (cases s)
  case (Cons c s')
  then show ?thesis using assms id_take_nth_drop [of n s'] by (simp add: quoted_def)
qed (use assms in simp)

lemma commit_sha_sound:
  assumes "jvalue d ob" "commit_sha (ob @ w) = Some z"
  shows "\<exists>sha. z = sha @ [0] \<and> length sha = 40 \<and> list_all (\<lambda>c. NawamHexDigit c \<ge> 0) sha \<and> jmember ob name_sha (quoted sha)"
proof -
  from assms(2) obtain s where s: "NawamJsonMember (ob @ w) name_sha = Some s" "42 \<le> length s" "s ! 0 = 0x22" "s ! 41 = 0x22"
    "list_all (\<lambda>i. NawamHexDigit (s ! (i + 1)) \<ge> 0) [0..<40]" "z = take 40 (drop 1 s) @ [0]"
    by (auto simp: commit_sha_def bind_eq_Some_conv simp del: upt_rec_numeral split: if_splits)
  let ?h = "take 40 (drop 1 s)"
  have h: "list_all (\<lambda>c. NawamHexDigit c \<ge> 0) ?h" using s(2,5) by (simp add: list_all_length del: upt_rec_numeral)
  from json_member_sound [of d ob "[]" w name_sha s] s(1) assms(1) obtain v r where
    v: "jmember ob name_sha v" "jvalue (d + 1) v" "s = v @ r" by (auto simp: jspace_def)
  have e: "s = quoted ?h @ drop 42 s" using quote_split [of 40 s] s(2-4) by simp
  have "list_all (\<lambda>c. \<not> c < 32 \<and> c \<noteq> 0x22 \<and> c \<noteq> 0x5c) ?h" using h hex_digit_plain by (simp add: list_all_iff)
  then have q: "v = quoted ?h" by (rule quoted_prefix [OF _ v(2) trans [OF v(3) [symmetric] e]])
  have "length ?h = 40" using s(2) by simp
  with v(1) [unfolded q] h s(6) show ?thesis by blast
qed

lemma commit_sha_complete:
  assumes "length sha = 40" "list_all (\<lambda>c. NawamHexDigit c \<ge> 0) sha" "jmember ob name_sha (quoted sha)"
  shows "commit_sha (ob @ w) = Some (sha @ [0])"
proof -
  obtain r where "NawamJsonMember (ob @ w) name_sha = Some (quoted sha @ r)"
    using json_member_complete [OF assms(3), of "[]" w] by (auto simp: jspace_def)
  moreover have "list_all (\<lambda>i. NawamHexDigit ((quoted sha @ r) ! (i + 1)) \<ge> 0) [0..<40]"
    using assms(1,2) by (simp add: list_all_iff quoted_def nth_append del: upt_rec_numeral)
  ultimately show ?thesis
    using assms(1) by (simp add: commit_sha_def quoted_def nth_append del: upt_rec_numeral)
qed

lemma commit_stamp_sound:
  assumes "jvalue d ob" "commit_stamp (ob @ w) = Some st"
  shows "\<exists>co ct dt. jmember ob name_commit co \<and> jmember co name_committer ct \<and> jmember ct name_date (quoted (iso_date dt)) \<and>
    valid_date dt \<and> st = of_nat (epoch dt)"
proof -
  from assms(2) obtain a b s where s: "NawamJsonMember (ob @ w) name_commit = Some a" "NawamJsonMember a name_committer = Some b"
    "NawamJsonMember b name_date = Some s" "22 \<le> length s" "s ! 0 = 0x22" "s ! 21 = 0x22" "date_stamp (drop 1 s) = Some st"
    by (auto simp: commit_stamp_def bind_eq_Some_conv split: if_splits)
  note mem = json_member_sound [where w = "[]", simplified, unfolded jspace_def, simplified]
  obtain co r1 where co: "jmember ob name_commit co" "jvalue (d + 1) co" "a = co @ r1" using mem [OF assms(1)] s(1) by fastforce
  obtain ct r2 where ct: "jmember co name_committer ct" "jvalue (d + 2) ct" "b = ct @ r2"
    using mem [OF co(2)] s(2) co(3) by fastforce
  obtain v r3 where v: "jmember ct name_date v" "jvalue (d + 3) v" "s = v @ r3"
    using mem [OF ct(2)] s(3) ct(3) by (fastforce simp: numeral_eq_Suc)
  have "20 \<le> length (drop 1 s)" using s(4) by simp
  from date_stamp_SomeD [OF s(7) this] obtain dt where
    dt: "valid_date dt" "take 20 (drop 1 s) = iso_date dt" "st = of_nat (epoch dt)" by blast
  have e: "s = quoted (iso_date dt) @ drop 22 s" using quote_split [of 20 s] s(4-6) dt(2) by simp
  have "v = quoted (iso_date dt)" by (rule quoted_prefix [OF iso_plain [OF dt(1)] v(2) trans [OF v(3) [symmetric] e]])
  with co ct v dt show ?thesis by blast
qed

lemma commit_stamp_complete:
  assumes "jmember ob name_commit co" "jmember co name_committer ct" "jmember ct name_date (quoted (iso_date dt))" "valid_date dt"
  shows "commit_stamp (ob @ w) = Some (of_nat (epoch dt))"
proof -
  note mem = json_member_complete [where w = "[]", simplified, unfolded jspace_def, simplified]
  obtain r1 where 1: "NawamJsonMember (ob @ w) name_commit = Some (co @ r1)" using mem [OF assms(1)] by blast
  obtain r2 where 2: "NawamJsonMember (co @ r1) name_committer = Some (ct @ r2)" using mem [OF assms(2)] by blast
  obtain r3 where 3: "NawamJsonMember (ct @ r2) name_date = Some (quoted (iso_date dt) @ r3)" using mem [OF assms(3)] by blast
  then show ?thesis using 1 2 date_stamp_iso [OF assms(4), of "0x22 # r3"]
    by (simp add: commit_stamp_def quoted_def nth_append)
qed

lemma json_space_head: "NawamJsonSpace p = c # r \<Longrightarrow> \<not> json_blank c"
  using hd_dropWhile [of json_blank p] by (auto simp: NawamJsonSpace_def)

lemma value_at_head:
  assumes "NawamJsonValue d (NawamJsonSpace p) = Some q"
  shows "\<exists>v. NawamJsonSpace p = v @ q \<and> jvalue d v"
proof -
  from json_value_split(1) [OF assms] obtain w v where
    wv: "NawamJsonSpace p = w @ v @ q" "jspace w" "jvalue d v" by blast
  have "w = []" using wv(1,2) json_space_head [of p] by (cases w) (auto simp: jspace_def)
  with wv show ?thesis by auto
qed

text \<open>A text with one element in its array, as the walk over it sees it.\<close>

lemma json_text_array:
  assumes "json_text t" "NawamJsonSpace t = 0x5b # r" "NawamJsonValue 0 (NawamJsonSpace r) = Some q"
    and "NawamJsonSpace q = 0x5d # q'"
  shows "\<exists>ob. commit_document t ob \<and> NawamJsonSpace r = ob @ q"
proof -
  obtain z where z: "NawamJsonValue 0 t = Some z" "NawamJsonSpace z = []"
    using assms(1) by (auto simp: json_text_def split: option.splits)
  obtain w0 where w0: "t = w0 @ 0x5b # r" "jspace w0" using space_split [of t] assms(2) by auto
  obtain w1 where w1: "r = w1 @ NawamJsonSpace r" "jspace w1" using space_split by blast
  obtain w2 where w2: "q = w2 @ 0x5d # q'" "jspace w2" using space_split [of q] assms(4) by auto
  obtain v where v: "NawamJsonSpace r = v @ q" "jvalue 0 v" using value_at_head [OF assms(3)] by blast
  obtain c y where c: "v = c # y" "c \<noteq> 0x5d" using jvalue_head [OF v(2)] by auto
  have "json_members 0x5d 0 (NawamJsonSpace r) = Some z"
    using z(1) json_value_items [of 0 t "0x5b" r] assms(2) v(1) c by (simp add: jclose_def Let_def)
  then obtain p2 where p2: "NawamJsonValue 1 (NawamJsonSpace r) = Some p2" and
    nxt: "NawamJsonSpace p2 = 0x5d # z \<or> (\<exists>r'. NawamJsonSpace p2 = 0x2c # r')"
    by (cases rule: json_members_cases) (auto simp: json_key_def)
  obtain ob where ob: "NawamJsonSpace r = ob @ p2" "jvalue 1 ob" using value_at_head p2 by blast
  obtain w c' y' where p2': "p2 = w @ c' # y'" "jspace w" "c' \<in> {0x5d, 0x2c}" using nxt space_split [of p2] by auto
  then have "jstop p2" using jstop_space by auto
  then have "NawamJsonValue 0 ([] @ ob @ p2) = Some p2"
    by (intro json_value_complete(1) jvalue_shallower(1) [OF ob(2)]) (auto simp: jspace_def)
  with assms(3) ob have "p2 = q" by simp
  with nxt assms(4) have "q' = z" by auto
  obtain w3 where "z = w3" "jspace w3" using space_split [of z] z(2) by auto
  have "t = w0 @ [0x5b] @ w1 @ ob @ w2 @ [0x5d] @ z"
    using w0(1) w1(1) ob(1) w2(1) \<open>p2 = q\<close> \<open>q' = z\<close> by auto
  with w0 w1 w2 \<open>z = w3\<close> \<open>jspace w3\<close> ob(2) have "commit_document t ob" unfolding commit_document_def by blast
  with ob(1) \<open>p2 = q\<close> show ?thesis by blast
qed

lemma json_text_array_complete:
  assumes "commit_document t ob"
  obtains r q w2 q' where "json_text t" "NawamJsonSpace t = 0x5b # r" "NawamJsonSpace r = ob @ q"
    "NawamJsonValue 0 (NawamJsonSpace r) = Some q" "q = w2 @ 0x5d # q'" "jspace w2" "NawamJsonSpace q = 0x5d # q'"
proof -
  obtain w0 w1 w2 w3 where t: "t = w0 @ [0x5b] @ w1 @ ob @ w2 @ [0x5d] @ w3" "jspace w0" "jspace w1" "jspace w2" "jspace w3"
    "jvalue 1 ob" using assms by (auto simp: commit_document_def)
  obtain c y where c: "ob = c # y" "\<not> json_blank c" using jvalue_head [OF t(6)] by blast
  let ?q = "w2 @ 0x5d # w3"
  have "jitems 0x5d 0 ([] @ w1 @ ob @ w2 @ [0x5d])"
    using t by (intro jitems_one) (auto simp: jkey_def)
  then have "jvalue 0 (0x5b # [] @ [] @ w1 @ ob @ w2 @ [0x5d])"
    by (intro jvalue_items) (auto simp: jclose_def jspace_def)
  then have "json_text t"
    unfolding json_text_grammar
    by (intro exI [of _ w0] exI [of _ "0x5b # w1 @ ob @ w2 @ [0x5d]"] exI [of _ w3]) (use t in auto)
  moreover have "NawamJsonSpace t = 0x5b # w1 @ ob @ ?q" using t by (simp add: space_append space_Cons json_blank_def)
  moreover have sp: "NawamJsonSpace (w1 @ ob @ ?q) = ob @ ?q" using t(3) c by (simp add: space_append space_Cons)
  moreover have "NawamJsonValue 0 ([] @ ob @ ?q) = Some ?q"
    by (intro json_value_complete(1) jvalue_shallower(1) [OF t(6)] jstop_space t) (auto simp: jspace_def)
  moreover have "NawamJsonSpace ?q = 0x5d # w3" using t by (simp add: space_append space_Cons json_blank_def)
  ultimately show thesis using that [of "w1 @ ob @ ?q" ?q w2 w3] t(4) by simp
qed

lemma commit_timestamp_iff:
  "NawamCommitTimestamp (Some t) = (True, Some st, Some z) \<longleftrightarrow>
     (t \<noteq> [] \<and> length t \<le> 1024 * 1024 \<and> json_text t \<and> st \<noteq> 0 \<and>
      (\<exists>r q p ob. NawamJsonSpace t = 0x5b # r \<and> NawamJsonValue 0 (NawamJsonSpace r) = Some q \<and>
        p = NawamJsonSpace q \<and> p \<noteq> [] \<and> hd p = 0x5d \<and> ob = take (length (NawamJsonSpace r) - length p) (NawamJsonSpace r) \<and>
        commit_sha ob = Some z \<and> commit_stamp ob = Some st))"
  by (auto simp: NawamCommitTimestamp_def Let_def split: list.splits option.splits if_splits)

lemma commit_timestamp_document:
  "NawamCommitTimestamp (Some t) = (True, Some st, Some (sha @ [0])) \<longleftrightarrow>
     (length t \<le> 1024 * 1024 \<and> length sha = 40 \<and> list_all (\<lambda>c. NawamHexDigit c \<ge> 0) sha \<and> st \<noteq> 0 \<and>
      (\<exists>ob dt. commit_document t ob \<and> commit_members ob sha dt \<and> valid_date dt \<and> unat st = epoch dt))"
proof
  assume "NawamCommitTimestamp (Some t) = (True, Some st, Some (sha @ [0]))"
  then obtain r q p where r: "length t \<le> 1024 * 1024" "json_text t" "st \<noteq> 0" "NawamJsonSpace t = 0x5b # r"
    "NawamJsonValue 0 (NawamJsonSpace r) = Some q" and p: "NawamJsonSpace q = p" "p \<noteq> []" "hd p = 0x5d" and
    ob: "commit_sha (take (length (NawamJsonSpace r) - length p) (NawamJsonSpace r)) = Some (sha @ [0])"
      "commit_stamp (take (length (NawamJsonSpace r) - length p) (NawamJsonSpace r)) = Some st"
    unfolding commit_timestamp_iff by blast
  obtain q' where q': "p = 0x5d # q'" using p(2,3) by (cases p) auto
  obtain x where x: "commit_document t x" "NawamJsonSpace r = x @ q" using json_text_array [OF r(2,4,5)] p(1) q' by blast
  obtain w2 where w2: "q = w2 @ 0x5d # q'" using space_split [of q] p(1) q' by auto
  have "jvalue 1 x" using x(1) by (auto simp: commit_document_def)
  note x' = ob [unfolded x(2) w2 q', simplified]
  show "length t \<le> 1024 * 1024 \<and> length sha = 40 \<and> list_all (\<lambda>c. NawamHexDigit c \<ge> 0) sha \<and> st \<noteq> 0 \<and>
      (\<exists>ob dt. commit_document t ob \<and> commit_members ob sha dt \<and> valid_date dt \<and> unat st = epoch dt)"
    using commit_sha_sound [OF \<open>jvalue 1 x\<close> x'(1)] commit_stamp_sound [OF \<open>jvalue 1 x\<close> x'(2)] r(1,3) x(1) unat_epoch
    unfolding commit_members_def by blast
next
  assume "length t \<le> 1024 * 1024 \<and> length sha = 40 \<and> list_all (\<lambda>c. NawamHexDigit c \<ge> 0) sha \<and> st \<noteq> 0 \<and>
      (\<exists>ob dt. commit_document t ob \<and> commit_members ob sha dt \<and> valid_date dt \<and> unat st = epoch dt)"
  then obtain ob dt co ct where t: "length t \<le> 1024 * 1024" "length sha = 40" "list_all (\<lambda>c. NawamHexDigit c \<ge> 0) sha" "st \<noteq> 0"
    "commit_document t ob" "valid_date dt" "unat st = epoch dt" "jmember ob name_sha (quoted sha)" "jmember ob name_commit co"
    "jmember co name_committer ct" "jmember ct name_date (quoted (iso_date dt))"
    unfolding commit_members_def by blast
  from t(5) obtain r q w2 q' where r: "json_text t" "NawamJsonSpace t = 0x5b # r" "NawamJsonSpace r = ob @ q"
    "NawamJsonValue 0 (NawamJsonSpace r) = Some q" "q = w2 @ 0x5d # q'" "NawamJsonSpace q = 0x5d # q'"
    using json_text_array_complete by metis
  have "of_nat (epoch dt) = st" using unat_epoch [OF t(6)] t(7) by (intro word_unat_eq_iff [THEN iffD2]) simp
  moreover have "NawamJsonValue 0 r = Some q" using r(4) by simp
  moreover have "t \<noteq> []" using r(2) by auto
  ultimately show "NawamCommitTimestamp (Some t) = (True, Some st, Some (sha @ [0]))"
    using t(1,4) r(1,2,3,5,6) commit_sha_complete [OF t(2,3,8), of w2] commit_stamp_complete [OF t(9,10,11,6), of w2]
    unfolding commit_timestamp_iff by auto
qed

text \<open>The shortest text of an object, and a sample document of one commit.\<close>

fun items_text :: "(u8 list \<times> u8 list) list \<Rightarrow> u8 list" where
  "items_text [] = [0x7d]"
| "items_text [(k, v)] = quoted k @ 0x3a # v @ [0x7d]"
| "items_text ((k, v) # m # ms) = quoted k @ 0x3a # v @ 0x2c # items_text (m # ms)"

definition plain_name :: "u8 list \<Rightarrow> bool" where
  "plain_name = list_all (\<lambda>c. \<not> c < 32 \<and> c \<noteq> 0x22 \<and> c \<noteq> 0x5c)"

lemma plain_key: "plain_name k \<Longrightarrow> jstring (quoted k) \<and> jkey 0x7d (quoted k @ [0x3a])"
proof
  assume "plain_name k"
  then show k: "jstring (quoted k)" using plain_string by (simp add: plain_name_def)
  have "\<exists>s w. quoted k @ [0x3a] = s @ w @ [0x3a] \<and> jstring s \<and> jspace w"
    by (rule exI [of _ "quoted k"], rule exI [of _ "[]"]) (simp add: k jspace_def)
  then show "jkey 0x7d (quoted k @ [0x3a])" by (simp add: jkey_def)
qed

lemma items_text_grammar:
  "ms \<noteq> [] \<Longrightarrow> list_all (\<lambda>(k, v). plain_name k \<and> jvalue (d + 1) v) ms \<Longrightarrow>
   jitems 0x7d d (items_text ms) \<and> jmembers (d + 1) (map (\<lambda>(k, v). (quoted k, v)) ms) (items_text ms)"
proof (induction ms rule: items_text.induct)
  case (2 k v)
  then show ?case
    using plain_key [of k] jitems_one [of "0x7d" "quoted k @ [0x3a]" "[]" d v "[]"]
      jmembers_one [of "quoted k" "[]" "[]" "d + 1" v "[]"] by (simp add: jspace_def)
next
  case (3 k v m ms)
  then have "jitems 0x7d d (items_text (m # ms))" "jmembers (d + 1) (map (\<lambda>(k, v). (quoted k, v)) (m # ms)) (items_text (m # ms))"
    by auto
  then show ?case
    using "3.prems" plain_key [of k] jitems_more [of "0x7d" "quoted k @ [0x3a]" "[]" d v "[]" "[]"]
      jmembers_more [of "quoted k" "[]" "[]" "d + 1" v "[]" "[]"] by (simp add: jspace_def)
qed simp

lemma object_text:
  assumes "ms \<noteq> []" "list_all (\<lambda>(k, v). plain_name k \<and> jvalue (d + 1) v) ms" "d \<le> 32"
  shows "jvalue d (0x7b # items_text ms)"
    and "map snd (filter (\<lambda>m. fst m = k) ms) = [v] \<Longrightarrow> jmember (0x7b # items_text ms) k v"
proof -
  note g = items_text_grammar [OF assms(1,2)]
  show "jvalue d (0x7b # items_text ms)"
    using jvalue_items [of d "0x7b" "[]" "items_text ms"] g assms(3) by (simp add: jspace_def jclose_def)
  assume u: "map snd (filter (\<lambda>m. fst m = k) ms) = [v]"
  have "named k (map (\<lambda>(k, v). (quoted k, v)) ms) = map snd (filter (\<lambda>m. fst m = k) ms)"
    by (induction ms) (auto simp: named_def quoted_def)
  with g u show "jmember (0x7b # items_text ms) k v"
    unfolding jmember_def by (intro exI [of _ "[]"] exI [of _ "items_text ms"] exI [of _ "map (\<lambda>(k, v). (quoted k, v)) ms"]) (auto simp: jspace_def)
qed

definition sample_date :: date where
  "sample_date = (2000, 1, 1, 0, 0, 0)"

definition sample_committer :: "u8 list" where
  "sample_committer = 0x7b # items_text [(name_date, quoted (iso_date sample_date))]"

definition sample_commit :: "u8 list" where
  "sample_commit = 0x7b # items_text [(name_committer, sample_committer)]"

definition sample_answer :: "u8 list" where
  "sample_answer = 0x5b # (0x7b # items_text [(name_sha, quoted (replicate 40 0x61)), (name_commit, sample_commit)]) @ [0x5d]"

lemma sample_answer_stamp:
  "NawamCommitTimestamp (Some sample_answer) = (True, Some 946684800, Some (replicate 40 0x61 @ [0]))"
proof -
  have v: "valid_date sample_date" "epoch sample_date = 946684800"
    by (simp_all add: sample_date_def valid_date.simps mdays_def epoch.simps civil_days_def leaps_def month_start_def leap_def)
  have names: "plain_name name_date" "plain_name name_committer" "plain_name name_commit" "plain_name name_sha"
    by (simp_all add: plain_name_def name_date_def name_committer_def name_commit_def name_sha_def)
  have "jvalue 4 (quoted (iso_date sample_date))" "jvalue 2 (quoted (replicate 40 0x61))"
    using plain_string iso_plain [OF v(1)] by (auto intro!: jvalue_string simp: list_all_iff)
  then have 1: "jvalue 3 sample_committer" "jmember sample_committer name_date (quoted (iso_date sample_date))"
    using object_text [of "[(name_date, quoted (iso_date sample_date))]" 3] names by (auto simp: sample_committer_def)
  then have 2: "jvalue 2 sample_commit" "jmember sample_commit name_committer sample_committer"
    using object_text [of "[(name_committer, sample_committer)]" 2] names by (auto simp: sample_commit_def)
  let ?ob = "0x7b # items_text [(name_sha, quoted (replicate 40 0x61)), (name_commit, sample_commit)]"
  have 3: "jvalue 1 ?ob" "jmember ?ob name_sha (quoted (replicate 40 0x61))" "jmember ?ob name_commit sample_commit"
    using object_text [of "[(name_sha, quoted (replicate 40 0x61)), (name_commit, sample_commit)]" 1] names 2(1)
      \<open>jvalue 2 (quoted (replicate 40 0x61))\<close> by (auto simp: name_sha_def name_commit_def numeral_2_eq_2)
  have "commit_document sample_answer ?ob"
    unfolding commit_document_def sample_answer_def using 3(1) by (intro exI [of _ "[]"]) (auto simp: jspace_def)
  moreover have "commit_members ?ob (replicate 40 0x61) sample_date"
    unfolding commit_members_def using 1 2 3 by blast
  moreover have "length sample_answer \<le> 1024 * 1024"
    by (simp add: sample_answer_def sample_commit_def sample_committer_def quoted_def name_sha_def name_commit_def name_committer_def name_date_def)
  moreover have "list_all (\<lambda>c. NawamHexDigit c \<ge> 0) (replicate 40 0x61)" by (simp add: list_all_iff NawamHexDigit_def)
  ultimately show ?thesis
    unfolding commit_timestamp_document using v
    by (intro conjI exI [of _ ?ob] exI [of _ sample_date]) simp_all
qed

text \<open>C34. The date and identifier of the security metadata: \<open>NawamCommitTimestamp\<close> returns true with a stamp and an
  identifier exactly when the text is at most one MB of valid JSON, namely an array of exactly one object, in which
  \<open>sha\<close> is the only member of its name and is a string of 40 hexadecimal digits, the identifier, and in which
  \<open>commit\<close>, \<open>committer\<close> and \<open>date\<close> lead through unique members to the ISO 8601 text of a valid date from 1970 to
  9999, whose seconds since 1970 are the stamp, not zero.\<close>

theorem commit_timestamp_spec:
  "NawamCommitTimestamp (Some t) = (True, Some st, Some (sha @ [0])) \<longleftrightarrow>
     (length t \<le> 1024 * 1024 \<and> length sha = 40 \<and> list_all (\<lambda>c. NawamHexDigit c \<ge> 0) sha \<and> st \<noteq> 0 \<and>
      (\<exists>ob dt. commit_document t ob \<and> commit_members ob sha dt \<and> valid_date dt \<and> unat st = epoch dt))"
  by (rule commit_timestamp_document)

end
