(* ===== verification/Interrupt.thy ===== *)
theory Interrupt
  imports Prelude
begin

text \<open>
  Sequences of effects that may be cut off anywhere: what holds after every prefix of them. The laws of the states, an
  invariant and an order in which the state moves, are a locale; its lemmas put the effects of a longer computation
  together from those of its parts.
\<close>

definition at_every_point :: "('s \<Rightarrow> 'e \<Rightarrow> 's) \<Rightarrow> ('s \<Rightarrow> bool) \<Rightarrow> ('s \<Rightarrow> 's \<Rightarrow> bool) \<Rightarrow> 's \<Rightarrow> 'e list \<Rightarrow> bool" where
  "at_every_point app ok le w es \<longleftrightarrow> (\<forall>k. ok (foldl app w (take k es)) \<and> le w (foldl app w (take k es)))"

locale interruptible =
  fixes app :: "'s \<Rightarrow> 'e \<Rightarrow> 's" and ok :: "'s \<Rightarrow> bool" and le :: "'s \<Rightarrow> 's \<Rightarrow> bool"
  assumes le_refl: "le w w"
    and le_trans: "le u v \<Longrightarrow> le v w \<Longrightarrow> le u w"
begin

lemma run_Nil: "ok w \<Longrightarrow> at_every_point app ok le w []"
  by (simp add: at_every_point_def le_refl)

lemma run_prefix:
  assumes "at_every_point app ok le w es"
  shows "ok (foldl app w (take k es))" "le w (foldl app w (take k es))"
  using assms by (auto simp: at_every_point_def)

lemma run_end:
  assumes "at_every_point app ok le w es"
  shows "ok (foldl app w es)" "le w (foldl app w es)"
  using run_prefix [OF assms, of "length es"] by auto

lemma run_append:
  assumes "at_every_point app ok le w es" "at_every_point app ok le (foldl app w es) es'"
  shows "at_every_point app ok le w (es @ es')"
  unfolding at_every_point_def
proof
  fix k
  show "ok (foldl app w (take k (es @ es'))) \<and> le w (foldl app w (take k (es @ es')))"
  proof (cases "k \<le> length es")
    case True
    then show ?thesis using run_prefix [OF assms(1), of k] by simp
  next
    case False
    then show ?thesis
      using run_prefix [OF assms(2), of "k - length es"] le_trans [OF run_end(2) [OF assms(1)]] by simp
  qed
qed

lemma run_Cons:
  assumes "ok w" "le w (app w e)" "at_every_point app ok le (app w e) es"
  shows "at_every_point app ok le w (e # es)"
proof -
  have "ok (app w e)" using run_prefix(1) [OF assms(3), of 0] by simp
  then have "at_every_point app ok le w [e]"
    using assms(1,2) le_refl by (auto simp: at_every_point_def take_Cons split: nat.splits)
  from run_append [OF this, of es] assms(3) show ?thesis by simp
qed

end

end
