(* ===== verification/Security_Refresh.thy ===== *)
theory Security_Refresh
  imports Sbat_Text Json_Commit Dbx Net_Guards Interrupt
begin

text \<open>
  The refresh of the Secure Boot data of \<open>src/src/net.c\<close>: \<open>NawamRefreshSecurityText\<close> with the parsed lists it
  replaces, and \<open>NawamRefreshDbx\<close> with the cached databases and the time stamps in the settings, up to
  \<open>NawamSecurityRefreshThread\<close>.

  What the network, the clock and the file system return is a record of the environment; what the program changes
  outside of its memory is the list of effects in their order, so that the state after every prefix of it, as an
  interruption leaves it behind, can be talked about.
\<close>

section \<open>The text lists\<close>

record sec_lists =
  sbat_entries :: "sbat_entry list option"
  sbat_level_txt :: "u8 list option"
  sb_active_certs :: "(rows \<times> nat) option"
  sb_active_txt :: "u8 list option"
  sb_revoked_certs :: "(rows \<times> nat) option"
  sb_revoked_txt :: "u8 list option"

text \<open>\<open>while (sbat[count].product != NULL) count++\<close>; \<open>None\<close> when it leaves the entries.\<close>

fun count_products :: "sbat_entry list \<Rightarrow> nat \<Rightarrow> nat option" where
  "count_products [] count = None"
| "count_products (x # xs) count = (if fst x = None then Some count else count_products xs (count + 1))"

text \<open>
  One text. \<open>dl\<close> is the downloaded text, \<open>None\<close> when the download failed; its buffer ends in two zero bytes.
  The result is \<open>None\<close> for an access outside of a block, and otherwise the returned value and the lists.
\<close>

definition NawamRefreshSecurityText :: "nat \<Rightarrow> u8 list option \<Rightarrow> sec_lists \<Rightarrow> (bool \<times> sec_lists) option" where
  "NawamRefreshSecurityText kind dl st =
     (let expected = NawamSecurityTextValid dl (kind \<noteq> 0) in
      case dl of
        None \<Rightarrow> Some (False, st)
      | Some t \<Rightarrow>
          if expected = 0 then Some (False, st)
          else if kind = 0 then
            (case GetSbatEntries (t @ [0, 0]) of
               None \<Rightarrow> None
             | Some (b, None) \<Rightarrow> Some (False, st)
             | Some (b, Some sbat) \<Rightarrow>
                 (case count_products sbat 0 of
                    None \<Rightarrow> None
                  | Some count \<Rightarrow>
                      if count \<noteq> expected then Some (False, st)
                      else Some (True, st\<lparr>sbat_entries := Some sbat, sbat_level_txt := Some b\<rparr>)))
          else
            (case GetThumbprintEntries (t @ [0, 0]) of
               None \<Rightarrow> None
             | Some None \<Rightarrow> Some (False, st)
             | Some (Some certs) \<Rightarrow>
                 if snd certs \<noteq> expected then Some (False, st)
                 else if kind = 1 then Some (True, st\<lparr>sb_active_certs := Some certs, sb_active_txt := Some (t @ [0, 0])\<rparr>)
                 else Some (True, st\<lparr>sb_revoked_certs := Some certs, sb_revoked_txt := Some (t @ [0, 0])\<rparr>)))"

section \<open>The addresses\<close>

text \<open>\<open>strstr\<close>: the first suffix of \<open>s\<close> that starts with \<open>pat\<close>.\<close>

fun strstr :: "string \<Rightarrow> string \<Rightarrow> string option" where
  "strstr [] pat = (if pat = [] then Some [] else None)"
| "strstr (c # s) pat = (if take (length pat) (c # s) = pat then Some (c # s) else strstr s pat)"

definition URL_SIZE :: nat where "URL_SIZE = 512"

text \<open>The loop over the path behind \<open>contents/\<close>, with what was written so far.\<close>

fun encode_path :: "string \<Rightarrow> string \<Rightarrow> string option" where
  "encode_path out [] = Some out"
| "encode_path out (c # p) =
     (if length out + 32 \<ge> URL_SIZE then None
      else encode_path (out @ (if c = CHR ''/'' then ''%2F'' else [c])) p)"

definition timestamp_url :: "string \<Rightarrow> string option" where
  "timestamp_url url =
     (case strstr url ''contents/'' of
        None \<Rightarrow> None
      | Some part \<Rightarrow>
          let out = take (length url - length part) url @ ''commits?path='' in
          if length out \<ge> URL_SIZE then None
          else map_option (\<lambda>out. out @ ''&page=1&per_page=1'') (encode_path out (drop 9 part)))"

section \<open>The revocation databases\<close>

text \<open>The generated table: the address and the time stamp of the database of each architecture.\<close>

type_synonym dbx_infos = "(string \<times> u64) list"

text \<open>The settings and the cached database files, by architecture.\<close>

record dbx_world =
  setting :: "nat \<Rightarrow> int"
  cache :: "nat \<Rightarrow> u8 list option"

datatype dbx_effect = Replace_Cache nat "u8 list" | Write_Setting nat int

fun apply_effect :: "dbx_world \<Rightarrow> dbx_effect \<Rightarrow> dbx_world" where
  "apply_effect w (Replace_Cache i f) = w\<lparr>cache := (cache w)(i := Some f)\<rparr>"
| "apply_effect w (Write_Setting i v) = w\<lparr>setting := (setting w)(i := v)\<rparr>"

text \<open>
  What one architecture's refresh gets from outside: the two downloads, the clock, and the outcome of every call of
  the cache and settings functions; \<open>env_stored\<close> is what the temporary file holds after the data was written to it.
\<close>

record dbx_env =
  env_metadata :: "u8 list option"
  env_now :: int
  env_path_ok :: bool
  env_cache_opened :: bool
  env_cache_sized :: bool
  env_cache_read :: bool
  env_pinned_ok :: bool
  env_data :: "u8 list option"
  env_names_ok :: bool
  env_directory_ok :: bool
  env_temporary_ok :: bool
  env_written :: bool
  env_stored :: "u8 list"
  env_read_back :: bool
  env_closed :: bool
  env_moved :: bool
  env_setting_stored :: bool
  env_setting_result :: bool

definition dbx_file_valid :: "u8 list \<Rightarrow> bool" where
  "dbx_file_valid f \<longleftrightarrow> NawamDbxValid (Some f) = Some True"

definition NawamReadDbxCache :: "dbx_env \<Rightarrow> u8 list option \<Rightarrow> bool" where
  "NawamReadDbxCache env file =
     (env_cache_opened env \<and>
      (case file of
         None \<Rightarrow> False
       | Some f \<Rightarrow>
           env_cache_sized env \<and> length f > 0 \<and> NawamDownloadLengthValid (of_nat (length f)) True \<and>
           env_cache_read env \<and> dbx_file_valid f))"

text \<open>The temporary file is read back, compared and validated before it replaces the cache in one step.\<close>

definition NawamCommitDbxCache :: "dbx_env \<Rightarrow> nat \<Rightarrow> u8 list \<Rightarrow> bool \<times> dbx_effect list" where
  "NawamCommitDbxCache env i dat =
     (if \<not> dbx_file_valid dat then (False, [])
      else if \<not> env_names_ok env \<or> \<not> env_directory_ok env \<or> \<not> env_temporary_ok env \<or> \<not> env_written env then (False, [])
      else
        let verify = take (length dat) (env_stored env) in
        if \<not> env_read_back env \<or> length verify \<noteq> length dat \<or> verify \<noteq> dat \<or> \<not> dbx_file_valid verify then (False, [])
        else if \<not> env_closed env then (False, [])
        else if env_moved env then (True, [Replace_Cache i (env_stored env)])
        else (False, []))"

definition refresh_dbx :: "dbx_infos \<Rightarrow> dbx_env \<Rightarrow> dbx_world \<Rightarrow> nat \<Rightarrow> bool \<times> dbx_effect list" where
  "refresh_dbx infos env w i =
     (if timestamp_url (fst (infos ! i)) = None then (False, [])
      else case NawamCommitTimestamp (env_metadata env) of
        (True, Some stamp, Some sha) \<Rightarrow>
          let timestamp = int (unat stamp); now = env_now env; previous = setting w i;
              embedded = int (unat (snd (infos ! i))) in
          if now \<le> 0 \<or> timestamp > now + 86400 then (False, [])
          else if previous < 0 \<or> previous > now + 86400 then (False, [])
          else if timestamp \<le> embedded \<and> previous \<le> embedded then (True, [])
          else if \<not> env_path_ok env then (False, [])
          else if previous \<ge> timestamp \<and> NawamReadDbxCache env (cache w i) then (True, [])
          else if previous > timestamp then (False, [])
          else if \<not> env_pinned_ok env then (False, [])
          else
            (case env_data env of
               None \<Rightarrow> (False, [])
             | Some dat \<Rightarrow>
                 if \<not> NawamDownloadLengthValid (of_nat (length dat)) True \<or> \<not> dbx_file_valid dat then (False, [])
                 else
                   (case NawamCommitDbxCache env i dat of
                      (False, es) \<Rightarrow> (False, es)
                    | (True, es) \<Rightarrow>
                        let es' = es @ (if env_setting_stored env then [Write_Setting i timestamp] else []) in
                        (env_setting_result env \<and> setting (foldl apply_effect w es') i = timestamp, es')))
      | _ \<Rightarrow> (False, []))"

text \<open>The loop over the architectures: the two counters and the effects so far.\<close>

definition NawamRefreshDbx :: "dbx_infos \<Rightarrow> (nat \<Rightarrow> dbx_env) \<Rightarrow> dbx_world \<Rightarrow> nat \<times> nat \<Rightarrow> (nat \<times> nat) \<times> dbx_effect list" where
  "NawamRefreshDbx infos env w counts =
     foldl (\<lambda>((ok, failed), es) i.
        let (r, es') = refresh_dbx infos (env i) (foldl apply_effect w es) i in
        (if r then (ok + 1, failed) else (ok, failed + 1), es @ es'))
       (counts, []) [0..<length infos]"

definition UseLocalDbx :: "dbx_infos \<Rightarrow> dbx_world \<Rightarrow> nat \<Rightarrow> bool" where
  "UseLocalDbx infos w i = ((of_int (setting w i) :: u64) > snd (infos ! i))"

text \<open>The database \<open>IsRevokedByDbx\<close> looks a hash up in: the cached file when the settings prefer it and it can be read.\<close>

definition dbx_choice :: "dbx_infos \<Rightarrow> dbx_world \<Rightarrow> nat \<Rightarrow> bool \<Rightarrow> u8 list \<Rightarrow> u8 list" where
  "dbx_choice infos w i readable embedded =
     (if UseLocalDbx infos w i \<and> readable then (case cache w i of None \<Rightarrow> embedded | Some f \<Rightarrow> if f = [] then embedded else f)
      else embedded)"

section \<open>The refresh thread\<close>

text \<open>The three texts in their order, then the databases; the result tells all, some or none.\<close>

definition refresh_texts :: "(nat \<Rightarrow> u8 list option) \<Rightarrow> sec_lists \<Rightarrow> ((nat \<times> nat) \<times> sec_lists) option" where
  "refresh_texts dl st =
     foldl (\<lambda>acc i. do {
         ((ok, failed), st) \<leftarrow> acc;
         (r, st) \<leftarrow> NawamRefreshSecurityText i (dl i) st;
         Some (if r then (ok + 1, failed) else (ok, failed + 1), st) })
       (Some ((0, 0), st)) [0..<3]"

definition NawamSecurityRefreshThread ::
  "bool \<Rightarrow> bool \<Rightarrow> dbx_infos \<Rightarrow> (nat \<Rightarrow> u8 list option) \<Rightarrow> (nat \<Rightarrow> dbx_env) \<Rightarrow> sec_lists \<Rightarrow> dbx_world \<Rightarrow>
   (nat \<times> sec_lists \<times> dbx_effect list) option" where
  "NawamSecurityRefreshThread op_in_progress image_open infos dl env st w =
     (if \<not> op_in_progress \<or> image_open then Some (0, st, [])
      else do {
        (counts, st) \<leftarrow> refresh_texts dl st;
        let ((ok, failed), es) = NawamRefreshDbx infos env w counts;
        Some (if ok = 0 then 0 else if failed = 0 then 2 else 1, st, es) })"

section \<open>The lists are replaced as a whole or not at all\<close>

lemma count_products_entries:
  "list_all (\<lambda>x. fst x \<noteq> None) ys \<Longrightarrow> fst z = None \<Longrightarrow> count_products (ys @ z # zs) k = Some (k + length ys)"
  by (induction ys arbitrary: k) auto

lemma count_products_rows:
  assumes "list_all2 (entry_is b) (take n xs) rs" "n < length xs" "fst (xs ! n) = None"
  shows "count_products xs 0 = Some n"
proof -
  have "list_all (\<lambda>x. fst x \<noteq> None) (take n xs)"
    using assms(1) by (induction rule: list_all2_induct) (auto simp: entry_is_def)
  from count_products_entries [OF this assms(3), of "drop (Suc n) xs" 0] assms(2) show ?thesis
    by (simp add: id_take_nth_drop [symmetric])
qed

lemma refresh_text_spec:
  "case NawamRefreshSecurityText kind dl st of
     None \<Rightarrow> False
   | Some (r, st') \<Rightarrow>
       let n = NawamSecurityTextValid dl (kind \<noteq> 0) in
       r = (n \<noteq> 0) \<and>
       (if \<not> r then st' = st
        else if kind = 0 then
          \<exists>t b xs. dl = Some t \<and> st' = st\<lparr>sbat_entries := Some xs, sbat_level_txt := Some b\<rparr> \<and>
            list_all2 (entry_is b) (take n xs) (map sbat_row (data_lines t)) \<and> n < length xs \<and> fst (xs ! n) = None
        else
          \<exists>t list. dl = Some t \<and> take n list = map pair_bytes (data_lines t) \<and>
            st' = (if kind = 1 then st\<lparr>sb_active_certs := Some (list, n), sb_active_txt := Some (t @ [0, 0])\<rparr>
                   else st\<lparr>sb_revoked_certs := Some (list, n), sb_revoked_txt := Some (t @ [0, 0])\<rparr>))"
proof (cases "NawamSecurityTextValid dl (kind \<noteq> 0) = 0")
  case True
  then show ?thesis by (cases dl) (auto simp: NawamRefreshSecurityText_def)
next
  case False
  then obtain t where t: "dl = Some t" by (cases dl) (auto simp: NawamSecurityTextValid_def)
  show ?thesis
  proof (cases "kind = 0")
    case True
    from valid_sbat_entries [of t _ "[0]"] False t True obtain b xs where
      "GetSbatEntries (t @ [0, 0]) = Some (b, Some xs)"
      "list_all2 (entry_is b) (take (NawamSecurityTextValid dl False) xs) (map sbat_row (data_lines t))"
      "NawamSecurityTextValid dl False < length xs" "fst (xs ! NawamSecurityTextValid dl False) = None" by auto
    then show ?thesis using False t True count_products_rows [of b "NawamSecurityTextValid dl False" xs]
      by (auto simp: NawamRefreshSecurityText_def Let_def intro!: exI [of _ b] exI [of _ xs])
  next
    case kind: False
    from valid_thumbprint_entries [of t _ "[0]"] False t kind obtain list where
      "GetThumbprintEntries (t @ [0, 0]) = Some (Some (list, NawamSecurityTextValid dl True))"
      "take (NawamSecurityTextValid dl True) list = map pair_bytes (data_lines t)" by auto
    then show ?thesis using False t kind
      by (cases "kind = 1") (auto simp: NawamRefreshSecurityText_def Let_def intro!: exI [of _ list])
  qed
qed

text \<open>C31. A refresh of a text list is all or nothing, and stays inside its blocks: it succeeds exactly when the download
  succeeded and the validator accepts the text; then the list and the text it points into are replaced together, by the
  rows of the text that was downloaded, and nothing else changes; otherwise nothing changes at all.\<close>

theorem refresh_text_all_or_nothing:
  "case NawamRefreshSecurityText kind dl st of
     None \<Rightarrow> False
   | Some (r, st') \<Rightarrow>
       let n = NawamSecurityTextValid dl (kind \<noteq> 0) in
       r = (n \<noteq> 0) \<and>
       (if \<not> r then st' = st
        else if kind = 0 then
          \<exists>t b xs. dl = Some t \<and> st' = st\<lparr>sbat_entries := Some xs, sbat_level_txt := Some b\<rparr> \<and>
            list_all2 (entry_is b) (take n xs) (map sbat_row (data_lines t)) \<and> n < length xs \<and> fst (xs ! n) = None
        else
          \<exists>t list. dl = Some t \<and> take n list = map pair_bytes (data_lines t) \<and>
            st' = (if kind = 1 then st\<lparr>sb_active_certs := Some (list, n), sb_active_txt := Some (t @ [0, 0])\<rparr>
                   else st\<lparr>sb_revoked_certs := Some (list, n), sb_revoked_txt := Some (t @ [0, 0])\<rparr>))"
  by (rule refresh_text_spec)

section \<open>The addresses fit their buffer\<close>

lemma encode_path_length: "encode_path out p = Some u \<Longrightarrow> length u + 29 < max (length out + 30) (URL_SIZE + 1)"
proof (induction out p rule: encode_path.induct)
  case (2 out c p)
  then show ?case by (auto split: if_splits)
qed (auto simp: URL_SIZE_def)

text \<open>The address of the metadata is built without overrunning its buffer of 512 bytes, terminator included,
  for every address in which something follows \<open>contents/\<close>.\<close>

theorem timestamp_url_fits:
  assumes "strstr url ''contents/'' = Some (''contents/'' @ path)" "path \<noteq> []" "timestamp_url url = Some u"
  shows "length u + 1 \<le> URL_SIZE"
proof -
  from assms obtain out v where v: "encode_path out path = Some v" "u = v @ ''&page=1&per_page=1''"
    by (auto simp: timestamp_url_def Let_def split: if_splits)
  then obtain c p out' where "path = c # p" "length out + 32 < URL_SIZE" "encode_path out' p = Some v" "length out' \<le> length out + 3"
    using assms(2) by (cases path) (auto split: if_splits)
  then show ?thesis using encode_path_length [of out' p v] v(2) by (simp add: URL_SIZE_def)
qed

theorem timestamp_url_fits_witness:
  "length ''http://a/commits?path=b%2Fc&page=1&per_page=1'' + 1 \<le> URL_SIZE"
  using timestamp_url_fits [of "''http://a/contents/b/c''" "''b/c''" "''http://a/commits?path=b%2Fc&page=1&per_page=1''"]
  by (simp add: timestamp_url_def URL_SIZE_def)

section \<open>The databases\<close>

text \<open>
  The invariant of the settings and the files: where the settings prefer the local database, the cached file is a
  valid one. A run is safe when the invariant holds after every prefix of its effects, and no setting goes back.
\<close>

definition dbx_file_ok :: "u8 list \<Rightarrow> bool" where
  "dbx_file_ok f \<longleftrightarrow> dbx_file_valid f \<and> length f \<le> 64 * 1024 * 1024"

definition dbx_safe :: "dbx_infos \<Rightarrow> dbx_world \<Rightarrow> bool" where
  "dbx_safe infos w \<longleftrightarrow>
     list_all (\<lambda>i. UseLocalDbx infos w i \<longrightarrow> (case cache w i of None \<Rightarrow> False | Some f \<Rightarrow> dbx_file_ok f)) [0..<length infos]"

definition no_rollback :: "dbx_world \<Rightarrow> dbx_world \<Rightarrow> bool" where
  "no_rollback w w' \<longleftrightarrow> (\<forall>i. setting w i \<le> setting w' i)"

definition safe_run :: "dbx_infos \<Rightarrow> dbx_world \<Rightarrow> dbx_effect list \<Rightarrow> bool" where
  "safe_run infos w es \<longleftrightarrow> at_every_point apply_effect (dbx_safe infos) no_rollback w es"

interpretation dbx_run: interruptible apply_effect "dbx_safe infos" no_rollback for infos
  by unfold_locales (auto simp: no_rollback_def intro: order_trans)

lemmas dbx_run_rules = dbx_run.run_Nil [folded safe_run_def] dbx_run.run_Cons [folded safe_run_def]
  dbx_run.run_append [folded safe_run_def]

text \<open>What is assumed of the file system: writing \<open>n\<close> bytes to a new file does not make it longer than that.\<close>

definition honest :: "dbx_env \<Rightarrow> bool" where
  "honest env \<longleftrightarrow> (case env_data env of None \<Rightarrow> True | Some dat \<Rightarrow> length (env_stored env) \<le> length dat)"

lemma commit_effects:
  assumes "NawamCommitDbxCache env i dat = (r, es)" "length (env_stored env) \<le> length dat"
  shows "if r then es = [Replace_Cache i dat] \<and> dbx_file_valid dat else es = []"
  using assms by (auto simp: NawamCommitDbxCache_def Let_def split: if_splits)

lemma length_valid_bound: "NawamDownloadLengthValid (of_nat n) True \<Longrightarrow> n < 2 ^ 64 \<Longrightarrow> n \<le> 64 * 1024 * 1024"
  by (simp add: NawamDownloadLengthValid_def word_le_nat_alt unat_of_nat)

text \<open>The effects of one architecture: none, or a valid file and then, perhaps, a time stamp that is not older.\<close>

lemma refresh_dbx_cases:
  assumes "refresh_dbx infos env w i = (r, es)" "es \<noteq> []"
  obtains dat b es0 stamp where "env_data env = Some dat" "NawamDownloadLengthValid (of_nat (length dat)) True"
    "NawamCommitDbxCache env i dat = (b, es0)" "setting w i \<le> int (unat (stamp :: u64))"
    "es = es0 \<or> b \<and> es = es0 @ [Write_Setting i (int (unat stamp))]"
proof -
  obtain a b c where ts: "NawamCommitTimestamp (env_metadata env) = (a, b, c)"
    by (cases "NawamCommitTimestamp (env_metadata env)")
  with assms obtain stamp sha where s: "a" "b = Some stamp" "c = Some sha"
    by (cases a; cases b; cases c) (auto simp: refresh_dbx_def split: if_splits)
  from assms ts s obtain dat where dat: "env_data env = Some dat" "NawamDownloadLengthValid (of_nat (length dat)) True"
    "setting w i \<le> int (unat stamp)"
    by (auto simp: refresh_dbx_def Let_def split: if_splits option.splits)
  obtain d es0 where d: "NawamCommitDbxCache env i dat = (d, es0)" by (cases "NawamCommitDbxCache env i dat")
  show thesis
    using assms ts s dat d that [OF dat(1,2) d dat(3)]
    by (cases d) (auto simp: refresh_dbx_def Let_def split: if_splits)
qed

lemma refresh_dbx_effects:
  assumes "refresh_dbx infos env w i = (r, es)" "honest env"
    and "case env_data env of None \<Rightarrow> True | Some dat \<Rightarrow> length dat < 2 ^ 64"
  shows "es = [] \<or> (\<exists>f. dbx_file_ok f \<and> (es = [Replace_Cache i f] \<or>
    (\<exists>ts. setting w i \<le> ts \<and> es = [Replace_Cache i f, Write_Setting i ts])))"
proof (cases "es = []")
  case False
  with assms(1) obtain dat b es0 stamp where d: "env_data env = Some dat" "NawamDownloadLengthValid (of_nat (length dat)) True"
    "NawamCommitDbxCache env i dat = (b, es0)" "setting w i \<le> int (unat (stamp :: u64))"
    "es = es0 \<or> b \<and> es = es0 @ [Write_Setting i (int (unat stamp))]"
    by (rule refresh_dbx_cases)
  have c: "if b then es0 = [Replace_Cache i dat] \<and> dbx_file_valid dat else es0 = []"
    using commit_effects [OF d(3)] assms(2) d(1) by (simp add: honest_def)
  have "b" using c d(5) False by (auto split: if_splits)
  moreover have "dbx_file_ok dat" using \<open>b\<close> c length_valid_bound [OF d(2)] assms(3) d(1) by (simp add: dbx_file_ok_def)
  ultimately show ?thesis using c d(4,5) by auto
qed simp

lemma dbx_safe_replace: "dbx_safe infos w \<Longrightarrow> dbx_file_ok f \<Longrightarrow> dbx_safe infos (apply_effect w (Replace_Cache i f))"
  by (auto simp: dbx_safe_def list_all_iff UseLocalDbx_def)

lemma dbx_safe_write:
  "dbx_safe infos w \<Longrightarrow> cache w i = Some f \<Longrightarrow> dbx_file_ok f \<Longrightarrow> dbx_safe infos (apply_effect w (Write_Setting i v))"
  by (auto simp: dbx_safe_def list_all_iff UseLocalDbx_def)

lemma refresh_dbx_safe:
  assumes "refresh_dbx infos env w i = (r, es)" "honest env" "dbx_safe infos w"
    and "case env_data env of None \<Rightarrow> True | Some dat \<Rightarrow> length dat < 2 ^ 64"
  shows "safe_run infos w es"
proof -
  note safe = dbx_run_rules(2) [OF assms(3)] dbx_safe_replace [OF assms(3)] dbx_run_rules(1)
  from refresh_dbx_effects [OF assms(1,2,4)] show ?thesis
  proof (elim disjE exE conjE)
    fix f assume f: "dbx_file_ok f" "es = [Replace_Cache i f]"
    then show ?thesis using safe by (simp add: no_rollback_def)
  next
    fix f ts assume f: "dbx_file_ok f" "setting w i \<le> ts" "es = [Replace_Cache i f, Write_Setting i ts]"
    let ?w = "apply_effect w (Replace_Cache i f)"
    have "safe_run infos ?w [Write_Setting i ts]"
      using f dbx_safe_write [OF dbx_safe_replace [OF assms(3) f(1), of i], of i f ts]
      by (intro dbx_run_rules(1,2) dbx_safe_replace [OF assms(3) f(1)]) (auto simp: no_rollback_def)
    then show ?thesis using f safe by (simp add: no_rollback_def)
  qed (simp add: dbx_run_rules(1) assms(3))
qed

text \<open>The counters and the effects after the first architectures.\<close>

definition refresh_upto :: "dbx_infos \<Rightarrow> (nat \<Rightarrow> dbx_env) \<Rightarrow> dbx_world \<Rightarrow> nat \<times> nat \<Rightarrow> nat \<Rightarrow> (nat \<times> nat) \<times> dbx_effect list" where
  "refresh_upto infos env w counts m =
     foldl (\<lambda>((ok, failed), es) i.
        let (r, es') = refresh_dbx infos (env i) (foldl apply_effect w es) i in
        (if r then (ok + 1, failed) else (ok, failed + 1), es @ es'))
       (counts, []) [0..<m]"

lemma refresh_upto_Suc:
  assumes "refresh_upto infos env w counts m = ((ok, failed), es)" "refresh_dbx infos (env m) (foldl apply_effect w es) m = (r, es')"
  shows "refresh_upto infos env w counts (Suc m) = (if r then (ok + 1, failed) else (ok, failed + 1), es @ es')"
  using assms by (simp add: refresh_upto_def)

text \<open>The outside world of a run: an honest file system, and downloads of a size the machine can hold.\<close>

definition dbx_world_ok :: "dbx_infos \<Rightarrow> (nat \<Rightarrow> dbx_env) \<Rightarrow> bool" where
  "dbx_world_ok infos env \<longleftrightarrow>
     list_all (\<lambda>i. honest (env i) \<and> (case env_data (env i) of None \<Rightarrow> True | Some dat \<Rightarrow> length dat < 2 ^ 64)) [0..<length infos]"

lemma refresh_upto_safe:
  assumes "dbx_world_ok infos env" "dbx_safe infos w" "m \<le> length infos"
  shows "safe_run infos w (snd (refresh_upto infos env w counts m))"
  using assms(3)
proof (induction m)
  case 0
  show ?case by (simp add: refresh_upto_def dbx_run_rules(1) assms(2))
next
  case (Suc m)
  obtain ok failed es where m: "refresh_upto infos env w counts m = ((ok, failed), es)"
    by (metis prod.exhaust)
  let ?w = "foldl apply_effect w es"
  obtain r es' where r: "refresh_dbx infos (env m) ?w m = (r, es')" by (cases "refresh_dbx infos (env m) ?w m")
  have run: "safe_run infos w es" using Suc m by simp
  then have "dbx_safe infos ?w" unfolding safe_run_def by (rule dbx_run.run_end)
  then have "safe_run infos ?w es'"
    using refresh_dbx_safe [OF r] assms(1) Suc.prems by (auto simp: dbx_world_ok_def list_all_iff)
  with run have "safe_run infos w (es @ es')" by (rule dbx_run_rules(3))
  then show ?case using refresh_upto_Suc [OF m r] by simp
qed

lemma NawamRefreshDbx_upto: "NawamRefreshDbx infos env w counts = refresh_upto infos env w counts (length infos)"
  by (simp add: NawamRefreshDbx_def refresh_upto_def)


text \<open>A table of one architecture, a state that prefers the embedded database, and an environment in which all goes well.\<close>

definition sample_infos :: dbx_infos where
  "sample_infos = [(''http://a/contents/b/c'', 500000000)]"

definition sample_world :: dbx_world where
  "sample_world = \<lparr>setting = (\<lambda>_. 0), cache = (\<lambda>_. None)\<rparr>"

definition sample_env :: dbx_env where
  "sample_env = \<lparr>env_metadata = Some sample_answer, env_now = 1000000000, env_path_ok = True, env_cache_opened = True,
     env_cache_sized = True, env_cache_read = True, env_pinned_ok = True, env_data = Some dbx_sample, env_names_ok = True,
     env_directory_ok = True, env_temporary_ok = True, env_written = True, env_stored = dbx_sample, env_read_back = True,
     env_closed = True, env_moved = True, env_setting_stored = True, env_setting_result = True\<rparr>"

lemma dbx_sample_valid: "dbx_file_valid dbx_sample" "length dbx_sample = 164"
proof -
  show "dbx_file_valid dbx_sample" unfolding dbx_file_valid_def by code_simp
  show "length dbx_sample = 164" by (simp add: dbx_sample_def sha256_guid_def)
qed

lemma sample_refresh:
  "refresh_dbx sample_infos sample_env sample_world 0 = (True, [Replace_Cache 0 dbx_sample, Write_Setting 0 946684800])"
proof -
  have "timestamp_url ''http://a/contents/b/c'' \<noteq> None" by (simp add: timestamp_url_def URL_SIZE_def)
  moreover have "NawamCommitDbxCache sample_env 0 dbx_sample = (True, [Replace_Cache 0 dbx_sample])"
    using dbx_sample_valid by (simp add: NawamCommitDbxCache_def sample_env_def)
  ultimately show ?thesis
    using dbx_sample_valid sample_answer_stamp
    by (simp add: refresh_dbx_def sample_infos_def sample_env_def sample_world_def NawamDownloadLengthValid_def SIZE_MAX_def)
qed

lemma sample_safe: "dbx_safe sample_infos sample_world" "dbx_world_ok sample_infos (\<lambda>_. sample_env)"
proof -
  show "dbx_safe sample_infos sample_world" by (simp add: dbx_safe_def sample_infos_def sample_world_def UseLocalDbx_def)
  show "dbx_world_ok sample_infos (\<lambda>_. sample_env)"
    by (simp add: dbx_world_ok_def sample_infos_def honest_def sample_env_def dbx_sample_valid(2))
qed


lemma dbx_choice_valid:
  assumes "dbx_safe infos w" "i < length infos" "dbx_file_ok embedded"
  shows "dbx_file_ok (dbx_choice infos w i readable embedded)"
  using assms by (auto simp: dbx_safe_def list_all_iff dbx_choice_def split: option.splits)

lemma revoked_by_choice:
  assumes "dbx_file_ok f"
  shows "\<exists>stamp auth ls. dbx_layout f stamp auth ls \<and> IsRevokedByDbx hash True (Some f) = Some (hash \<in> drop 16 ` set (sl_entries (hd ls)))"
proof -
  obtain stamp auth ls where l: "dbx_layout f stamp auth ls"
    using assms NawamDbxValid_iff [of f] by (auto simp: dbx_file_ok_def dbx_file_valid_def)
  moreover have "length f < 2 ^ 32" using assms by (simp add: dbx_file_ok_def)
  ultimately show ?thesis using IsRevokedByDbx_layout [OF l] by blast
qed

text \<open>C29. The revocation check after a refresh that was interrupted anywhere: the database it chooses, embedded or
  cached, is well formed, its lookup neither leaves the database nor fails an assertion, and tells exactly whether the
  hash is in its first list.\<close>

theorem revocation_after_interrupted_refresh:
  assumes "dbx_safe infos w" "dbx_world_ok infos env" "i < length infos" "dbx_file_ok embedded"
  shows "let es = snd (NawamRefreshDbx infos env w counts); w' = foldl apply_effect w (take k es);
           dbx = dbx_choice infos w' i readable embedded in
     \<exists>stamp auth ls. dbx_layout dbx stamp auth ls \<and>
       IsRevokedByDbx hash True (Some dbx) = Some (hash \<in> drop 16 ` set (sl_entries (hd ls)))"
proof -
  have "safe_run infos w (snd (NawamRefreshDbx infos env w counts))"
    unfolding NawamRefreshDbx_upto using assms by (intro refresh_upto_safe) auto
  then have "dbx_safe infos (foldl apply_effect w (take k (snd (NawamRefreshDbx infos env w counts))))"
    unfolding safe_run_def by (rule dbx_run.run_prefix)
  then show ?thesis unfolding Let_def by (intro revoked_by_choice dbx_choice_valid assms(3,4))
qed

theorem revocation_after_interrupted_refresh_witness:
  "dbx_safe sample_infos sample_world \<and> dbx_world_ok sample_infos (\<lambda>_. sample_env) \<and> 0 < length sample_infos \<and>
   dbx_file_ok dbx_sample \<and>
   (let es = snd (NawamRefreshDbx sample_infos (\<lambda>_. sample_env) sample_world (0, 0));
        w' = foldl apply_effect sample_world (take 1 es); dbx = dbx_choice sample_infos w' 0 True dbx_sample in
      \<exists>stamp auth ls. dbx_layout dbx stamp auth ls \<and>
        IsRevokedByDbx (replicate 32 2) True (Some dbx) = Some (replicate 32 2 \<in> drop 16 ` set (sl_entries (hd ls))))"
proof -
  have "0 < length sample_infos" "dbx_file_ok dbx_sample"
    by (simp_all add: sample_infos_def dbx_file_ok_def dbx_sample_valid)
  with revocation_after_interrupted_refresh [OF sample_safe this, of "(0, 0)" 1 True "replicate 32 2"] sample_safe
  show ?thesis by blast
qed

section \<open>What a reported success means\<close>

lemma of_int_not_greater: "0 \<le> v \<Longrightarrow> v \<le> int (unat (x :: u64)) \<Longrightarrow> \<not> (of_int v :: u64) > x"
proof -
  assume v: "0 \<le> v" "v \<le> int (unat x)"
  then have "of_int v = (of_nat (nat v) :: u64)" by simp
  moreover have "nat v \<le> unat x" using v by linarith
  moreover have "unat x < 2 ^ 64" by simp
  ultimately show ?thesis by (simp add: word_less_nat_alt unat_of_nat)
qed

text \<open>C30. When the refresh of an architecture reports success, the database the revocation check then prefers is as new as
  the published one, and if that is the cached file, the file is a valid database, even if the cache was missing or damaged
  before.\<close>

theorem refresh_dbx_success:
  assumes "refresh_dbx infos env w i = (True, es)" "honest env"
  defines "w' \<equiv> foldl apply_effect w es"
  shows "\<exists>stamp sha. NawamCommitTimestamp (env_metadata env) = (True, Some stamp, Some sha) \<and>
    int (unat stamp) \<le> max (int (unat (snd (infos ! i)))) (setting w' i) \<and>
    (UseLocalDbx infos w' i \<longrightarrow> (\<exists>f. cache w' i = Some f \<and> dbx_file_valid f))"
proof -
  obtain a b c where ts: "NawamCommitTimestamp (env_metadata env) = (a, b, c)"
    by (cases "NawamCommitTimestamp (env_metadata env)")
  with assms obtain stamp sha where s: "a" "b = Some stamp" "c = Some sha"
    by (cases a; cases b; cases c) (auto simp: refresh_dbx_def split: if_splits)
  let ?ts = "int (unat stamp)" and ?p = "setting w i" and ?e = "int (unat (snd (infos ! i)))"
  consider (embedded) "es = []" "?ts \<le> ?e" "0 \<le> ?p" "?p \<le> ?e"
    | (cached) "es = []" "?ts \<le> ?p" "NawamReadDbxCache env (cache w i)"
    | (fetched) dat es0 where "env_data env = Some dat" "NawamCommitDbxCache env i dat = (True, es0)"
        "es = es0 @ (if env_setting_stored env then [Write_Setting i ?ts] else [])" "setting w' i = ?ts"
    using assms(1) ts s by (auto simp: refresh_dbx_def Let_def w'_def split: if_splits option.splits prod.splits bool.splits)
  then have "?ts \<le> max ?e (setting w' i) \<and> (UseLocalDbx infos w' i \<longrightarrow> (\<exists>f. cache w' i = Some f \<and> dbx_file_valid f))"
  proof cases
    case embedded
    then show ?thesis using of_int_not_greater [of ?p "snd (infos ! i)"] by (auto simp: UseLocalDbx_def w'_def)
  next
    case cached
    then show ?thesis by (auto simp: NawamReadDbxCache_def w'_def split: option.splits)
  next
    case (fetched dat es0)
    have "es0 = [Replace_Cache i dat] \<and> dbx_file_valid dat"
      using commit_effects [OF fetched(2)] assms(2) fetched(1) by (simp add: honest_def)
    then show ?thesis using fetched(3,4) by (auto simp: w'_def)
  qed
  then show ?thesis using ts s by auto
qed

theorem refresh_dbx_success_witness:
  "refresh_dbx sample_infos sample_env sample_world 0 = (True, [Replace_Cache 0 dbx_sample, Write_Setting 0 946684800]) \<and>
   honest sample_env \<and>
   (let w' = foldl apply_effect sample_world [Replace_Cache 0 dbx_sample, Write_Setting 0 946684800] in
    \<exists>stamp sha. NawamCommitTimestamp (env_metadata sample_env) = (True, Some stamp, Some sha) \<and>
      int (unat stamp) \<le> max (int (unat (snd (sample_infos ! 0)))) (setting w' 0) \<and>
      (UseLocalDbx sample_infos w' 0 \<longrightarrow> (\<exists>f. cache w' 0 = Some f \<and> dbx_file_valid f)))"
proof -
  have "honest sample_env" by (simp add: honest_def sample_env_def)
  with refresh_dbx_success [OF sample_refresh this] sample_refresh show ?thesis unfolding Let_def by blast
qed

lemma refresh_upto_counts:
  "refresh_upto infos env w (a, b) m = ((ok, failed), es) \<Longrightarrow> ok + failed = a + b + m \<and> a \<le> ok \<and>
     refresh_upto infos env w (0, 0) m = ((ok - a, failed - b), es) \<and> b \<le> failed"
proof (induction m arbitrary: ok failed es)
  case (Suc m)
  obtain ok' failed' es' where m: "refresh_upto infos env w (a, b) m = ((ok', failed'), es')" by (metis prod.exhaust)
  obtain r es'' where r: "refresh_dbx infos (env m) (foldl apply_effect w es') m = (r, es'')" by (metis prod.exhaust)
  note ih = Suc.IH [OF m]
  from Suc.prems refresh_upto_Suc [OF m r] refresh_upto_Suc [OF conjunct1 [OF conjunct2 [OF conjunct2 [OF ih]]] r] ih
  show ?case by (auto split: if_splits)
qed (simp add: refresh_upto_def)

lemma refresh_text_result:
  "\<exists>st'. NawamRefreshSecurityText kind dl st = Some (NawamSecurityTextValid dl (kind \<noteq> 0) \<noteq> 0, st') \<and>
     (NawamSecurityTextValid dl (kind \<noteq> 0) = 0 \<longrightarrow> st' = st)"
  using refresh_text_spec [where kind = kind and dl = dl and st = st] by (auto simp: Let_def split: option.splits if_splits)

text \<open>The exit code of the refresh: the thread always returns without an access outside of a block, with 2 when all
  three texts were accepted and all databases were refreshed, 0 when none was, and 1 otherwise; with no text
  accepted the lists are unchanged.\<close>

theorem refresh_thread_exit_code:
  "\<exists>st' es. NawamSecurityRefreshThread True False infos dl env st w =
      Some (let texts = length (filter (\<lambda>i. NawamSecurityTextValid (dl i) (i \<noteq> 0) \<noteq> 0) [0..<3]);
                ok = texts + fst (fst (NawamRefreshDbx infos env w (0, 0))) in
            if ok = 0 then 0 else if ok = 3 + length infos then 2 else 1, st', es) \<and>
     (if filter (\<lambda>i. NawamSecurityTextValid (dl i) (i \<noteq> 0) \<noteq> 0) [0..<3] = [] then st' = st else True)"
proof -
  let ?v = "\<lambda>i. NawamSecurityTextValid (dl i) (i \<noteq> 0) \<noteq> 0"
  let ?n = "length (filter ?v [0..<3])"
  have three: "[0..<3] = [0, 1, 2 :: nat]" by (simp add: upt_rec)
  obtain st' where t: "refresh_texts dl st = Some ((?n, 3 - ?n), st')" "filter ?v [0..<3] = [] \<Longrightarrow> st' = st"
  proof -
    obtain s1 where 1: "NawamRefreshSecurityText 0 (dl 0) st = Some (?v 0, s1)" "\<not> ?v 0 \<longrightarrow> s1 = st"
      using refresh_text_result [of 0 "dl 0" st] by auto
    obtain s2 where 2: "NawamRefreshSecurityText 1 (dl 1) s1 = Some (?v 1, s2)" "\<not> ?v 1 \<longrightarrow> s2 = s1"
      using refresh_text_result [of 1 "dl 1" s1] by auto
    obtain s3 where 3: "NawamRefreshSecurityText 2 (dl 2) s2 = Some (?v 2, s3)" "\<not> ?v 2 \<longrightarrow> s3 = s2"
      using refresh_text_result [of 2 "dl 2" s2] by auto
    have "refresh_texts dl st = Some ((?n, 3 - ?n), s3)"
      unfolding refresh_texts_def three using 1(1) 2(1) 3(1) by simp
    moreover have "s3 = st" if "filter ?v [0..<3] = []"
    proof -
      have "\<not> ?v 0 \<and> \<not> ?v 1 \<and> \<not> ?v 2" using that unfolding filter_empty_conv three by simp
      with 1(2) 2(2) 3(2) show ?thesis by blast
    qed
    ultimately show thesis by (rule that)
  qed
  obtain c es where "NawamRefreshDbx infos env w (?n, 3 - ?n) = (c, es)" by (rule prod.exhaust)
  moreover obtain ok failed where "c = (ok, failed)" by (rule prod.exhaust)
  ultimately have d: "NawamRefreshDbx infos env w (?n, 3 - ?n) = ((ok, failed), es)" by simp
  have n: "?n \<le> 3" using length_filter_le [of ?v "[0..<3]"] by (simp only: length_upt diff_zero)
  have c: "ok + failed = ?n + (3 - ?n) + length infos" "?n \<le> ok" "NawamRefreshDbx infos env w (0, 0) = ((ok - ?n, failed - (3 - ?n)), es)"
    using refresh_upto_counts [OF d [unfolded NawamRefreshDbx_upto]] unfolding NawamRefreshDbx_upto by blast+
  have run: "NawamSecurityRefreshThread True False infos dl env st w =
      Some (if ok = 0 then 0 else if failed = 0 then 2 else 1, st', es)"
    by (simp only: NawamSecurityRefreshThread_def t(1) Let_def Option.bind.bind_lunit prod.case d simp_thms if_False)
  have ok: "?n + fst (fst (NawamRefreshDbx infos env w (0, 0))) = ok" using c(2) unfolding c(3) fst_conv by linarith
  have all: "(ok = 3 + length infos) = (failed = 0)" using c(1) n by linarith
  show ?thesis
    unfolding Let_def ok all
    by (intro exI [of _ st'] exI [of _ es] conjI run) (cases "filter ?v [0..<3] = []", simp_all only: t(2) if_True if_False simp_thms)
qed

end
