(* ===== verification/Pe_Image.thy ===== *)
theory Pe_Image
  imports Sha256 "HOL-Library.Multiset"
begin

text \<open>
  The digest of an EFI executable (\<open>src/src/hash.c\<close>): the list of disjoint regions of the file
  that are to be hashed (\<open>efi_image_region_add\<close>), the reader of the PE headers that fills it
  (\<open>efi_image_parse\<close>) and the SHA-256 over the regions (\<open>PE256Buffer\<close>).

  Addresses are offsets from the start of the image; an offset can be negative, because the header
  offset of the file is a signed number. A read outside of the image gives \<open>None\<close>; a function that
  returns \<open>FALSE\<close> gives \<open>Some None\<close>.
\<close>

section \<open>Reading the image\<close>

definition rd_bytes :: "u8 list \<Rightarrow> int \<Rightarrow> nat \<Rightarrow> u8 list option" where
  "rd_bytes b off n =
     (if n = 0 then Some []
      else if 0 \<le> off \<and> nat off + n \<le> length b then Some (take n (drop (nat off) b)) else None)"

definition rd16 :: "u8 list \<Rightarrow> int \<Rightarrow> u16 option" where
  "rd16 b off = map_option (\<lambda>p. ucast (p ! 0) OR push_bit 8 (ucast (p ! 1))) (rd_bytes b off 2)"

definition rd32 :: "u8 list \<Rightarrow> int \<Rightarrow> u32 option" where
  "rd32 b off = map_option (\<lambda>p. le32_join (p ! 0) (p ! 1) (p ! 2) (p ! 3)) (rd_bytes b off 4)"

section \<open>Regions\<close>

type_synonym image_region = "int \<times> nat"

record efi_image_regions =
  max_regions :: nat
  reg :: "image_region list"

text \<open>The loop over the registered regions: the place of the new one, or an overlap.\<close>

fun region_insert :: "bool \<Rightarrow> int \<Rightarrow> int \<Rightarrow> image_region list \<Rightarrow> image_region list option" where
  "region_insert nocheck start stop [] = Some [(start, nat (stop - start) mod 2 ^ 32)]"
| "region_insert nocheck start stop ((data, sz) # rs) =
     (if nocheck \<or> start \<ge> data + int sz then map_option (Cons (data, sz)) (region_insert nocheck start stop rs)
      else if stop \<le> data then Some ((start, nat (stop - start) mod 2 ^ 32) # (data, sz) # rs)
      else None)"

definition efi_image_region_add :: "efi_image_regions \<Rightarrow> int \<Rightarrow> int \<Rightarrow> bool \<Rightarrow> efi_image_regions option" where
  "efi_image_region_add regs start stop nocheck =
     (if length (reg regs) \<ge> max_regions regs then None
      else if stop < start then None
      else map_option (\<lambda>l. regs\<lparr>reg := l\<rparr>) (region_insert nocheck start stop (reg regs)))"

text \<open>The callers do not look at the result: a region that is refused is left out.\<close>

definition add_region :: "efi_image_regions \<Rightarrow> int \<Rightarrow> int \<Rightarrow> efi_image_regions" where
  "add_region regs start stop = (case efi_image_region_add regs start stop False of None \<Rightarrow> regs | Some r \<Rightarrow> r)"

section \<open>The headers\<close>

definition IMAGE_DIRECTORY_ENTRY_SECURITY :: nat where
  "IMAGE_DIRECTORY_ENTRY_SECURITY = 4"

text \<open>
  The regions of the headers, from the place of the optional header. The two branches of the source
  differ in the places of \<open>NumberOfRvaAndSizes\<close> and \<open>DataDirectory\<close> (108 and 112 bytes into the
  64-bit header, 92 and 96 into the 32-bit one). The result has the regions, \<open>SizeOfHeaders\<close>,
  \<open>FileAlignment\<close> and the size of the certificate table.
\<close>

definition header_regions :: "u8 list \<Rightarrow> int \<Rightarrow> int \<Rightarrow> int \<Rightarrow> efi_image_regions \<Rightarrow> (efi_image_regions \<times> u32 \<times> u32 \<times> u32) option" where
  "header_regions efi opt nrva_at dirs_at regs = do {
     let CheckSum = opt + 64;
     let Subsystem = opt + 68;
     let ctdir = opt + dirs_at + 8 * int IMAGE_DIRECTORY_ENTRY_SECURITY;
     let regs = add_region regs 0 CheckSum;
     NumberOfRvaAndSizes \<leftarrow> rd32 efi (opt + nrva_at);
     SizeOfHeaders \<leftarrow> rd32 efi (opt + 60);
     (regs, authsz) \<leftarrow>
       (if unat NumberOfRvaAndSizes \<le> IMAGE_DIRECTORY_ENTRY_SECURITY then
          Some (add_region regs Subsystem (int (unat SizeOfHeaders)), 0)
        else do {
          let regs = add_region regs Subsystem ctdir;
          let regs = add_region regs (ctdir + 8) (int (unat SizeOfHeaders));
          authsz \<leftarrow> rd32 efi (ctdir + 4);
          Some (regs, authsz) });
     align \<leftarrow> rd32 efi (opt + 36);
     Some (regs, SizeOfHeaders, align, authsz) }"

section \<open>The sections\<close>

record pe_section =
  VirtualAddress :: u32
  SizeOfRawData :: u32
  PointerToRawData :: u32

text \<open>The fields of section header \<open>i\<close> of \<open>n\<close> that are read: the comparison of the sort needs two
  sections, and the place of the data is not looked at when there is none.\<close>

definition read_section :: "u8 list \<Rightarrow> int \<Rightarrow> nat \<Rightarrow> nat \<Rightarrow> pe_section option" where
  "read_section efi sections n i = do {
     va \<leftarrow> (if n < 2 then Some 0 else rd32 efi (sections + 40 * int i + 12));
     sz \<leftarrow> rd32 efi (sections + 40 * int i + 16);
     ptr \<leftarrow> (if sz = 0 then Some 0 else rd32 efi (sections + 40 * int i + 20));
     Some \<lparr>VirtualAddress = va, SizeOfRawData = sz, PointerToRawData = ptr\<rparr> }"

definition cmp_pe_section :: "pe_section \<Rightarrow> pe_section \<Rightarrow> int" where
  "cmp_pe_section s1 s2 =
     (if VirtualAddress s1 < VirtualAddress s2 then -1 else if VirtualAddress s1 = VirtualAddress s2 then 0 else 1)"

definition aligned_size :: "u32 \<Rightarrow> pe_section \<Rightarrow> u32" where
  "aligned_size align s = (SizeOfRawData s + align - 1) AND NOT (align - 1)"

definition add_section :: "u32 \<Rightarrow> efi_image_regions \<times> nat \<Rightarrow> pe_section \<Rightarrow> efi_image_regions \<times> nat" where
  "add_section align = (\<lambda>(regs, bytes_hashed) s.
     if SizeOfRawData s = 0 then (regs, bytes_hashed)
     else
       let sz = unat (aligned_size align s); ptr = int (unat (PointerToRawData s)) in
       (add_region regs ptr (ptr + int sz), bytes_hashed + sz))"

text \<open>The regions of the sorted sections, and of what follows them up to the certificate table.\<close>

definition section_regions :: "nat \<Rightarrow> pe_section list \<Rightarrow> u32 \<Rightarrow> u32 \<Rightarrow> u32 \<Rightarrow> efi_image_regions \<Rightarrow> efi_image_regions" where
  "section_regions len secs align SizeOfHeaders authsz regs =
     (let (regs, bytes_hashed) = foldl (add_section align) (regs, unat SizeOfHeaders) secs in
      if bytes_hashed + unat authsz < len then add_region regs (int bytes_hashed) (int len - int (unat authsz)) else regs)"

text \<open>\<open>qsort\<close> is the sorting function of the C library for the comparison \<open>cmp_pe_section\<close>.\<close>

definition efi_image_parse :: "(pe_section list \<Rightarrow> pe_section list) \<Rightarrow> u8 list \<Rightarrow> efi_image_regions option option" where
  "efi_image_parse qsort efi =
     (if length efi < 0x80 then Some None
      else do {
        e_lfanew \<leftarrow> rd32 efi 0x3c;
        if sint e_lfanew > sint (of_nat (length efi) :: u32) - 0x40 then Some None
        else do {
          let nt = sint e_lfanew;
          NumberOfSections \<leftarrow> rd16 efi (nt + 6);
          let num_sections = unat NumberOfSections;
          let regs = \<lparr>max_regions = 3 + num_sections + 1, reg = []\<rparr>;
          Magic \<leftarrow> rd16 efi (nt + 24);
          if Magic \<noteq> 0x20b \<and> Magic \<noteq> 0x10b then Some None
          else do {
            (regs, SizeOfHeaders, align, authsz) \<leftarrow>
              header_regions efi (nt + 24) (if Magic = 0x20b then 108 else 92) (if Magic = 0x20b then 112 else 96) regs;
            SizeOfOptionalHeader \<leftarrow> rd16 efi (nt + 20);
            let sections = nt + 24 + int (unat SizeOfOptionalHeader);
            headers \<leftarrow> those (map (read_section efi sections num_sections) [0..<num_sections]);
            Some (Some (section_regions (length efi) (qsort headers) align SizeOfHeaders authsz regs)) } } })"

definition PE256Buffer :: "(pe_section list \<Rightarrow> pe_section list) \<Rightarrow> u8 list option \<Rightarrow> bool \<Rightarrow> u8 list option option" where
  "PE256Buffer qsort bufp hash_null =
     (case bufp of None \<Rightarrow> Some None | Some efi \<Rightarrow>
        if length efi < 1024 \<or> length efi > 64 * 1024 * 1024 \<or> hash_null then Some None
        else do {
          r \<leftarrow> efi_image_parse qsort efi;
          case r of None \<Rightarrow> Some None | Some regs \<Rightarrow> do {
            pieces \<leftarrow> those (map (\<lambda>(data, sz). rd_bytes efi data sz) (reg regs));
            ctx \<leftarrow> sha256_final (foldl sha256_write sha256_init pieces);
            Some (Some (take SHA256_HASHSIZE (buf ctx))) } })"

section \<open>The regions never overlap\<close>

definition before :: "image_region \<Rightarrow> image_region \<Rightarrow> bool" where
  "before r s \<longleftrightarrow> fst r + int (snd r) \<le> fst s"

definition apart :: "image_region list \<Rightarrow> bool" where
  "apart rs \<longleftrightarrow> sorted_wrt before rs"

lemma region_insert_mset:
  "region_insert False start stop rs = Some rs' \<Longrightarrow> mset rs' = add_mset (start, nat (stop - start) mod 2 ^ 32) (mset rs)"
  by (induction rs arbitrary: rs') (auto split: if_splits)

lemma region_insert_apart:
  assumes "region_insert False start stop rs = Some rs'" "start \<le> stop" "apart rs"
  shows "apart rs'"
  using assms
proof (induction rs arbitrary: rs')
  case Nil
  then show ?case by (auto simp: apart_def)
next
  case (Cons r rs)
  obtain data sz where r: "r = (data, sz)" by (cases r)
  have le: "start + int (nat (stop - start) mod 2 ^ 32) \<le> stop"
    using mod_less_eq_dividend [of "nat (stop - start)" "2 ^ 32"] Cons.prems(2) by linarith
  show ?case
  proof (cases "start \<ge> data + int sz")
    case True
    then obtain l where l: "region_insert False start stop rs = Some l" "rs' = r # l" using Cons.prems(1) by (auto simp: r)
    have "set l = insert (start, nat (stop - start) mod 2 ^ 32) (set rs)"
      using region_insert_mset [OF l(1)] by (metis set_mset_add_mset_insert set_mset_mset)
    then show ?thesis using Cons.IH [OF l(1) Cons.prems(2)] Cons.prems(3) True by (auto simp: l(2) apart_def before_def r)
  next
    case False
    then have "stop \<le> data" "rs' = (start, nat (stop - start) mod 2 ^ 32) # (data, sz) # rs"
      using Cons.prems(1) by (auto simp: r split: if_splits)
    then show ?thesis using Cons.prems(3) le by (fastforce simp: apart_def before_def r)
  qed
qed

definition regions_ok :: "efi_image_regions \<Rightarrow> bool" where
  "regions_ok regs \<longleftrightarrow> apart (reg regs) \<and> length (reg regs) \<le> max_regions regs"

lemma add_region_ok: "regions_ok regs \<Longrightarrow> regions_ok (add_region regs start stop) \<and> max_regions (add_region regs start stop) = max_regions regs"
proof -
  assume ok: "regions_ok regs"
  have "length l = Suc (length (reg regs))" if "region_insert False start stop (reg regs) = Some l" for l
    using arg_cong [OF region_insert_mset [OF that], of size] by simp
  then show ?thesis using ok region_insert_apart [of start stop "reg regs"]
    by (auto simp: add_region_def efi_image_region_add_def regions_ok_def split: option.splits)
qed

lemma header_regions_ok:
  "header_regions efi opt nrva_at dirs_at regs = Some (regs', x) \<Longrightarrow> regions_ok regs \<Longrightarrow>
     regions_ok regs' \<and> max_regions regs' = max_regions regs"
  by (auto simp: header_regions_def Let_def bind_eq_Some_conv add_region_ok split: if_splits)

lemma add_sections_ok:
  "regions_ok regs \<Longrightarrow> foldl (add_section align) (regs, n) ss = (regs', n') \<Longrightarrow> regions_ok regs' \<and> max_regions regs' = max_regions regs"
proof (induction ss arbitrary: regs n)
  case (Cons s ss)
  obtain r m where r: "add_section align (regs, n) s = (r, m)" by (cases "add_section align (regs, n) s")
  then have "regions_ok r \<and> max_regions r = max_regions regs"
    using add_region_ok [OF Cons.prems(1)] Cons.prems(1) by (auto simp: add_section_def Let_def split: if_splits)
  then show ?case using Cons.IH [of r m] Cons.prems(2) r by simp
qed simp

lemma section_regions_ok:
  assumes "regions_ok regs"
  shows "regions_ok (section_regions len secs align soh authsz regs)"
proof -
  obtain r n where r: "foldl (add_section align) (regs, unat soh) secs = (r, n)"
    by (cases "foldl (add_section align) (regs, unat soh) secs")
  show ?thesis using add_sections_ok [OF assms r] add_region_ok by (simp add: section_regions_def r)
qed

text \<open>The steps of a parse that succeeds.\<close>

lemma efi_image_parse_elim:
  assumes "efi_image_parse qsort efi = Some (Some regs)"
  obtains e n hdr soh align authsz oh secs nrva dirs where "rd32 efi 0x3c = Some e" "rd16 efi (sint e + 6) = Some n"
    "header_regions efi (sint e + 24) nrva dirs \<lparr>max_regions = 3 + unat n + 1, reg = []\<rparr> = Some (hdr, soh, align, authsz)"
    "rd16 efi (sint e + 20) = Some oh"
    "those (map (read_section efi (sint e + 24 + int (unat oh)) (unat n)) [0..<unat n]) = Some secs"
    "regs = section_regions (length efi) (qsort secs) align soh authsz hdr"
  using assms unfolding efi_image_parse_def Let_def
  by (auto simp: bind_eq_Some_conv split: if_splits simp del: of_nat_unat)

text \<open>C40. Whatever the headers of the image say, the regions that are hashed lie one behind the other: no
  byte is hashed twice, and there is always room for them in the allocated list.\<close>

theorem image_regions_disjoint:
  assumes "efi_image_parse qsort efi = Some (Some regs)"
  shows "sorted_wrt (\<lambda>(a, n) (b, m). a + int n \<le> b) (reg regs) \<and> length (reg regs) \<le> max_regions regs"
proof -
  have empty: "regions_ok \<lparr>max_regions = m, reg = []\<rparr>" for m by (simp add: regions_ok_def apart_def)
  from assms have "regions_ok regs"
    by (rule efi_image_parse_elim) (auto intro: section_regions_ok dest: header_regions_ok [OF _ empty])
  moreover have "before = (\<lambda>(a, n) (b, m). a + int n \<le> b)" by (simp add: fun_eq_iff before_def)
  ultimately show ?thesis by (simp add: regions_ok_def apart_def)
qed

section \<open>Regions that fit\<close>

definition slice :: "u8 list \<Rightarrow> image_region \<Rightarrow> u8 list" where
  "slice efi r = take (snd r) (drop (nat (fst r)) efi)"

lemma region_insert_behind:
  "(\<And>r. r \<in> set pre \<Longrightarrow> fst r + int (snd r) \<le> start) \<Longrightarrow>
     region_insert False start stop (pre @ mid) = map_option ((@) pre) (region_insert False start stop mid)"
proof (induction pre)
  case (Cons r pre)
  then show ?case by (cases r) (auto simp: option.map_comp comp_def)
qed (simp add: append.left_neutral [abs_def] option.map_ident)

lemma region_insert_disjoint:
  "(\<And>r. r \<in> set mid \<Longrightarrow> fst r + int (snd r) \<le> start \<or> stop \<le> fst r) \<Longrightarrow> \<exists>l. region_insert False start stop mid = Some l"
proof (induction mid)
  case (Cons r mid)
  have "\<exists>l. region_insert False start stop mid = Some l" by (rule Cons.IH) (simp add: Cons.prems)
  moreover have "fst r + int (snd r) \<le> start \<or> stop \<le> fst r" by (rule Cons.prems) simp
  ultimately show ?case by (cases r) auto
qed simp

lemma add_region_fits:
  assumes r: "reg regs = pre @ mid" "length pre + length mid < max_regions regs" "apart mid"
    and s: "start \<le> stop" "stop - start < 2 ^ 32"
    and pre: "\<And>r. r \<in> set pre \<Longrightarrow> fst r + int (snd r) \<le> start"
    and mid: "\<And>r. r \<in> set mid \<Longrightarrow> fst r + int (snd r) \<le> start \<or> stop \<le> fst r"
  shows "\<exists>l. add_region regs start stop = regs\<lparr>reg := pre @ l\<rparr> \<and> apart l \<and> mset l = add_mset (start, nat (stop - start)) (mset mid)"
proof -
  obtain l where l: "region_insert False start stop mid = Some l" using region_insert_disjoint [OF mid] by blast
  have "add_region regs start stop = regs\<lparr>reg := pre @ l\<rparr>"
    using r(1,2) s(1) region_insert_behind [OF pre, of pre stop mid] l by (simp add: add_region_def efi_image_region_add_def)
  moreover have "nat (stop - start) mod 2 ^ 32 = nat (stop - start)" using s by (intro mod_less) (simp add: nat_less_iff)
  ultimately show ?thesis using region_insert_apart [OF l s(1) r(3)] region_insert_mset [OF l] by auto
qed

text \<open>Regions that lie apart in any order.\<close>

definition scattered :: "image_region list \<Rightarrow> bool" where
  "scattered L \<longleftrightarrow> distinct L \<and> (\<forall>r\<in>set L. \<forall>s\<in>set L. r \<noteq> s \<longrightarrow> before r s \<or> before s r)"

definition sec_region :: "u32 \<Rightarrow> pe_section \<Rightarrow> image_region" where
  "sec_region align s = (int (unat (PointerToRawData s)), unat (aligned_size align s))"

definition sec_regions :: "u32 \<Rightarrow> pe_section list \<Rightarrow> image_region list" where
  "sec_regions align ss = map (sec_region align) (filter (\<lambda>s. SizeOfRawData s \<noteq> 0) ss)"

lemma add_sections_fit:
  assumes "reg regs = pre @ mid" "length pre + length mid + length (sec_regions align ss) \<le> max_regions regs" "apart mid"
    and "\<And>r s. r \<in> set pre \<Longrightarrow> s \<in> set (sec_regions align ss) \<Longrightarrow> before r s"
    and "scattered (mid @ sec_regions align ss)"
  shows "\<exists>l. foldl (add_section align) (regs, n) ss = (regs\<lparr>reg := pre @ l\<rparr>, n + sum_list (map snd (sec_regions align ss))) \<and>
    apart l \<and> mset l = mset mid + mset (sec_regions align ss)"
  using assms
proof (induction ss arbitrary: regs mid n)
  case Nil
  then show ?case by (intro exI [of _ mid]) (simp add: sec_regions_def)
next
  case (Cons s ss)
  show ?case
  proof (cases "SizeOfRawData s = 0")
    case True
    then have e: "sec_regions align (s # ss) = sec_regions align ss" by (simp add: sec_regions_def)
    show ?thesis using Cons.IH [OF Cons.prems(1)] Cons.prems(2-5) True unfolding e by (simp add: add_section_def)
  next
    case False
    then have e: "sec_regions align (s # ss) = sec_region align s # sec_regions align ss" by (simp add: sec_regions_def)
    let ?p = "int (unat (PointerToRawData s))" and ?z = "unat (aligned_size align s)"
    have r: "sec_region align s = (?p, ?z)" by (simp add: sec_region_def)
    have "before x (?p, ?z)" if "x \<in> set pre" for x using Cons.prems(4) [OF that] by (simp add: e r)
    then have pre: "fst x + int (snd x) \<le> ?p" if "x \<in> set pre" for x using that by (simp add: before_def)
    have "before x (?p, ?z) \<or> before (?p, ?z) x" if "x \<in> set mid" for x
    proof -
      have "x \<in> set (mid @ sec_regions align (s # ss))" "(?p, ?z) \<in> set (mid @ sec_regions align (s # ss))" using that by (simp_all add: e r)
      moreover have "x \<noteq> (?p, ?z)" using that Cons.prems(5) by (auto simp: scattered_def e r simp del: of_nat_unat)
      ultimately show ?thesis using Cons.prems(5) unfolding scattered_def by blast
    qed
    then have mid: "fst x + int (snd x) \<le> ?p \<or> ?p + int ?z \<le> fst x" if "x \<in> set mid" for x using that by (simp add: before_def)
    have len: "length pre + length mid < max_regions regs" using Cons.prems(2) by (simp add: e)
    have z: "?p \<le> ?p + int ?z" "?p + int ?z - ?p < 2 ^ 32" using unat_u32_lt [of "aligned_size align s"] by (simp_all del: of_nat_unat)
    obtain l where l: "add_region regs ?p (?p + int ?z) = regs\<lparr>reg := pre @ l\<rparr>" "apart l" "mset l = add_mset (?p, ?z) (mset mid)"
      using add_region_fits [OF Cons.prems(1) len Cons.prems(3) z pre mid] by auto
    have step: "add_section align (regs, n) s = (regs\<lparr>reg := pre @ l\<rparr>, n + ?z)"
      using l(1) False by (simp add: add_section_def Let_def)
    have "mset (l @ sec_regions align ss) = mset (mid @ sec_regions align (s # ss))" by (simp add: l(3) e r)
    then have sc: "scattered (l @ sec_regions align ss)"
      using Cons.prems(5) unfolding scattered_def by (metis mset_eq_imp_distinct_iff mset_eq_setD)
    have "size (mset l) = Suc (length mid)" using l(3) by (metis size_add_mset size_mset)
    then have len': "length pre + length l + length (sec_regions align ss) \<le> max_regions (regs\<lparr>reg := pre @ l\<rparr>)"
      using Cons.prems(2) by (simp add: e)
    from Cons.IH [OF _ len' l(2) _ sc, of "n + ?z"] obtain l' where
      "foldl (add_section align) (regs\<lparr>reg := pre @ l\<rparr>, n + ?z) ss =
        (regs\<lparr>reg := pre @ l\<rparr>\<lparr>reg := pre @ l'\<rparr>, n + ?z + sum_list (map snd (sec_regions align ss)))"
      "apart l'" "mset l' = mset l + mset (sec_regions align ss)"
      using Cons.prems(4) by (auto simp: e)
    then show ?thesis by (intro exI [of _ l']) (simp add: step e r l(3))
  qed
qed

section \<open>Regions that leave nothing out\<close>

lemma apart_sum_le:
  assumes "apart rs" "\<And>r. r \<in> set rs \<Longrightarrow> a \<le> fst r \<and> fst r + int (snd r) \<le> b" "a \<le> b"
  shows "a + int (sum_list (map snd rs)) \<le> b"
  using assms
proof (induction rs arbitrary: a)
  case (Cons r rs)
  have "fst r + int (snd r) + int (sum_list (map snd rs)) \<le> b"
  proof (rule Cons.IH)
    show "apart rs" using Cons.prems(1) by (simp add: apart_def)
    show "fst r + int (snd r) \<le> fst x \<and> fst x + int (snd x) \<le> b" if "x \<in> set rs" for x
      using Cons.prems(1) Cons.prems(2) [of x] that by (auto simp: apart_def before_def)
    show "fst r + int (snd r) \<le> b" using Cons.prems(2) by simp
  qed
  then show ?case using Cons.prems(2) [of r] by simp
qed simp

lemma apart_covers:
  assumes "apart rs" "\<And>r. r \<in> set rs \<Longrightarrow> int a \<le> fst r \<and> fst r + int (snd r) \<le> int b" "a + sum_list (map snd rs) = b"
  shows "concat (map (slice efi) rs) = take (b - a) (drop a efi)"
  using assms
proof (induction rs arbitrary: a)
  case (Cons r rs)
  have rest: "fst r + int (snd r) \<le> fst x \<and> fst x + int (snd x) \<le> int b" if "x \<in> set rs" for x
    using Cons.prems(1) Cons.prems(2) [of x] that by (auto simp: apart_def before_def)
  have tl: "apart rs" using Cons.prems(1) by (simp add: apart_def)
  have "fst r + int (snd r) \<le> int b" using Cons.prems(2) by simp
  from apart_sum_le [OF tl rest this] have "fst r \<le> int a" using Cons.prems(3) by simp
  then have a: "fst r = int a" using Cons.prems(2) [of r] by simp
  then have "concat (map (slice efi) rs) = take (b - (a + snd r)) (drop (a + snd r) efi)"
    using Cons.IH [OF tl, of "a + snd r"] rest Cons.prems(3) by simp
  moreover have "b - a = snd r + (b - (a + snd r))" using Cons.prems(3) by simp
  moreover have "slice efi r = take (snd r) (drop a efi)" using a by (simp add: slice_def)
  ultimately show ?case by (simp add: take_add add.commute)
qed simp

section \<open>Well-formed images\<close>

text \<open>
  The numbers of the headers of an image: the place \<open>nt\<close> of the headers, the entry \<open>dir\<close> of the
  certificate table in the data directory, \<open>SizeOfHeaders\<close>, alignment, size of the certificate table
  and the sections.
\<close>

record pe_layout =
  pe_nt :: nat
  pe_dir :: nat
  pe_soh :: u32
  pe_align :: u32
  pe_authsz :: u32
  pe_secs :: "pe_section list"

text \<open>The headers of \<open>efi\<close> read as \<open>L\<close>; \<open>pe_secs L\<close> has all the sections in the order of the file.\<close>

definition pe_reads :: "u8 list \<Rightarrow> pe_layout \<Rightarrow> bool" where
  "pe_reads efi L \<longleftrightarrow>
     rd32 efi 0x3c = Some (of_nat (pe_nt L)) \<and> pe_nt L + 0x40 \<le> length efi \<and>
     rd16 efi (int (pe_nt L) + 6) = Some (of_nat (length (pe_secs L))) \<and> length (pe_secs L) < 2 ^ 16 \<and>
     (\<exists>nrva_at dirs_at nrva.
        (rd16 efi (int (pe_nt L) + 24) = Some 0x20b \<and> nrva_at = 108 \<and> dirs_at = 112 \<or>
         rd16 efi (int (pe_nt L) + 24) = Some 0x10b \<and> nrva_at = 92 \<and> dirs_at = (96 :: nat)) \<and>
        rd32 efi (int (pe_nt L) + 24 + nrva_at) = Some nrva \<and> 4 < unat nrva \<and>
        pe_dir L = pe_nt L + 24 + dirs_at + 32) \<and>
     rd32 efi (int (pe_nt L) + 84) = Some (pe_soh L) \<and> rd32 efi (int (pe_nt L) + 60) = Some (pe_align L) \<and>
     rd32 efi (int (pe_dir L) + 4) = Some (pe_authsz L) \<and>
     (\<exists>oh. rd16 efi (int (pe_nt L) + 20) = Some oh \<and>
        those (map (read_section efi (int (pe_nt L) + 24 + int (unat oh)) (length (pe_secs L))) [0..<length (pe_secs L)]) = Some (pe_secs L))"

text \<open>
  The headers end behind the directory entry, the sections with data lie apart and together fill the
  space behind the headers, and the certificate table fits behind them.
\<close>

definition pe_packed :: "u8 list \<Rightarrow> pe_layout \<Rightarrow> bool" where
  "pe_packed efi L \<longleftrightarrow>
     (let rs = sec_regions (pe_align L) (pe_secs L); stop = unat (pe_soh L) + sum_list (map snd rs) in
      pe_dir L + 8 \<le> unat (pe_soh L) \<and> scattered rs \<and>
      (\<forall>r\<in>set rs. int (unat (pe_soh L)) \<le> fst r \<and> fst r + int (snd r) \<le> int stop) \<and>
      stop + unat (pe_authsz L) \<le> length efi)"

text \<open>What is to be hashed: the image without the checksum, the directory entry of the certificate
  table and the table itself.\<close>

definition authenticode :: "u8 list \<Rightarrow> pe_layout \<Rightarrow> u8 list" where
  "authenticode efi L =
     take (pe_nt L + 88) efi @ take (pe_dir L - (pe_nt L + 92)) (drop (pe_nt L + 92) efi) @
     take (length efi - unat (pe_authsz L) - (pe_dir L + 8)) (drop (pe_dir L + 8) efi)"

lemma header_regions_packed:
  assumes "rd32 efi (int n + 24 + nrva_at) = Some nrva" "4 < unat nrva" "rd32 efi (int n + 84) = Some soh"
    "rd32 efi (int n + 60) = Some align" "rd32 efi (int d + 4) = Some authsz" "d = n + 24 + dirs + 32" "n + 100 \<le> d" "d + 8 \<le> unat soh"
    "3 \<le> max_regions regs" "reg regs = []"
  shows "header_regions efi (int n + 24) nrva_at (int dirs) regs =
    Some (regs\<lparr>reg := [(0, n + 88), (int n + 92, d - (n + 92)), (int d + 8, unat soh - (d + 8))]\<rparr>, soh, align, authsz)"
proof -
  have "unat soh < 4294967296" by (rule unat_u32_lt)
  then have bound: "88 + n < 4294967296" "d - (n + 92) < 4294967296" "unat soh - (d + 8) < 4294967296"
    using assms(7,8) by linarith+
  have d: "int n + 24 + int dirs + 8 * int IMAGE_DIRECTORY_ENTRY_SECURITY = int d"
    using assms(6) by (simp add: IMAGE_DIRECTORY_ENTRY_SECURITY_def)
  have 1: "add_region regs 0 (int n + 24 + 64) = regs\<lparr>reg := [(0, n + 88)]\<rparr>"
    using assms(7-10) bound by (simp add: add_region_def efi_image_region_add_def nat_add_distrib)
  have 2: "add_region (regs\<lparr>reg := [(0, n + 88)]\<rparr>) (int n + 24 + 68) (int d) = regs\<lparr>reg := [(0, n + 88), (int n + 92, d - (n + 92))]\<rparr>"
    using assms(7-10) bound by (simp add: add_region_def efi_image_region_add_def nat_diff_distrib' nat_add_distrib)
  have 3: "add_region (regs\<lparr>reg := [(0, n + 88), (int n + 92, d - (n + 92))]\<rparr>) (int d + 8) (int (unat soh)) =
      regs\<lparr>reg := [(0, n + 88), (int n + 92, d - (n + 92)), (int d + 8, unat soh - (d + 8))]\<rparr>"
    using assms(7-10) bound by (simp add: add_region_def efi_image_region_add_def nat_diff_distrib' nat_add_distrib del: of_nat_unat)
  have at: "int n + 24 + 60 = int n + 84" "int n + 24 + 36 = int n + 60" by simp_all
  show ?thesis
    unfolding header_regions_def Let_def d 1 at assms(1,3,4,5) using assms(2,5) 2 3
    by (simp add: IMAGE_DIRECTORY_ENTRY_SECURITY_def del: of_nat_unat)
qed

lemma sint_small: "n < 2 ^ 31 \<Longrightarrow> sint (of_nat n :: u32) = int n"
  by (simp add: signed_of_nat signed_take_bit_int_eq_self_iff)

lemma section_regions_packed:
  assumes "pe_packed efi L" "mset ss = mset (pe_secs L)" "reg regs = hdr" "length hdr = 3" "max_regions regs = 3 + length (pe_secs L) + 1"
    "\<And>r. r \<in> set hdr \<Longrightarrow> fst r + int (snd r) \<le> int (unat (pe_soh L))" "length efi < 2 ^ 32"
  shows "\<exists>mid. reg (section_regions (length efi) ss (pe_align L) (pe_soh L) (pe_authsz L) regs) = hdr @ mid \<and>
    (\<forall>r\<in>set mid. 0 \<le> fst r \<and> fst r + int (snd r) \<le> int (length efi)) \<and>
    concat (map (slice efi) mid) = take (length efi - unat (pe_authsz L) - unat (pe_soh L)) (drop (unat (pe_soh L)) efi)"
proof -
  let ?rs = "sec_regions (pe_align L) (pe_secs L)" and ?s = "unat (pe_soh L)" and ?a = "unat (pe_authsz L)"
  let ?stop = "?s + sum_list (map snd ?rs)"
  have p: "scattered ?rs" "\<And>r. r \<in> set ?rs \<Longrightarrow> int ?s \<le> fst r \<and> fst r + int (snd r) \<le> int ?stop" "?stop + ?a \<le> length efi"
    using assms(1) by (simp_all add: pe_packed_def Let_def del: of_nat_unat)
  have m: "mset (sec_regions (pe_align L) ss) = mset ?rs" using assms(2) by (simp add: sec_regions_def mset_map mset_filter)
  then have eq: "set (sec_regions (pe_align L) ss) = set ?rs" "length (sec_regions (pe_align L) ss) = length ?rs"
    "sum_list (map snd (sec_regions (pe_align L) ss)) = sum_list (map snd ?rs)"
    by (metis mset_eq_setD, metis mset_eq_length, metis sum_mset_sum_list mset_map)
  have "length ?rs \<le> length (pe_secs L)" by (simp add: sec_regions_def)
  moreover have "scattered (sec_regions (pe_align L) ss)" using p(1) m eq(1) unfolding scattered_def by (metis mset_eq_imp_distinct_iff)
  ultimately obtain mid where mid: "foldl (add_section (pe_align L)) (regs, ?s) ss = (regs\<lparr>reg := hdr @ mid\<rparr>, ?stop)" "apart mid" "mset mid = mset ?rs"
    using add_sections_fit [of regs hdr "[]" "pe_align L" ss ?s] assms(3-6) p(2) eq m by (fastforce simp: apart_def before_def)
  have mid_in: "int ?s \<le> fst r \<and> fst r + int (snd r) \<le> int ?stop" if "r \<in> set mid" for r
    using p(2) mid(3) that by (metis mset_eq_setD)
  have sum: "?s + sum_list (map snd mid) = ?stop" using mid(3) by (metis sum_mset_sum_list mset_map)
  have cov: "concat (map (slice efi) mid) = take (?stop - ?s) (drop ?s efi)" by (rule apart_covers [OF mid(2) mid_in sum])
  show ?thesis
  proof (cases "?stop + ?a < length efi")
    case True
    have "length mid = length ?rs" using mid(3) by (metis size_mset)
    then have len: "length (hdr @ mid) + length ([] :: image_region list) < max_regions (regs\<lparr>reg := hdr @ mid\<rparr>)"
      using assms(4,5) \<open>length ?rs \<le> length (pe_secs L)\<close> by simp
    have le: "int ?stop \<le> int (length efi) - int ?a" "int (length efi) - int ?a - int ?stop < 2 ^ 32"
      using True assms(7) by (simp_all del: of_nat_unat)
    have pre: "fst r + int (snd r) \<le> int ?stop" if "r \<in> set (hdr @ mid)" for r
      using assms(6) [of r] mid_in [of r] that by (auto simp del: of_nat_unat)
    obtain l where l: "add_region (regs\<lparr>reg := hdr @ mid\<rparr>) (int ?stop) (int (length efi) - int ?a) = regs\<lparr>reg := hdr @ mid @ l\<rparr>"
      "mset l = {#(int ?stop, nat (int (length efi) - int ?a - int ?stop))#}"
      using add_region_fits [OF _ len _ le pre] by (auto simp: apart_def simp del: of_nat_unat of_nat_add)
    then have l': "l = [(int ?stop, length efi - ?a - ?stop)]" using True by (simp add: nat_diff_distrib' del: of_nat_unat)
    have "concat (map (slice efi) (mid @ l)) = take (?stop - ?s) (drop ?s efi) @ take (length efi - ?a - ?stop) (drop (?stop - ?s) (drop ?s efi))"
      by (simp add: cov l' slice_def nat_add_distrib add.commute del: of_nat_unat)
    also have "\<dots> = take (?stop - ?s + (length efi - ?a - ?stop)) (drop ?s efi)" by (simp only: take_add)
    also have "?stop - ?s + (length efi - ?a - ?stop) = length efi - ?a - ?s" using True by simp
    finally have "concat (map (slice efi) (mid @ l)) = take (length efi - ?a - ?s) (drop ?s efi)" .
    moreover have "reg (section_regions (length efi) ss (pe_align L) (pe_soh L) (pe_authsz L) regs) = hdr @ mid @ l"
      using True l(1) by (simp add: section_regions_def mid(1) del: of_nat_unat)
    moreover have "\<forall>r\<in>set (mid @ l). 0 \<le> fst r \<and> fst r + int (snd r) \<le> int (length efi)"
      using mid_in p(3) True by (fastforce simp: l' simp del: of_nat_unat)
    ultimately show ?thesis by (intro exI [of _ "mid @ l"]) simp
  next
    case False
    then have "section_regions (length efi) ss (pe_align L) (pe_soh L) (pe_authsz L) regs = regs\<lparr>reg := hdr @ mid\<rparr>"
      by (simp add: section_regions_def mid(1))
    moreover have "?stop = length efi - ?a" using False p(3) by simp
    ultimately show ?thesis using cov mid_in p(3) by (intro exI [of _ mid]) (force simp del: of_nat_unat)
  qed
qed

lemma rd_bytes_slice:
  "0 \<le> d \<Longrightarrow> d + int n \<le> int (length b) \<Longrightarrow> rd_bytes b d n = Some (slice b (d, n))"
  by (auto simp: rd_bytes_def slice_def nat_le_iff)

lemma those_map_Some: "(\<And>x. x \<in> set xs \<Longrightarrow> f x = Some (g x)) \<Longrightarrow> those (map f xs) = Some (map g xs)"
  by (induction xs) auto

lemma efi_image_parse_packed:
  assumes r: "pe_reads efi L" and p: "pe_packed efi L" and len: "0x80 \<le> length efi" "length efi < 2 ^ 31"
    and q: "mset (qsort (pe_secs L)) = mset (pe_secs L)"
  shows "\<exists>regs. efi_image_parse qsort efi = Some (Some regs) \<and>
    (\<forall>r\<in>set (reg regs). 0 \<le> fst r \<and> fst r + int (snd r) \<le> int (length efi)) \<and>
    concat (map (slice efi) (reg regs)) = authenticode efi L"
proof -
  let ?n = "pe_nt L" and ?d = "pe_dir L" and ?s = "unat (pe_soh L)" and ?a = "unat (pe_authsz L)"
  obtain nrva_at dirs nrva oh where h: "rd32 efi 0x3c = Some (of_nat ?n)" "?n + 0x40 \<le> length efi"
    "rd16 efi (int ?n + 6) = Some (of_nat (length (pe_secs L)))" "length (pe_secs L) < 2 ^ 16"
    "rd16 efi (int ?n + 24) = Some 0x20b \<and> nrva_at = 108 \<and> dirs = 112 \<or> rd16 efi (int ?n + 24) = Some 0x10b \<and> nrva_at = 92 \<and> dirs = (96 :: nat)"
    "rd32 efi (int ?n + 24 + nrva_at) = Some nrva" "4 < unat nrva" "?d = ?n + 24 + dirs + 32"
    "rd32 efi (int ?n + 84) = Some (pe_soh L)" "rd32 efi (int ?n + 60) = Some (pe_align L)" "rd32 efi (int ?d + 4) = Some (pe_authsz L)"
    "rd16 efi (int ?n + 20) = Some oh"
    "those (map (read_section efi (int ?n + 24 + int (unat oh)) (length (pe_secs L))) [0..<length (pe_secs L)]) = Some (pe_secs L)"
    using r unfolding pe_reads_def by blast
  have d: "?n + 100 \<le> ?d" "?d + 8 \<le> ?s" "?s + ?a \<le> length efi" using h(5,8) p by (auto simp: pe_packed_def Let_def)
  have n: "sint (of_nat ?n :: u32) = int ?n" "sint (of_nat (length efi) :: u32) = int (length efi)" "unat (of_nat (length (pe_secs L)) :: u16) = length (pe_secs L)"
    using h(2,4) len by (auto intro!: sint_small simp: unat_of_nat)
  let ?regs = "\<lparr>max_regions = 3 + length (pe_secs L) + 1, reg = []\<rparr>"
  let ?hdr = "[(0, ?n + 88), (int ?n + 92, ?d - (?n + 92)), (int ?d + 8, ?s - (?d + 8))]"
  have hr: "header_regions efi (int ?n + 24) nrva_at (int dirs) ?regs = Some (?regs\<lparr>reg := ?hdr\<rparr>, pe_soh L, pe_align L, pe_authsz L)"
    by (rule header_regions_packed [OF h(6,7,9,10,11,8) d(1,2)]) simp_all
  obtain mid where mid: "reg (section_regions (length efi) (qsort (pe_secs L)) (pe_align L) (pe_soh L) (pe_authsz L) (?regs\<lparr>reg := ?hdr\<rparr>)) = ?hdr @ mid"
    "\<forall>r\<in>set mid. 0 \<le> fst r \<and> fst r + int (snd r) \<le> int (length efi)"
    "concat (map (slice efi) mid) = take (length efi - ?a - ?s) (drop ?s efi)"
    using section_regions_packed [OF p q, of "?regs\<lparr>reg := ?hdr\<rparr>" ?hdr] d len(2) by (force simp del: of_nat_unat)
  have parse: "efi_image_parse qsort efi = Some (Some (section_regions (length efi) (qsort (pe_secs L)) (pe_align L) (pe_soh L) (pe_authsz L) (?regs\<lparr>reg := ?hdr\<rparr>)))"
    using h(5)
  proof (elim disjE conjE)
    assume "rd16 efi (int ?n + 24) = Some 0x20b" "nrva_at = 108" "dirs = 112"
    then show ?thesis using h(1-3,12,13) hr n len by (simp add: efi_image_parse_def Let_def del: of_nat_unat of_nat_add)
  next
    assume "rd16 efi (int ?n + 24) = Some 0x10b" "nrva_at = 92" "dirs = 96"
    then show ?thesis using h(1-3,12,13) hr n len by (simp add: efi_image_parse_def Let_def del: of_nat_unat of_nat_add)
  qed
  have "slice efi (int ?d + 8, ?s - (?d + 8)) @ take (length efi - ?a - ?s) (drop ?s efi) =
      take (?s - (?d + 8)) (drop (?d + 8) efi) @ take (length efi - ?a - ?s) (drop (?s - (?d + 8)) (drop (?d + 8) efi))"
    using d(2) by (simp add: slice_def nat_add_distrib)
  also have "\<dots> = take (?s - (?d + 8) + (length efi - ?a - ?s)) (drop (?d + 8) efi)" by (simp only: take_add)
  also have "?s - (?d + 8) + (length efi - ?a - ?s) = length efi - ?a - (?d + 8)" using d(2,3) by simp
  finally have "concat (map (slice efi) (?hdr @ mid)) = authenticode efi L"
    using mid(3) by (simp add: authenticode_def) (simp add: slice_def nat_add_distrib)
  moreover have "\<forall>r\<in>set (?hdr @ mid). 0 \<le> fst r \<and> fst r + int (snd r) \<le> int (length efi)"
    using mid(2) d by (auto simp del: of_nat_unat)
  ultimately show ?thesis using parse mid(1) by auto
qed

lemma PE256Buffer_digest:
  assumes "pe_reads efi L" "pe_packed efi L" "1024 \<le> length efi" "length efi \<le> 64 * 1024 * 1024"
    and "\<And>xs. mset (qsort xs) = mset xs"
  shows "PE256Buffer qsort (Some efi) False = Some (Some (SHA256 (authenticode efi L)))"
proof -
  obtain regs where regs: "efi_image_parse qsort efi = Some (Some regs)"
    "\<And>r. r \<in> set (reg regs) \<Longrightarrow> 0 \<le> fst r \<and> fst r + int (snd r) \<le> int (length efi)"
    "concat (map (slice efi) (reg regs)) = authenticode efi L"
    using efi_image_parse_packed [where qsort = qsort, OF assms(1,2)] assms(3-5) by auto
  have "those (map (\<lambda>(data, sz). rd_bytes efi data sz) (reg regs)) = Some (map (slice efi) (reg regs))"
    by (rule those_map_Some) (use regs(2) rd_bytes_slice in force)
  moreover have "length (concat (map (slice efi) (reg regs))) < 2 ^ 64"
  proof -
    have "length (authenticode efi L) \<le> 3 * length efi" by (simp add: authenticode_def)
    then show ?thesis using assms(4) regs(3) by simp
  qed
  from sha256.digest_of_pieces [OF this] obtain ctx where
    "sha256_final (foldl sha256_write sha256_init (map (slice efi) (reg regs))) = Some ctx"
    "take SHA256_HASHSIZE (buf ctx) = SHA256 (authenticode efi L)" unfolding regs(3) by blast
  ultimately show ?thesis using regs(1) assms(3,4) by (simp add: PE256Buffer_def)
qed

text \<open>C39. For an image whose headers are in bounds and whose sections are packed behind them, in whatever
  order, \<open>PE256Buffer\<close> reads only the image and gives the SHA-256 of the image without its checksum,
  the directory entry of the certificate table and the table: the Authenticode digest.\<close>

theorem PE256Buffer_authenticode:
  assumes "pe_reads efi L" "pe_packed efi L" "1024 \<le> length efi" "length efi \<le> 64 * 1024 * 1024"
    and "\<And>xs. mset (qsort xs) = mset xs"
  shows "PE256Buffer qsort (Some efi) False = Some (Some (SHA256 (authenticode efi L)))"
  using assms by (rule PE256Buffer_digest)

text \<open>A small 64-bit image with two sections out of order, the second of them an SBAT section with the row \<open>shim,2,x\<close>, and a
  certificate of 128 bytes at its end.\<close>

definition sample_bytes :: "(nat \<times> u8) list" where
  "sample_bytes =
     ([(0, 0x4d), (1, 0x5a), (0x80, 0x50), (0x81, 0x45), (0x82, 0), (0x83, 0), (0x84, 0x64), (0x85, 0x86)] @
      [(0x128, 0x80), (0x129, 3), (0x12a, 0), (0x12b, 0), (0x380, 0x80), (0x381, 0), (0x382, 0), (0x383, 0), (0x386, 2), (0x387, 0)] @
      [(0x1b0, 0x2e), (0x1b1, 0x73), (0x1b2, 0x62), (0x1b3, 0x61), (0x1b4, 0x74), (0x1b5, 0), (0x1b6, 0), (0x1b7, 0)] @
      [(0x200, 0x73), (0x201, 0x68), (0x202, 0x69), (0x203, 0x6d), (0x204, 0x2c), (0x205, 0x32), (0x206, 0x2c), (0x207, 0x78), (0x208, 0x0a), (0x209, 0)] @
      [(0x3c, 0x80), (0x3d, 0), (0x3e, 0), (0x3f, 0), (0x86, 2), (0x87, 0), (0x94, 0xf0), (0x95, 0), (0x98, 0x0b), (0x99, 0x02)] @
      [(0xbc, 0x10), (0xbd, 0), (0xbe, 0), (0xbf, 0), (0xd4, 0), (0xd5, 2), (0xd6, 0), (0xd7, 0)] @
      [(0x104, 16), (0x105, 0), (0x106, 0), (0x107, 0), (0x12c, 0x80), (0x12d, 0), (0x12e, 0), (0x12f, 0)] @
      [(0x194, 0), (0x195, 0x20), (0x196, 0), (0x197, 0), (0x198, 0x80), (0x199, 0), (0x19a, 0), (0x19b, 0), (0x19c, 0x80), (0x19d, 2), (0x19e, 0), (0x19f, 0)] @
      [(0x1bc, 0), (0x1bd, 0x10), (0x1be, 0), (0x1bf, 0), (0x1c0, 0x80), (0x1c1, 0), (0x1c2, 0), (0x1c3, 0), (0x1c4, 0), (0x1c5, 2), (0x1c6, 0), (0x1c7, 0)])"

definition sample_image :: "u8 list" where
  "sample_image = map (\<lambda>i. case map_of sample_bytes i of None \<Rightarrow> 0x41 | Some v \<Rightarrow> v) [0..<1024]"

definition sample_layout :: pe_layout where
  "sample_layout = \<lparr>pe_nt = 0x80, pe_dir = 0x128, pe_soh = 0x200, pe_align = 0x10, pe_authsz = 0x80,
     pe_secs = [\<lparr>VirtualAddress = 0x2000, SizeOfRawData = 0x80, PointerToRawData = 0x280\<rparr>,
       \<lparr>VirtualAddress = 0x1000, SizeOfRawData = 0x80, PointerToRawData = 0x200\<rparr>]\<rparr>"

lemma length_sample: "length sample_image = 1024"
  by (simp add: sample_image_def)

lemma rd32_nth:
  "i + 4 \<le> length b \<Longrightarrow> rd32 b (int i) = Some (le32_join (b ! i) (b ! (i + 1)) (b ! (i + 2)) (b ! (i + 3)))"
  by (simp add: rd32_def rd_bytes_def)

lemma rd16_nth:
  "i + 2 \<le> length b \<Longrightarrow> rd16 b (int i) = Some (ucast (b ! i) OR push_bit 8 (ucast (b ! (i + 1))))"
  by (simp add: rd16_def rd_bytes_def)

lemma sample_nth: "i < 1024 \<Longrightarrow> sample_image ! i = (case map_of sample_bytes i of None \<Rightarrow> 0x41 | Some v \<Rightarrow> v)"
  by (simp add: sample_image_def)

lemma sample_fields:
  "rd32 sample_image 0x3c = Some 0x80"
  "rd16 sample_image 0x86 = Some 2"
  "rd16 sample_image 0x98 = Some 0x20b"
  "rd32 sample_image 0x104 = Some 16"
  "rd32 sample_image 0xd4 = Some 0x200"
  "rd32 sample_image 0xbc = Some 0x10"
  "rd32 sample_image 0x12c = Some 0x80"
  "rd16 sample_image 0x94 = Some 0xf0"
  "rd32 sample_image 0x194 = Some 0x2000"
  "rd32 sample_image 0x198 = Some 0x80"
  "rd32 sample_image 0x19c = Some 0x280"
  "rd32 sample_image 0x1bc = Some 0x1000"
  "rd32 sample_image 0x1c0 = Some 0x80"
  "rd32 sample_image 0x1c4 = Some 0x200"
proof -
  show "rd32 sample_image 0x3c = Some 0x80" using rd32_nth [of "0x3c" sample_image] by (simp add: length_sample sample_nth) (simp add: sample_bytes_def le32_join_def)
  show "rd16 sample_image 0x86 = Some 2" using rd16_nth [of "0x86" sample_image] by (simp add: length_sample sample_nth) (simp add: sample_bytes_def le32_join_def)
  show "rd16 sample_image 0x98 = Some 0x20b" using rd16_nth [of "0x98" sample_image] by (simp add: length_sample sample_nth) (simp add: sample_bytes_def le32_join_def)
  show "rd32 sample_image 0x104 = Some 16" using rd32_nth [of "0x104" sample_image] by (simp add: length_sample sample_nth) (simp add: sample_bytes_def le32_join_def)
  show "rd32 sample_image 0xd4 = Some 0x200" using rd32_nth [of "0xd4" sample_image] by (simp add: length_sample sample_nth) (simp add: sample_bytes_def le32_join_def)
  show "rd32 sample_image 0xbc = Some 0x10" using rd32_nth [of "0xbc" sample_image] by (simp add: length_sample sample_nth) (simp add: sample_bytes_def le32_join_def)
  show "rd32 sample_image 0x12c = Some 0x80" using rd32_nth [of "0x12c" sample_image] by (simp add: length_sample sample_nth) (simp add: sample_bytes_def le32_join_def)
  show "rd16 sample_image 0x94 = Some 0xf0" using rd16_nth [of "0x94" sample_image] by (simp add: length_sample sample_nth) (simp add: sample_bytes_def le32_join_def)
  show "rd32 sample_image 0x194 = Some 0x2000" using rd32_nth [of "0x194" sample_image] by (simp add: length_sample sample_nth) (simp add: sample_bytes_def le32_join_def)
  show "rd32 sample_image 0x198 = Some 0x80" using rd32_nth [of "0x198" sample_image] by (simp add: length_sample sample_nth) (simp add: sample_bytes_def le32_join_def)
  show "rd32 sample_image 0x19c = Some 0x280" using rd32_nth [of "0x19c" sample_image] by (simp add: length_sample sample_nth) (simp add: sample_bytes_def le32_join_def)
  show "rd32 sample_image 0x1bc = Some 0x1000" using rd32_nth [of "0x1bc" sample_image] by (simp add: length_sample sample_nth) (simp add: sample_bytes_def le32_join_def)
  show "rd32 sample_image 0x1c0 = Some 0x80" using rd32_nth [of "0x1c0" sample_image] by (simp add: length_sample sample_nth) (simp add: sample_bytes_def le32_join_def)
  show "rd32 sample_image 0x1c4 = Some 0x200" using rd32_nth [of "0x1c4" sample_image] by (simp add: length_sample sample_nth) (simp add: sample_bytes_def le32_join_def)
qed

lemma sample_reads: "pe_reads sample_image sample_layout"
  unfolding pe_reads_def by (simp add: sample_layout_def sample_fields length_sample read_section_def)

lemma sample_packed: "pe_packed sample_image sample_layout"
  by (simp add: pe_packed_def sample_layout_def length_sample sec_regions_def sec_region_def aligned_size_def scattered_def before_def Let_def)

theorem PE256Buffer_authenticode_witness:
  "PE256Buffer (sort_key (unat \<circ> VirtualAddress)) (Some sample_image) False = Some (Some (SHA256 (authenticode sample_image sample_layout)))"
  by (rule PE256Buffer_authenticode [OF sample_reads sample_packed]) (simp_all add: length_sample)

theorem image_regions_disjoint_witness:
  "\<exists>regs. efi_image_parse (sort_key (unat \<circ> VirtualAddress)) sample_image = Some (Some regs) \<and>
     sorted_wrt (\<lambda>(a, n) (b, m). a + int n \<le> b) (reg regs)"
proof -
  obtain regs where r: "efi_image_parse (sort_key (unat \<circ> VirtualAddress)) sample_image = Some (Some regs)"
    using efi_image_parse_packed [OF sample_reads sample_packed, of "sort_key (unat \<circ> VirtualAddress)"] by (auto simp: length_sample)
  then show ?thesis using image_regions_disjoint [OF r] by blast
qed

text \<open>The header offset of the file is a signed number and only compared with an upper bound: an image
  with a negative offset makes the parser read before the start of the buffer.\<close>

theorem negative_header_offset_over_read:
  assumes "length efi \<ge> 0x80" "length efi < 2 ^ 31" "rd32 efi 0x3c = Some e" "sint e < -6"
  shows "efi_image_parse qsort efi = None"
proof -
  have "sint (of_nat (length efi) :: u32) = int (length efi)" using assms(2) by (rule sint_small)
  moreover have "rd16 efi (sint e + 6) = None" using assms(4) by (simp add: rd16_def rd_bytes_def)
  ultimately show ?thesis using assms by (simp add: efi_image_parse_def)
qed

theorem negative_header_offset_over_read_witness:
  "efi_image_parse id (replicate 0x80 0x80) = None"
proof (rule negative_header_offset_over_read)
  show "rd32 (replicate 0x80 0x80) 0x3c = Some 0x80808080" by (simp add: rd32_def rd_bytes_def le32_join_def)
qed simp_all

end
