(* ===== verification/Pe_Parse.thy ===== *)
theory Pe_Parse
  imports Pe_Image
begin

text \<open>
  The PE functions of \<open>src/src/parser.c\<close> and \<open>MachineToArch\<close> of \<open>src/src/rufus.c\<close>: architecture, sections,
  addresses, resources and the place of the signature of an executable in a buffer.

  A pointer into the buffer is its offset; the header offset of the file is signed, so offsets are integers. \<open>None\<close> is
  a read outside of the buffer and \<open>Some None\<close> the result NULL. The buffer itself can be NULL.
\<close>

section \<open>Headers\<close>

definition IMAGE_DOS_SIGNATURE :: u16 where "IMAGE_DOS_SIGNATURE = 0x5a4d"
definition IMAGE_NT_SIGNATURE :: u32 where "IMAGE_NT_SIGNATURE = 0x4550"
definition IMAGE_FILE_MACHINE_UNKNOWN :: u16 where "IMAGE_FILE_MACHINE_UNKNOWN = 0"
definition IMAGE_FILE_MACHINE_I386 :: u16 where "IMAGE_FILE_MACHINE_I386 = 0x14c"
definition IMAGE_FILE_MACHINE_ARM :: u16 where "IMAGE_FILE_MACHINE_ARM = 0x1c0"

text \<open>The tests every function starts with: the offset of the NT headers, or NULL.\<close>

definition nt_headers :: "u8 list option \<Rightarrow> int option option" where
  "nt_headers bufp =
     (case bufp of
        None \<Rightarrow> Some None
      | Some b \<Rightarrow> do {
          e_magic \<leftarrow> rd16 b 0;
          if e_magic \<noteq> IMAGE_DOS_SIGNATURE then Some None
          else do {
            e_lfanew \<leftarrow> rd32 b 0x3c;
            Signature \<leftarrow> rd32 b (sint e_lfanew);
            Some (if Signature \<noteq> IMAGE_NT_SIGNATURE then None else Some (sint e_lfanew)) } })"

definition GetPeArch :: "u8 list option \<Rightarrow> u16 option" where
  "GetPeArch bufp = do {
     nt \<leftarrow> nt_headers bufp;
     case nt of
       None \<Rightarrow> Some IMAGE_FILE_MACHINE_UNKNOWN
     | Some nt \<Rightarrow> rd16 (the bufp) (nt + 4) }"

datatype ArchType = ARCH_UNKNOWN | ARCH_X86_32 | ARCH_X86_64 | ARCH_ARM_32 | ARCH_ARM_64 | ARCH_IA_64 |
  ARCH_RISCV_64 | ARCH_LOONGARCH_64 | ARCH_EBC

fun arch_number :: "ArchType \<Rightarrow> nat" where
  "arch_number ARCH_UNKNOWN = 0"
| "arch_number ARCH_X86_32 = 1"
| "arch_number ARCH_X86_64 = 2"
| "arch_number ARCH_ARM_32 = 3"
| "arch_number ARCH_ARM_64 = 4"
| "arch_number ARCH_IA_64 = 5"
| "arch_number ARCH_RISCV_64 = 6"
| "arch_number ARCH_LOONGARCH_64 = 7"
| "arch_number ARCH_EBC = 8"

definition MachineToArch :: "u16 \<Rightarrow> ArchType" where
  "MachineToArch machine =
     (if machine = 0x14c then ARCH_X86_32
      else if machine = 0x8664 then ARCH_X86_64
      else if machine = 0x1c0 then ARCH_ARM_32
      else if machine = 0xaa64 then ARCH_ARM_64
      else if machine = 0x200 then ARCH_IA_64
      else if machine = 0x5064 then ARCH_RISCV_64
      else if machine = 0x6264 then ARCH_LOONGARCH_64
      else if machine = 0xebc then ARCH_EBC
      else ARCH_UNKNOWN)"

text \<open>Machines whose headers are read as 32-bit ones.\<close>

definition pe_32 :: "u16 \<Rightarrow> bool" where
  "pe_32 machine \<longleftrightarrow> machine = IMAGE_FILE_MACHINE_I386 \<or> machine = IMAGE_FILE_MACHINE_ARM"

text \<open>The offset of the section headers (behind \<open>IMAGE_NT_HEADERS32\<close> or \<open>IMAGE_NT_HEADERS64\<close>) and their number.\<close>

definition section_headers :: "u8 list \<Rightarrow> int \<Rightarrow> (int \<times> nat) option" where
  "section_headers b nt = do {
     Machine \<leftarrow> rd16 b (nt + 4);
     NumberOfSections \<leftarrow> rd16 b (nt + 6);
     Some (nt + (if pe_32 Machine then 248 else 264), unat NumberOfSections) }"

text \<open>The entry of a data directory: address and size.\<close>

definition data_directory :: "u8 list \<Rightarrow> int \<Rightarrow> nat \<Rightarrow> (u32 \<times> u32) option" where
  "data_directory b nt k = do {
     Machine \<leftarrow> rd16 b (nt + 4);
     let dir = nt + 24 + (if pe_32 Machine then 96 else 112) + 8 * int k;
     va \<leftarrow> rd32 b dir;
     sz \<leftarrow> rd32 b (dir + 4);
     Some (va, sz) }"

section \<open>Sections\<close>

text \<open>\<open>section_name\<close> after \<open>static_strcpy\<close>: at most seven characters, padded with zeros.\<close>

definition section_name :: "u8 list \<Rightarrow> u8 list" where
  "section_name name = take 8 (take 7 name @ replicate 8 0)"

fun find_section :: "u8 list \<Rightarrow> int \<Rightarrow> u8 list \<Rightarrow> nat \<Rightarrow> nat \<Rightarrow> (int \<times> u32) option option" where
  "find_section b sh nm i 0 = Some None"
| "find_section b sh nm i (Suc n) = do {
     Name \<leftarrow> rd_bytes b (sh + 40 * int i) 8;
     if Name = nm then do {
       len \<leftarrow> rd32 b (sh + 16);
       PointerToRawData \<leftarrow> rd32 b (sh + 40 * int i + 20);
       Some (Some (int (unat PointerToRawData), len)) }
     else find_section b sh nm (Suc i) n }"

text \<open>The result has the address and, for callers that ask for it, the stored length.\<close>

definition GetPeSection :: "u8 list option \<Rightarrow> u8 list option \<Rightarrow> (int \<times> u32) option option" where
  "GetPeSection bufp namep =
     (case namep of
        None \<Rightarrow> None
      | Some name \<Rightarrow> do {
          nt \<leftarrow> nt_headers bufp;
          case nt of
            None \<Rightarrow> Some None
          | Some nt \<Rightarrow> do {
              (sh, nb_sections) \<leftarrow> section_headers (the bufp) nt;
              find_section (the bufp) sh (section_name name) 0 nb_sections } })"

text \<open>The section an address lies in; the sum of its fields wraps.\<close>

fun rva_section :: "u8 list \<Rightarrow> int \<Rightarrow> u32 \<Rightarrow> nat \<Rightarrow> nat \<Rightarrow> u32 option option" where
  "rva_section b sh rva i 0 = Some None"
| "rva_section b sh rva i (Suc n) = do {
     va \<leftarrow> rd32 b (sh + 40 * int i + 12);
     vsize \<leftarrow> rd32 b (sh + 40 * int i + 8);
     if va \<le> rva \<and> rva < va + vsize then do {
       ptr \<leftarrow> rd32 b (sh + 40 * int i + 20);
       Some (Some (ptr + (rva - va))) }
     else rva_section b sh rva (Suc i) n }"

definition RvaToPhysical :: "u8 list option \<Rightarrow> u32 \<Rightarrow> u32 option option" where
  "RvaToPhysical bufp rva = do {
     nt \<leftarrow> nt_headers bufp;
     case nt of
       None \<Rightarrow> Some None
     | Some nt \<Rightarrow> do {
         (sh, nb_sections) \<leftarrow> section_headers (the bufp) nt;
         rva_section (the bufp) sh rva 0 nb_sections } }"

section \<open>Resources\<close>

definition wide_bytes :: "u16 list \<Rightarrow> u8 list" where
  "wide_bytes w = concat (map (\<lambda>c. [ucast c, ucast (drop_bit 8 c)]) w)"

text \<open>
  Whether the name of an entry is taken for \<open>name\<close>: the lengths agree and the first \<open>wcslen (name)\<close> bytes do.
\<close>

definition resource_named :: "u16 list \<Rightarrow> u8 list \<Rightarrow> int \<Rightarrow> u32 \<Rightarrow> bool option" where
  "resource_named name b root first = do {
     let dir_string = root + int (unat (first AND 0x7fffffff));
     Length \<leftarrow> rd16 b dir_string;
     if unat Length \<noteq> length name then Some False
     else do {
       NameString \<leftarrow> rd_bytes b (dir_string + 2) (length name);
       Some (take (length name) (wide_bytes name) = NameString) } }"

text \<open>
  What the search does with entry \<open>i\<close> of the directory at \<open>dir\<close>, where \<open>found\<close> is the static flag
  \<open>FoundResourceRva\<close>: there is no such entry, pass over it, return its data (address and size), or search the
  subdirectory it names, with the new flag. A search in the root clears the flag.
\<close>

datatype resource_action = Res_End | Res_Next | Res_Data u32 u32 | Res_Directory int bool

definition resource_entry :: "u16 list \<Rightarrow> u8 list \<Rightarrow> int \<Rightarrow> int \<Rightarrow> nat \<Rightarrow> bool \<Rightarrow> resource_action option" where
  "resource_entry name b root dir i found = do {
     named \<leftarrow> rd16 b (dir + 12);
     ids \<leftarrow> rd16 b (dir + 14);
     if i \<ge> unat named + unat ids then Some Res_End
     else do {
       let dir_entry = dir + 16 + 8 * int i;
       ok \<leftarrow> (if \<not> found \<and> i < unat named
              then do { NameOffset \<leftarrow> rd32 b dir_entry; resource_named name b root NameOffset }
              else Some True);
       if \<not> ok then Some Res_Next
       else do {
         let found = (found \<or> i < unat named);
         OffsetToData \<leftarrow> rd32 b (dir_entry + 4);
         if bit OffsetToData 31 then do {
           let child = root + int (unat (OffsetToData AND 0x7fffffff));
           Some (Res_Directory child (found \<and> child \<noteq> root)) }
         else if found then do {
           let data_entry = root + int (unat OffsetToData);
           Size \<leftarrow> rd32 b (data_entry + 4);
           rva \<leftarrow> rd32 b data_entry;
           Some (Res_Data rva Size) }
         else Some Res_Next } } }"

text \<open>
  The search from entry \<open>i\<close> on; the result has the address, the flag and the stored length. Nothing bounds its depth:
  \<open>None\<close> is a search that never returns, \<open>Some None\<close> a read outside of the buffer.
\<close>

partial_function (option) resource_search ::
    "u16 list \<Rightarrow> u8 list \<Rightarrow> int \<Rightarrow> int \<Rightarrow> nat \<Rightarrow> bool \<Rightarrow> u32 \<Rightarrow> (u32 \<times> bool \<times> u32) option option" where
  "resource_search name b root dir i found len =
     (case resource_entry name b root dir i found of
        None \<Rightarrow> Some None
      | Some a \<Rightarrow>
          (case a of
             Res_End \<Rightarrow> Some (Some (0, found, len))
           | Res_Next \<Rightarrow> resource_search name b root dir (Suc i) found len
           | Res_Data rva Size \<Rightarrow> Some (Some (rva, True, Size))
           | Res_Directory child found' \<Rightarrow>
               Option.bind (resource_search name b root child 0 found' len)
                 (\<lambda>r. case r of
                    None \<Rightarrow> Some None
                  | Some p \<Rightarrow>
                      if fst p \<noteq> 0 then Some (Some p)
                      else resource_search name b root dir (Suc i) (fst (snd p)) (snd (snd p)))))"

text \<open>The call from the root, where the flag is cleared.\<close>

definition FindResourceRva :: "u16 list \<Rightarrow> u8 list \<Rightarrow> int option \<Rightarrow> u32 \<Rightarrow> (u32 \<times> bool \<times> u32) option option" where
  "FindResourceRva name b root len =
     (case root of None \<Rightarrow> Some (Some (0, False, len)) | Some root \<Rightarrow> resource_search name b root root 0 False len)"

section \<open>The signature\<close>

definition WIN_CERT_TYPE_PKCS_SIGNED_DATA :: u16 where "WIN_CERT_TYPE_PKCS_SIGNED_DATA = 2"

definition GetPeSignatureData :: "u8 list option \<Rightarrow> int option option" where
  "GetPeSignatureData bufp = do {
     nt \<leftarrow> nt_headers bufp;
     case nt of
       None \<Rightarrow> Some None
     | Some nt \<Rightarrow> do {
         (va, sz) \<leftarrow> data_directory (the bufp) nt IMAGE_DIRECTORY_ENTRY_SECURITY;
         if va = 0 \<or> sz = 0 then Some None
         else do {
           let cert = int (unat va);
           dwLength \<leftarrow> rd32 (the bufp) cert;
           if dwLength = 0 then Some None
           else do {
             wCertificateType \<leftarrow> rd16 (the bufp) (cert + 6);
             Some (if wCertificateType \<noteq> WIN_CERT_TYPE_PKCS_SIGNED_DATA then None else Some cert) } } } }"

section \<open>Termination of the resource search\<close>

text \<open>One step of the search, by what it does with the entry.\<close>

lemma resource_search_steps:
  "resource_entry name b root dir i found = None \<Longrightarrow> resource_search name b root dir i found len = Some None"
  "resource_entry name b root dir i found = Some Res_End \<Longrightarrow> resource_search name b root dir i found len = Some (Some (0, found, len))"
  "resource_entry name b root dir i found = Some Res_Next \<Longrightarrow>
     resource_search name b root dir i found len = resource_search name b root dir (Suc i) found len"
  "resource_entry name b root dir i found = Some (Res_Data rva sz) \<Longrightarrow>
     resource_search name b root dir i found len = Some (Some (rva, True, sz))"
  by (subst resource_search.simps, simp)+

text \<open>The number of entries of a directory.\<close>

definition entry_total :: "u8 list \<Rightarrow> int \<Rightarrow> nat" where
  "entry_total b dir = (case (rd16 b (dir + 12), rd16 b (dir + 14)) of (Some n, Some m) \<Rightarrow> unat n + unat m | _ \<Rightarrow> 0)"

lemma resource_entry_in: "resource_entry name b root dir i found = Some a \<Longrightarrow> a \<noteq> Res_End \<Longrightarrow> i < entry_total b dir"
  by (auto simp: resource_entry_def entry_total_def bind_eq_Some_conv split: if_splits)

text \<open>A directory names another in one of its entries; the directories of a search are those reachable from the root.\<close>

definition resource_child :: "u8 list \<Rightarrow> int \<Rightarrow> int \<Rightarrow> int \<Rightarrow> bool" where
  "resource_child b root dir child \<longleftrightarrow>
     (\<exists>name i found found'. resource_entry name b root dir i found = Some (Res_Directory child found'))"

definition searched_children :: "u8 list \<Rightarrow> int \<Rightarrow> (int \<times> int) set" where
  "searched_children b root = {(c, d). (resource_child b root)\<^sup>*\<^sup>* root d \<and> resource_child b root d c}"

lemma resource_child_offset: "resource_child b root d c \<Longrightarrow> c \<in> {root..root + 2 ^ 32}"
proof -
  assume "resource_child b root d c"
  then obtain w :: u32 where "c = root + int (unat w)"
    by (auto simp: resource_child_def resource_entry_def Let_def bind_eq_Some_conv split: if_splits)
  moreover have "int (unat w) < 4294967296" using unat_u32_lt [of w] by linarith
  ultimately show ?thesis by simp
qed

lemma wf_searched_children:
  assumes "\<not> (\<exists>d. (resource_child b root)\<^sup>*\<^sup>* root d \<and> (resource_child b root)\<^sup>+\<^sup>+ d d)"
  shows "wf (searched_children b root)"
proof (rule finite_acyclic_wf)
  have "d \<in> {root..root + 2 ^ 32}" if "(resource_child b root)\<^sup>*\<^sup>* root d" for d
    using that by (cases rule: rtranclp.cases) (auto dest: resource_child_offset)
  then have "searched_children b root \<subseteq> {root..root + 2 ^ 32} \<times> {root..root + 2 ^ 32}"
    by (auto simp: searched_children_def dest!: resource_child_offset)
  then show "finite (searched_children b root)" by (rule finite_subset) simp
  have "(resource_child b root)\<^sup>*\<^sup>* root d \<and> (resource_child b root)\<^sup>+\<^sup>+ d c" if "(c, d) \<in> (searched_children b root)\<^sup>+" for c d
    using that by induction (auto simp: searched_children_def intro: tranclp_into_tranclp2)
  then show "acyclic (searched_children b root)" using assms by (auto simp: acyclic_def)
qed

lemma resource_search_acyclic:
  assumes acyclic: "\<not> (\<exists>d. (resource_child b root)\<^sup>*\<^sup>* root d \<and> (resource_child b root)\<^sup>+\<^sup>+ d d)"
    and "(resource_child b root)\<^sup>*\<^sup>* root dir"
  shows "\<exists>r. resource_search name b root dir i found len = Some r"
  using assms(2)
proof (induction "(dir, entry_total b dir - i)" arbitrary: dir i found len
    rule: wf_induct_rule [OF wf_lex_prod [OF wf_searched_children [OF acyclic] wf_less_than]])
  case 1
  have later: "\<exists>r. resource_search name b root dir (Suc i) f l = Some r" if "i < entry_total b dir" for f l
    using that by (intro "1.hyps" "1.prems") (auto simp: in_lex_prod)
  show ?case
  proof (cases "resource_entry name b root dir i found")
    case None
    then show ?thesis by (simp add: resource_search_steps(1))
  next
    case (Some a)
    note inside = resource_entry_in [OF Some]
    show ?thesis
    proof (cases a)
      case (Res_Directory child found')
      then have c: "resource_child b root dir child" using Some by (auto simp: resource_child_def)
      with "1.prems" have "(child, dir) \<in> searched_children b root" by (simp add: searched_children_def)
      then have "\<exists>r. resource_search name b root child 0 found' len = Some r"
        using "1.prems" c by (intro "1.hyps") (auto simp: in_lex_prod)
      then show ?thesis using later inside Res_Directory Some
        by (subst resource_search.simps) (auto split: option.splits)
    qed (use Some later inside in \<open>auto simp: resource_search_steps\<close>)
  qed
qed

text \<open>C33. The search for a resource returns, whatever is looked for, on every image in which no resource directory that can
  be reached from the root contains itself, directly or through its subdirectories.\<close>

theorem resource_search_returns:
  assumes "\<not> (\<exists>d. (resource_child b root)\<^sup>*\<^sup>* root d \<and> (resource_child b root)\<^sup>+\<^sup>+ d d)"
  shows "\<exists>r. FindResourceRva name b (Some root) len = Some r"
  using resource_search_acyclic [OF assms rtranclp.rtrancl_refl] by (simp add: FindResourceRva_def)

text \<open>A root directory with one named entry, a subdirectory without entries.\<close>

definition resource_sample :: "u8 list" where
  "resource_sample = replicate 12 0 @ [1, 0, 0, 0] @ [40, 0, 0, 0, 24, 0, 0, 0x80] @ replicate 16 0 @ [1, 0, 0x41, 0]"

lemma sample_children:
  "resource_child resource_sample 0 0 c \<Longrightarrow> c = 24" "\<not> resource_child resource_sample 0 24 c"
proof -
  have r: "rd16 resource_sample 12 = Some 1" "rd16 resource_sample 14 = Some 0" "rd32 resource_sample 20 = Some 0x80000018"
    "rd16 resource_sample 36 = Some 0" "rd16 resource_sample 38 = Some 0"
    by code_simp+
  show "resource_child resource_sample 0 0 c \<Longrightarrow> c = 24"
    by (auto simp: resource_child_def resource_entry_def r Let_def Suc_le_eq bind_eq_Some_conv split: if_splits)
  show "\<not> resource_child resource_sample 0 24 c"
    by (auto simp: resource_child_def resource_entry_def r Let_def bind_eq_Some_conv split: if_splits)
qed

theorem resource_search_returns_witness:
  "\<not> (\<exists>d. (resource_child resource_sample 0)\<^sup>*\<^sup>* 0 d \<and> (resource_child resource_sample 0)\<^sup>+\<^sup>+ d d) \<and>
   (\<exists>r. FindResourceRva [0x41] resource_sample (Some 0) 0 = Some r)"
proof -
  have reach: "d = 0 \<or> d = 24" if "(resource_child resource_sample 0)\<^sup>*\<^sup>* 0 d" for d
    using that by induction (auto simp: sample_children(2) dest: sample_children(1))
  have "d = 0 \<and> c = 24" if "(resource_child resource_sample 0)\<^sup>+\<^sup>+ d c" "d = 0 \<or> d = 24" for d c
    using that by induction (auto simp: sample_children(2) dest: sample_children(1))
  with reach have "\<not> (\<exists>d. (resource_child resource_sample 0)\<^sup>*\<^sup>* 0 d \<and> (resource_child resource_sample 0)\<^sup>+\<^sup>+ d d)" by fastforce
  with resource_search_returns [OF this, of "[0x41]" 0] show ?thesis by blast
qed

text \<open>A directory that names itself is searched without end.\<close>

lemma resource_search_cycle:
  assumes "resource_entry name b root dir 0 found = Some (Res_Directory dir found)"
  shows "resource_search name b root dir 0 found len = None"
proof (rule ccontr)
  assume "resource_search name b root dir 0 found len \<noteq> None"
  then obtain r where r: "resource_search name b root dir 0 found len = Some r" by auto
  let ?P = "\<lambda>name' b' root' dir' (i' :: nat) found' (len' :: u32) (r' :: (u32 \<times> bool \<times> u32) option).
    \<not> (name' = name \<and> b' = b \<and> root' = root \<and> dir' = dir \<and> i' = 0 \<and> (found' \<longleftrightarrow> found))"
  have "?P name b root dir 0 found len r"
  proof (rule resource_search.raw_induct [where P = ?P, OF _ r], rule notI)
    fix search :: "u16 list \<Rightarrow> u8 list \<Rightarrow> int \<Rightarrow> int \<Rightarrow> nat \<Rightarrow> bool \<Rightarrow> u32 \<Rightarrow> (u32 \<times> bool \<times> u32) option option"
      and name' b' root' dir' i' found' len' r'
    assume IH: "\<And>name' b' root' dir' i' found' len' r'. search name' b' root' dir' i' found' len' = Some r' \<Longrightarrow> ?P name' b' root' dir' i' found' len' r'"
      and eq: "(case resource_entry name' b' root' dir' i' found' of None \<Rightarrow> Some None | Some a \<Rightarrow>
          (case a of Res_End \<Rightarrow> Some (Some (0, found', len')) | Res_Next \<Rightarrow> search name' b' root' dir' (Suc i') found' len'
           | Res_Data rva Size \<Rightarrow> Some (Some (rva, True, Size))
           | Res_Directory child f \<Rightarrow> Option.bind (search name' b' root' child 0 f len')
                 (\<lambda>r. case r of None \<Rightarrow> Some None | Some p \<Rightarrow> if fst p \<noteq> 0 then Some (Some p)
                      else search name' b' root' dir' (Suc i') (fst (snd p)) (snd (snd p))))) = Some r'"
      and "name' = name \<and> b' = b \<and> root' = root \<and> dir' = dir \<and> i' = 0 \<and> (found' \<longleftrightarrow> found)"
    then have same: "name' = name" "b' = b" "root' = root" "dir' = dir" "i' = 0" "found' = found" by simp_all
    from eq assms obtain y where "search name b root dir 0 found len' = Some y"
      unfolding same by (auto simp: bind_eq_Some_conv)
    from IH [OF this] show False by simp
  qed
  then show False by simp
qed

section \<open>The length of a section\<close>

lemma find_section_length:
  "find_section b sh nm i n = Some (Some (p, len)) \<Longrightarrow> rd32 b (sh + 16) = Some len"
  by (induction n arbitrary: i) (auto simp: bind_eq_Some_conv split: if_splits)

end
