(* ===== verification/Revocation.thy ===== *)
theory Revocation
  imports Security_Refresh Pe_Parse
begin

text \<open>
  The revocation checks of \<open>src/src/hash.c\<close> on a boot loader: by the DBX, by its \<open>.sbat\<close> section, by its secure
  version number and by its certificate, \<open>IsBootloaderRevoked\<close> and \<open>IsSignedBySecureBootAuthority\<close>, with
  \<open>GetIssuerCertificateInfo\<close> of \<open>src/src/pki.c\<close>, the embedded lists of \<open>src/src/db.h\<close> they fall back to, and
  \<open>GetBootladerInfo\<close> of \<open>src/src/rufus.c\<close>, which runs them on the boot loaders of an image.

  In the simple functions \<open>None\<close> is an access outside of a block or a failed assertion. Where the resource search takes
  part, \<open>None\<close> is a computation that never returns and \<open>Some None\<close> an access outside of a block.
\<close>

section \<open>Embedded lists\<close>

definition ascii :: "string \<Rightarrow> u8 list" where
  "ascii s = map of_char s"

definition newline :: string where "newline = [CHR 0x0A]"

definition db_sb_active_txt :: "u8 list" where
  "db_sb_active_txt = ascii (
     ''580a6f4cc4e4b669b9ebdc1b2b3e087b80d0678d'' @ newline @
     ''46def63b5ce61cf8ba0de2e6639c1019d0ed14f3'' @ newline @
     ''45a0fa32604773c82433c3b7d59e7466b3ac0c67'' @ newline @
     ''b5eeb4a6706048073f0ed296e7f580a790b59eaa'')"

definition db_sb_revoked_txt :: "u8 list" where
  "db_sb_revoked_txt = ascii ''580a6f4cc4e4b669b9ebdc1b2b3e087b80d0678d''"

definition db_sbat_level_txt :: "u8 list" where
  "db_sbat_level_txt = ascii (
     ''sbat,1,2025051000'' @ newline @
     ''shim,4'' @ newline @
     ''grub,5'' @ newline @
     ''grub.proxmox,2'' @ newline @
     ''BOOTMGRSECURITYVERSIONNUMBER,0x70000'')"

section \<open>The SBAT section\<close>

text \<open>\<open>atoi\<close>; a value outside of the range of \<open>int\<close> is undefined.\<close>

definition atoi :: "u8 list \<Rightarrow> u32 option" where
  "atoi s =
     (let s = dropWhile c_space s;
          neg = (s \<noteq> [] \<and> hd s = 0x2d);
          v = digits_value 10 (skip_sign s) 0 in
      if neg then (if v \<le> 2147483648 then Some (- of_nat v) else None)
      else if v \<le> 2147483647 then Some (of_nat v) else None)"

text \<open>The loop over the minimum versions; \<open>None\<close> when it leaves the entries.\<close>

fun below_minimum :: "u8 list \<Rightarrow> sbat_entry list \<Rightarrow> u8 list \<Rightarrow> u32 \<Rightarrow> bool option" where
  "below_minimum text [] product version = None"
| "below_minimum text ((None, v) # xs) product version = Some False"
| "below_minimum text ((Some q, v) # xs) product version =
     (if product = c_str text q \<and> version < v then Some True else below_minimum text xs product version)"

definition skip_newlines :: "u8 list \<Rightarrow> nat \<Rightarrow> nat option" where
  "skip_newlines b i =
     (let j = i + length (takeWhile (\<lambda>c. c = 0x0a) (drop i b)) in if j < length b then Some j else None)"

lemma skip_newlines_bounds: "skip_newlines b i = Some j \<Longrightarrow> i \<le> j \<and> j < length b"
  by (auto simp: skip_newlines_def Let_def split: if_splits)

text \<open>
  The loop over the rows of the section, in the image itself: it writes the terminators of the product and of the
  version. The result has the answer and the image.
\<close>

function sbat_rows :: "u8 list \<Rightarrow> sbat_entry list \<Rightarrow> u8 list \<Rightarrow> nat \<Rightarrow> (bool \<times> u8 list) option" where
  "sbat_rows text xs b i =
     (if i \<ge> length b then None
      else if b ! i = 0 then Some (False, b)
      else
        case skip_newlines b i of
          None \<Rightarrow> None
        | Some p \<Rightarrow>
            if b ! p = 0 then Some (False, b)
            else
              (case scan_to [0x2c, 0, 0x0a] b p of
                 None \<Rightarrow> None
               | Some j \<Rightarrow>
                   if b ! j = 0 \<or> b ! j = 0x0a then Some (False, b)
                   else
                     let b = b[j := 0] in
                     (case scan_to [0x2c, 0, 0x0a] b (j + 1) of
                        None \<Rightarrow> None
                      | Some k \<Rightarrow>
                          let b = b[k := 0] in
                          (case (atoi (c_str b (j + 1)), scan_to [0, 0x0a] b (k + 1)) of
                             (Some version, Some n) \<Rightarrow>
                               if version = 0 then sbat_rows text xs b n
                               else
                                 (case below_minimum text xs (c_str b p) version of
                                    None \<Rightarrow> None
                                  | Some True \<Rightarrow> Some (True, b)
                                  | Some False \<Rightarrow> sbat_rows text xs b n)
                           | _ \<Rightarrow> None))))"
  by pat_completeness auto
termination
  by (relation "measure (\<lambda>(text, xs, b, i). length b - i)")
    (auto dest!: scan_to_bounds skip_newlines_bounds scan_to_bounds [OF sym])

declare sbat_rows.simps [simp del]

text \<open>Without a downloaded list the embedded one is parsed; the allocations are taken to succeed.\<close>

definition sbat_lists :: "sec_lists \<Rightarrow> sec_lists option" where
  "sbat_lists st =
     (if sbat_entries st \<noteq> None then Some st
      else map_option (\<lambda>(b, xs). st\<lparr>sbat_level_txt := Some b, sbat_entries := xs\<rparr>) (GetSbatEntries (db_sbat_level_txt @ [0])))"

definition IsRevokedBySbat :: "sec_lists \<Rightarrow> u8 list \<Rightarrow> (bool \<times> sec_lists \<times> u8 list) option" where
  "IsRevokedBySbat st b = do {
     st \<leftarrow> sbat_lists st;
     xs \<leftarrow> sbat_entries st;
     sec \<leftarrow> GetPeSection (Some b) (Some (ascii ''.sbat''));
     case sec of
       None \<Rightarrow> Some (False, st, b)
     | Some (sbat, sbat_len) \<Rightarrow>
         if sbat < 0 \<or> sbat \<ge> int (length b) then Some (False, st, b)
         else map_option (\<lambda>(r, b). (r, st, b)) (sbat_rows (the (sbat_level_txt st)) xs b (nat sbat)) }"

section \<open>The database, the secure version number and the certificate\<close>

text \<open>
  What the checks get from outside: the generated table of databases, the settings and cached files, whether the cached
  file can be read, the embedded databases by architecture, the digests of the \<open>SkuSiPolicy\<close>, the expert mode, the
  Windows certificate functions by the signed data handed to them, and the sorting function of the C library.
\<close>

record cert_info =
  cert_name :: "u8 list"
  cert_thumbprint :: "u8 list"

record pki_answer =
  query_ok :: bool
  signer_size_ok :: bool
  signer_allocated :: bool
  signer_ok :: bool
  signer_found :: bool
  chain_ok :: bool
  chain_elements :: nat
  common_name :: "nat \<Rightarrow> u8 list"
  thumbprint_ok :: bool
  thumbprint :: "nat \<Rightarrow> u8 list"

record rev_env =
  rev_infos :: dbx_infos
  rev_world :: dbx_world
  rev_readable :: bool
  rev_resource :: "nat \<Rightarrow> u8 list"
  rev_ssp :: "u8 list list"
  rev_expert :: bool
  rev_pki :: "u8 list \<Rightarrow> pki_answer"
  rev_qsort :: "pe_section list \<Rightarrow> pe_section list"

text \<open>The generated table of \<open>src/res/dbx/dbx_info.h\<close>.\<close>

definition dbx_address :: "string \<Rightarrow> string" where
  "dbx_address name = ''https://api.github.com/repos/microsoft/secureboot_objects/contents/PostSignedObjects/SignedByKEK2023/'' @ name"

definition dbx_info :: dbx_infos where
  "dbx_info =
     [(dbx_address ''dbx_ia32.efiauth2'', 1788300339),
      (dbx_address ''dbx_x64.efiauth2'', 1788300339),
      (dbx_address ''dbx_arm.efiauth2'', 1788300339),
      (dbx_address ''dbx_aarch64.efiauth2'', 1788300339),
      (dbx_address ''dbx_ia64.efiauth2'', 0),
      (dbx_address ''dbx_riscv64.efiauth2'', 0),
      (dbx_address ''dbx_loongarch64.efiauth2'', 0)]"

text \<open>The database of the architecture of the image; the generated table has no place behind its last entry.\<close>

definition revoked_by_dbx :: "rev_env \<Rightarrow> u8 list \<Rightarrow> u8 list \<Rightarrow> bool option" where
  "revoked_by_dbx rv hash b = do {
     machine \<leftarrow> GetPeArch (Some b);
     let i = arch_number (MachineToArch machine);
     if i = 0 then IsRevokedByDbx hash False None
     else if i - 1 \<ge> length (rev_infos rv) then None
     else IsRevokedByDbx hash True
       (Some (dbx_choice (rev_infos rv) (rev_world rv) (i - 1) (rev_readable rv) (rev_resource rv i))) }"

definition is_upper :: "u8 \<Rightarrow> bool" where
  "is_upper c \<longleftrightarrow> 0x41 \<le> c \<and> c \<le> 0x5a"

definition IMAGE_DIRECTORY_ENTRY_RESOURCE :: nat where
  "IMAGE_DIRECTORY_ENTRY_RESOURCE = 2"

definition faulting :: "'a option \<Rightarrow> ('a \<Rightarrow> 'b option option) \<Rightarrow> 'b option option" where
  "faulting x f = (case x of None \<Rightarrow> Some None | Some y \<Rightarrow> f y)"

text \<open>The root of the resources, from the data directory.\<close>

definition resource_root :: "u8 list \<Rightarrow> u32 option option" where
  "resource_root b = do {
     e_lfanew \<leftarrow> rd32 b 0x3c;
     (va, sz) \<leftarrow> data_directory b (sint e_lfanew) IMAGE_DIRECTORY_ENTRY_RESOURCE;
     RvaToPhysical (Some b) va }"

text \<open>
  The version the image has under a name: \<open>Some (Some None)\<close> when there is none of four bytes. The names looked for are
  upper case, which \<open>utf8_to_wchar\<close> only widens.
\<close>

definition svn_version :: "u8 list \<Rightarrow> u8 list \<Rightarrow> u32 option option option" where
  "svn_version product b =
     faulting (resource_root b) (\<lambda>root.
       Option.bind (FindResourceRva (map ucast product) b (map_option (int \<circ> unat) root) 0) (\<lambda>r.
         faulting r (\<lambda>(rsrc_rva, found, rsrc_len).
           if rsrc_rva = 0 \<or> rsrc_len \<noteq> 4 then Some (Some None)
           else faulting (RvaToPhysical (Some b) rsrc_rva) (\<lambda>svn_ver.
             case svn_ver of
               None \<Rightarrow> Some (Some None)
             | Some p \<Rightarrow> faulting (rd32 b (int (unat p))) (\<lambda>v. Some (Some (Some v)))))))"

fun svn_loop :: "u8 list \<Rightarrow> u8 list \<Rightarrow> sbat_entry list \<Rightarrow> bool option option" where
  "svn_loop b text [] = Some None"
| "svn_loop b text ((None, v) # xs) = Some (Some False)"
| "svn_loop b text ((Some q, v) # xs) =
     (if \<not> list_all is_upper (c_str text q) then svn_loop b text xs
      else Option.bind (svn_version (c_str text q) b) (\<lambda>r.
        faulting r (\<lambda>version.
          case version of
            None \<Rightarrow> svn_loop b text xs
          | Some svn_ver \<Rightarrow> if svn_ver < v then Some (Some True) else svn_loop b text xs)))"

definition IsRevokedBySvn :: "sec_lists \<Rightarrow> u8 list \<Rightarrow> bool option option" where
  "IsRevokedBySvn st b =
     (case sbat_entries st of
        None \<Rightarrow> Some (Some False)
      | Some xs \<Rightarrow> svn_loop b (the (sbat_level_txt st)) xs)"

text \<open>The lists of certificates, with the fall back to the embedded text and the assertion that there are some.\<close>

definition revoked_lists :: "sec_lists \<Rightarrow> (sec_lists \<times> rows \<times> nat) option" where
  "revoked_lists st = do {
     st \<leftarrow> (if sb_revoked_certs st \<noteq> None then Some st
           else map_option (\<lambda>certs. st\<lparr>sb_revoked_txt := Some (db_sb_revoked_txt @ [0]), sb_revoked_certs := certs\<rparr>)
                  (GetThumbprintEntries (db_sb_revoked_txt @ [0])));
     (list, count) \<leftarrow> sb_revoked_certs st;
     if count = 0 then None else Some (st, list, count) }"

definition IsRevokedByCert :: "bool \<Rightarrow> sec_lists \<Rightarrow> cert_info \<Rightarrow> (bool \<times> sec_lists) option" where
  "IsRevokedByCert expert_mode st info =
     (if \<not> expert_mode then Some (False, st)
      else map_option (\<lambda>(st, list, count). (cert_thumbprint info \<in> set (take count list), st)) (revoked_lists st))"

definition active_lists :: "sec_lists \<Rightarrow> (sec_lists \<times> rows \<times> nat) option" where
  "active_lists st = do {
     st \<leftarrow> (if sb_active_certs st \<noteq> None then Some st
           else map_option (\<lambda>certs. st\<lparr>sb_active_txt := Some (db_sb_active_txt @ [0]), sb_active_certs := certs\<rparr>)
                  (GetThumbprintEntries (db_sb_active_txt @ [0])));
     (list, count) \<leftarrow> sb_active_certs st;
     if count = 0 then None else Some (st, list, count) }"

section \<open>The signature\<close>

text \<open>
  The data handed to Windows starts behind the header of the certificate, with the length of the whole certificate, and may
  reach behind the image; \<open>signed_data\<close> is its part in the image, and the answer of Windows is any function of it, so that
  what lies behind the image may have a part in the answer. The
  result has the returned value and, when it is positive, name and thumbprint of the certificate.
\<close>

definition signed_data :: "u8 list \<Rightarrow> int \<Rightarrow> u32 \<Rightarrow> u8 list" where
  "signed_data b cert dwLength = take (unat dwLength) (drop (nat (cert + 8)) b)"

definition GetIssuerCertificateInfo :: "(u8 list \<Rightarrow> pki_answer) \<Rightarrow> u8 list \<Rightarrow> int option \<Rightarrow> (int \<times> cert_info option) option" where
  "GetIssuerCertificateInfo pki b certp =
     (case certp of
        None \<Rightarrow> Some (0, None)
      | Some cert \<Rightarrow> do {
          dwLength \<leftarrow> rd32 b cert;
          if dwLength = 0 then Some (0, None)
          else do {
            let a = pki (signed_data b cert dwLength);
            if \<not> query_ok a \<or> \<not> signer_size_ok a \<or> \<not> signer_allocated a \<or> \<not> signer_ok a \<or> \<not> signer_found a \<or> \<not> chain_ok a
            then Some (0, None)
            else do {
              let CertIndex = (if chain_elements a > 1 then 1 else 0);
              if common_name a CertIndex = [] \<or> \<not> thumbprint_ok a then Some (0, None)
              else Some (int CertIndex + 1,
                Some \<lparr>cert_name = common_name a CertIndex, cert_thumbprint = thumbprint a CertIndex\<rparr>) } } })"

definition IsSignedBySecureBootAuthority :: "rev_env \<Rightarrow> sec_lists \<Rightarrow> u8 list option \<Rightarrow> (bool \<times> sec_lists) option" where
  "IsSignedBySecureBootAuthority rv st bufp =
     (case bufp of
        None \<Rightarrow> Some (False, st)
      | Some b \<Rightarrow>
          if length b < 0x100 then Some (False, st)
          else do {
            cert \<leftarrow> GetPeSignatureData (Some b);
            (r, info) \<leftarrow> GetIssuerCertificateInfo (rev_pki rv) b cert;
            if r \<noteq> 2 then Some (False, st)
            else map_option (\<lambda>(st, list, count). (cert_thumbprint (the info) \<in> set (take count list), st)) (active_lists st) })"

section \<open>The checks on a boot loader\<close>

text \<open>The checks from the SBAT section on, in their order; the first one that hits gives the result.\<close>

definition later_checks :: "rev_env \<Rightarrow> sec_lists \<Rightarrow> u8 list \<Rightarrow> cert_info \<Rightarrow> (int \<times> sec_lists \<times> u8 list) option option" where
  "later_checks rv st b info =
     faulting (IsRevokedBySbat st b) (\<lambda>(r, st, b).
       if r then Some (Some (3, st, b))
       else Option.bind (IsRevokedBySvn st b) (\<lambda>r. faulting r (\<lambda>r.
         if r then Some (Some (4, st, b))
         else faulting (IsRevokedByCert (rev_expert rv) st info) (\<lambda>(r, st). Some (Some (if r then 5 else 0, st, b))))))"

text \<open>The result has the returned code, the lists and the image, in which the SBAT check writes.\<close>

definition IsBootloaderRevoked :: "rev_env \<Rightarrow> sec_lists \<Rightarrow> u8 list option \<Rightarrow> (int \<times> sec_lists \<times> u8 list) option option" where
  "IsBootloaderRevoked rv st bufp =
     (case bufp of
        None \<Rightarrow> Some (Some (-2, st, []))
      | Some b \<Rightarrow>
          if length b < 0x100 then Some (Some (-2, st, b))
          else faulting (nt_headers (Some b)) (\<lambda>nt.
            if nt = None then Some (Some (-2, st, b))
            else faulting (GetPeSignatureData (Some b)) (\<lambda>cert.
              faulting (GetIssuerCertificateInfo (rev_pki rv) b cert) (\<lambda>(r, info).
                if r \<le> 0 then Some (Some (0, st, b))
                else faulting (PE256Buffer (rev_qsort rv) (Some b) False) (\<lambda>h.
                  case h of
                    None \<Rightarrow> Some (Some (-1, st, b))
                  | Some hash \<Rightarrow>
                      faulting (revoked_by_dbx rv hash b) (\<lambda>dbx.
                        if dbx then Some (Some (1, st, b))
                        else if hash \<in> set (rev_ssp rv) then Some (Some (2, st, b))
                        else later_checks rv st b (the info)))))))"

section \<open>The boot loaders of an image\<close>

text \<open>
  \<open>GetBootladerInfo\<close>: every boot loader that could be extracted is looked at in turn; bit 0 of the report is set for
  one with a Secure Boot signature, and bit \<open>r\<close> for one with revocation code \<open>r\<close>.
\<close>

definition revocation_types :: nat where "revocation_types = 5"

fun GetBootladerInfo :: "rev_env \<Rightarrow> u8 list list \<Rightarrow> u8 \<Rightarrow> sec_lists \<Rightarrow> (u8 \<times> sec_lists) option option" where
  "GetBootladerInfo rv [] flags st = Some (Some (flags, st))"
| "GetBootladerInfo rv (f # fs) flags st =
     (if f = [] then GetBootladerInfo rv fs flags st
      else faulting (IsSignedBySecureBootAuthority rv st (Some f)) (\<lambda>(sb_signed, st).
        let flags = (if sb_signed then flags OR 1 else flags) in
        Option.bind (IsBootloaderRevoked rv st (Some f)) (\<lambda>out. faulting out (\<lambda>(r, st, b).
          if r > int revocation_types then Some None
          else GetBootladerInfo rv fs (if r > 0 then flags OR push_bit (nat r) 1 else flags) st))))"

section \<open>The SBAT check is exact\<close>

text \<open>The reference view of the section: its lines that are not empty, the product and the version of a line of at
  least three fields, and whether one of the minimum versions is above it.\<close>

definition nonempty_lines :: "u8 list \<Rightarrow> u8 list list" where
  "nonempty_lines t = filter (\<lambda>l. l \<noteq> []) (lines t)"

definition sbat_fields :: "u8 list \<Rightarrow> (u8 list \<times> u8 list) option" where
  "sbat_fields l =
     (let name = takeWhile (\<lambda>c. c \<noteq> 0x2c) l; r = drop (length name + 1) l; ver = takeWhile (\<lambda>c. c \<noteq> 0x2c) r in
      if length name < length l \<and> length ver < length r then Some (name, ver) else None)"

definition section_line_ok :: "u8 list \<Rightarrow> bool" where
  "section_line_ok l = (case sbat_fields l of None \<Rightarrow> False | Some (name, ver) \<Rightarrow> atoi ver \<noteq> None)"

definition line_below :: "(u8 list \<times> nat) list \<Rightarrow> u8 list \<Rightarrow> bool" where
  "line_below mins l =
     (case sbat_fields l of
        None \<Rightarrow> False
      | Some (name, ver) \<Rightarrow>
          the (atoi ver) \<noteq> 0 \<and> list_ex (\<lambda>(product, m). name = product \<and> the (atoi ver) < of_nat m) mins)"

lemma nonempty_newline: "nonempty_lines (0x0a # t) = nonempty_lines t"
  by (simp add: nonempty_lines_def)

lemma nonempty_newlines: "set w \<subseteq> {0x0a} \<Longrightarrow> nonempty_lines (w @ t) = nonempty_lines t"
  by (induction w) (auto simp: nonempty_newline)

lemma nonempty_line:
  assumes "l \<noteq> []" "0x0a \<notin> set l" "rest = [] \<or> hd rest = 0x0a"
  shows "nonempty_lines (l @ rest) = l # nonempty_lines rest"
proof (cases rest)
  case Nil
  then show ?thesis using assms lines_one [of l] by (simp add: nonempty_lines_def)
next
  case (Cons c r)
  then show ?thesis using assms lines_append [of l r] by (simp add: nonempty_lines_def)
qed

lemma below_minimum_entries:
  assumes "list_all2 (entry_is text) (take n xs) mins" "n < length xs" "fst (xs ! n) = None"
  shows "below_minimum text xs product v = Some (list_ex (\<lambda>(q, m). product = q \<and> v < of_nat m) mins)"
  using assms
proof (induction mins arbitrary: xs n rule: list.induct)
  case Nil
  have "n = 0" using Nil.prems(1,2) by (auto simp: list_all2_Nil2)
  with Nil obtain v' xs' where "xs = (None, v') # xs'" by (cases xs) auto
  then show ?case by simp
next
  case (Cons m mins)
  then obtain x xs' n' where x: "xs = x # xs'" "n = Suc n'" by (cases xs; cases n) auto
  obtain q where q: "x = (Some q, of_nat (snd m))" "c_str text q = fst m"
    using Cons.prems(1) x by (cases x) (auto simp: entry_is_def)
  have "below_minimum text xs' product v = Some (list_ex (\<lambda>(q, m). product = q \<and> v < of_nat m) mins)"
    using Cons.prems x by (intro Cons.IH [of n']) auto
  then show ?case using x q by (cases m) auto
qed

lemma skip_newlines_at:
  assumes "drop i b = w @ c # r" "set w \<subseteq> {0x0a}" "c \<noteq> 0x0a"
  shows "skip_newlines b i = Some (i + length w)"
proof -
  have "takeWhile (\<lambda>c. c = 0x0a) (w @ c # r) = w" using assms(2,3) by (induction w) auto
  then have "takeWhile (\<lambda>c. c = 0x0a) (drop i b) = w" using assms(1) by simp
  moreover have "i + length w < length b" using arg_cong [OF assms(1), of length] by simp
  ultimately show ?thesis by (simp add: skip_newlines_def)
qed


lemma sbat_rows_end:
  assumes "drop i b = w @ 0 # z" "set w \<subseteq> {0x0a}"
  shows "sbat_rows text xs b i = Some (False, b)"
proof -
  have p: "skip_newlines b i = Some (i + length w)" "b ! (i + length w) = 0" "i + length w < length b"
    using skip_newlines_at [OF assms] nth_drop_eq [OF assms(1)] by auto
  then show ?thesis by (subst sbat_rows.simps) simp
qed

lemma sbat_rows_line:
  assumes b: "drop i b = w @ name @ 0x2c # ver @ 0x2c # tail @ e # r" and w: "set w \<subseteq> {0x0a}" and e: "e = 0x0a \<or> e = 0"
    and name: "set name \<inter> {0x2c, 0, 0x0a} = {}" and ver: "set ver \<inter> {0x2c, 0, 0x0a} = {}"
    and tail: "set tail \<inter> {0, 0x0a} = {}" and v: "atoi ver = Some v" and m: "below_minimum text xs name v = Some m"
  shows "\<exists>b'. drop (i + length (w @ name @ 0x2c # ver @ 0x2c # tail)) b' = e # r \<and>
    sbat_rows text xs b i =
      (if v \<noteq> 0 \<and> m then Some (True, b') else sbat_rows text xs b' (i + length (w @ name @ 0x2c # ver @ 0x2c # tail)))"
proof -
  define p where "p = i + length w"
  define j where "j = p + length name"
  define k where "k = j + 1 + length ver"
  define b1 where "b1 = b[j := 0]"
  define b2 where "b2 = b1[k := 0]"
  let ?n = "k + 1 + length tail"
  have bp: "drop p b = name @ 0x2c # ver @ 0x2c # tail @ e # r" using drop_drop_eq [OF b] by (simp add: p_def)
  obtain c s where cs: "name @ 0x2c # ver @ 0x2c # tail @ e # r = c # s" "c \<notin> {0, 0x0a}"
    using name by (cases name) auto
  have p: "skip_newlines b i = Some p" "b ! p = c" "b ! p \<noteq> 0"
    using skip_newlines_at [of i b w c s] nth_drop_eq [of p b "[]" c s] b bp w cs by (auto simp: p_def)
  have i: "i < length b" "b ! i \<noteq> 0"
    using nth_drop_eq [of i b "[]"] b cs(2) w unfolding cs(1) by (cases w; auto)+
  have j: "scan_to [0x2c, 0, 0x0a] b p = Some j" "b ! j = 0x2c" "j < length b"
    using scan_to_at [OF bp, of "[0x2c, 0, 0x0a]"] nth_drop_eq [OF bp] name by (auto simp: j_def)
  have b1j: "drop (j + 1) b1 = ver @ 0x2c # tail @ e # r"
    using drop_drop_eq [of p b "name @ [0x2c]"] bp by (simp add: b1_def j_def)
  have k: "scan_to [0x2c, 0, 0x0a] b1 (j + 1) = Some k" "k < length b1"
    using scan_to_at [OF b1j, of "[0x2c, 0, 0x0a]"] nth_drop_eq [OF b1j] ver by (auto simp: k_def)
  have b2j: "drop (j + 1) b2 = ver @ 0 # tail @ e # r"
    using b1j k(2) by (simp add: b2_def k_def drop_update_swap list_update_append)
  have str: "c_str b2 (j + 1) = ver" unfolding c_str_def b2j by (rule take_while_stop) (use ver in auto)
  have bk: "drop (k + 1) b2 = tail @ e # r" using drop_drop_eq [of "j + 1" b2 "ver @ [0]"] b2j by (simp add: k_def)
  have n: "scan_to [0, 0x0a] b2 (k + 1) = Some ?n" "drop ?n b2 = e # r"
    using scan_to_at [OF bk, of "[0, 0x0a]"] drop_drop_eq [OF bk] tail e by auto
  have "drop p b2 = (drop p b)[length name := 0, length name + 1 + length ver := 0]"
    using j(3) k(2) by (simp add: b2_def b1_def drop_update_swap j_def k_def add.assoc)
  then have "drop p b2 = name @ 0 # ver @ 0 # tail @ e # r" unfolding bp by (simp add: list_update_append)
  then have prod: "c_str b2 p = name" unfolding c_str_def by (simp only:) (rule take_while_stop, use name in auto)
  have "sbat_rows text xs b i = (if v \<noteq> 0 \<and> m then Some (True, b2) else sbat_rows text xs b2 ?n)"
    using i p(1,3) j k(1) str v n(1) m prod
    by (subst sbat_rows.simps) (auto simp: Let_def b1_def [symmetric] b2_def [symmetric] split: bool.splits)
  moreover have "?n = i + length (w @ name @ 0x2c # ver @ 0x2c # tail)" by (simp add: k_def j_def p_def)
  ultimately show ?thesis using n(2) by metis
qed

lemma section_line_split:
  assumes "sbat_fields l = Some (name, ver)"
  shows "\<exists>tail. l = name @ 0x2c # ver @ 0x2c # tail \<and> 0x2c \<notin> set name \<and> 0x2c \<notin> set ver"
proof -
  let ?r = "drop (length name + 1) l"
  have "name = takeWhile (\<lambda>c. c \<noteq> 0x2c) l" "length name < length l" "ver = takeWhile (\<lambda>c. c \<noteq> 0x2c) ?r" "length ver < length ?r"
    using assms by (auto simp: sbat_fields_def Let_def split: if_splits)
  then show ?thesis using take_while_split [of "0x2c" l name] take_while_split [of "0x2c" ?r ver] by (metis nat_neq_iff)
qed

lemma sbat_rows_lines:
  assumes mins: "\<And>p v. below_minimum text xs p v = Some (list_ex (\<lambda>(q, m). p = q \<and> v < of_nat m) mins)"
    and "drop i b = t @ 0 # z" "0 \<notin> set t" "list_all section_line_ok (nonempty_lines t)"
  shows "\<exists>b'. sbat_rows text xs b i = Some (list_ex (line_below mins) (nonempty_lines t), b')"
  using assms(2-4)
proof (induction "length t" arbitrary: t i b rule: less_induct)
  case less
  define w where "w = takeWhile (\<lambda>c. c = 0x0a) t"
  define t1 where "t1 = dropWhile (\<lambda>c. c = 0x0a) t"
  have t: "t = w @ t1" "set w \<subseteq> {0x0a}" by (auto simp: w_def t1_def dest: set_takeWhileD)
  show ?case
  proof (cases "t1 = []")
    case True
    then have "nonempty_lines t = []" using t nonempty_newlines [of w "[]"] by (simp add: nonempty_lines_def)
    then show ?thesis using sbat_rows_end [of i b w z] less.prems(1) t True by simp
  next
    case False
    define l where "l = takeWhile (\<lambda>c. c \<noteq> 0x0a) t1"
    define rest where "rest = dropWhile (\<lambda>c. c \<noteq> 0x0a) t1"
    have hd: "hd t1 \<noteq> 0x0a" using hd_dropWhile [of "\<lambda>c. c = 0x0a" t] False by (simp add: t1_def)
    have l: "t1 = l @ rest" "l \<noteq> []" "0x0a \<notin> set l" "rest = [] \<or> hd rest = 0x0a"
      using False hd hd_dropWhile [of "\<lambda>c. c \<noteq> 0x0a" t1]
      by (auto simp: l_def rest_def takeWhile_eq_Nil_iff dest: set_takeWhileD)
    have ne: "nonempty_lines t = l # nonempty_lines rest"
      using nonempty_newlines [OF t(2)] nonempty_line [OF l(2-4)] t(1) l(1) by simp
    then obtain name ver v where f: "sbat_fields l = Some (name, ver)" "atoi ver = Some v"
      using less.prems(3) by (auto simp: section_line_ok_def split: option.splits)
    obtain tail where tail: "l = name @ 0x2c # ver @ 0x2c # tail" "0x2c \<notin> set name" "0x2c \<notin> set ver"
      using section_line_split [OF f(1)] by blast
    obtain e r where er: "rest @ 0 # z = e # r" "e = 0x0a \<or> e = 0" using l(4) by (cases rest) auto
    have no0: "0 \<notin> set l" using less.prems(2) t(1) l(1) by auto
    have bi: "drop i b = w @ name @ 0x2c # ver @ 0x2c # tail @ e # r"
      using less.prems(1) t(1) l(1) tail(1) er(1) by simp
    let ?i = "i + length (w @ name @ 0x2c # ver @ 0x2c # tail)"
    obtain b' where b': "drop ?i b' = e # r"
      "sbat_rows text xs b i = (if v \<noteq> 0 \<and> list_ex (\<lambda>(q, m). name = q \<and> v < of_nat m) mins then Some (True, b')
        else sbat_rows text xs b' ?i)"
      using sbat_rows_line [OF bi t(2) er(2) _ _ _ f(2) mins] no0 l(3) tail by auto
    have below: "line_below mins l \<longleftrightarrow> v \<noteq> 0 \<and> list_ex (\<lambda>(q, m). name = q \<and> v < of_nat m) mins"
      by (simp add: line_below_def f)
    have "\<exists>b''. sbat_rows text xs b' ?i = Some (list_ex (line_below mins) (nonempty_lines rest), b'')"
      using b'(1) er(1) less.prems(2,3) l(2) t(1) l(1) ne by (intro less.hyps) auto
    then show ?thesis using b'(2) below ne by auto
  qed
qed

lemma embedded_valid:
  "NawamSecurityTextValid (Some db_sbat_level_txt) False = 5"
  "NawamSecurityTextValid (Some db_sb_active_txt) True = 4"
  "NawamSecurityTextValid (Some db_sb_revoked_txt) True = 1"
  by (simp_all add: db_sbat_level_txt_def db_sb_active_txt_def db_sb_revoked_txt_def NawamSecurityTextValid_def sec_loop.simps
      ascii_def newline_def strip_cr_def thumbprint_row_valid_def sbat_row_valid_def product_char_def hex_version_def
      NawamHexDigit_def str_sbat_def json_digit_def)

lemma find_section_address: "find_section b sh nm i n = Some (Some (p, len)) \<Longrightarrow> 0 \<le> p"
  by (induction n arbitrary: i) (auto simp: bind_eq_Some_conv split: if_splits)

lemma GetPeSection_address: "GetPeSection bufp namep = Some (Some (p, len)) \<Longrightarrow> 0 \<le> p"
  by (auto simp: GetPeSection_def bind_eq_Some_conv find_section_address split: option.splits)

text \<open>Where the minimum versions come from: a text that was downloaded and accepted, or the embedded one.\<close>

definition sbat_source :: "sec_lists \<Rightarrow> u8 list \<Rightarrow> bool" where
  "sbat_source st t \<longleftrightarrow>
     (\<exists>st0. NawamRefreshSecurityText 0 (Some t) st0 = Some (True, st)) \<or> sbat_entries st = None \<and> t = db_sbat_level_txt"

lemma sbat_lists_source:
  assumes "sbat_source st t"
  shows "\<exists>st' b xs n. sbat_lists st = Some st' \<and> sbat_entries st' = Some xs \<and> sbat_level_txt st' = Some b \<and>
    list_all2 (entry_is b) (take n xs) (map sbat_row (data_lines t)) \<and> n < length xs \<and> fst (xs ! n) = None"
  using assms unfolding sbat_source_def
proof (elim disjE exE conjE)
  fix st0
  assume "NawamRefreshSecurityText 0 (Some t) st0 = Some (True, st)"
  with refresh_text_spec [where kind = 0 and dl = "Some t" and st = st0] show ?thesis by (auto simp: Let_def sbat_lists_def)
next
  assume "sbat_entries st = None" "t = db_sbat_level_txt"
  with valid_sbat_entries [OF embedded_valid(1), of "[]"] show ?thesis by (auto simp: sbat_lists_def)
qed


text \<open>C32. The SBAT check is exact on a section of lines with at least three fields, as the SBAT format prescribes: with the
  minimum versions of the downloaded list that was accepted, or of the embedded one when there is none, it finds the boot
  loader revoked if and only if a line has a version, not zero, below the minimum of its product; the check stays inside
  the image and ends.\<close>

theorem sbat_check_exact:
  assumes "sbat_source st t" "GetPeSection (Some b) (Some (ascii ''.sbat'')) = Some (Some (off, len))"
    and "drop (nat off) b = s @ 0 # z" "0 \<notin> set s" "list_all section_line_ok (nonempty_lines s)"
  shows "\<exists>st' b'. IsRevokedBySbat st b =
    Some (list_ex (line_below (map sbat_row (data_lines t))) (nonempty_lines s), st', b')"
proof -
  obtain st' lv xs n where st': "sbat_lists st = Some st'" "sbat_entries st' = Some xs" "sbat_level_txt st' = Some lv"
    "list_all2 (entry_is lv) (take n xs) (map sbat_row (data_lines t))" "n < length xs" "fst (xs ! n) = None"
    using sbat_lists_source [OF assms(1)] by blast
  obtain b' where "sbat_rows lv xs b (nat off) = Some (list_ex (line_below (map sbat_row (data_lines t))) (nonempty_lines s), b')"
    using sbat_rows_lines [OF below_minimum_entries [OF st'(4-6)] assms(3-5)] by blast
  moreover have "nat off < length b" using arg_cong [OF assms(3), of length] by simp
  ultimately show ?thesis using st'(1-3) assms(2) GetPeSection_address [OF assms(2)] by (simp add: IsRevokedBySbat_def) linarith
qed

section \<open>The boot loader after a refresh\<close>

lemma faulting_SomeD: "faulting x f = Some (Some y) \<Longrightarrow> \<exists>a. x = Some a \<and> f a = Some (Some y)"
  by (simp add: faulting_def split: option.splits)

lemma later_codes: "later_checks rv st b info = Some (Some (c, r)) \<Longrightarrow> c \<in> {0, 3, 4, 5}"
  unfolding later_checks_def by (auto simp: bind_eq_Some_conv split: if_splits dest!: faulting_SomeD)

lemma GetPeArch_headers: "GetPeArch bufp = Some m \<Longrightarrow> m \<noteq> 0 \<Longrightarrow> \<exists>nt. nt_headers bufp = Some (Some nt)"
  by (auto simp: GetPeArch_def IMAGE_FILE_MACHINE_UNKNOWN_def bind_eq_Some_conv split: option.splits)

text \<open>A boot loader with a signature: the checks up to the database.\<close>

lemma IsBootloaderRevoked_signed:
  assumes "0x100 \<le> length b" "GetPeArch (Some b) = Some m" "m \<noteq> 0" "GetPeSignatureData (Some b) = Some cert"
    "GetIssuerCertificateInfo (rev_pki rv) b cert = Some (r, Some info)" "r > 0"
    "PE256Buffer (rev_qsort rv) (Some b) False = Some (Some hash)" "revoked_by_dbx rv hash b = Some dbx"
  shows "IsBootloaderRevoked rv st (Some b) =
    (if dbx then Some (Some (1, st, b)) else if hash \<in> set (rev_ssp rv) then Some (Some (2, st, b)) else later_checks rv st b info)"
  using assms GetPeArch_headers [OF assms(2,3)] by (auto simp: IsBootloaderRevoked_def faulting_def)

text \<open>C1. The revocation check on a boot loader, from the downloaded database to the answer: after a refresh of the databases
  that was interrupted anywhere, a signed boot loader whose image is well formed gets the code 1 if and only if the SHA-256 of
  the parts of the image that Authenticode signs is an entry of the first list of the database chosen for its architecture.\<close>

theorem bootloader_revoked_iff_listed:
  assumes image: "pe_reads efi L" "pe_packed efi L" "1024 \<le> length efi" "length efi \<le> 64 * 1024 * 1024"
      "\<And>xs. mset (rev_qsort rv xs) = mset xs"
    and arch: "GetPeArch (Some efi) = Some m" "arch_number (MachineToArch m) = Suc i" "i < length (rev_infos rv)"
    and signed: "GetPeSignatureData (Some efi) = Some cert" "GetIssuerCertificateInfo (rev_pki rv) efi cert = Some (r, Some info)" "r > 0"
    and refreshed: "dbx_safe (rev_infos rv) w" "dbx_world_ok (rev_infos rv) env"
      "rev_world rv = foldl apply_effect w (take k (snd (NawamRefreshDbx (rev_infos rv) env w counts)))"
      "dbx_file_ok (rev_resource rv (Suc i))"
  shows "\<exists>stamp auth ls.
    dbx_layout (dbx_choice (rev_infos rv) (rev_world rv) i (rev_readable rv) (rev_resource rv (Suc i))) stamp auth ls \<and>
    ((\<exists>st' b'. IsBootloaderRevoked rv st (Some efi) = Some (Some (1, st', b'))) \<longleftrightarrow>
       SHA256 (authenticode efi L) \<in> drop 16 ` set (sl_entries (hd ls)))"
proof -
  let ?h = "SHA256 (authenticode efi L)"
  let ?dbx = "dbx_choice (rev_infos rv) (rev_world rv) i (rev_readable rv) (rev_resource rv (Suc i))"
  have "safe_run (rev_infos rv) w (snd (NawamRefreshDbx (rev_infos rv) env w counts))"
    unfolding NawamRefreshDbx_upto using refreshed(1,2) by (intro refresh_upto_safe) auto
  then have "dbx_safe (rev_infos rv) (rev_world rv)" unfolding refreshed(3) safe_run_def by (rule dbx_run.run_prefix)
  from revoked_by_choice [OF dbx_choice_valid [OF this arch(3) refreshed(4)]] obtain stamp auth ls where
    dbx: "dbx_layout ?dbx stamp auth ls" "IsRevokedByDbx ?h True (Some ?dbx) = Some (?h \<in> drop 16 ` set (sl_entries (hd ls)))" by blast
  have m: "m \<noteq> 0" using arch(2) by (auto simp: MachineToArch_def)
  have "revoked_by_dbx rv ?h efi = Some (?h \<in> drop 16 ` set (sl_entries (hd ls)))"
    using arch dbx(2) by (simp add: revoked_by_dbx_def)
  from IsBootloaderRevoked_signed [OF _ arch(1) m signed PE256Buffer_digest [OF image] this, of st] image(3) dbx(1)
  have "(\<exists>st' b'. IsBootloaderRevoked rv st (Some efi) = Some (Some (1, st', b'))) \<longleftrightarrow> ?h \<in> drop 16 ` set (sl_entries (hd ls))"
    by (auto dest!: later_codes)
  with dbx(1) show ?thesis by blast
qed

section \<open>A sample\<close>

lemma sample_headers:
  "rd16 sample_image 0 = Some 0x5a4d" "rd32 sample_image 0x80 = Some 0x4550" "rd16 sample_image 0x84 = Some 0x8664"
  "rd32 sample_image 0x128 = Some 0x380" "rd32 sample_image 0x380 = Some 0x80" "rd16 sample_image 0x386 = Some 2"
  using rd16_nth [of 0 sample_image] rd32_nth [of "0x80" sample_image] rd16_nth [of "0x84" sample_image]
    rd32_nth [of "0x128" sample_image] rd32_nth [of "0x380" sample_image] rd16_nth [of "0x386" sample_image]
  by (simp_all add: length_sample sample_nth) (simp_all add: sample_bytes_def le32_join_def)

lemma sample_nt: "nt_headers (Some sample_image) = Some (Some 0x80)"
  using sample_headers sample_fields(1) by (simp add: nt_headers_def IMAGE_DOS_SIGNATURE_def IMAGE_NT_SIGNATURE_def)

lemma sample_arch: "GetPeArch (Some sample_image) = Some 0x8664" "arch_number (MachineToArch 0x8664) = Suc 1"
  using sample_headers by (simp_all add: GetPeArch_def sample_nt MachineToArch_def)

lemma sample_signature: "GetPeSignatureData (Some sample_image) = Some (Some 0x380)"
  using sample_headers sample_fields(7)
  by (simp add: GetPeSignatureData_def sample_nt data_directory_def pe_32_def IMAGE_FILE_MACHINE_I386_def
      IMAGE_FILE_MACHINE_ARM_def IMAGE_DIRECTORY_ENTRY_SECURITY_def WIN_CERT_TYPE_PKCS_SIGNED_DATA_def)

definition sample_pki :: pki_answer where
  "sample_pki = \<lparr>query_ok = True, signer_size_ok = True, signer_allocated = True, signer_ok = True, signer_found = True,
     chain_ok = True, chain_elements = 2, common_name = (\<lambda>_. ascii ''CA''), thumbprint_ok = True, thumbprint = (\<lambda>_. replicate 20 1)\<rparr>"

definition sample_rv :: rev_env where
  "sample_rv = \<lparr>rev_infos = dbx_info, rev_world = sample_world, rev_readable = True, rev_resource = (\<lambda>_. dbx_sample),
     rev_ssp = [], rev_expert = False, rev_pki = (\<lambda>_. sample_pki), rev_qsort = sort_key (unat \<circ> VirtualAddress)\<rparr>"

definition no_lists :: sec_lists where
  "no_lists = \<lparr>sbat_entries = None, sbat_level_txt = None, sb_active_certs = None, sb_active_txt = None,
     sb_revoked_certs = None, sb_revoked_txt = None\<rparr>"

lemma sample_issuer:
  "GetIssuerCertificateInfo (rev_pki sample_rv) sample_image (Some 0x380) =
     Some (2, Some \<lparr>cert_name = ascii ''CA'', cert_thumbprint = replicate 20 1\<rparr>)"
  using sample_headers by (simp add: GetIssuerCertificateInfo_def sample_rv_def sample_pki_def ascii_def)

lemma sample_table: "dbx_safe dbx_info sample_world" "dbx_world_ok dbx_info (\<lambda>_. sample_env)"
proof -
  show "dbx_safe dbx_info sample_world" by (simp add: dbx_safe_def list_all_iff sample_world_def UseLocalDbx_def)
  show "dbx_world_ok dbx_info (\<lambda>_. sample_env)"
    by (simp add: dbx_world_ok_def list_all_iff honest_def sample_env_def dbx_sample_valid(2))
qed

theorem bootloader_revoked_iff_listed_witness:
  "dbx_safe dbx_info sample_world \<and> GetPeArch (Some sample_image) = Some 0x8664 \<and> GetPeSignatureData (Some sample_image) = Some (Some 0x380) \<and>
   (\<exists>stamp auth ls. dbx_layout (dbx_choice dbx_info sample_world 1 True dbx_sample) stamp auth ls \<and>
     ((\<exists>st' b'. IsBootloaderRevoked sample_rv no_lists (Some sample_image) = Some (Some (1, st', b'))) \<longleftrightarrow>
        SHA256 (authenticode sample_image sample_layout) \<in> drop 16 ` set (sl_entries (hd ls))))"
proof -
  have f: "rev_infos sample_rv = dbx_info" "rev_world sample_rv = sample_world" "rev_readable sample_rv = True"
    "rev_resource sample_rv (Suc 1) = dbx_sample" by (simp_all add: sample_rv_def)
  have ok: "dbx_file_ok (rev_resource sample_rv (Suc 1))" unfolding f by (simp add: dbx_file_ok_def dbx_sample_valid)
  have q: "mset (rev_qsort sample_rv xs) = mset xs" for xs by (simp add: sample_rv_def)
  have i: "1 < length (rev_infos sample_rv)" by (simp add: f dbx_info_def)
  have w: "rev_world sample_rv = foldl apply_effect sample_world (take 0 (snd (NawamRefreshDbx (rev_infos sample_rv) (\<lambda>_. sample_env) sample_world (0, 0))))"
    by (simp add: f)
  note t = sample_table [folded f(1)]
  have len: "1024 \<le> length sample_image" "length sample_image \<le> 64 * 1024 * 1024" "(2 :: int) > 0" by (simp_all add: length_sample)
  from bootloader_revoked_iff_listed [OF sample_reads sample_packed len(1,2) q sample_arch i sample_signature sample_issuer len(3) t w ok, of no_lists]
  show ?thesis unfolding f using sample_table(1) sample_arch(1) sample_signature by blast
qed

lemma take_drop_nth: "i + n \<le> length b \<Longrightarrow> take n (drop i b) = map ((!) b) [i..<i + n]"
  by (rule nth_equalityI) auto

lemma rd_bytes_nth: "i + n \<le> length b \<Longrightarrow> rd_bytes b (int i) n = Some (map ((!) b) [i..<i + n])"
  by (simp add: rd_bytes_def take_drop_nth)

lemma sample_section: "GetPeSection (Some sample_image) (Some (ascii ''.sbat'')) = Some (Some (0x200, 0x80))"
proof -
  have n: "section_name (ascii ''.sbat'') = [0x2e, 0x73, 0x62, 0x61, 0x74, 0, 0, 0]" by (simp add: section_name_def ascii_def numeral_3_eq_3)
  have s: "rd_bytes sample_image 0x188 8 = Some [0x41, 0x41, 0x41, 0x41, 0x41, 0x41, 0x41, 0x41]"
    "rd_bytes sample_image 0x1b0 8 = Some [0x2e, 0x73, 0x62, 0x61, 0x74, 0, 0, 0]"
    using rd_bytes_nth [of "0x188" 8] rd_bytes_nth [of "0x1b0" 8]
    by (simp_all add: sample_nth length_sample) (simp_all add: sample_bytes_def)
  have "section_headers sample_image 0x80 = Some (0x188, Suc (Suc 0))"
    using sample_headers(3) sample_fields(2)
    by (simp add: section_headers_def pe_32_def IMAGE_FILE_MACHINE_I386_def IMAGE_FILE_MACHINE_ARM_def)
  moreover have "find_section sample_image 0x188 [0x2e, 0x73, 0x62, 0x61, 0x74, 0, 0, 0] 0 (Suc (Suc 0)) = Some (Some (0x200, 0x80))"
    using s sample_fields(10,14) by simp
  ultimately show ?thesis by (simp add: GetPeSection_def sample_nt n)
qed

definition sample_rows :: "u8 list" where
  "sample_rows = ascii (''shim,2,x'' @ newline)"

lemma sample_section_text: "drop (nat 0x200) sample_image = sample_rows @ 0 # drop 0x20a sample_image"
proof -
  have "drop 0x200 sample_image = map ((!) sample_image) [0x200..<0x20a] @ drop 0x20a sample_image"
    using take_drop_nth [of "0x200" 10 sample_image] append_take_drop_id [of 10 "drop 0x200 sample_image"] by (simp add: length_sample)
  also have "map ((!) sample_image) [0x200..<0x20a] = sample_rows @ [0]"
    by (simp add: sample_nth) (simp add: sample_bytes_def sample_rows_def ascii_def newline_def)
  finally show ?thesis by simp
qed

lemma sample_lines:
  "nonempty_lines sample_rows = [ascii ''shim,2,x'']" "section_line_ok (ascii ''shim,2,x'')"
  "line_below (map sbat_row (data_lines db_sbat_level_txt)) (ascii ''shim,2,x'')"
proof -
  show "nonempty_lines sample_rows = [ascii ''shim,2,x'']" by (simp add: nonempty_lines_def sample_rows_def ascii_def newline_def)
  have f: "sbat_fields (ascii ''shim,2,x'') = Some (ascii ''shim'', ascii ''2'')" by (simp add: sbat_fields_def ascii_def)
  have v: "atoi (ascii ''2'') = Some 2" by (simp add: atoi_def ascii_def skip_sign_def c_space_def NawamHexDigit_def)
  show "section_line_ok (ascii ''shim,2,x'')" by (simp add: section_line_ok_def f v)
  have "ascii ''shim,4'' \<in> set (data_lines db_sbat_level_txt)"
  proof -
    define rest where "rest = ascii (''grub,5'' @ newline @ ''grub.proxmox,2'' @ newline @ ''BOOTMGRSECURITYVERSIONNUMBER,0x70000'')"
    have t: "db_sbat_level_txt = ascii ''sbat,1,2025051000'' @ 0x0a # ascii ''shim,4'' @ 0x0a # rest"
      by (simp add: db_sbat_level_txt_def rest_def ascii_def newline_def)
    have "0x0a \<notin> set (ascii ''sbat,1,2025051000'')" "0x0a \<notin> set (ascii ''shim,4'')" by (simp_all add: ascii_def)
    note s = lines_append [OF this(1)] lines_append [OF this(2)]
    have "lines db_sbat_level_txt = ascii ''sbat,1,2025051000'' # ascii ''shim,4'' # lines rest" unfolding t s ..
    then have "ascii ''shim,4'' \<in> set (lines db_sbat_level_txt)" by simp
    moreover have "strip_cr (ascii ''shim,4'') = ascii ''shim,4''" "ascii ''shim,4'' \<noteq> []" "hd (ascii ''shim,4'') \<noteq> 0x23"
      by (simp_all add: ascii_def strip_cr_def)
    ultimately show ?thesis unfolding data_lines_def by force
  qed
  moreover have "sbat_row (ascii ''shim,4'') = (ascii ''shim'', 4)"
    by (simp add: sbat_row_def version_value_def ascii_def hex_version_def NawamHexDigit_def)
  ultimately have "(ascii ''shim'', 4) \<in> set (map sbat_row (data_lines db_sbat_level_txt))" by force
  then show "line_below (map sbat_row (data_lines db_sbat_level_txt)) (ascii ''shim,2,x'')"
    unfolding line_below_def f by (auto simp: v list_ex_iff intro!: bexI [of _ "(ascii ''shim'', 4)"] simp del: set_map)
qed

theorem sbat_check_exact_witness:
  "sbat_source no_lists db_sbat_level_txt \<and> GetPeSection (Some sample_image) (Some (ascii ''.sbat'')) = Some (Some (0x200, 0x80)) \<and>
   (\<exists>st' b'. IsRevokedBySbat no_lists sample_image =
      Some (list_ex (line_below (map sbat_row (data_lines db_sbat_level_txt))) (nonempty_lines sample_rows), st', b')) \<and>
   (\<exists>st' b'. IsRevokedBySbat no_lists sample_image = Some (True, st', b'))"
proof -
  have src: "sbat_source no_lists db_sbat_level_txt" by (simp add: sbat_source_def no_lists_def)
  have "0 \<notin> set sample_rows" by (simp add: sample_rows_def ascii_def newline_def)
  moreover have "list_all section_line_ok (nonempty_lines sample_rows)" by (simp add: sample_lines)
  ultimately have "\<exists>st' b'. IsRevokedBySbat no_lists sample_image =
      Some (list_ex (line_below (map sbat_row (data_lines db_sbat_level_txt))) (nonempty_lines sample_rows), st', b')"
    by (intro sbat_check_exact [OF src sample_section sample_section_text])
  moreover have "list_ex (line_below (map sbat_row (data_lines db_sbat_level_txt))) (nonempty_lines sample_rows)"
    by (simp add: sample_lines)
  ultimately show ?thesis using src sample_section by simp
qed

section \<open>Limits of the checks\<close>

text \<open>A line of two fields hides the line behind it: the loop has already stepped over its newline when it looks for it.\<close>

lemma two_fields_hide_next:
  "map_option fst (sbat_rows (ascii ''grub'' @ [0]) [(Some 0, 5), (None, 0)] (ascii (''a,1'' @ newline @ ''grub,1,x'' @ newline) @ [0]) 0) = Some False"
  "map_option fst (sbat_rows (ascii ''grub'' @ [0]) [(Some 0, 5), (None, 0)] (ascii (''a,1,x'' @ newline @ ''grub,1,x'' @ newline) @ [0]) 0) = Some True"
  by (simp_all add: sbat_rows.simps ascii_def newline_def skip_newlines_def scan_to_def atoi_def c_str_def skip_sign_def c_space_def
      NawamHexDigit_def Let_def)

text \<open>The table has an entry for every architecture that is recognised but one: for EFI byte code the code reads behind it.\<close>

lemma dbx_info_entries: "arch_number a \<le> length dbx_info \<longleftrightarrow> a \<noteq> ARCH_EBC"
  by (cases a) (simp_all add: dbx_info_def)

lemma byte_code_over_read:
  "GetPeArch (Some b) = Some 0xebc \<Longrightarrow> rev_infos rv = dbx_info \<Longrightarrow> revoked_by_dbx rv hash b = None"
  by (simp add: revoked_by_dbx_def MachineToArch_def dbx_info_def)

text \<open>A signature that Windows cannot decode makes the boot loader an unsigned one, which no check is applied to.\<close>

lemma undecodable_signature_unchecked:
  assumes "0x100 \<le> length b" "nt_headers (Some b) = Some (Some nt)" "GetPeSignatureData (Some b) = Some (Some cert)"
    and "rd32 b cert = Some n" "\<not> query_ok (rev_pki rv (signed_data b cert n))"
  shows "IsBootloaderRevoked rv st (Some b) = Some (Some (0, st, b))"
  using assms by (simp add: IsBootloaderRevoked_def faulting_def GetIssuerCertificateInfo_def)

text \<open>The codes of the check, so that the assertion of \<open>GetBootladerInfo\<close> on the code never fails.\<close>

lemma revocation_codes: "IsBootloaderRevoked rv st bufp = Some (Some (c, r)) \<Longrightarrow> c \<in> {-2..5}"
  unfolding IsBootloaderRevoked_def
  by (auto split: option.splits if_splits dest!: faulting_SomeD later_codes)

end
