(* ===== verification/Htab.thy ===== *)
theory Htab
  imports Prelude
begin

text \<open>
  The hash table of \<open>src/src/stdfn.c\<close>, open addressing with double hashing over a table of prime size: \<open>isprime\<close>,
  \<open>htab_create\<close>, \<open>htab_destroy\<close> and \<open>htab_hash\<close>, which finds the index of a string or gives it one. The localisation
  messages and the device identifiers are kept in such tables; their users keep data under the index.

  A loop that never ends is \<open>None\<close>, an access outside of the table \<open>Some None\<close>. An assertion whose failure the source also
  handles takes the branch that handles it.
\<close>

section \<open>Primes\<close>

text \<open>The loop over the odd dividers; the product is a 32-bit one.\<close>

partial_function (option) isprime_loop :: "u32 \<Rightarrow> u32 \<Rightarrow> u32 option" where
  "isprime_loop number divider =
     (if divider * divider < number \<and> number mod divider \<noteq> 0 then isprime_loop number (divider + 2) else Some divider)"

definition isprime :: "u32 \<Rightarrow> bool option" where
  "isprime number = map_option (\<lambda>divider. number mod divider \<noteq> 0) (isprime_loop number 3)"

section \<open>Tables\<close>

record htab_entry =
  used :: u32
  str :: "u8 list option"
  data :: u64

record htab_table =
  htable :: "htab_entry list option"
  hsize :: u32
  filled :: u32

definition HTAB_EMPTY :: htab_table where
  "HTAB_EMPTY = \<lparr>htable = None, hsize = 0, filled = 0\<rparr>"

partial_function (option) htab_size :: "u32 \<Rightarrow> u32 option" where
  "htab_size nel = Option.bind (isprime nel) (\<lambda>p. if p then Some nel else htab_size (nel + 2))"

definition free_entry :: htab_entry where
  "free_entry = \<lparr>used = 0, str = None, data = 0\<rparr>"

text \<open>\<open>alloc\<close> is whether the memory was allocated.\<close>

definition htab_create :: "bool \<Rightarrow> u32 \<Rightarrow> htab_table option \<Rightarrow> (bool \<times> htab_table option) option" where
  "htab_create alloc nel htab =
     (case htab of
        None \<Rightarrow> Some (False, None)
      | Some h \<Rightarrow>
          if htable h \<noteq> None then Some (False, Some h)
          else do {
            n \<leftarrow> htab_size (nel OR 1);
            Some (alloc, Some (h\<lparr>hsize := n, filled := 0,
              htable := (if alloc then Some (replicate (unat (n + 1)) free_entry) else None)\<rparr>)) })"

definition htab_destroy :: "htab_table option \<Rightarrow> htab_table option" where
  "htab_destroy htab =
     (case htab of
        None \<Rightarrow> None
      | Some h \<Rightarrow> if htable h = None then Some h else Some HTAB_EMPTY)"

section \<open>The search\<close>

text \<open>The hash of a string; its characters are signed.\<close>

definition sdbm :: "u8 list \<Rightarrow> u32" where
  "sdbm s = foldl (\<lambda>r c. scast c + push_bit 6 r + push_bit 16 r - r) 0 s"

definition htab_hval :: "u32 \<Rightarrow> u8 list \<Rightarrow> u32" where
  "htab_hval n s =
     (let r = sdbm s; r = (if r = 0 then r + 1 else r); hval = r mod n in if hval = 0 then hval + 1 else hval)"

definition safe_str :: "u8 list option \<Rightarrow> u8 list" where
  "safe_str p = (case p of None \<Rightarrow> map of_char ''<NULL>'' | Some s \<Rightarrow> s)"

definition entry_matches :: "htab_entry \<Rightarrow> u32 \<Rightarrow> u8 list \<Rightarrow> bool" where
  "entry_matches e hval s \<longleftrightarrow> used e = hval \<and> s = safe_str (str e)"

definition next_index :: "u32 \<Rightarrow> u32 \<Rightarrow> u32 \<Rightarrow> u32" where
  "next_index n hval2 idx = (if idx \<le> hval2 then n + idx - hval2 else idx - hval2)"

text \<open>The loop over the other places of a string; the result has the last index and whether the string was found there.\<close>

partial_function (option) htab_probe ::
    "htab_entry list \<Rightarrow> u32 \<Rightarrow> u8 list \<Rightarrow> u32 \<Rightarrow> u32 \<Rightarrow> u32 \<Rightarrow> (u32 \<times> bool) option option" where
  "htab_probe t n s hval hval2 idx =
     (let idx = next_index n hval2 idx in
      if idx = hval then Some (Some (idx, False))
      else if unat idx \<ge> length t then Some None
      else if entry_matches (t ! unat idx) hval s then Some (Some (idx, True))
      else if used (t ! unat idx) \<noteq> 0 then htab_probe t n s hval hval2 idx
      else Some (Some (idx, False)))"

definition htab_find :: "htab_entry list \<Rightarrow> u32 \<Rightarrow> u8 list \<Rightarrow> (u32 \<times> bool) option option" where
  "htab_find t n s =
     (let hval = htab_hval n s in
      if unat hval \<ge> length t then Some None
      else if used (t ! unat hval) = 0 then Some (Some (hval, False))
      else if entry_matches (t ! unat hval) hval s then Some (Some (hval, True))
      else htab_probe t n s hval (1 + hval mod (n - 2)) hval)"

text \<open>A new entry; without memory for the string its place stays taken but is not counted.\<close>

definition htab_insert :: "bool \<Rightarrow> htab_entry list \<Rightarrow> u32 \<Rightarrow> u8 list \<Rightarrow> htab_table \<Rightarrow> u32 \<times> htab_table" where
  "htab_insert alloc t idx s h =
     (let e = (t ! unat idx)\<lparr>used := htab_hval (hsize h) s\<rparr> in
      if alloc then (idx, h\<lparr>htable := Some (t[unat idx := e\<lparr>str := Some s\<rparr>]), filled := filled h + 1\<rparr>)
      else (0, h\<lparr>htable := Some (t[unat idx := e\<lparr>str := None\<rparr>])\<rparr>))"

definition htab_hash :: "bool \<Rightarrow> u8 list option \<Rightarrow> htab_table option \<Rightarrow> (u32 \<times> htab_table option) option option" where
  "htab_hash alloc strp htab =
     (case (htab, strp) of
        (Some h, Some s) \<Rightarrow>
          (case htable h of
             None \<Rightarrow> Some (Some (0, Some h))
           | Some t \<Rightarrow>
               Option.bind (htab_find t (hsize h) s) (\<lambda>r.
                 case r of
                   None \<Rightarrow> Some None
                 | Some p \<Rightarrow>
                     if snd p then Some (Some (fst p, Some h))
                     else if \<not> filled h < hsize h then Some (Some (0, Some h))
                     else let q = htab_insert alloc t (fst p) s h in Some (Some (fst q, Some (snd q)))))
      | _ \<Rightarrow> Some (Some (0, htab)))"

section \<open>The prime test\<close>

definition prime_number :: "nat \<Rightarrow> bool" where
  "prime_number n \<longleftrightarrow> 2 \<le> n \<and> (\<forall>d. d dvd n \<longrightarrow> d = 1 \<or> d = n)"

text \<open>What the dividers tried so far say about a number.\<close>

definition tried :: "nat \<Rightarrow> nat \<Rightarrow> bool" where
  "tried n d \<longleftrightarrow> odd d \<and> 3 \<le> d \<and> d \<le> 65535 \<and> (\<forall>k. 3 \<le> k \<and> k < d \<and> odd k \<longrightarrow> \<not> k dvd n) \<and> (d = 3 \<or> (d - 2) * (d - 2) < n)"

lemma tried_start: "tried n 3"
  by (auto simp: tried_def)

lemma small_divisor:
  assumes "k dvd n" "k \<noteq> 1" "k \<noteq> n" "0 < (n :: nat)"
  shows "\<exists>j. j dvd n \<and> j \<noteq> 1 \<and> j * j \<le> n"
proof -
  from assms(1) obtain m where m: "n = k * m" by (elim dvdE)
  have "m \<noteq> 1" using m assms(3) by auto
  show ?thesis
  proof (cases "k \<le> m")
    case True
    then have "k * k \<le> n" unfolding m by simp
    then show ?thesis using assms(1,2) by blast
  next
    case False
    then have "m * m \<le> n" unfolding m by simp
    moreover have "m dvd n" by (simp add: m)
    ultimately show ?thesis using \<open>m \<noteq> 1\<close> by blast
  qed
qed

lemma tried_stop:
  assumes "tried n d" "odd n" "5 \<le> n" "n \<le> d * d \<or> n mod d = 0"
  shows "n mod d \<noteq> 0 \<longleftrightarrow> prime_number n"
proof
  assume nd: "n mod d \<noteq> 0"
  then have le: "n \<le> d * d" using assms(4) by simp
  have "k = 1 \<or> k = n" if k: "k dvd n" for k
  proof (rule ccontr)
    assume "\<not> (k = 1 \<or> k = n)"
    then obtain j where j: "j dvd n" "j \<noteq> 1" "j * j \<le> n" using small_divisor [OF k] assms(3) by auto
    have "j * j \<le> d * d" using j(3) le by linarith
    then have "j \<le> d" using mult_strict_mono [of d j d j] by (cases "d < j") auto
    moreover have "j \<noteq> d" using j(1) nd by auto
    moreover have "odd j" using j(1) assms(2) dvd_trans by blast
    moreover have "3 \<le> j" using \<open>odd j\<close> j(2) by (cases "j = 0 \<or> j = 2") auto
    ultimately show False using assms(1) j(1) by (auto simp: tried_def)
  qed
  then show "prime_number n" using assms(3) by (simp add: prime_number_def)
next
  assume p: "prime_number n"
  show "n mod d \<noteq> 0"
  proof
    assume "n mod d = 0"
    then have "d dvd n" by auto
    then have "d = n" using p assms(1) by (auto simp: prime_number_def tried_def)
    then have "(n - 2) * (n - 2) < n" using assms(1,3) by (auto simp: tried_def)
    moreover have "3 * (n - 2) \<le> (n - 2) * (n - 2)" using assms(3) by simp
    ultimately show False using assms(3) by linarith
  qed
qed

lemma tried_step:
  assumes "tried n d" "d * d < n" "n mod d \<noteq> 0" "n \<le> 65535 * 65535"
  shows "tried n (d + 2)"
proof -
  have "d < 65535"
  proof (rule ccontr)
    assume "\<not> d < 65535"
    then have "65535 * 65535 \<le> d * d" by (intro mult_mono) auto
    then show False using assms(2,4) by linarith
  qed
  moreover have "odd d" using assms(1) by (simp add: tried_def)
  ultimately have "d + 2 \<le> 65535" by presburger
  moreover have "\<not> k dvd n" if k: "3 \<le> k" "k < d + 2" "odd k" for k
  proof -
    have "k \<noteq> d + 1" using k(3) \<open>odd d\<close> by auto
    then consider "k < d" | "k = d" using k(2) by linarith
    then show ?thesis using assms(1,3) k by cases (auto simp: tried_def)
  qed
  ultimately show ?thesis using assms(1,2) by (auto simp: tried_def)
qed

lemma isprime_loop_tried:
  assumes "tried (unat number) (unat divider)" "odd (unat number)" "5 \<le> unat number" "unat number \<le> 65535 * 65535"
  shows "\<exists>d. isprime_loop number divider = Some d \<and> (number mod d \<noteq> 0 \<longleftrightarrow> prime_number (unat number))"
  using assms(1)
proof (induction "65536 - unat divider" arbitrary: divider rule: less_induct)
  case less
  let ?n = "unat number" and ?d = "unat divider"
  have d: "3 \<le> ?d" "?d \<le> 65535" using less.prems by (auto simp: tried_def)
  then have "?d * ?d \<le> 65535 * 65535" by (intro mult_mono) auto
  then have sq: "unat (divider * divider) = ?d * ?d" by (simp add: unat_word_ariths)
  have lt: "divider * divider < number \<longleftrightarrow> ?d * ?d < ?n" by (simp add: word_less_nat_alt sq)
  have md: "number mod divider = 0 \<longleftrightarrow> ?n mod ?d = 0" by (simp add: word_unat_eq_iff unat_mod)
  show ?case
  proof (cases "?d * ?d < ?n \<and> ?n mod ?d \<noteq> 0")
    case True
    have d2: "unat (divider + 2) = ?d + 2" using d by (simp add: unat_word_ariths)
    have "tried ?n (unat (divider + 2))" unfolding d2 using tried_step [OF less.prems _ _ assms(4)] True by blast
    then have "\<exists>d. isprime_loop number (divider + 2) = Some d \<and> (number mod d \<noteq> 0 \<longleftrightarrow> prime_number ?n)"
      using d2 d by (intro less.hyps) auto
    then show ?thesis using True by (subst isprime_loop.simps) (simp add: lt md)
  next
    case False
    then have "?n \<le> ?d * ?d \<or> ?n mod ?d = 0" by linarith
    note stop = tried_stop [OF less.prems assms(2,3) this]
    have "isprime_loop number divider = Some divider" using False by (subst isprime_loop.simps) (auto simp: lt md)
    then show ?thesis using stop by (simp add: md)
  qed
qed

lemma isprime_correct:
  assumes "odd (unat number)" "5 \<le> unat number" "unat number \<le> 65535 * 65535"
  shows "isprime number = Some (prime_number (unat number))"
proof -
  have "tried (unat number) (unat (3 :: u32))" using tried_start by simp
  from isprime_loop_tried [OF this assms] show ?thesis by (auto simp: isprime_def)
qed

text \<open>The test takes 3 for composite and 1 for a prime.\<close>

lemma isprime_small: "isprime 3 = Some False" "isprime 1 = Some True"
  by (simp_all add: isprime_def isprime_loop.simps)

lemma htab_size_prime:
  assumes "odd (unat nel)" "5 \<le> unat nel" "unat nel \<le> p" "p \<le> 65535 * 65535" "prime_number p"
  shows "\<exists>n. htab_size nel = Some n \<and> prime_number (unat n) \<and> unat nel \<le> unat n \<and> unat n \<le> p"
  using assms(1-3)
proof (induction "p - unat nel" arbitrary: nel rule: less_induct)
  case less
  have le: "unat nel \<le> 65535 * 65535" using less.prems(3) assms(4) by linarith
  note t = isprime_correct [OF less.prems(1,2) le]
  show ?case
  proof (cases "prime_number (unat nel)")
    case True
    then show ?thesis using less.prems by (subst htab_size.simps) (simp add: t)
  next
    case False
    then have "unat nel \<noteq> p" using assms(5) by auto
    moreover have "odd p"
    proof (rule ccontr)
      assume "\<not> odd p"
      then have "2 dvd p" by simp
      then show False using assms(5) less.prems(2,3) by (auto simp: prime_number_def)
    qed
    ultimately have lt: "unat nel + 2 \<le> p" using less.prems(1,3) by presburger
    have n2: "unat (nel + 2) = unat nel + 2" using le by (simp add: unat_word_ariths)
    have "\<exists>n. htab_size (nel + 2) = Some n \<and> prime_number (unat n) \<and> unat (nel + 2) \<le> unat n \<and> unat n \<le> p"
      by (rule less.hyps) (use n2 lt less.prems in auto)
    then show ?thesis using False n2 by (subst htab_size.simps) (auto simp: t)
  qed
qed

section \<open>The places of a string\<close>

text \<open>The \<open>k\<close>-th place of a string with first place \<open>h\<close> and step \<open>g\<close>, in a table with the places 1 to \<open>n\<close>.\<close>

definition place :: "nat \<Rightarrow> nat \<Rightarrow> nat \<Rightarrow> nat \<Rightarrow> nat" where
  "place n h g k = (h - 1 + k * (n - g)) mod n + 1"

lemma place_bounds: "0 < n \<Longrightarrow> 1 \<le> place n h g k \<and> place n h g k \<le> n"
  by (simp add: place_def Suc_le_eq)

lemma place_0: "1 \<le> h \<Longrightarrow> h < n \<Longrightarrow> place n h g 0 = h"
  by (simp add: place_def)

lemma place_n: "1 \<le> h \<Longrightarrow> h < n \<Longrightarrow> place n h g n = h"
  by (simp only: place_def mod_mult_self2) simp

lemma place_Suc:
  assumes "1 \<le> g" "g < n"
  shows "place n h g (Suc k) = (if place n h g k \<le> g then n + place n h g k - g else place n h g k - g)"
proof -
  define i where "i = place n h g k"
  have i: "1 \<le> i" "i \<le> n" using place_bounds [of n h g k] assms by (auto simp: i_def)
  have "(h - 1 + Suc k * (n - g)) mod n = ((h - 1 + k * (n - g)) mod n + (n - g)) mod n"
    using mod_add_left_eq [of "h - 1 + k * (n - g)" n "n - g"] by (simp add: ac_simps)
  then have "place n h g (Suc k) = (i - 1 + (n - g)) mod n + 1" by (simp add: place_def i_def)
  also have "\<dots> = (if i \<le> g then n + i - g else i - g)"
  proof (cases "i \<le> g")
    case True
    then have "i - 1 + (n - g) < n" using i assms by linarith
    then show ?thesis using True i assms by simp
  next
    case False
    then have e: "i - 1 + (n - g) = (i - 1 - g) + n" "i - 1 - g < n" using i assms by linarith+
    have "(i - 1 - g + n) mod n = i - 1 - g" using e(2) by (simp only: mod_add_self2 mod_less)
    then show ?thesis unfolding e(1) using False by simp
  qed
  finally show ?thesis by (simp add: i_def)
qed

lemma place_inj:
  assumes p: "prime_number n" "1 \<le> g" "g < n" and "place n h g j = place n h g k" "j \<le> k" "k < n"
  shows "j = k"
proof -
  have "(h - 1 + k * (n - g)) mod n = (h - 1 + j * (n - g)) mod n" using assms(4) by (simp add: place_def)
  then have "n dvd (h - 1 + k * (n - g)) - (h - 1 + j * (n - g))"
    using assms(5) by (subst (asm) mod_eq_dvd_iff_nat) auto
  then have d: "n dvd (k - j) * (n - g)" by (simp add: diff_mult_distrib)
  have "coprime n (n - g)"
  proof (rule coprimeI)
    fix c assume c: "c dvd n" "c dvd n - g"
    then have "c \<noteq> n" using p by (auto dest: dvd_imp_le)
    then show "is_unit c" using c(1) p(1) by (auto simp: prime_number_def)
  qed
  then have "n dvd k - j" using d by (simp add: coprime_dvd_mult_left_iff)
  then show ?thesis using assms(5,6) by (cases "k - j") (auto dest: dvd_imp_le)
qed

lemma place_surj:
  assumes p: "prime_number n" "1 \<le> g" "g < n" and i: "1 \<le> i" "i \<le> n"
  shows "\<exists>k<n. place n h g k = i"
proof -
  have n: "0 < n" using assms by linarith
  have "inj_on (place n h g) {..<n}"
    using place_inj [OF p] by (intro inj_onI) (metis lessThan_iff nle_le)
  then have "card (place n h g ` {..<n}) = card {1..n}" by (simp add: card_image)
  moreover have "place n h g ` {..<n} \<subseteq> {1..n}" using place_bounds [OF n] by auto
  ultimately have "place n h g ` {..<n} = {1..n}" by (intro card_subset_eq) auto
  then show ?thesis using i by (metis atLeastAtMost_iff imageE lessThan_iff)
qed

text \<open>The first place and the step of a string.\<close>

definition hstart :: "u32 \<Rightarrow> u8 list \<Rightarrow> nat" where
  "hstart n s = unat (htab_hval n s)"

definition hstep2 :: "u32 \<Rightarrow> u8 list \<Rightarrow> u32" where
  "hstep2 n s = 1 + htab_hval n s mod (n - 2)"

abbreviation splace :: "u32 \<Rightarrow> u8 list \<Rightarrow> nat \<Rightarrow> nat" where
  "splace n s \<equiv> place (unat n) (hstart n s) (unat (hstep2 n s))"

lemma hstart_bounds: "5 \<le> unat n \<Longrightarrow> 1 \<le> hstart n s \<and> hstart n s < unat n"
proof -
  assume n: "5 \<le> unat n"
  let ?r = "if sdbm s = 0 then sdbm s + 1 else sdbm s"
  have "unat (?r mod n) < unat n" using n by (simp add: unat_mod)
  moreover have "htab_hval n s = (if ?r mod n = 0 then 1 else ?r mod n)" by (simp add: htab_hval_def Let_def)
  moreover have "x \<noteq> 0 \<Longrightarrow> 1 \<le> unat x" for x :: u32 by (simp add: Suc_le_eq unat_gt_0)
  ultimately show ?thesis using n by (auto simp: hstart_def)
qed

lemma hstep2_bounds: "5 \<le> unat n \<Longrightarrow> 1 \<le> unat (hstep2 n s) \<and> unat (hstep2 n s) < unat n"
proof -
  assume n: "5 \<le> unat n"
  have "2 \<le> n" using n by (simp add: word_le_nat_alt)
  then have m: "unat (n - 2) = unat n - 2" by (simp add: unat_sub)
  have "unat (htab_hval n s mod (n - 2)) < unat n - 2" using n m by (simp add: unat_mod)
  moreover have "unat (1 + y) = 1 + unat y" if "unat y < unat n - 2" for y :: u32
  proof -
    have "1 + unat y < 4294967296" using that unat_u32_lt [of n] by linarith
    then show ?thesis by (simp add: unat_word_ariths)
  qed
  ultimately show ?thesis using n by (simp add: hstep2_def)
qed

lemma next_index_place:
  assumes "5 \<le> unat n" "unat idx = splace n s k"
  shows "unat (next_index n (hstep2 n s) idx) = splace n s (Suc k)"
proof -
  let ?g = "unat (hstep2 n s)"
  note g = hstep2_bounds [OF assms(1), of s]
  note i = place_bounds [of "unat n" "hstart n s" ?g k]
  have "unat (n + idx - hstep2 n s) = unat n + unat idx - ?g" if "unat idx \<le> ?g"
  proof -
    have lt: "unat n + unat idx - ?g < 4294967296" using that g unat_u32_lt [of n] by linarith
    have "n + idx - hstep2 n s = of_nat (unat n + unat idx - ?g)" using that g by (simp add: of_nat_diff)
    then show ?thesis using lt by (simp add: unat_of_nat)
  qed
  moreover have "unat (idx - hstep2 n s) = unat idx - ?g" if "\<not> unat idx \<le> ?g"
    using that by (intro unat_sub) (simp add: word_le_nat_alt)
  ultimately show ?thesis using place_Suc [of ?g "unat n" "hstart n s" k] g assms(2)
    by (simp add: next_index_def word_le_nat_alt)
qed

text \<open>The loop of the search stops at the first place that ends it.\<close>

lemma htab_probe_stop:
  assumes n: "5 \<le> unat n" "length t = unat n + 1" and "k < K" "unat idx = splace n s k" "K \<le> unat n"
    and "\<And>j. k < j \<Longrightarrow> j < K \<Longrightarrow> splace n s j \<noteq> hstart n s \<and> used (t ! splace n s j) \<noteq> 0 \<and>
          \<not> entry_matches (t ! splace n s j) (htab_hval n s) s"
    and K: "splace n s K = hstart n s \<or> entry_matches (t ! splace n s K) (htab_hval n s) s \<or> used (t ! splace n s K) = 0"
  shows "htab_probe t n s (htab_hval n s) (hstep2 n s) idx = Some (Some (of_nat (splace n s K),
    splace n s K \<noteq> hstart n s \<and> entry_matches (t ! splace n s K) (htab_hval n s) s))"
  using assms(3,4,6)
proof (induction "K - k" arbitrary: k idx rule: less_induct)
  case less
  let ?i = "next_index n (hstep2 n s) idx"
  have i: "unat ?i = splace n s (Suc k)" by (rule next_index_place [OF n(1) less.prems(2)])
  have b: "splace n s (Suc k) < length t" using place_bounds [of "unat n"] n by (simp add: less_Suc_eq_le)
  have eq: "?i = htab_hval n s \<longleftrightarrow> splace n s (Suc k) = hstart n s" by (simp add: word_unat_eq_iff i hstart_def)
  show ?case
  proof (cases "Suc k = K")
    case True
    have "?i = of_nat (splace n s K)" using i True by (metis of_nat_unat ucast_id)
    then show ?thesis using K b eq i True by (subst htab_probe.simps) (auto simp: Let_def)
  next
    case False
    then have lt: "Suc k < K" using less.prems(1) by simp
    have "htab_probe t n s (htab_hval n s) (hstep2 n s) ?i = Some (Some (of_nat (splace n s K),
        splace n s K \<noteq> hstart n s \<and> entry_matches (t ! splace n s K) (htab_hval n s) s))"
      using lt i less.prems(3) by (intro less.hyps) auto
    then show ?thesis using less.prems(3) [of "Suc k"] lt b eq i by (subst htab_probe.simps) (simp add: Let_def)
  qed
qed

section \<open>The invariant\<close>

definition has_string :: "htab_entry list \<Rightarrow> nat \<Rightarrow> u8 list \<Rightarrow> bool" where
  "has_string t i s \<longleftrightarrow> used (t ! i) \<noteq> 0 \<and> str (t ! i) = Some s"

text \<open>Every place in use has a string, one of its places, with all the places before it in use; no string has two places.\<close>

definition entries_ok :: "u32 \<Rightarrow> htab_entry list \<Rightarrow> bool" where
  "entries_ok n t \<longleftrightarrow> length t = unat n + 1 \<and>
     (\<forall>i. 1 \<le> i \<and> i \<le> unat n \<and> used (t ! i) \<noteq> 0 \<longrightarrow>
        (\<exists>s k. str (t ! i) = Some s \<and> used (t ! i) = htab_hval n s \<and> k < unat n \<and> i = splace n s k \<and>
           (\<forall>j<k. used (t ! splace n s j) \<noteq> 0))) \<and>
     (\<forall>i j s. 1 \<le> i \<and> i \<le> unat n \<and> 1 \<le> j \<and> j \<le> unat n \<and> has_string t i s \<and> has_string t j s \<longrightarrow> i = j)"

definition used_places :: "u32 \<Rightarrow> htab_entry list \<Rightarrow> nat set" where
  "used_places n t = {i. 1 \<le> i \<and> i \<le> unat n \<and> used (t ! i) \<noteq> 0}"

definition htab_ok :: "htab_table \<Rightarrow> bool" where
  "htab_ok h \<longleftrightarrow> prime_number (unat (hsize h)) \<and> 5 \<le> unat (hsize h) \<and>
     (\<exists>t. htable h = Some t \<and> entries_ok (hsize h) t \<and> unat (filled h) = card (used_places (hsize h) t))"

text \<open>The abstract view of a table: the index of every string it has.\<close>

definition htab_lookup :: "htab_table \<Rightarrow> u8 list \<Rightarrow> nat option" where
  "htab_lookup h s =
     (case htable h of None \<Rightarrow> None | Some t \<Rightarrow> List.find (\<lambda>i. has_string t i s) [1..<length t])"

lemma entries_okD:
  assumes "entries_ok n t"
  shows "length t = unat n + 1"
    "\<lbrakk> 1 \<le> i; i \<le> unat n; has_string t i s \<rbrakk> \<Longrightarrow>
      used (t ! i) = htab_hval n s \<and> (\<exists>k<unat n. i = splace n s k \<and> (\<forall>j<k. used (t ! splace n s j) \<noteq> 0))"
    "\<lbrakk> 1 \<le> i; i \<le> unat n; used (t ! i) \<noteq> 0 \<rbrakk> \<Longrightarrow> \<exists>s. has_string t i s"
    "\<lbrakk> 1 \<le> i; i \<le> unat n; 1 \<le> j; j \<le> unat n; has_string t i s; has_string t j s \<rbrakk> \<Longrightarrow> i = j"
proof -
  show "length t = unat n + 1" using assms by (simp add: entries_ok_def)
  show "used (t ! i) = htab_hval n s \<and> (\<exists>k<unat n. i = splace n s k \<and> (\<forall>j<k. used (t ! splace n s j) \<noteq> 0))"
    if "1 \<le> i" "i \<le> unat n" "has_string t i s"
    using assms that unfolding entries_ok_def has_string_def by (metis option.inject)
  show "\<exists>s. has_string t i s" if "1 \<le> i" "i \<le> unat n" "used (t ! i) \<noteq> 0"
    using assms that unfolding entries_ok_def has_string_def by metis
  show "i = j" if "1 \<le> i" "i \<le> unat n" "1 \<le> j" "j \<le> unat n" "has_string t i s" "has_string t j s"
    using assms that unfolding entries_ok_def by blast
qed

lemma hval_nonzero: "5 \<le> unat n \<Longrightarrow> htab_hval n s \<noteq> 0"
  using hstart_bounds [of n s] by (auto simp: hstart_def)

lemma matches_string:
  assumes "entries_ok n t" "5 \<le> unat n" "1 \<le> i" "i \<le> unat n"
  shows "entry_matches (t ! i) (htab_hval n s) s \<longleftrightarrow> has_string t i s"
proof
  assume m: "entry_matches (t ! i) (htab_hval n s) s"
  then have "used (t ! i) \<noteq> 0" using hval_nonzero [OF assms(2)] by (simp add: entry_matches_def)
  then obtain s' where "has_string t i s'" using entries_okD(3) [OF assms(1,3,4)] by blast
  with m show "has_string t i s" by (auto simp: has_string_def entry_matches_def safe_str_def)
next
  assume "has_string t i s"
  then show "entry_matches (t ! i) (htab_hval n s) s"
    using entries_okD(2) [OF assms(1,3,4)] by (auto simp: has_string_def entry_matches_def safe_str_def)
qed

lemma lookup_iff:
  assumes "entries_ok (hsize h) t" "htable h = Some t"
  shows "htab_lookup h s = Some i \<longleftrightarrow> 1 \<le> i \<and> i \<le> unat (hsize h) \<and> has_string t i s"
proof
  assume "htab_lookup h s = Some i"
  then have "List.find (\<lambda>i. has_string t i s) [1..<length t] = Some i" using assms(2) by (simp add: htab_lookup_def)
  then have "i \<in> set [1..<length t]" "has_string t i s" by (auto simp only: find_Some_iff nth_mem)
  then show "1 \<le> i \<and> i \<le> unat (hsize h) \<and> has_string t i s" using entries_okD(1) [OF assms(1)] by auto
next
  assume i: "1 \<le> i \<and> i \<le> unat (hsize h) \<and> has_string t i s"
  have "List.find (\<lambda>i. has_string t i s) [1..<length t] \<noteq> None"
    using i entries_okD(1) [OF assms(1)] by (auto simp: find_None_iff)
  then obtain j where j: "List.find (\<lambda>i. has_string t i s) [1..<length t] = Some j" by auto
  then have "j \<in> set [1..<length t]" "has_string t j s" by (auto simp only: find_Some_iff nth_mem)
  then have "j = i" using entries_okD(1,4) [OF assms(1)] i by auto
  with j show "htab_lookup h s = Some i" using assms(2) by (simp add: htab_lookup_def)
qed

section \<open>The search is exact\<close>

lemma htab_find_stop:
  assumes n: "prime_number (unat n)" "5 \<le> unat n" "length t = unat n + 1" and K: "K \<le> unat n"
    and before: "\<And>j. j < K \<Longrightarrow> used (t ! splace n s j) \<noteq> 0 \<and> \<not> entry_matches (t ! splace n s j) (htab_hval n s) s"
    and stop: "K = unat n \<or> entry_matches (t ! splace n s K) (htab_hval n s) s \<or> used (t ! splace n s K) = 0"
  shows "htab_find t n s = Some (Some (of_nat (splace n s K), K < unat n \<and> entry_matches (t ! splace n s K) (htab_hval n s) s))"
proof -
  note b = hstart_bounds [OF n(2), of s] hstep2_bounds [OF n(2), of s]
  have p0: "splace n s 0 = hstart n s" using b by (intro place_0) auto
  have pn: "splace n s (unat n) = hstart n s" using b by (intro place_n) auto
  have again: "splace n s j = hstart n s \<longleftrightarrow> j = unat n" if "0 < j" "j \<le> unat n" for j
    using place_inj [OF n(1), of "unat (hstep2 n s)" "hstart n s" 0 j] b that p0 pn by (cases "j = unat n") auto
  have h: "htab_hval n s = of_nat (hstart n s)" by (simp add: hstart_def)
  have len: "\<not> unat (htab_hval n s) \<ge> length t" using b n(3) by (simp add: hstart_def)
  have nz: "htab_hval n s \<noteq> 0" by (rule hval_nonzero [OF n(2)])
  show ?thesis
  proof (cases "K = 0")
    case True
    then show ?thesis using stop p0 len n(2) nz
      by (auto simp: htab_find_def Let_def hstart_def entry_matches_def)
  next
    case False
    have "htab_probe t n s (htab_hval n s) (hstep2 n s) (htab_hval n s) = Some (Some (of_nat (splace n s K),
        splace n s K \<noteq> hstart n s \<and> entry_matches (t ! splace n s K) (htab_hval n s) s))"
    proof (rule htab_probe_stop [OF n(2,3), of 0])
      show "0 < K" "K \<le> unat n" using False K by auto
      show "unat (htab_hval n s) = splace n s 0" unfolding p0 by (simp add: hstart_def)
      show "splace n s K = hstart n s \<or> entry_matches (t ! splace n s K) (htab_hval n s) s \<or> used (t ! splace n s K) = 0"
        using stop pn by auto
      show "splace n s j \<noteq> hstart n s \<and> used (t ! splace n s j) \<noteq> 0 \<and> \<not> entry_matches (t ! splace n s j) (htab_hval n s) s"
        if "0 < j" "j < K" for j using again [OF that(1)] that(2) K before [OF that(2)] by auto
    qed
    moreover have "splace n s K \<noteq> hstart n s \<longleftrightarrow> K < unat n" using again [of K] False K by auto
    moreover have "used (t ! hstart n s) \<noteq> 0" "\<not> entry_matches (t ! hstart n s) (htab_hval n s) s"
      using before [of 0] False p0 by auto
    ultimately show ?thesis using len by (simp add: htab_find_def Let_def hstart_def hstep2_def)
  qed
qed

lemma htab_find_present:
  assumes "prime_number (unat n)" "5 \<le> unat n" "entries_ok n t" "1 \<le> i" "i \<le> unat n" "has_string t i s"
  shows "htab_find t n s = Some (Some (of_nat i, True))"
proof -
  obtain k where k: "k < unat n" "i = splace n s k" "\<forall>j<k. used (t ! splace n s j) \<noteq> 0"
    using entries_okD(2) [OF assms(3-6)] by blast
  have pb: "1 \<le> splace n s j \<and> splace n s j \<le> unat n" for j using assms(2) by (intro place_bounds) simp
  note g = hstep2_bounds [OF assms(2), of s]
  have m: "entry_matches (t ! splace n s j) (htab_hval n s) s \<longleftrightarrow> has_string t (splace n s j) s" for j
    using matches_string [OF assms(3,2)] pb by blast
  have "\<not> has_string t (splace n s j) s" if "j < k" for j
  proof
    assume "has_string t (splace n s j) s"
    then have "splace n s j = splace n s k" using entries_okD(4) [OF assms(3) _ _ assms(4,5) _ assms(6)] pb k(2) by blast
    then have "j = k" using place_inj [OF assms(1), of "unat (hstep2 n s)" "hstart n s" j k] g that k(1) by simp
    with that show False by simp
  qed
  then have "htab_find t n s = Some (Some (of_nat (splace n s k), k < unat n \<and> entry_matches (t ! splace n s k) (htab_hval n s) s))"
    using k assms(6) by (intro htab_find_stop [OF assms(1,2) entries_okD(1) [OF assms(3)]]) (auto simp: m)
  then show ?thesis using k(1,2) assms(6) by (simp add: m)
qed

lemma htab_find_absent:
  assumes "prime_number (unat n)" "5 \<le> unat n" "entries_ok n t" "\<And>i. 1 \<le> i \<Longrightarrow> i \<le> unat n \<Longrightarrow> \<not> has_string t i s"
    and "1 \<le> i" "i \<le> unat n" "used (t ! i) = 0"
  shows "\<exists>K<unat n. htab_find t n s = Some (Some (of_nat (splace n s K), False)) \<and> used (t ! splace n s K) = 0 \<and>
    (\<forall>j<K. used (t ! splace n s j) \<noteq> 0)"
proof -
  have pb: "1 \<le> splace n s j \<and> splace n s j \<le> unat n" for j using assms(2) by (intro place_bounds) simp
  note g = hstep2_bounds [OF assms(2), of s]
  obtain k where k: "k < unat n" "used (t ! splace n s k) = 0"
    using place_surj [OF assms(1) _ _ assms(5,6), of "unat (hstep2 n s)" "hstart n s"] g assms(7) by auto
  define K where "K = (LEAST k. used (t ! splace n s k) = 0)"
  have K: "used (t ! splace n s K) = 0" "K \<le> k" "\<forall>j<K. used (t ! splace n s j) \<noteq> 0"
    unfolding K_def using LeastI [of "\<lambda>k. used (t ! splace n s k) = 0", OF k(2)]
      Least_le [of "\<lambda>k. used (t ! splace n s k) = 0", OF k(2)] by (simp, simp, blast dest: not_less_Least)
  have m: "\<not> entry_matches (t ! splace n s j) (htab_hval n s) s" for j
    using matches_string [OF assms(3,2)] assms(4) pb by blast
  have "htab_find t n s = Some (Some (of_nat (splace n s K), K < unat n \<and> entry_matches (t ! splace n s K) (htab_hval n s) s))"
    using K k(1) m by (intro htab_find_stop [OF assms(1,2) entries_okD(1) [OF assms(3)]]) auto
  then show ?thesis using K k(1) m by (intro exI [of _ K]) auto
qed

section \<open>A new string\<close>

lemma entries_ok_insert:
  assumes "5 \<le> unat n" "entries_ok n t" "\<And>i. 1 \<le> i \<Longrightarrow> i \<le> unat n \<Longrightarrow> \<not> has_string t i s"
    and K: "K < unat n" "used (t ! splace n s K) = 0" "\<forall>j<K. used (t ! splace n s j) \<noteq> 0"
    and e: "used e = htab_hval n s" "str e = Some s"
  defines "i \<equiv> splace n s K"
  shows "entries_ok n (t[i := e])" "has_string (t[i := e]) x s' \<longleftrightarrow> (if x = i then s' = s else has_string t x s')"
    "card (used_places n (t[i := e])) = card (used_places n t) + 1"
proof -
  let ?t = "t[i := e]"
  have pb: "1 \<le> splace n r j \<and> splace n r j \<le> unat n" for r j using assms(1) by (intro place_bounds) simp
  have i: "1 \<le> i" "i \<le> unat n" using pb by (auto simp: i_def)
  have len: "length t = unat n + 1" by (rule entries_okD(1) [OF assms(2)])
  have nth: "?t ! x = (if x = i then e else t ! x)" for x using i len by (simp add: nth_list_update)
  have nz: "used e \<noteq> 0" using hval_nonzero [OF assms(1)] by (simp add: e(1))
  have keep: "used (t ! x) \<noteq> 0 \<Longrightarrow> used (?t ! x) \<noteq> 0" for x using nz by (simp add: nth)
  show h: "has_string ?t x s' \<longleftrightarrow> (if x = i then s' = s else has_string t x s')" for x s' using nz e(2) by (auto simp: has_string_def nth)
  have "\<exists>r k. str (?t ! x) = Some r \<and> used (?t ! x) = htab_hval n r \<and> k < unat n \<and> x = splace n r k \<and>
      (\<forall>j<k. used (?t ! splace n r j) \<noteq> 0)" if x: "1 \<le> x" "x \<le> unat n" "used (?t ! x) \<noteq> 0" for x
  proof (cases "x = i")
    case True
    have "\<forall>j<K. used (?t ! splace n s j) \<noteq> 0" using K(3) keep by blast
    moreover have "str (?t ! x) = Some s" "used (?t ! x) = htab_hval n s" using True e by (simp_all add: nth)
    moreover have "x = splace n s K" using True by (simp add: i_def)
    ultimately show ?thesis using K(1) by blast
  next
    case False
    then have u: "used (t ! x) \<noteq> 0" using x(3) by (simp add: nth)
    then obtain r where r: "has_string t x r" using entries_okD(3) [OF assms(2) x(1,2)] by blast
    obtain k where k: "used (t ! x) = htab_hval n r" "k < unat n" "x = splace n r k" "\<forall>j<k. used (t ! splace n r j) \<noteq> 0"
      using entries_okD(2) [OF assms(2) x(1,2) r] by blast
    have "\<forall>j<k. used (?t ! splace n r j) \<noteq> 0" using k(4) keep by blast
    moreover have "str (?t ! x) = Some r" "used (?t ! x) = htab_hval n r" using r k(1) False by (auto simp: has_string_def nth)
    ultimately show ?thesis using k(2,3) by blast
  qed
  moreover have "x = y" if "1 \<le> x" "x \<le> unat n" "1 \<le> y" "y \<le> unat n" "has_string ?t x r" "has_string ?t y r" for x y r
    using that(5,6) entries_okD(4) [OF assms(2) that(1-4)] assms(3) that(1-4) unfolding h by (auto split: if_splits)
  ultimately show "entries_ok n ?t" unfolding entries_ok_def using len by auto
  have "used_places n ?t = insert i (used_places n t)" using nz i by (auto simp: used_places_def nth)
  moreover have "i \<notin> used_places n t" using K(2) by (simp add: used_places_def i_def)
  moreover have "finite (used_places n t)" by (simp add: used_places_def)
  ultimately show "card (used_places n ?t) = card (used_places n t) + 1" by simp
qed

text \<open>What a call does, for a table that satisfies the invariant.\<close>

lemma htab_hash_present:
  assumes "htab_ok h" "htab_lookup h s = Some i"
  shows "htab_hash alloc (Some s) (Some h) = Some (Some (of_nat i, Some h)) \<and> unat (of_nat i :: u32) = i \<and> 1 \<le> i"
proof -
  obtain t where t: "prime_number (unat (hsize h))" "5 \<le> unat (hsize h)" "htable h = Some t" "entries_ok (hsize h) t"
    using assms(1) by (auto simp: htab_ok_def)
  have i: "1 \<le> i" "i \<le> unat (hsize h)" "has_string t i s" using lookup_iff [OF t(4,3)] assms(2) by auto
  have "i < 4294967296" using i(2) unat_u32_lt [of "hsize h"] by linarith
  then show ?thesis using htab_find_present [OF t(1,2,4) i] t(3) i(1) by (simp add: htab_hash_def unat_of_nat)
qed

lemma htab_hash_full:
  assumes "htab_ok h" "htab_lookup h s = None" "\<not> filled h < hsize h"
  shows "htab_hash alloc (Some s) (Some h) = Some (Some (0, Some h))"
proof -
  obtain t where t: "prime_number (unat (hsize h))" "5 \<le> unat (hsize h)" "htable h = Some t" "entries_ok (hsize h) t"
    "unat (filled h) = card (used_places (hsize h) t)"
    using assms(1) by (auto simp: htab_ok_def)
  let ?n = "hsize h"
  have "used_places ?n t \<subseteq> {1..unat ?n}" by (auto simp: used_places_def)
  moreover have "card {1..unat ?n} \<le> card (used_places ?n t)" using assms(3) t(5) by (simp add: word_less_nat_alt)
  ultimately have all: "used_places ?n t = {1..unat ?n}" by (intro card_seteq) auto
  have none: "\<not> has_string t i s" if "1 \<le> i" "i \<le> unat ?n" for i using lookup_iff [OF t(4,3), of s i] assms(2) that by simp
  have pb: "1 \<le> splace ?n s j \<and> splace ?n s j \<le> unat ?n" for j using t(2) by (intro place_bounds) simp
  have "splace ?n s j \<in> used_places ?n t" for j unfolding all using pb by simp
  then have u: "used (t ! splace ?n s j) \<noteq> 0" for j by (simp add: used_places_def)
  have m: "\<not> entry_matches (t ! splace ?n s j) (htab_hval ?n s) s" for j
    using matches_string [OF t(4,2)] none pb by blast
  have "htab_find t ?n s = Some (Some (of_nat (splace ?n s (unat ?n)), False))"
    using htab_find_stop [OF t(1,2) entries_okD(1) [OF t(4)], of "unat ?n" s] u m by simp
  then show ?thesis using t(3) assms(3) by (simp add: htab_hash_def)
qed

lemma htab_hash_new:
  assumes "htab_ok h" "htab_lookup h s = None" "filled h < hsize h"
  shows "\<exists>idx h'. htab_hash True (Some s) (Some h) = Some (Some (idx, Some h')) \<and> htab_ok h' \<and> hsize h' = hsize h \<and>
    1 \<le> unat idx \<and> unat idx \<le> unat (hsize h) \<and> filled h' = filled h + 1 \<and>
    (\<forall>r. htab_lookup h r \<noteq> Some (unat idx)) \<and> htab_lookup h' = (htab_lookup h)(s \<mapsto> unat idx)"
proof -
  obtain t where t: "prime_number (unat (hsize h))" "5 \<le> unat (hsize h)" "htable h = Some t" "entries_ok (hsize h) t"
    "unat (filled h) = card (used_places (hsize h) t)"
    using assms(1) by (auto simp: htab_ok_def)
  let ?n = "hsize h"
  have none: "\<not> has_string t i s" if "1 \<le> i" "i \<le> unat ?n" for i using lookup_iff [OF t(4,3), of s i] assms(2) that by simp
  have "card (used_places ?n t) < card {1..unat ?n}" using assms(3) t(5) by (simp add: word_less_nat_alt)
  moreover have "finite (used_places ?n t)" by (simp add: used_places_def)
  ultimately have "\<not> {1..unat ?n} \<subseteq> used_places ?n t" using card_mono [of "used_places ?n t" "{1..unat ?n}"] by linarith
  then obtain i where "i \<in> {1..unat ?n}" "i \<notin> used_places ?n t" by blast
  then have i: "1 \<le> i" "i \<le> unat ?n" "used (t ! i) = 0" by (auto simp: used_places_def)
  obtain K where K: "K < unat ?n" "htab_find t ?n s = Some (Some (of_nat (splace ?n s K), False))"
    "used (t ! splace ?n s K) = 0" "\<forall>j<K. used (t ! splace ?n s j) \<noteq> 0"
    using htab_find_absent [OF t(1,2,4) none i] by blast
  define x where "x = splace ?n s K"
  have x: "1 \<le> x" "x \<le> unat ?n" using place_bounds [of "unat ?n"] t(2) by (auto simp: x_def)
  then have "x < 4294967296" using unat_u32_lt [of ?n] by linarith
  then have ux: "unat (of_nat x :: u32) = x" by (simp add: unat_of_nat)
  let ?e = "(t ! x)\<lparr>used := htab_hval ?n s, str := Some s\<rparr>"
  let ?h = "h\<lparr>htable := Some (t[x := ?e]), filled := filled h + 1\<rparr>"
  note ins = entries_ok_insert [OF t(2,4) none K(1,3,4), of ?e, folded x_def]
  have ok': "entries_ok ?n (t[x := ?e])" and h': "has_string (t[x := ?e]) y r \<longleftrightarrow> (if y = x then r = s else has_string t y r)"
    and card': "card (used_places ?n (t[x := ?e])) = card (used_places ?n t) + 1" for y r using ins by simp_all
  have "unat (filled h + 1) = unat (filled h) + 1"
  proof -
    have "unat (filled h) < unat ?n" using assms(3) by (simp add: word_less_nat_alt)
    then have "unat (filled h) + 1 < 4294967296" using unat_u32_lt [of ?n] by linarith
    then show ?thesis by (simp add: unat_word_ariths)
  qed
  then have "htab_ok ?h" using t(1,2,5) ok' card' by (simp add: htab_ok_def)
  moreover have "htab_hash True (Some s) (Some h) = Some (Some (of_nat x, Some ?h))"
    using K(2) t(3) assms(3) ux by (simp add: htab_hash_def htab_insert_def Let_def x_def)
  moreover have fresh: "\<not> has_string t x r" for r using K(3) by (simp add: has_string_def x_def)
  then have "\<forall>r. htab_lookup h r \<noteq> Some x" using lookup_iff [OF t(4,3)] by blast
  moreover have "htab_lookup ?h = (htab_lookup h)(s \<mapsto> x)"
  proof
    fix r
    have new: "htab_lookup ?h r = Some y \<longleftrightarrow> 1 \<le> y \<and> y \<le> unat ?n \<and> has_string (t[x := ?e]) y r" for y
      using lookup_iff [of ?h "t[x := ?e]" r y] ok' by simp
    have old: "htab_lookup h r = Some y \<longleftrightarrow> 1 \<le> y \<and> y \<le> unat ?n \<and> has_string t y r" for y
      by (rule lookup_iff [OF t(4,3)])
    show "htab_lookup ?h r = ((htab_lookup h)(s \<mapsto> x)) r"
    proof (cases "r = s")
      case True
      then show ?thesis using new [of x] x h' by simp
    next
      case False
      then have "htab_lookup ?h r = Some y \<longleftrightarrow> htab_lookup h r = Some y" for y using new old h' fresh by auto
      then show ?thesis using False by (metis fun_upd_other not_Some_eq)
    qed
  qed
  ultimately show ?thesis using x ux by (intro exI [of _ "of_nat x"] exI [of _ ?h]) simp
qed

section \<open>What the users of a table rely on\<close>

text \<open>
  The interface: a call gives a string the index it has or a new one, and fails with 0 when there is no room. The lemmas
  are what the users of \<open>htab_hash\<close> need, who keep data under the index: it stays the same over all later calls, and no other
  string gets it.
\<close>

locale string_index =
  fixes call :: "'h \<Rightarrow> 's \<Rightarrow> nat \<times> 'h" and lookup :: "'h \<Rightarrow> 's \<Rightarrow> nat option" and ok :: "'h \<Rightarrow> bool"
  assumes present: "ok h \<Longrightarrow> lookup h s = Some i \<Longrightarrow> call h s = (i, h)"
    and absent: "ok h \<Longrightarrow> lookup h s = None \<Longrightarrow> call h s = (0, h) \<or>
      ok (snd (call h s)) \<and> (\<forall>r. lookup h r \<noteq> Some (fst (call h s))) \<and> lookup (snd (call h s)) = (lookup h)(s \<mapsto> fst (call h s))"
    and one_place: "ok h \<Longrightarrow> lookup h s = Some i \<Longrightarrow> lookup h r = Some i \<Longrightarrow> s = r"
begin

lemma call_ok: "ok h \<Longrightarrow> ok (snd (call h s))"
  using present [of h s] absent [of h s] by (cases "lookup h s") auto

lemma call_keeps: "ok h \<Longrightarrow> lookup h r = Some i \<Longrightarrow> lookup (snd (call h s)) r = Some i"
  using present [of h s] absent [of h s] by (cases "lookup h s"; cases "r = s") auto

lemma call_result: "ok h \<Longrightarrow> call h s = (i, h') \<Longrightarrow> i \<noteq> 0 \<Longrightarrow> lookup h' s = Some i"
  using present [of h s] absent [of h s] by (cases "lookup h s") auto

lemma calls_ok: "ok h \<Longrightarrow> ok (foldl (\<lambda>h s. snd (call h s)) h ss)"
  by (induction ss arbitrary: h) (simp_all add: call_ok)

lemma calls_keep: "ok h \<Longrightarrow> lookup h r = Some i \<Longrightarrow> lookup (foldl (\<lambda>h s. snd (call h s)) h ss) r = Some i"
  by (induction ss arbitrary: h) (simp_all add: call_ok call_keeps)

lemma same_index:
  assumes "ok h" "call h s = (i, h1)" "i \<noteq> 0" "call (foldl (\<lambda>h s. snd (call h s)) h1 ss) r = (j, h2)" "j \<noteq> 0"
  shows "j = i \<longleftrightarrow> r = s"
proof -
  let ?h = "foldl (\<lambda>h s. snd (call h s)) h1 ss"
  have h1: "ok h1" "lookup h1 s = Some i" using call_ok [OF assms(1), of s] call_result [OF assms(1-3)] assms(2) by auto
  have h: "ok ?h" "lookup ?h s = Some i" using calls_ok [OF h1(1)] calls_keep [OF h1] by auto
  have "snd (call ?h r) = h2" by (simp only: assms(4) snd_conv)
  then have h2: "ok h2" "lookup h2 s = Some i" using call_ok [OF h(1), of r] call_keeps [OF h, of r] by (simp_all only:)
  have r: "lookup h2 r = Some j" by (rule call_result [OF h(1) assms(4,5)])
  show ?thesis
  proof
    assume "j = i"
    with one_place [OF h2, of r] r show "r = s" by simp
  next
    assume "r = s"
    with h2(2) r show "j = i" by simp
  qed
qed

end

text \<open>A call and a sequence of calls, with memory for the strings.\<close>

definition htab_call :: "htab_table \<Rightarrow> u8 list \<Rightarrow> nat \<times> htab_table" where
  "htab_call h s =
     (case htab_hash True (Some s) (Some h) of Some (Some (idx, Some h')) \<Rightarrow> (unat idx, h') | _ \<Rightarrow> (0, h))"

definition htab_calls :: "htab_table \<Rightarrow> u8 list list \<Rightarrow> htab_table" where
  "htab_calls h ss = foldl (\<lambda>h s. snd (htab_call h s)) h ss"

lemma lookup_one_place:
  assumes "htab_ok h" "htab_lookup h s = Some i" "htab_lookup h r = Some i"
  shows "s = r"
proof -
  obtain t where t: "htable h = Some t" "entries_ok (hsize h) t" using assms(1) by (auto simp: htab_ok_def)
  show ?thesis using lookup_iff [OF t(2,1)] assms(2,3) by (auto simp: has_string_def)
qed

interpretation htab: string_index htab_call htab_lookup htab_ok
proof
  fix h s i
  assume "htab_ok h" "htab_lookup h s = Some i"
  from htab_hash_present [OF this, of True] show "htab_call h s = (i, h)" by (auto simp: htab_call_def)
next
  fix h s
  assume h: "htab_ok h" "htab_lookup h s = None"
  show "htab_call h s = (0, h) \<or> htab_ok (snd (htab_call h s)) \<and> (\<forall>r. htab_lookup h r \<noteq> Some (fst (htab_call h s))) \<and>
      htab_lookup (snd (htab_call h s)) = (htab_lookup h)(s \<mapsto> fst (htab_call h s))"
  proof (cases "filled h < hsize h")
    case True
    from htab_hash_new [OF h this] show ?thesis by (auto simp: htab_call_def)
  next
    case False
    from htab_hash_full [OF h this, of True] show ?thesis by (simp add: htab_call_def)
  qed
qed (rule lookup_one_place)

text \<open>C26. \<open>htab_hash\<close> on a table that satisfies the invariant always returns, without leaving the table: for a string that is
  there it returns its index and changes nothing; for a new string, as long as there is room, it returns an index no string has,
  and afterwards the table has the new string under it and the others as before; with no room it returns 0. The
  invariant is kept.\<close>

theorem htab_hash_correct:
  assumes "htab_ok h"
  shows "\<exists>idx h'. htab_hash True (Some s) (Some h) = Some (Some (idx, Some h')) \<and> htab_ok h' \<and> hsize h' = hsize h \<and>
    (case htab_lookup h s of
       Some i \<Rightarrow> unat idx = i \<and> h' = h
     | None \<Rightarrow>
         if filled h < hsize h
         then 1 \<le> unat idx \<and> unat idx \<le> unat (hsize h) \<and> filled h' = filled h + 1 \<and>
           (\<forall>r. htab_lookup h r \<noteq> Some (unat idx)) \<and> htab_lookup h' = (htab_lookup h)(s \<mapsto> unat idx)
         else idx = 0 \<and> h' = h)"
proof (cases "htab_lookup h s")
  case None
  then show ?thesis using htab_hash_new [OF assms None] htab_hash_full [OF assms None, of True] assms
    by (cases "filled h < hsize h") auto
next
  case (Some i)
  from htab_hash_present [OF assms Some, of True] show ?thesis using Some assms by auto
qed

text \<open>C25. The index of a string identifies it, whatever is looked up in between: after a call for \<open>s\<close> that returned the
  index \<open>i\<close> and any further calls, a call that succeeds returns \<open>i\<close> again exactly when it is for the same string.\<close>

theorem htab_index_stable:
  assumes "htab_ok h" "htab_call h s = (i, h1)" "i \<noteq> 0" "htab_call (htab_calls h1 ss) r = (j, h2)" "j \<noteq> 0"
  shows "j = i \<longleftrightarrow> r = s"
  using assms unfolding htab_calls_def by (rule htab.same_index)

section \<open>A new table\<close>

lemma new_table_ok:
  assumes "prime_number (unat n)" "5 \<le> unat n"
  defines "h \<equiv> \<lparr>htable = Some (replicate (unat (n + 1)) free_entry), hsize = n, filled = 0\<rparr>"
  shows "unat n + 1 < 4294967296 \<Longrightarrow> htab_ok h" "htab_lookup h s = None"
proof -
  have u: "used free_entry = 0" by (simp add: free_entry_def)
  show "htab_lookup h s = None" by (auto simp: h_def htab_lookup_def find_None_iff has_string_def u)
  assume "unat n + 1 < 4294967296"
  then have n1: "unat (n + 1) = unat n + 1" by (simp add: unat_word_ariths)
  have "used_places n (replicate (unat n + 1) free_entry) = {}" by (auto simp: used_places_def u)
  moreover have "entries_ok n (replicate (unat n + 1) free_entry)" by (auto simp: entries_ok_def u has_string_def)
  ultimately show "htab_ok h" using assms(1,2) by (simp only: htab_ok_def h_def n1 htab_table.simps) simp
qed

lemma nel_odd: "odd (unat (nel OR 1 :: u32))" "unat nel \<le> unat (nel OR 1)"
proof -
  have o: "nel OR 1 = nel + of_bool (even nel)" by (rule or_one_eq)
  have e: "even (unat x) \<longleftrightarrow> even x" for x :: u32 by (simp add: even_iff_mod_2_eq_zero word_unat_eq_iff unat_mod)
  show "odd (unat (nel OR 1))" unfolding e o by simp
  show "unat nel \<le> unat (nel OR 1)"
  proof (cases "even nel")
    case True
    then have "unat nel \<noteq> 4294967295" using e [of nel] by auto
    then have "unat nel + 1 < 4294967296" using unat_u32_lt [of nel] by linarith
    then show ?thesis unfolding o using True by (simp add: unat_word_ariths)
  qed (simp add: o)
qed

text \<open>\<open>htab_create\<close> for four or more elements: it returns, provided that there is a prime to be found in the range where
  the prime test does not overflow; the size of the table is a prime, not smaller than what was asked for and not
  above the next prime, and the table satisfies the invariant and is empty.\<close>

theorem htab_create_correct:
  assumes "4 \<le> unat nel" "unat (nel OR 1) \<le> p" "p \<le> 65535 * 65535" "prime_number p" "htable h = None"
  shows "\<exists>h'. htab_create True nel (Some h) = Some (True, Some h') \<and> htab_ok h' \<and> prime_number (unat (hsize h')) \<and>
    unat nel \<le> unat (hsize h') \<and> unat (hsize h') \<le> p \<and> htab_lookup h' = Map.empty"
proof -
  have "unat (nel OR 1) \<noteq> 4" using nel_odd(1) [of nel] by auto
  then have "5 \<le> unat (nel OR 1)" using nel_odd(2) [of nel] assms(1) by linarith
  from htab_size_prime [OF nel_odd(1) this assms(2-4)] obtain n where
    n: "htab_size (nel OR 1) = Some n" "prime_number (unat n)" "unat (nel OR 1) \<le> unat n" "unat n \<le> p" by blast
  let ?h = "\<lparr>htable = Some (replicate (unat (n + 1)) free_entry), hsize = n, filled = 0\<rparr>"
  have "5 \<le> unat n" "unat n + 1 < 4294967296" using n(3,4) \<open>5 \<le> unat (nel OR 1)\<close> assms(3) by linarith+
  note new = new_table_ok [OF n(2) this(1)] 
  have "htab_create True nel (Some h) = Some (True, Some ?h)"
    using n(1) assms(5) by (cases h) (simp add: htab_create_def)
  moreover have "htab_ok ?h" "htab_lookup ?h = Map.empty" using new \<open>unat n + 1 < 4294967296\<close> by (auto simp: fun_eq_iff)
  ultimately show ?thesis using n(2-4) nel_odd(2) [of nel] by (intro exI [of _ ?h]) auto
qed


section \<open>Witnesses\<close>

lemma loc_size_prime: "prime_number 1031"
proof -
  have "isprime 1031 = Some (prime_number (unat (1031 :: u32)))" by (rule isprime_correct) simp_all
  moreover have "isprime 1031 = Some True" by (simp add: isprime_def isprime_loop.simps)
  ultimately show ?thesis by simp
qed

text \<open>The table of the localisation messages, which asks for 1031 elements.\<close>

theorem htab_create_correct_witness:
  "prime_number 1031 \<and> htable HTAB_EMPTY = None \<and>
   (\<exists>h'. htab_create True 1031 (Some HTAB_EMPTY) = Some (True, Some h') \<and> htab_ok h' \<and> prime_number (unat (hsize h')) \<and>
      unat (1031 :: u32) \<le> unat (hsize h') \<and> unat (hsize h') \<le> 1031 \<and> htab_lookup h' = Map.empty)"
proof -
  have "htable HTAB_EMPTY = None" by (simp add: HTAB_EMPTY_def)
  with htab_create_correct [of 1031 1031 HTAB_EMPTY] loc_size_prime show ?thesis by simp
qed

definition loc_table :: htab_table where
  "loc_table = \<lparr>htable = Some (replicate (unat ((1031 :: u32) + 1)) free_entry), hsize = 1031, filled = 0\<rparr>"

lemma loc_table_ok: "htab_ok loc_table" "htab_lookup loc_table s = None" "filled loc_table = 0" "hsize loc_table = 1031"
proof -
  have p: "prime_number (unat (1031 :: u32))" "5 \<le> unat (1031 :: u32)" using loc_size_prime by simp_all
  show "htab_ok loc_table" "htab_lookup loc_table s = None" unfolding loc_table_def using new_table_ok [OF p] by simp_all
qed (simp_all add: loc_table_def)

theorem htab_hash_correct_witness:
  "htab_ok loc_table \<and>
   (\<exists>idx h'. htab_hash True (Some [0x61]) (Some loc_table) = Some (Some (idx, Some h')) \<and> htab_ok h' \<and>
      1 \<le> unat idx \<and> htab_lookup h' [0x61] = Some (unat idx))"
  using htab_hash_correct [OF loc_table_ok(1), of "[0x61]"] loc_table_ok by auto

theorem htab_index_stable_witness:
  "\<exists>i h1 j h2. htab_ok loc_table \<and> htab_call loc_table [0x61] = (i, h1) \<and> i \<noteq> 0 \<and>
     htab_call (htab_calls h1 []) [0x62] = (j, h2) \<and> j \<noteq> 0 \<and> (j = i \<longleftrightarrow> [0x62] = ([0x61] :: u8 list))"
proof -
  have l: "htab_lookup loc_table [0x61] = None" "filled loc_table < hsize loc_table" using loc_table_ok by simp_all
  obtain idx h1 where 1: "htab_hash True (Some [0x61]) (Some loc_table) = Some (Some (idx, Some h1))" "htab_ok h1"
    "hsize h1 = 1031" "filled h1 = 1" "1 \<le> unat idx" "htab_lookup h1 = (htab_lookup loc_table)([0x61] \<mapsto> unat idx)"
    using htab_hash_new [OF loc_table_ok(1) l] loc_table_ok(3,4) by auto
  have "htab_lookup h1 [0x62] = None" "filled h1 < hsize h1" using 1 loc_table_ok(2) by simp_all
  then obtain idx' h2 where 2: "htab_hash True (Some [0x62]) (Some h1) = Some (Some (idx', Some h2))" "1 \<le> unat idx'"
    using htab_hash_new [OF 1(2)] by blast
  have c: "htab_call loc_table [0x61] = (unat idx, h1)" "htab_call (htab_calls h1 []) [0x62] = (unat idx', h2)"
    using 1(1) 2(1) by (simp_all add: htab_call_def htab_calls_def)
  have nz: "unat idx \<noteq> 0" "unat idx' \<noteq> 0" using 1(5) 2(2) by linarith+
  from htab_index_stable [OF loc_table_ok(1) c(1) nz(1) c(2) nz(2)] loc_table_ok(1) c nz show ?thesis by blast
qed

text \<open>Without memory for its string an entry stays in use but is not counted, and can be found as the string \<open><NULL>\<close> only.\<close>

lemma failed_string_not_counted:
  assumes "htable h = Some t" "htab_find t (hsize h) s = Some (Some (idx, False))" "filled h < hsize h"
  shows "\<exists>h'. htab_hash False (Some s) (Some h) = Some (Some (0, Some h')) \<and> filled h' = filled h"
  using assms by (simp add: htab_hash_def htab_insert_def Let_def)

end
