(* ===== verification/Drive_IO.thy ===== *)
theory Drive_IO
  imports Digest_Words "HOL-Library.Monad_Syntax"
begin

text \<open>
  Sector access: \<open>WriteFileWithRetry\<close> of \<open>src/src/stdio.c\<close>, \<open>write_sectors\<close> and \<open>read_sectors\<close> of
  \<open>src/src/ms-sys/file.c\<close>. The operating system and the drive behind it are a parameter, the record \<open>host\<close> over a state of
  the outside world; \<open>None\<close> is an access outside of a buffer.
\<close>

section \<open>The operating system\<close>

text \<open>
  \<open>set_pointer\<close> and \<open>get_pointer\<close> are \<open>SetFilePointerEx\<close> from the start and from the current position. \<open>write_file\<close> is
  \<open>WriteFile\<close> at an offset: it succeeds with a number of bytes written, or fails with the number and whether the error is
  \<open>ERROR_DISK_FULL\<close>. \<open>read_file\<close> is \<open>ReadFile\<close> at the current position: whether it succeeds, and the bytes it stored.
  \<open>pause\<close> is \<open>Sleep\<close>, \<open>error_status\<close> the variable \<open>ErrorStatus\<close> the user interface sets, \<open>timer\<close> whether the timer elapsed
  since it was looked at before, and \<open>memory\<close> whether an allocation succeeds.
\<close>

datatype write_result = Wrote nat | Write_Failed nat bool

record 'w host =
  set_pointer :: "u64 \<Rightarrow> 'w \<Rightarrow> bool \<times> 'w"
  get_pointer :: "'w \<Rightarrow> u64 option"
  write_file :: "u64 \<Rightarrow> u8 list \<Rightarrow> 'w \<Rightarrow> write_result \<times> 'w"
  read_file :: "nat \<Rightarrow> 'w \<Rightarrow> (bool \<times> u8 list) \<times> 'w"
  pause :: "'w \<Rightarrow> 'w"
  error_status :: "'w \<Rightarrow> u32"
  timer :: "'w \<Rightarrow> bool"
  memory :: "'w \<Rightarrow> bool"

definition WRITE_RETRIES :: nat where
  "WRITE_RETRIES = 4"

text \<open>\<open>HRESULT_CODE(ErrorStatus) == ERROR_CANCELLED\<close>\<close>

definition user_cancelled :: "'w host \<Rightarrow> 'w \<Rightarrow> bool" where
  "user_cancelled h w \<longleftrightarrow> error_status h w AND 0xFFFF = 1223"

section \<open>Writing with retries\<close>

text \<open>The loop over the tries that are left; the result and the number of bytes of the last try.\<close>

fun write_tries :: "'w host \<Rightarrow> bool \<Rightarrow> u64 \<Rightarrow> u8 list \<Rightarrow> nat \<Rightarrow> nat \<Rightarrow> 'w \<Rightarrow> (bool \<times> nat) \<times> 'w" where
  "write_tries h large_drive off data 0 written w = ((False, written), w)"
| "write_tries h large_drive off data (Suc n) written w =
     (if user_cancelled h w then ((False, written), w)
      else case write_file h off data w of
        (Wrote k, w') \<Rightarrow>
          if k = length data then ((True, k), w')
          else if large_drive \<and> k = 0 then ((True, k), w')
          else write_tries h large_drive off data n k (if n \<noteq> 0 then pause h w' else w')
      | (Write_Failed k disk_full, w') \<Rightarrow>
          if disk_full \<or> user_cancelled h w' then ((False, k), w')
          else write_tries h large_drive off data n k (if n \<noteq> 0 then pause h w' else w'))"

definition WriteFileWithRetry :: "'w host \<Rightarrow> bool \<Rightarrow> u8 list \<Rightarrow> nat \<Rightarrow> nat \<Rightarrow> 'w \<Rightarrow> (bool \<times> nat) \<times> 'w" where
  "WriteFileWithRetry h large_drive data written nNumRetries w =
     (case get_pointer h w of
        None \<Rightarrow> ((False, written), w)
      | Some off \<Rightarrow> write_tries h large_drive off data (if nNumRetries = 0 then 1 else nNumRetries) written w)"

section \<open>Sectors\<close>

definition write_sectors ::
    "'w host \<Rightarrow> bool \<Rightarrow> u64 \<Rightarrow> u64 \<Rightarrow> u64 \<Rightarrow> u8 list \<Rightarrow> 'w \<Rightarrow> (int \<times> 'w) option" where
  "write_sectors h large_drive SectorSize StartSector nSectors pBuf w =
     (if nSectors * SectorSize > 0xFFFFFFFF then Some (- 1, w)
      else
        let Size = unat (nSectors * SectorSize) in
        case set_pointer h (StartSector * SectorSize) w of
          (False, w) \<Rightarrow> Some (- 1, w)
        | (True, w) \<Rightarrow> do {
            data \<leftarrow> rd_span pBuf 0 Size;
            let ((r, written), w) = WriteFileWithRetry h large_drive data Size WRITE_RETRIES w;
            if \<not> r then Some (- 1, w)
            else if written \<noteq> Size then
              if large_drive \<and> written = 0 then Some (0, w) else Some (- 1, w)
            else Some (int written, w)
          })"

text \<open>The number of bytes read or -1, and the buffer with the bytes read at its start.\<close>

definition read_sectors ::
    "'w host \<Rightarrow> u64 \<Rightarrow> u64 \<Rightarrow> u64 \<Rightarrow> u8 list \<Rightarrow> 'w \<Rightarrow> (int \<times> u8 list \<times> 'w) option" where
  "read_sectors h SectorSize StartSector nSectors pBuf w =
     (if nSectors * SectorSize > 0xFFFFFFFF then Some (- 1, pBuf, w)
      else
        let Size = unat (nSectors * SectorSize) in
        case set_pointer h (StartSector * SectorSize) w of
          (False, w) \<Rightarrow> Some (- 1, pBuf, w)
        | (True, w) \<Rightarrow>
            let ((r, bytes), w) = read_file h Size w in
            if length bytes > length pBuf then None else Some (int (length bytes), memcpy_at 0 bytes pBuf, w))"

section \<open>What they return\<close>

text \<open>\<open>ReadFile\<close> stores no more than it is asked for.\<close>

definition reads_bounded :: "'w host \<Rightarrow> bool" where
  "reads_bounded h \<longleftrightarrow> (\<forall>n w. length (snd (fst (read_file h n w))) \<le> n)"

text \<open>A successful write wrote everything in one of the tries, or reports nothing written on a large drive.\<close>

lemma write_tries_result:
  "write_tries h large_drive off data n k0 w = ((True, k), w') \<Longrightarrow>
     (k = length data \<or> large_drive \<and> k = 0) \<and> (\<exists>v. write_file h off data v = (Wrote k, w'))"
proof (induction h large_drive off data n k0 w rule: write_tries.induct)
  case (2 h large_drive off data n written w)
  then show ?case by (auto split: if_splits prod.splits write_result.splits)
qed simp

lemma write_sectors_defined: 
  "unat (n * ss) \<le> length b \<Longrightarrow> \<exists>r w'. write_sectors h large ss st n b w = Some (r, w') \<and> (r = - 1 \<or> r = 0 \<or> r = int (unat (n * ss)))"
  by (auto simp: write_sectors_def Let_def split: prod.splits bool.splits)

lemma read_sectors_defined:
  assumes "reads_bounded h" "unat (n * ss) \<le> length b"
  shows "\<exists>r b' w'. read_sectors h ss st n b w = Some (r, b', w') \<and> length b' = length b \<and> nat r \<le> unat (n * ss)"
proof -
  obtain ok v where p: "set_pointer h (st * ss) w = (ok, v)" by fastforce
  obtain r d v' where f: "read_file h (unat (n * ss)) v = ((r, d), v')" by (metis prod.exhaust)
  have "length d \<le> unat (n * ss)" using assms(1) f by (metis fst_conv snd_conv reads_bounded_def)
  then show ?thesis using assms(2) p f by (cases ok) (auto simp: read_sectors_def)
qed

end
