(* ===== verification/Fat32.thy ===== *)
theory Fat32
  imports Drive_IO
begin

text \<open>
  The formatting of large FAT32 volumes of \<open>src/src/format_fat32.c\<close>: the layout that is computed for a volume, the sectors
  that are written and the order in which they are. The answers of Windows about the volume are the record \<open>fat_env\<close>, the
  volume itself is the drive behind \<open>host\<close>.
\<close>

section \<open>Data\<close>

datatype fat_error = INVALID_PARAMETER | STATUS_SET | INVALID_HANDLE | NOT_SUPPORTED | APPERR_INVALID_CLUSTER_SIZE | INVALID_CLUSTER_SIZE | APPERR_INVALID_VOLUME_SIZE |
  NOT_ENOUGH_MEMORY | WRITE_FAULT | CANCELLED

record DISK_GEOMETRY =
  BytesPerSector :: u32
  SectorsPerTrack :: u32
  TracksPerCylinder :: u32

record PARTITION_INFORMATION =
  PartitionLength :: u64
  HiddenSectors :: u32

record FAT_BOOTSECTOR32 =
  sJmpBoot :: "u8 list"
  sOEMName :: "u8 list"
  wBytsPerSec :: u16
  bSecPerClus :: u8
  wRsvdSecCnt :: u16
  bNumFATs :: u8
  wRootEntCnt :: u16
  wTotSec16 :: u16
  bMedia :: u8
  wFATSz16 :: u16
  wSecPerTrk :: u16
  wNumHeads :: u16
  dHiddSec :: u32
  dTotSec32 :: u32
  dFATSz32 :: u32
  wExtFlags :: u16
  wFSVer :: u16
  dRootClus :: u32
  wFSInfo :: u16
  wBkBootSec :: u16
  bDrvNum :: u8
  bBootSig :: u8
  dBS_VolID :: u32
  sVolLab :: "u8 list"
  sBS_FilSysType :: "u8 list"

definition le16_bytes :: "u16 \<Rightarrow> u8 list" where
  "le16_bytes w = [ucast w, ucast (drop_bit 8 w)]"

text \<open>The packed structure, whose reserved fields are zero.\<close>

definition boot_struct :: "FAT_BOOTSECTOR32 \<Rightarrow> u8 list" where
  "boot_struct b =
     sJmpBoot b @ sOEMName b @ le16_bytes (wBytsPerSec b) @ [bSecPerClus b] @ le16_bytes (wRsvdSecCnt b) @ [bNumFATs b] @
     le16_bytes (wRootEntCnt b) @ le16_bytes (wTotSec16 b) @ [bMedia b] @ le16_bytes (wFATSz16 b) @ le16_bytes (wSecPerTrk b) @
     le16_bytes (wNumHeads b) @ le32_bytes (dHiddSec b) @ le32_bytes (dTotSec32 b) @ le32_bytes (dFATSz32 b) @
     le16_bytes (wExtFlags b) @ le16_bytes (wFSVer b) @ le32_bytes (dRootClus b) @ le16_bytes (wFSInfo b) @
     le16_bytes (wBkBootSec b) @ replicate 12 0 @ [bDrvNum b, 0, bBootSig b] @ le32_bytes (dBS_VolID b) @ sVolLab b @ sBS_FilSysType b"

definition boot_sector :: "FAT_BOOTSECTOR32 \<Rightarrow> nat \<Rightarrow> u8 list" where
  "boot_sector b bps =
     (let s = (boot_struct b @ replicate (bps - 90) 0)[510 := 0x55, 511 := 0xaa] in
      if bps \<noteq> 512 then s[bps - 2 := 0x55, bps - 1 := 0xaa] else s)"

definition fsinfo_sector :: "u32 \<Rightarrow> u32 \<Rightarrow> nat \<Rightarrow> u8 list" where
  "fsinfo_sector dFree_Count dNxt_Free bps =
     le32_bytes 0x41615252 @ replicate 480 0 @ le32_bytes 0x61417272 @ le32_bytes dFree_Count @ le32_bytes dNxt_Free @
     replicate 12 0 @ le32_bytes 0xaa550000 @ replicate (bps - 512) 0"

definition first_fat_sector :: "nat \<Rightarrow> u8 list" where
  "first_fat_sector bps =
     le32_bytes 0x0ffffff8 @ le32_bytes 0x0fffffff @ le32_bytes 0x0fffffff @ replicate (bps - 12) 0"

section \<open>The layout\<close>

definition GetVolumeID :: "u16 \<Rightarrow> u16 \<Rightarrow> u16 \<Rightarrow> u16 \<Rightarrow> u16 \<Rightarrow> u16 \<Rightarrow> u16 \<Rightarrow> u32" where
  "GetVolumeID wDay wMonth wMilliseconds wSecond wMinute wHour wYear =
     (let lo = wDay + push_bit 8 wMonth;
          tmp = wMilliseconds div 10 + push_bit 8 wSecond;
          lo = lo + tmp;
          hi = wMinute + push_bit 8 wHour;
          hi = hi + wYear in
      ucast lo + push_bit 16 (ucast hi))"

definition GetFATSizeSectors :: "u32 \<Rightarrow> u32 \<Rightarrow> u32 \<Rightarrow> u32 \<Rightarrow> u32 \<Rightarrow> u32" where
  "GetFATSizeSectors DskSize ReservedSecCnt SecPerClus NumFATs BytesPerSect =
     (let Numerator = ucast (DskSize - ReservedSecCnt) + 2 * ucast SecPerClus :: u64;
          Denominator = ucast SecPerClus * ucast BytesPerSect div 4 + ucast NumFATs;
          FatSz = Numerator div Denominator + 1 in
      ucast FatSz)"

definition default_cluster_size :: "u64 \<Rightarrow> u32" where
  "default_cluster_size len =
     (if len < 64 * 1048576 then 512
      else if len < 128 * 1048576 then 1024
      else if len < 256 * 1048576 then 2048
      else if len < 8 * 1073741824 then 4096
      else if len < 16 * 1073741824 then 8192
      else if len < 32 * 1073741824 then 16384
      else if len < 2 * 1099511627776 then 32768
      else 65536)"

record fat_layout =
  BytesPerSect :: u32
  SectorsPerCluster :: u32
  TotalSectors :: u32
  FatSize :: u32
  ReservedSectCount :: u32
  UserAreaSize :: u32

text \<open>
  The checks of the size and the computation of the layout. The boot sector is still empty when the size of a FAT is
  computed, so that the number of its reserved sectors is 0 there. \<open>None\<close> is the assertion on the sectors of a cluster, or a
  division by zero.
\<close>

definition fat32_layout :: "bool \<Rightarrow> u32 \<Rightarrow> u64 \<Rightarrow> u32 \<Rightarrow> (fat_error + fat_layout) option" where
  "fat32_layout alloc bps len ClusterSize =
     (let qTotalSectors = len div ucast bps in
      if qTotalSectors < 65536 then Some (Inl APPERR_INVALID_CLUSTER_SIZE)
      else if qTotalSectors \<ge> 0xffffffff then Some (Inl APPERR_INVALID_VOLUME_SIZE)
      else if \<not> alloc then Some (Inl NOT_ENOUGH_MEMORY)
      else
        let ClusterSize = (if ClusterSize = 0 then default_cluster_size len else ClusterSize);
            spc = ClusterSize div bps;
            total = ucast (len div ucast bps);
            fat = GetFATSizeSectors total 0 (ucast (ucast spc :: u8)) 2 bps;
            SystemAreaSize = 32 + 2 * fat;
            AlignSectors = 1048576 div bps;
            SystemAreaSize = (SystemAreaSize + AlignSectors - 1) div AlignSectors * AlignSectors;
            reserved = SystemAreaSize - 2 * fat;
            user = total - reserved - 2 * fat in
        if spc = 0 \<or> AlignSectors = 0 then None
        else
          let ClusterCount = ucast (user div spc) :: u64 in
          if ClusterCount > 0x0FFFFFFF then Some (Inl INVALID_CLUSTER_SIZE)
          else if ClusterCount < 65536 then Some (Inl INVALID_CLUSTER_SIZE)
          else
            let FatNeeded = (ClusterCount * 4 + ucast (bps - 1)) div ucast bps in
            if FatNeeded > ucast fat then Some (Inl APPERR_INVALID_VOLUME_SIZE)
            else Some (Inr \<lparr>BytesPerSect = bps, SectorsPerCluster = spc, TotalSectors = total, FatSize = fat,
                            ReservedSectCount = reserved, UserAreaSize = user\<rparr>))"

definition boot_record :: "fat_layout \<Rightarrow> DISK_GEOMETRY \<Rightarrow> PARTITION_INFORMATION \<Rightarrow> u32 \<Rightarrow> FAT_BOOTSECTOR32" where
  "boot_record l dg pi VolumeId =
     \<lparr>sJmpBoot = [0xEB, 0x58, 0x90], sOEMName = [0x4D, 0x53, 0x57, 0x49, 0x4E, 0x34, 0x2E, 0x31],
      wBytsPerSec = ucast (BytesPerSect l), bSecPerClus = ucast (SectorsPerCluster l),
      wRsvdSecCnt = ucast (ReservedSectCount l), bNumFATs = 2, wRootEntCnt = 0, wTotSec16 = 0, bMedia = 0xF8, wFATSz16 = 0,
      wSecPerTrk = ucast (SectorsPerTrack dg), wNumHeads = ucast (TracksPerCylinder dg), dHiddSec = HiddenSectors pi,
      dTotSec32 = TotalSectors l, dFATSz32 = FatSize l, wExtFlags = 0, wFSVer = 0, dRootClus = 2, wFSInfo = 1, wBkBootSec = 6,
      bDrvNum = 0x80, bBootSig = 0x29, dBS_VolID = VolumeId,
      sVolLab = [0x4E, 0x4F, 0x20, 0x4E, 0x41, 0x4D, 0x45, 0x20, 0x20, 0x20, 0x20],
      sBS_FilSysType = [0x46, 0x41, 0x54, 0x33, 0x32, 0x20, 0x20, 0x20]\<rparr>"

section \<open>Writing\<close>

definition BurstSize :: u32 where
  "BurstSize = 128"

definition fat_cancelled :: "'w host \<Rightarrow> 'w \<Rightarrow> bool" where
  "fat_cancelled h w \<longleftrightarrow> error_status h w AND 0x80000000 \<noteq> 0 \<and> user_cancelled h w"

text \<open>
  The loop that clears the reserved sectors, the FATs and the root cluster, up to the bound computed for the counter \<open>i\<close>. The
  counter has 32 bits: with a bound too close to its end the loop would not return, which is \<open>None\<close> too.
\<close>

partial_function (option) clear_loop :: "'w host \<Rightarrow> bool \<Rightarrow> u32 \<Rightarrow> u32 \<Rightarrow> u32 \<Rightarrow> 'w \<Rightarrow> ((fat_error + unit) \<times> 'w) option" where
  [code]: "clear_loop h large_drive bps bound i w =
     (if i < bound then
        if fat_cancelled h w then Some (Inl CANCELLED, w)
        else do {
          (r, w) \<leftarrow> write_sectors h large_drive (ucast bps) (ucast i) (ucast BurstSize) (replicate (unat bps * unat BurstSize) 0) w;
          if r \<noteq> int (unat (bps * BurstSize)) then Some (Inl WRITE_FAULT, w)
          else clear_loop h large_drive bps bound (i + BurstSize) w
        }
      else Some (Inr (), w))"

text \<open>A write whose result is not looked at; the number of the sector is a signed one.\<close>

definition put_sector :: "'w host \<Rightarrow> bool \<Rightarrow> u32 \<Rightarrow> u32 \<Rightarrow> u8 list \<Rightarrow> 'w \<Rightarrow> 'w option" where
  "put_sector h large_drive bps start data w = map_option snd (write_sectors h large_drive (ucast bps) (scast start) 1 data w)"

text \<open>The boot sector and its copy, each followed by the information sector, and the first sectors of the FATs.\<close>

definition write_tables :: "'w host \<Rightarrow> bool \<Rightarrow> fat_layout \<Rightarrow> u8 list \<Rightarrow> u8 list \<Rightarrow> u8 list \<Rightarrow> 'w \<Rightarrow> 'w option" where
  "write_tables h large_drive l boot info fat w = do {
     w \<leftarrow> put_sector h large_drive (BytesPerSect l) 0 boot w;
     w \<leftarrow> put_sector h large_drive (BytesPerSect l) 1 info w;
     w \<leftarrow> put_sector h large_drive (BytesPerSect l) 6 boot w;
     w \<leftarrow> put_sector h large_drive (BytesPerSect l) 7 info w;
     w \<leftarrow> put_sector h large_drive (BytesPerSect l) (ReservedSectCount l) fat w;
     put_sector h large_drive (BytesPerSect l) (ReservedSectCount l + FatSize l) fat w
   }"

definition format_volume :: "'w host \<Rightarrow> bool \<Rightarrow> fat_layout \<Rightarrow> FAT_BOOTSECTOR32 \<Rightarrow> 'w \<Rightarrow> ((fat_error + unit) \<times> 'w) option" where
  "format_volume h large_drive l b w =
     (let bps = unat (BytesPerSect l);
          SystemAreaSize = ReservedSectCount l + 2 * FatSize l + SectorsPerCluster l in
      if \<not> memory h w then Some (Inl NOT_ENOUGH_MEMORY, w)
      else do {
        (r, w) \<leftarrow> clear_loop h large_drive (BytesPerSect l) (SystemAreaSize + BurstSize - 1) 0 w;
        case r of
          Inl e \<Rightarrow> Some (Inl e, w)
        | Inr _ \<Rightarrow> do {
            w \<leftarrow> write_tables h large_drive l (boot_sector b bps)
               (fsinfo_sector (UserAreaSize l div SectorsPerCluster l - 1) 3 bps) (first_fat_sector bps) w;
            Some (Inr (), w)
          }
      })"

section \<open>The whole operation\<close>

datatype volume_status = Volume_Error | Volume_Invalid | Volume_Open

text \<open>
  What Windows and the user interface answer: whether the file system is a FAT one, the handle of the volume, the geometry and
  the partition (with the extended functions second: offset and length; a length is not negative), whether an error was set
  meanwhile, whether there is memory for the sectors, the volume label, and \<open>WritePBR\<close> of \<open>src/src/format.c\<close>, which puts the boot code
  of the library ms-sys into the boot sectors and is any function here. \<open>no_boot\<close> is the flag \<open>FP_NO_BOOT\<close>.
\<close>

record 'w fat_env =
  is_fat :: bool
  volume :: volume_status
  geometry :: "DISK_GEOMETRY option"
  geometry_ex :: "DISK_GEOMETRY option"
  geometry_error :: bool
  partition :: "PARTITION_INFORMATION option"
  partition_ex :: "(u64 \<times> u64) option"
  partition_error :: bool
  volume_id :: u32
  sector_memory :: bool
  no_boot :: bool
  write_pbr :: "'w \<Rightarrow> bool \<times> 'w"
  set_label :: "'w \<Rightarrow> bool \<times> 'w"

definition volume_geometry :: "'w fat_env \<Rightarrow> DISK_GEOMETRY option" where
  "volume_geometry e =
     (case (case geometry e of Some g \<Rightarrow> Some g | None \<Rightarrow> geometry_ex e) of
        None \<Rightarrow> None
      | Some g \<Rightarrow> Some (if BytesPerSector g < 512 then g\<lparr>BytesPerSector := 512\<rparr> else g))"

definition volume_partition :: "'w fat_env \<Rightarrow> DISK_GEOMETRY \<Rightarrow> PARTITION_INFORMATION option" where
  "volume_partition e g =
     (case partition e of
        Some p \<Rightarrow> Some p
      | None \<Rightarrow>
          (case partition_ex e of
             None \<Rightarrow> None
           | Some (off, len) \<Rightarrow> Some \<lparr>PartitionLength = len, HiddenSectors = ucast (off div ucast (BytesPerSector g))\<rparr>))"

definition FormatLargeFAT32 :: "'w host \<Rightarrow> bool \<Rightarrow> 'w fat_env \<Rightarrow> u32 \<Rightarrow> 'w \<Rightarrow> ((fat_error + unit) \<times> 'w) option" where
  "FormatLargeFAT32 h large_drive e ClusterSize w =
     (if \<not> is_fat e then Some (Inl INVALID_PARAMETER, w)
      else case volume e of
        Volume_Error \<Rightarrow> Some (Inl STATUS_SET, w)
      | Volume_Invalid \<Rightarrow> Some (Inl INVALID_HANDLE, w)
      | Volume_Open \<Rightarrow>
          (case volume_geometry e of
             None \<Rightarrow> Some (Inl NOT_SUPPORTED, w)
           | Some g \<Rightarrow>
               if geometry_error e then Some (Inl STATUS_SET, w)
               else case volume_partition e g of
                 None \<Rightarrow> Some (Inl NOT_SUPPORTED, w)
               | Some p \<Rightarrow>
                   if partition_error e then Some (Inl STATUS_SET, w)
                   else case fat32_layout (sector_memory e) (BytesPerSector g) (PartitionLength p) ClusterSize of
                     None \<Rightarrow> None
                   | Some (Inl err) \<Rightarrow> Some (Inl err, w)
                   | Some (Inr l) \<Rightarrow>
                       (case format_volume h large_drive l (boot_record l g p (volume_id e)) w of
                          None \<Rightarrow> None
                        | Some (Inl err, w) \<Rightarrow> Some (Inl err, w)
                        | Some (Inr _, w) \<Rightarrow>
                            let w = (if no_boot e then w else snd (write_pbr e w)) in
                            Some (Inr (), snd (set_label e w)))))"

end
