(* ===== verification/Fat32_Layout.thy ===== *)
theory Fat32_Layout
  imports Fat32
begin

text \<open>The layout of a volume is consistent, and every cluster has an entry in the FATs.\<close>

section \<open>The size of a FAT\<close>

text \<open>In natural numbers, for a number of sectors, of sectors per cluster and of bytes per sector.\<close>

definition fat_sectors :: "nat \<Rightarrow> nat \<Rightarrow> nat \<Rightarrow> nat" where
  "fat_sectors D s b = (D + 2 * s) div (s * b div 4 + 2) + 1"

lemma unat_ucast64: "unat (ucast (x :: u32) :: u64) = unat x"
  by (simp add: unat_ucast_up)

lemma fat_sectors_bound:
  assumes "0 < s" "512 \<le> b"
  shows "fat_sectors D s b \<le> (D + 2 * s) div 130 + 1"
proof -
  have "1 * 512 \<le> s * b" using assms by (intro mult_le_mono) auto
  then have "130 \<le> s * b div 4 + 2" by simp
  then show ?thesis unfolding fat_sectors_def by (intro add_le_mono div_le_mono2) auto
qed

lemma GetFATSizeSectors_nat:
  assumes "unat s < 256" "0 < unat s" "512 \<le> unat b" "unat b \<le> 4096"
  shows "unat (GetFATSizeSectors d 0 s 2 b) = fat_sectors (unat d) (unat s) (unat b)"
proof -
  have sb: "unat s * unat b < 256 * 4097" using assms by (intro mult_strict_mono) auto
  have n: "unat (ucast (d - 0) + 2 * ucast s :: u64) = unat d + 2 * unat s"
  proof -
    have "unat d < 4294967296" by simp
    then have "unat d + 2 * unat s < 18446744073709551616" using assms(1) by linarith
    then show ?thesis by (simp add: unat_word_ariths unat_ucast64)
  qed
  have "unat (ucast s * ucast b :: u64) = unat s * unat b" using sb by (simp add: unat_word_ariths unat_ucast64)
  then have m: "unat (ucast s * ucast b div 4 + ucast (2 :: u32) :: u64) = unat s * unat b div 4 + 2"
    using sb by (simp add: unat_word_ariths unat_div)
  have b: "fat_sectors (unat d) (unat s) (unat b) < 4294967296"
    using fat_sectors_bound [OF assms(2,3), of "unat d"] unat_u32_lt [of d] assms(1) by linarith
  have "unat ((ucast (d - 0) + 2 * ucast s) div (ucast s * ucast b div 4 + ucast (2 :: u32)) + 1 :: u64) = fat_sectors (unat d) (unat s) (unat b)"
    using n m b by (simp add: unat_word_ariths unat_div fat_sectors_def)
  then show ?thesis using b unfolding GetFATSizeSectors_def Let_def by (simp add: unsigned_ucast_eq take_bit_eq_mod)
qed

text \<open>A FAT of that size has an entry for every cluster behind it and for the two reserved ones.\<close>

lemma fat_sectors_cover:
  assumes "0 < s" "4 dvd b" "0 < b" "D = R + 2 * fat_sectors D s b + U"
  shows "U div s + 2 < fat_sectors D s b * (b div 4)"
proof -
  let ?F = "fat_sectors D s b" and ?d = "s * b div 4 + 2"
  obtain q where q: "b = 4 * q" using assms(2) by blast
  have d: "?d = s * q + 2" using q by simp
  have "D + 2 * s < ((D + 2 * s) div ?d + 1) * ?d" using d by (metis add.commute div_less_iff_less_mult less_add_one add_gr_0 zero_less_numeral mult.commute Suc_eq_plus1 lessI)
  then have "D + 2 * s < ?F * (s * q) + 2 * ?F" unfolding fat_sectors_def using d by (simp add: algebra_simps)
  then have "U + 2 * s < ?F * q * s" using assms(4) by (simp add: mult_ac)
  moreover have "(U div s + 2) * s = U div s * s + 2 * s" by (rule add_mult_distrib)
  ultimately have "(U div s + 2) * s < ?F * q * s" using div_times_less_eq_dividend [of U s] by linarith
  then have "U div s + 2 < ?F * q" by (simp only: mult_less_cancel2)
  then show ?thesis using q by simp
qed

section \<open>The layout\<close>

text \<open>Sectors of 512 to 4096 bytes.\<close>

definition sectors_ok :: "u32 \<Rightarrow> bool" where
  "sectors_ok b \<longleftrightarrow> b \<in> {512, 1024, 2048, 4096}"

text \<open>What a FAT32 driver relies on.\<close>

definition layout_ok :: "fat_layout \<Rightarrow> bool" where
  "layout_ok l \<longleftrightarrow>
     (let b = unat (BytesPerSect l); s = unat (SectorsPerCluster l); D = unat (TotalSectors l); F = unat (FatSize l);
          R = unat (ReservedSectCount l); U = unat (UserAreaSize l) in
      D = R + 2 * F + U \<and>
      32 \<le> R \<and> R < 65536 \<and> R + 2 * F < 2147483648 \<and>
      1048576 dvd (R + 2 * F) * b \<and>
      65536 \<le> U div s \<and> U div s \<le> 0x0FFFFFFF \<and>
      U div s + 2 \<le> F * (b div 4))"

lemma align_up:
  assumes "0 < a"
  shows "x \<le> (x + a - 1) div a * a" "(x + a - 1) div a * a < x + a" "a dvd (x + a - 1) div a * (a :: nat)"
proof -
  have e: "(x + a - 1) div a * a + (x + a - 1) mod a = x + a - 1" by (rule div_mult_mod_eq)
  have m: "(x + a - 1) mod a < a" using assms by simp
  show "x \<le> (x + a - 1) div a * a" "(x + a - 1) div a * a < x + a" using e m assms by linarith+
qed simp

text \<open>The reserved sectors for a number of sectors per FAT.\<close>

lemma layout_nat:
  assumes D: "65536 \<le> D" "D < 4294967295" and s: "0 < s" "s \<le> 128" and b: "b \<in> {512, 1024, 2048, 4096 :: nat}"
  defines "F \<equiv> fat_sectors D s b" and "A \<equiv> 1048576 div b"
  defines "S \<equiv> (32 + 2 * F + A - 1) div A * A"
  shows "32 + 2 * F \<le> S" "S < 32 + 2 * F + A" "S \<le> D" "32 + 2 * F + A < 2147483648" "A dvd S" "A * b = 1048576" "256 \<le> A" "A \<le> 2048"
proof -
  show A: "A * b = 1048576" "256 \<le> A" "A \<le> 2048" using b by (auto simp: A_def)
  have p: "0 < A" using A(2) by simp
  show a: "32 + 2 * F \<le> S" "S < 32 + 2 * F + A" "A dvd S" unfolding S_def using align_up [OF p] by blast+
  have "512 \<le> b" using b by auto
  then have F: "F \<le> (D + 2 * s) div 130 + 1" unfolding F_def using s(1) by (intro fat_sectors_bound)
  show "S \<le> D" "32 + 2 * F + A < 2147483648" using F a A(3) D s(2) by linarith+
qed

text \<open>The start of the data, and the number of clusters.\<close>

definition data_start :: "nat \<Rightarrow> nat \<Rightarrow> nat \<Rightarrow> nat" where
  "data_start D s b = (32 + 2 * fat_sectors D s b + 1048576 div b - 1) div (1048576 div b) * (1048576 div b)"

definition fat_clusters :: "nat \<Rightarrow> nat \<Rightarrow> nat \<Rightarrow> nat" where
  "fat_clusters D s b = (D - data_start D s b) div s"

definition layout_of :: "u32 \<Rightarrow> u32 \<Rightarrow> nat \<Rightarrow> fat_layout" where
  "layout_of b s D =
     (let F = fat_sectors D (unat s) (unat b); S = data_start D (unat s) (unat b) in
      \<lparr>BytesPerSect = b, SectorsPerCluster = s, TotalSectors = of_nat D, FatSize = of_nat F, ReservedSectCount = of_nat (S - 2 * F),
       UserAreaSize = of_nat (D - S)\<rparr>)"

lemma unat_32: "n < 4294967296 \<Longrightarrow> unat (of_nat n :: u32) = n"
  by (simp add: unat_of_nat)

lemma layout_of_ok:
  assumes D: "65536 \<le> D" "D < 4294967295" and s: "0 < unat s" "unat s \<le> 128" and b: "sectors_ok b"
    and c: "65536 \<le> fat_clusters D (unat s) (unat b)" "fat_clusters D (unat s) (unat b) \<le> 0x0FFFFFFF"
  shows "layout_ok (layout_of b s D)"
proof -
  let ?F = "fat_sectors D (unat s) (unat b)" and ?S = "data_start D (unat s) (unat b)" and ?A = "1048576 div unat b"
  have b': "unat b \<in> {512, 1024, 2048, 4096}" using b by (auto simp: sectors_ok_def)
  note n = layout_nat [OF D s b', folded data_start_def]
  have lt: "D < 4294967296" "?F < 4294967296" "?S - 2 * ?F < 4294967296" "D - ?S < 4294967296" using D n by linarith+
  have u: "unat (TotalSectors (layout_of b s D)) = D" "unat (FatSize (layout_of b s D)) = ?F"
      "unat (ReservedSectCount (layout_of b s D)) = ?S - 2 * ?F" "unat (UserAreaSize (layout_of b s D)) = D - ?S"
      "BytesPerSect (layout_of b s D) = b" "SectorsPerCluster (layout_of b s D) = s"
    by (simp_all only: layout_of_def Let_def fat_layout.simps unat_32 lt)
  have e: "D = (?S - 2 * ?F) + 2 * ?F + (D - ?S)" "(?S - 2 * ?F) + 2 * ?F = ?S" using n(1,3) by linarith+
  have "?A * unat b dvd ?S * unat b" using n(5) by (rule mult_dvd_mono) simp
  then have d: "1048576 dvd (?S - 2 * ?F + 2 * ?F) * unat b" unfolding e(2) n(6) .
  have "4 dvd unat b" "0 < unat b" using b' by auto
  then have f: "(D - ?S) div unat s + 2 < ?F * (unat b div 4)" by (rule fat_sectors_cover [OF s(1) _ _ e(1)])
  have r: "32 \<le> ?S - 2 * ?F" "?S - 2 * ?F < 65536" "?S - 2 * ?F + 2 * ?F < 2147483648" using n(1,2,4,8) by linarith+
  show ?thesis unfolding layout_ok_def Let_def u using e(1) r d f c by (simp add: fat_clusters_def)
qed


text \<open>The words of the computation hold these numbers.\<close>

lemma sub_of_nat: "b \<le> a \<Longrightarrow> of_nat a - of_nat b = (of_nat (a - b) :: u32)"
  by (simp add: of_nat_diff)

lemma word_of_unat: "unat w = n \<Longrightarrow> w = (of_nat n :: u32)"
  by auto

lemma word_eqI_nat: "unat v = unat w \<Longrightarrow> v = (w :: u32)"
  by (simp add: word_unat_eq_iff)

lemma div_of_nat: "a < 4294967296 \<Longrightarrow> b < 4294967296 \<Longrightarrow> of_nat a div of_nat b = (of_nat (a div b) :: u32)"
  by (intro word_of_unat) (simp add: unat_div unat_32)

lemma entries_sectors:
  assumes "c + 2 < f * (b div 4)" "4 dvd b" "0 < b"
  shows "(c * 4 + (b - 1)) div b \<le> (f :: nat)"
proof -
  obtain q where q: "b = 4 * q" using assms(2) by blast
  then have "4 * c + 8 < f * b" using assms(1) by simp
  then have "c * 4 + (b - 1) < (f + 1) * b" unfolding add_mult_distrib using assms(3) by linarith
  then show ?thesis using assms(3) by (metis div_less_iff_less_mult less_Suc_eq_le Suc_eq_plus1)
qed

lemma fat32_layout_words:
  assumes D: "65536 \<le> D" "D < 4294967295" "unat len div unat b = D" and s: "0 < unat s" "unat s \<le> 128" and b: "sectors_ok b"
    and c: "(if cs = 0 then default_cluster_size len else cs) div b = s"
  shows "fat32_layout True b len cs =
    Some (if fat_clusters D (unat s) (unat b) \<in> {65536..0x0FFFFFFF} then Inr (layout_of b s D) else Inl INVALID_CLUSTER_SIZE)"
proof -
  let ?F = "fat_sectors D (unat s) (unat b)" and ?S = "data_start D (unat s) (unat b)" and ?A = "1048576 div unat b"
  have b': "unat b \<in> {512, 1024, 2048, 4096}" using b by (auto simp: sectors_ok_def)
  note n = layout_nat [OF D(1,2) s b', folded data_start_def]
  have q: "unat (len div ucast b) = D" using D(3) by (simp add: unat_div unat_ucast64)
  have t: "(ucast (len div ucast b) :: u32) = of_nat D" using q D(2) by (intro word_of_unat) (simp add: unsigned_ucast_eq take_bit_eq_mod)
  have s8: "ucast (ucast s :: u8) = s" using s(2) by (intro word_eqI_nat) (simp add: unsigned_ucast_eq take_bit_eq_mod unat_mod)
  have F: "GetFATSizeSectors (of_nat D) 0 s 2 b = of_nat ?F"
    using s b' D by (intro word_of_unat, subst GetFATSizeSectors_nat) (auto simp: unat_32)
  have A: "1048576 div b = of_nat ?A" by (intro word_of_unat) (simp add: unat_div)
  have lt: "?A < 4294967296" "32 + 2 * ?F + ?A - 1 < 4294967296" using n(4,8) by linarith+
  have "32 + 2 * of_nat ?F + of_nat ?A - 1 = (of_nat (32 + 2 * ?F + ?A) - of_nat 1 :: u32)" by simp
  also have "\<dots> = of_nat (32 + 2 * ?F + ?A - 1)" by (rule sub_of_nat) simp
  finally have S: "(32 + 2 * of_nat ?F + of_nat ?A - 1) div of_nat ?A * of_nat ?A = (of_nat ?S :: u32)"
    using lt by (simp only: div_of_nat data_start_def of_nat_mult)
  have "of_nat ?S - of_nat (2 * ?F) = (of_nat (?S - 2 * ?F) :: u32)" using n(1) by (intro sub_of_nat) simp
  then have R: "of_nat ?S - 2 * of_nat ?F = (of_nat (?S - 2 * ?F) :: u32)" by simp
  have "of_nat D - (of_nat ?S - 2 * of_nat ?F) - 2 * of_nat ?F = (of_nat D - of_nat ?S :: u32)" by simp
  also have "\<dots> = of_nat (D - ?S)" by (rule sub_of_nat) (rule n(3))
  finally have U: "of_nat D - (of_nat ?S - 2 * of_nat ?F) - 2 * of_nat ?F = (of_nat (D - ?S) :: u32)" .
  let ?C = "fat_clusters D (unat s) (unat b)"
  have C: "unat (ucast (of_nat (D - ?S) div s) :: u64) = ?C" using D(2) by (simp only: unat_ucast64 unat_div fat_clusters_def) (simp add: unat_32 del: of_nat_diff)
  let ?c = "ucast (of_nat (D - ?S) div s) :: u64"
  have small: "\<not> len div ucast b < 65536" "\<not> 0xffffffff \<le> len div ucast b"
    using q D by (simp_all add: word_less_nat_alt word_le_nat_alt)
  have nz: "s \<noteq> 0" "(of_nat ?A :: u32) \<noteq> 0" using s(1) n(7,8) unat_32 [OF lt(1)] by auto
  have c1: "0x0FFFFFFF < ?c \<longleftrightarrow> 0x0FFFFFFF < ?C" "?c < 65536 \<longleftrightarrow> ?C < 65536" using C by (simp_all add: word_less_nat_alt)
  have need: "\<not> ucast (of_nat ?F :: u32) < (?c * 4 + ucast (b - 1)) div ucast b"
  proof -
    have "?C + 2 < ?F * (unat b div 4)" unfolding fat_clusters_def
      by (rule fat_sectors_cover [where R = "?S - 2 * ?F"]) (use s b' n(1,3) in auto)
    then have "(?C * 4 + (unat b - 1)) div unat b \<le> ?F" using b' by (intro entries_sectors) auto
    moreover have "unat (ucast (b - 1) :: u64) = unat b - 1" using b' by (auto simp: unat_ucast64 unat_sub word_le_nat_alt)
    moreover have "?C < 4294967296" using C unat_u32_lt [of "of_nat (D - ?S) div s"] by (simp add: unat_ucast64)
    then have "(?C * 4 + (unat b - 1)) mod 18446744073709551616 = ?C * 4 + (unat b - 1)" using b' by auto
    ultimately have "unat ((?c * 4 + ucast (b - 1)) div ucast b) \<le> ?F"
      using C b' by (simp add: unat_div unat_word_ariths unat_ucast64)
    moreover have "unat (ucast (of_nat ?F :: u32) :: u64) = ?F" using n(4) by (simp add: unat_ucast64 unat_32)
    ultimately show ?thesis by (simp add: word_less_nat_alt)
  qed
  have "fat32_layout True b len cs =
      Some (if 0x0FFFFFFF < ?C then Inl INVALID_CLUSTER_SIZE else if ?C < 65536 then Inl INVALID_CLUSTER_SIZE else Inr (layout_of b s D))"
    unfolding fat32_layout_def Let_def c s8 t F A S R U [unfolded R] layout_of_def
    using small nz need by (simp only: c1 if_False simp_thms if_True if_distrib [of Some])
  then show ?thesis by auto
qed

section \<open>The properties of the layout\<close>

definition cluster_sectors :: "u32 \<Rightarrow> u64 \<Rightarrow> u32 \<Rightarrow> u32" where
  "cluster_sectors b len cs = (if cs = 0 then default_cluster_size len else cs) div b"

lemma fat32_layout_range:
  assumes "unat len div unat b = D"
  shows "D < 65536 \<Longrightarrow> fat32_layout alloc b len cs = Some (Inl APPERR_INVALID_CLUSTER_SIZE)"
    and "0xffffffff \<le> D \<Longrightarrow> fat32_layout alloc b len cs = Some (Inl APPERR_INVALID_VOLUME_SIZE)"
proof -
  have "unat (len div ucast b) = D" using assms by (simp add: unat_div unat_ucast64)
  then show "D < 65536 \<Longrightarrow> fat32_layout alloc b len cs = Some (Inl APPERR_INVALID_CLUSTER_SIZE)"
    "0xffffffff \<le> D \<Longrightarrow> fat32_layout alloc b len cs = Some (Inl APPERR_INVALID_VOLUME_SIZE)"
    by (simp_all add: fat32_layout_def word_less_nat_alt word_le_nat_alt)
qed

lemma layout_of_fields:
  "BytesPerSect (layout_of b s D) = b" "SectorsPerCluster (layout_of b s D) = s"
  "D < 4294967296 \<Longrightarrow> unat (TotalSectors (layout_of b s D)) = D"
  by (simp_all only: layout_of_def Let_def fat_layout.simps unat_32)

lemma fat32_layout_eq:
  assumes b: "sectors_ok b" and s: "0 < unat (cluster_sectors b len cs)" "unat (cluster_sectors b len cs) \<le> 128"
  shows "fat32_layout True b len cs =
    Some (if unat len div unat b < 65536 then Inl APPERR_INVALID_CLUSTER_SIZE
          else if 0xffffffff \<le> unat len div unat b then Inl APPERR_INVALID_VOLUME_SIZE
          else if fat_clusters (unat len div unat b) (unat (cluster_sectors b len cs)) (unat b) \<in> {65536..0x0FFFFFFF}
          then Inr (layout_of b (cluster_sectors b len cs) (unat len div unat b))
          else Inl INVALID_CLUSTER_SIZE)"
proof -
  let ?D = "unat len div unat b"
  consider "?D < 65536" | "65536 \<le> ?D" "?D < 4294967295" | "0xffffffff \<le> ?D" by linarith
  then show ?thesis
  proof cases
    case 2
    show ?thesis using fat32_layout_words [OF 2 refl s b cluster_sectors_def [symmetric]] 2 by simp
  qed (simp_all add: fat32_layout_range)
qed

text \<open>A layout that is computed.\<close>

lemma layout_cases:
  assumes b: "sectors_ok b" and s: "0 < unat (cluster_sectors b len cs)" "unat (cluster_sectors b len cs) \<le> 128"
  shows "fat32_layout True b len cs = Some (Inr l) \<Longrightarrow>
    layout_ok l \<and> BytesPerSect l = b \<and> SectorsPerCluster l = cluster_sectors b len cs \<and> unat (TotalSectors l) = unat len div unat b"
  using layout_of_ok [of "unat len div unat b", OF _ _ s b] by (auto simp: fat32_layout_eq [OF assms] layout_of_fields split: if_splits)

text \<open>C21. The layout of a FAT32 volume is right, and refused exactly when FAT32 cannot hold the volume. With sectors of 512 to
  4096 bytes and clusters of up to 128 sectors: a layout is computed when the sectors fit in 32 bits and there are 65536 to
  \<open>0x0FFFFFFF\<close> clusters, and otherwise the error tells which of the two it was. In a layout the reserved sectors (at least 32,
  and within their 16 bits), the two FATs and the data are the whole volume, the data starts at a multiple of 1 MB and at a
  sector whose number is not negative as a signed one, and a FAT has an entry for every cluster and the two reserved numbers. No other error and no division by zero occur.\<close>

theorem fat32_layout_correct:
  assumes b: "sectors_ok b" and s: "0 < unat (cluster_sectors b len cs)" "unat (cluster_sectors b len cs) \<le> 128"
  defines "D \<equiv> unat len div unat b"
  shows "\<exists>r. fat32_layout True b len cs = Some r \<and>
    (case r of
       Inr l \<Rightarrow> layout_ok l \<and> BytesPerSect l = b \<and> SectorsPerCluster l = cluster_sectors b len cs \<and> unat (TotalSectors l) = D
     | Inl e \<Rightarrow>
         e = APPERR_INVALID_VOLUME_SIZE \<and> 0xffffffff \<le> D \<or>
         e = APPERR_INVALID_CLUSTER_SIZE \<and> D < 65536 \<or>
         e = INVALID_CLUSTER_SIZE \<and> 65536 \<le> D \<and> D < 0xffffffff \<and>
           fat_clusters D (unat (cluster_sectors b len cs)) (unat b) \<notin> {65536..0x0FFFFFFF})"
  using fat32_layout_eq [OF b s] layout_cases [OF b s] unfolding D_def by (auto split: sum.split)

text \<open>A volume of 8 GB with sectors of 512 bytes and clusters of 8 KB.\<close>

theorem fat32_layout_correct_witness:
  "\<exists>l. fat32_layout True 512 8589934592 8192 = Some (Inr l) \<and> layout_ok l \<and> unat (TotalSectors l) = 16777216"
proof -
  have c: "cluster_sectors 512 8589934592 8192 = 16" by (simp add: cluster_sectors_def)
  have "sectors_ok 512" by (simp add: sectors_ok_def)
  note l = fat32_layout_correct [OF this, of 8589934592 8192]
  show ?thesis
  proof (cases "fat32_layout True 512 8589934592 8192")
    case (Some r)
    then show ?thesis using l by (cases r) (auto simp: c fat_clusters_def data_start_def fat_sectors_def)
  qed (use l c in auto)
qed

text \<open>The default size of the clusters.\<close>

lemma default_clusters:
  assumes "s * 66000 \<le> D" "D < s * 268435456" "D < 4294967295" "s \<in> {8, 16, 32, 64 :: nat}"
  shows "fat_clusters D s 512 \<in> {65536..0x0FFFFFFF}"
proof -
  have "data_start D s 512 < 32 + 2 * fat_sectors D s 512 + 2048" using layout_nat [of D s 512] assms by (auto simp: data_start_def)
  moreover have "fat_sectors D s 512 = (D + 2 * s) div (s * 128 + 2) + 1" by (simp add: fat_sectors_def mult.commute)
  ultimately show ?thesis using assms unfolding fat_clusters_def by auto
qed

lemma default_size:
  assumes "258 * 1048576 \<le> unat len" "unat len < 2199023255040"
  obtains s where "unat (cluster_sectors 512 len 0) = s" "s \<in> {8, 16, 32, 64}" "s * 66000 \<le> unat len div 512" "unat len div 512 < s * 268435456"
proof -
  let ?n = "unat len"
  have "default_cluster_size len =
      (if ?n < 8589934592 then 4096 else if ?n < 17179869184 then 8192 else if ?n < 34359738368 then 16384 else 32768)"
    using assms by (simp add: default_cluster_size_def word_less_nat_alt)
  then have "unat (cluster_sectors 512 len 0) =
      (if ?n < 8589934592 then 8 else if ?n < 17179869184 then 16 else if ?n < 34359738368 then 32 else 64)"
    by (simp add: cluster_sectors_def unat_div)
  then show ?thesis using assms by (intro that) (auto split: if_splits)
qed

lemma default_layout:
  assumes len: "258 * 1048576 \<le> unat len" "unat len < 2199023255040"
  shows "\<exists>l. fat32_layout True 512 len 0 = Some (Inr l) \<and> layout_ok l"
proof -
  let ?s = "cluster_sectors 512 len 0" and ?D = "unat len div 512"
  obtain s where s: "unat ?s = s" "s \<in> {8, 16, 32, 64}" "s * 66000 \<le> ?D" "?D < s * 268435456"
    using default_size [OF len] by blast
  have D: "65536 \<le> ?D" "?D < 4294967295" using len by auto
  have c: "fat_clusters ?D (unat ?s) (unat (512 :: u32)) \<in> {65536..0x0FFFFFFF}" using default_clusters [OF s(3,4) D(2) s(2)] s(1) by simp
  have b: "sectors_ok 512" by (simp add: sectors_ok_def)
  have r: "0 < unat ?s" "unat ?s \<le> 128" using s by auto
  have "fat32_layout True 512 len 0 = Some (Inr (layout_of 512 ?s ?D))"
    using fat32_layout_words [OF D _ r b] c by (simp add: cluster_sectors_def)
  moreover have "layout_ok (layout_of 512 ?s ?D)" using c by (intro layout_of_ok [OF D r b]) auto
  ultimately show ?thesis by blast
qed

lemma default_refused:
  "fat32_layout True 512 67108864 0 = Some (Inl INVALID_CLUSTER_SIZE)"
  "fat32_layout True 512 134217728 0 = Some (Inl INVALID_CLUSTER_SIZE)"
  "fat32_layout True 512 268435456 0 = Some (Inl INVALID_CLUSTER_SIZE)"
  by (simp_all add: fat32_layout_def GetFATSizeSectors_def default_cluster_size_def)

lemma smaller_accepted:
  "\<exists>l. fat32_layout True 512 67108864 512 = Some (Inr l) \<and> layout_ok l"
  "\<exists>l. fat32_layout True 512 134217728 1024 = Some (Inr l) \<and> layout_ok l"
  "\<exists>l. fat32_layout True 512 268435456 2048 = Some (Inr l) \<and> layout_ok l"
  by (simp_all add: fat32_layout_def GetFATSizeSectors_def layout_ok_def Let_def)

text \<open>C22. The default cluster size. On volumes with sectors of 512 bytes and from 258 MB up to the last sector that 32 bits can
  count, the cluster size chosen by default always gives a layout. On volumes of exactly 64, 128 and 256 MB it does not: the
  clusters chosen there are one step too large to have 65536 of them beside the FATs, while clusters half that size would do.\<close>

theorem fat32_default_cluster_size:
  "(\<forall>len. 258 * 1048576 \<le> unat len \<and> unat len < 0xffffffff * 512 \<longrightarrow>
      (\<exists>l. fat32_layout True 512 len 0 = Some (Inr l) \<and> layout_ok l)) \<and>
   list_all (\<lambda>(len, cs). fat32_layout True 512 len 0 = Some (Inl INVALID_CLUSTER_SIZE) \<and>
       (\<exists>l. fat32_layout True 512 len cs = Some (Inr l) \<and> layout_ok l))
     [(67108864, 512), (134217728, 1024), (268435456, 2048)]"
  using default_layout default_refused smaller_accepted by simp

theorem fat32_default_cluster_size_witness:
  "\<exists>l. fat32_layout True 512 8589934592 0 = Some (Inr l) \<and> layout_ok l"
  using fat32_default_cluster_size by simp

end
