(* ===== verification/Bad_List.thy ===== *)
theory Bad_List
  imports Prelude
begin

text \<open>
  The list of bad blocks of \<open>src/src/badblocks.c\<close>: a sorted array that grows by a hundred entries, with insertion, binary
  search and iteration. The entries of the array in use are the first \<open>num\<close> ones; a read or write outside of the array is
  \<open>None\<close>. \<open>alloc\<close> is whether memory could be allocated.
\<close>

section \<open>The list\<close>

datatype errcode = BB_OK | BB_ET_NO_MEMORY | BB_ET_MAGIC_BADBLOCKS_LIST | BB_ET_MAGIC_BADBLOCKS_ITERATE

text \<open>The numbers are \<open>int\<close> in the source; they stay small, since the test stops after 256 bad blocks.\<close>

record bb_struct_u64_list =
  magic :: errcode
  num :: nat
  bbsize :: nat
  blist :: "u64 list"

definition make_u64_list :: "bool \<Rightarrow> nat \<Rightarrow> nat \<Rightarrow> u64 list option \<Rightarrow> errcode \<times> bb_struct_u64_list option" where
  "make_u64_list alloc sz n init =
     (if \<not> alloc then (BB_ET_NO_MEMORY, None)
      else
        let sz = (if sz \<noteq> 0 then sz else 10) in
        (BB_OK, Some \<lparr>magic = BB_ET_MAGIC_BADBLOCKS_LIST, num = n, bbsize = sz,
           blist = (case init of None \<Rightarrow> replicate sz 0 | Some l \<Rightarrow> take sz l)\<rparr>))"

definition bb_badblocks_list_create :: "bool \<Rightarrow> nat \<Rightarrow> errcode \<times> bb_struct_u64_list option" where
  "bb_badblocks_list_create alloc sz = make_u64_list alloc sz 0 None"

text \<open>The loop for the place of a new block: whether the block is there, and its place.\<close>

fun bb_place :: "u64 list \<Rightarrow> u64 \<Rightarrow> bool \<times> nat" where
  "bb_place [] blk = (False, 0)"
| "bb_place (x # xs) blk =
     (if x = blk then (True, 0) else if x > blk then (False, 0) else (fst (bb_place xs blk), Suc (snd (bb_place xs blk))))"

text \<open>The loop that moves the entries behind a place up by one.\<close>

fun bb_shift :: "u64 list \<Rightarrow> nat \<Rightarrow> nat \<Rightarrow> u64 list" where
  "bb_shift l j 0 = l"
| "bb_shift l j (Suc i) = (if Suc i > j then bb_shift (l[Suc i := l ! i]) j i else l)"

definition bb_grow :: "bb_struct_u64_list \<Rightarrow> bb_struct_u64_list" where
  "bb_grow bb = bb\<lparr>bbsize := bbsize bb + 100, blist := blist bb @ replicate 100 0\<rparr>"

definition bb_put :: "bb_struct_u64_list \<Rightarrow> u64 \<Rightarrow> bb_struct_u64_list" where
  "bb_put bb blk =
     (if num bb \<noteq> 0 \<and> blist bb ! (num bb - 1) = blk then bb
      else if num bb = 0 \<or> blist bb ! (num bb - 1) < blk then bb\<lparr>blist := (blist bb)[num bb := blk], num := num bb + 1\<rparr>
      else
        let p = bb_place (take (num bb) (blist bb)) blk in
        if fst p then bb
        else bb\<lparr>blist := (bb_shift (blist bb) (snd p) (num bb))[snd p := blk], num := num bb + 1\<rparr>)"

definition bb_u64_list_add :: "bool \<Rightarrow> bb_struct_u64_list \<Rightarrow> u64 \<Rightarrow> (errcode \<times> bb_struct_u64_list) option" where
  "bb_u64_list_add alloc bb blk =
     (if magic bb \<noteq> BB_ET_MAGIC_BADBLOCKS_LIST then Some (BB_ET_MAGIC_BADBLOCKS_LIST, bb)
      else if num bb \<ge> bbsize bb \<and> \<not> alloc then Some (BB_ET_NO_MEMORY, bb)
      else
        let bb = (if num bb \<ge> bbsize bb then bb_grow bb else bb) in
        if num bb \<ge> length (blist bb) then None else Some (BB_OK, bb_put bb blk))"

text \<open>The binary search between two places that were already looked at.\<close>

function bb_search :: "u64 list \<Rightarrow> u64 \<Rightarrow> nat \<Rightarrow> nat \<Rightarrow> nat option" where
  "bb_search l blk low high =
     (if low < high then
        let mid = (low + high) div 2 in
        if mid = low \<or> mid = high then None
        else if blk = l ! mid then Some mid
        else if blk < l ! mid then bb_search l blk low mid
        else bb_search l blk mid high
      else None)"
  by pat_completeness auto
termination
  by (relation "measure (\<lambda>(l, blk, low, high). high - low)") auto

declare bb_search.simps [simp del]

text \<open>The index of a block, \<open>None\<close> for -1.\<close>

definition bb_u64_list_find :: "bb_struct_u64_list \<Rightarrow> u64 \<Rightarrow> nat option" where
  "bb_u64_list_find bb blk =
     (if magic bb \<noteq> BB_ET_MAGIC_BADBLOCKS_LIST \<or> num bb = 0 then None
      else
        let high = num bb - 1 in
        if blk = blist bb ! 0 then Some 0
        else if blk = blist bb ! high then Some high
        else bb_search (blist bb) blk 0 high)"

definition bb_u64_list_test :: "bb_struct_u64_list \<Rightarrow> u64 \<Rightarrow> bool" where
  "bb_u64_list_test bb blk \<longleftrightarrow> bb_u64_list_find bb blk \<noteq> None"

record bb_struct_u64_iterate =
  imagic :: errcode
  ptr :: nat

definition bb_u64_list_iterate ::
    "bb_struct_u64_list \<Rightarrow> bb_struct_u64_iterate \<Rightarrow> u64 \<Rightarrow> bool \<times> bb_struct_u64_iterate \<times> u64" where
  "bb_u64_list_iterate bb iter blk =
     (if imagic iter \<noteq> BB_ET_MAGIC_BADBLOCKS_ITERATE \<or> magic bb \<noteq> BB_ET_MAGIC_BADBLOCKS_LIST then (False, iter, blk)
      else if ptr iter < num bb then (True, iter\<lparr>ptr := ptr iter + 1\<rparr>, blist bb ! ptr iter)
      else (False, iter, 0))"

section \<open>The list is a sorted set\<close>

definition bb_entries :: "bb_struct_u64_list \<Rightarrow> u64 list" where
  "bb_entries bb = take (num bb) (blist bb)"

definition bb_ok :: "bb_struct_u64_list \<Rightarrow> bool" where
  "bb_ok bb \<longleftrightarrow> magic bb = BB_ET_MAGIC_BADBLOCKS_LIST \<and> length (blist bb) = bbsize bb \<and> num bb \<le> bbsize bb \<and>
     sorted_wrt (<) (bb_entries bb)"

text \<open>Insertion into a sorted list, without duplicates.\<close>

fun ins_block :: "u64 \<Rightarrow> u64 list \<Rightarrow> u64 list" where
  "ins_block b [] = [b]"
| "ins_block b (x # xs) = (if b < x then b # x # xs else if b = x then x # xs else x # ins_block b xs)"

lemma set_ins_block: "set (ins_block b xs) = insert b (set xs)"
  by (induction xs) auto

lemma sorted_ins_block: "sorted_wrt (<) xs \<Longrightarrow> sorted_wrt (<) (ins_block b xs)"
  by (induction xs) (auto simp: set_ins_block)

lemma ins_block_behind: "(\<And>x. x \<in> set xs \<Longrightarrow> x < b) \<Longrightarrow> ins_block b xs = xs @ [b]"
  by (induction xs) (auto simp: not_less_iff_gr_or_eq dest: order.asym)

lemma ins_block_there: "sorted_wrt (<) xs \<Longrightarrow> b \<in> set xs \<Longrightarrow> ins_block b xs = xs"
  by (induction xs) (auto dest: order.asym)

lemma sorted_le_last: "sorted_wrt (<) xs \<Longrightarrow> (x :: u64) \<in> set xs \<Longrightarrow> x \<le> last xs"
  by (induction xs) (auto intro: less_imp_le)

lemma bb_place_ins:
  "sorted_wrt (<) xs \<Longrightarrow> snd (bb_place xs b) \<le> length xs \<and> (fst (bb_place xs b) \<longleftrightarrow> b \<in> set xs) \<and>
     (\<not> fst (bb_place xs b) \<longrightarrow> ins_block b xs = take (snd (bb_place xs b)) xs @ b # drop (snd (bb_place xs b)) xs)"
  by (induction xs) (auto dest: order.asym simp: not_less_iff_gr_or_eq)

lemma bb_shift_moves:
  "i < length l \<Longrightarrow> j \<le> i \<Longrightarrow> bb_shift l j i = take (Suc j) l @ take (i - j) (drop j l) @ drop (Suc i) l"
proof (induction i arbitrary: l)
  case 0
  then show ?case by (simp add: Cons_nth_drop_Suc take_Suc_conv_app_nth)
next
  case (Suc i)
  show ?case
  proof (cases "Suc i > j")
    case True
    let ?l = "l[Suc i := l ! i]"
    have "bb_shift ?l j i = take (Suc j) ?l @ take (i - j) (drop j ?l) @ drop (Suc i) ?l"
      using Suc.prems True by (intro Suc.IH) auto
    also have "take (Suc j) ?l = take (Suc j) l" using True by simp
    also have "take (i - j) (drop j ?l) = take (i - j) (drop j l)" using True by (simp add: drop_update_swap)
    also have "drop (Suc i) ?l = l ! i # drop (Suc (Suc i)) l"
      using Suc.prems by (simp add: drop_update_swap Cons_nth_drop_Suc [symmetric])
    also have "take (i - j) (drop j l) @ l ! i # drop (Suc (Suc i)) l = take (Suc i - j) (drop j l) @ drop (Suc (Suc i)) l"
      using Suc.prems True by (simp add: Suc_diff_le take_Suc_conv_app_nth)
    finally show ?thesis using True by simp
  next
    case False
    then have "j = Suc i" using Suc.prems by simp
    then show ?thesis by simp
  qed
qed

lemma bb_put_entries:
  assumes "num bb < length (blist bb)" "sorted_wrt (<) (bb_entries bb)"
  shows "bb_entries (bb_put bb blk) = ins_block blk (bb_entries bb) \<and> magic (bb_put bb blk) = magic bb \<and>
    bbsize (bb_put bb blk) = bbsize bb \<and> length (blist (bb_put bb blk)) = length (blist bb) \<and>
    num (bb_put bb blk) \<le> num bb + 1"
proof -
  let ?l = "blist bb" and ?n = "num bb" and ?xs = "bb_entries bb"
  have len: "length ?xs = ?n" using assms(1) by (simp add: bb_entries_def)
  have final: "?l ! (?n - 1) = last ?xs" if "?n \<noteq> 0"
  proof -
    have "?xs \<noteq> []" using that len by auto
    then show ?thesis using assms(1) that len by (simp add: last_conv_nth) (simp add: bb_entries_def)
  qed
  consider (same) "?n \<noteq> 0" "?l ! (?n - 1) = blk" | (behind) "?n = 0 \<or> ?l ! (?n - 1) < blk" "\<not> (?n \<noteq> 0 \<and> ?l ! (?n - 1) = blk)"
    | (inside) "?n \<noteq> 0" "\<not> ?l ! (?n - 1) = blk" "\<not> ?l ! (?n - 1) < blk" by auto
  then show ?thesis
  proof cases
    case same
    then have "blk \<in> set ?xs" using final len by (metis last_in_set length_0_conv)
    then show ?thesis using same ins_block_there [OF assms(2)] by (simp add: bb_put_def)
  next
    case behind
    have "x < blk" if "x \<in> set ?xs" for x
    proof -
      have ne: "?xs \<noteq> []" using that by auto
      then have "?n \<noteq> 0" using len by (metis length_0_conv)
      then have l: "last ?xs < blk" using behind final by auto
      have "x \<le> last ?xs" using sorted_le_last [OF assms(2) that] .
      with l show ?thesis by simp
    qed
    then have "ins_block blk ?xs = ?xs @ [blk]" by (rule ins_block_behind)
    moreover have "take (Suc ?n) (?l[?n := blk]) = ?xs @ [blk]"
      using assms(1) by (simp add: bb_entries_def take_Suc_conv_app_nth)
    ultimately show ?thesis using behind by (simp add: bb_put_def bb_entries_def)
  next
    case inside
    let ?p = "bb_place ?xs blk"
    have p: "snd ?p \<le> ?n" "fst ?p \<longleftrightarrow> blk \<in> set ?xs" using bb_place_ins [OF assms(2), of blk] len by auto
    show ?thesis
    proof (cases "fst ?p")
      case True
      then show ?thesis using inside p(2) ins_block_there [OF assms(2)] by (simp add: bb_put_def Let_def bb_entries_def)
    next
      case False
      let ?j = "snd ?p"
      have s: "bb_shift ?l ?j ?n = take (Suc ?j) ?l @ take (?n - ?j) (drop ?j ?l) @ drop (Suc ?n) ?l"
        using assms(1) p(1) by (intro bb_shift_moves) auto
      have "take (Suc ?n) ((bb_shift ?l ?j ?n)[?j := blk]) = take ?j ?l @ blk # take (?n - ?j) (drop ?j ?l)"
        unfolding s using assms(1) p(1) by (simp add: take_Suc_conv_app_nth list_update_append Suc_diff_le)
      also have "\<dots> = take ?j ?xs @ blk # drop ?j ?xs" using p(1) by (simp add: bb_entries_def drop_take min_def)
      also have "\<dots> = ins_block blk ?xs" using bb_place_ins [OF assms(2), of blk] False by simp
      finally show ?thesis using inside False assms(1) p(1) s by (simp add: bb_put_def Let_def bb_entries_def)
    qed
  qed
qed

lemma bb_put_ok: "bb_ok bb \<Longrightarrow> num bb < bbsize bb \<Longrightarrow> bb_ok (bb_put bb blk)"
  using bb_put_entries [of bb blk] sorted_ins_block by (auto simp: bb_ok_def)

lemma bb_grow_ok: "bb_ok bb \<Longrightarrow> bb_ok (bb_grow bb) \<and> bb_entries (bb_grow bb) = bb_entries bb \<and> num (bb_grow bb) < bbsize (bb_grow bb)"
  by (auto simp: bb_ok_def bb_grow_def bb_entries_def)

lemma bb_u64_list_add_ok:
  assumes "bb_ok bb"
  shows "\<exists>bb'. bb_u64_list_add True bb blk = Some (BB_OK, bb') \<and> bb_ok bb' \<and> bb_entries bb' = ins_block blk (bb_entries bb)"
proof -
  let ?b = "if num bb \<ge> bbsize bb then bb_grow bb else bb"
  have b: "bb_ok ?b" "bb_entries ?b = bb_entries bb" "num ?b < bbsize ?b" using bb_grow_ok [OF assms] assms by auto
  then have l: "num ?b < length (blist ?b)" and s: "sorted_wrt (<) (bb_entries ?b)" by (auto simp: bb_ok_def)
  have "bb_u64_list_add True bb blk = Some (BB_OK, bb_put ?b blk)" using l assms by (auto simp: bb_u64_list_add_def bb_ok_def)
  then show ?thesis using bb_put_ok [OF b(1,3), of blk] bb_put_entries [OF l s, of blk] b(2) by auto
qed

text \<open>Without memory a full list refuses the block and stays as it is.\<close>

lemma bb_u64_list_add_no_memory:
  "bb_ok bb \<Longrightarrow> bb_u64_list_add alloc bb blk \<noteq> None \<and>
    (num bb = bbsize bb \<longrightarrow> \<not> alloc \<longrightarrow> bb_u64_list_add alloc bb blk = Some (BB_ET_NO_MEMORY, bb))"
  by (auto simp: bb_u64_list_add_def bb_ok_def bb_grow_def)

lemma bb_create_ok: "bb_badblocks_list_create True sz = (BB_OK, Some bb) \<Longrightarrow> bb_ok bb \<and> bb_entries bb = []"
  by (auto simp: bb_badblocks_list_create_def make_u64_list_def bb_ok_def bb_entries_def Let_def)

lemma sorted_take_nth: "sorted_wrt (<) (take n l) \<Longrightarrow> i < j \<Longrightarrow> j < n \<Longrightarrow> n \<le> length l \<Longrightarrow> l ! i < (l ! j :: u64)"
  using sorted_wrt_nth_less [of "(<)" "take n l" i j] by simp

lemma between_neighbours:
  assumes "sorted_wrt (<) (take n l)" "n \<le> length l" "Suc low < n" "l ! low < blk" "blk < (l ! Suc low :: u64)"
  shows "blk \<notin> set (take n l)"
proof
  assume "blk \<in> set (take n l)"
  then obtain k where k: "k < n" "l ! k = blk" using assms(2) by (auto simp: in_set_conv_nth)
  consider "k < low" | "k = low" | "k = Suc low" | "Suc low < k" by linarith
  then show False
  proof cases
    case 1
    then show False using sorted_take_nth [OF assms(1), of k low] assms k by auto
  next
    case 4
    then show False using sorted_take_nth [OF assms(1), of "Suc low" k] assms k by auto
  qed (use assms k in auto)
qed

lemma bb_search_finds:
  "sorted_wrt (<) (take n l) \<Longrightarrow> n \<le> length l \<Longrightarrow> low < high \<Longrightarrow> high < n \<Longrightarrow> l ! low < blk \<Longrightarrow> blk < l ! high \<Longrightarrow>
    (case bb_search l blk low high of Some k \<Rightarrow> k < n \<and> l ! k = blk | None \<Rightarrow> blk \<notin> set (take n l))"
proof (induction l blk low high rule: bb_search.induct)
  case (1 l blk low high)
  let ?mid = "(low + high) div 2"
  have s: "bb_search l blk low high = (if ?mid = low \<or> ?mid = high then None else if blk = l ! ?mid then Some ?mid
      else if blk < l ! ?mid then bb_search l blk low ?mid else bb_search l blk ?mid high)"
    using 1(5) by (subst bb_search.simps) (simp add: Let_def)
  have m: "low \<le> ?mid" "?mid < high" using 1(5) by auto
  consider (stop) "?mid = low" | (hit) "low < ?mid" "blk = l ! ?mid" | (left) "low < ?mid" "blk < l ! ?mid"
    | (right) "low < ?mid" "l ! ?mid < blk" using m(1) by fastforce
  then show ?case
  proof cases
    case stop
    then have "high = Suc low" using 1(5) by auto
    then show ?thesis using stop s between_neighbours [OF 1(3,4), of low blk] 1(6-8) by simp
  next
    case hit
    then show ?thesis using s m 1(6) by simp
  next
    case left
    then show ?thesis using s m 1(1) [OF 1(5) refl] 1(3,4,6-8) by auto
  next
    case right
    then show ?thesis using s m 1(2) [OF 1(5) refl] 1(3,4,6-8) by auto
  qed
qed

lemma bb_search_sound: "bb_search l blk low high = Some k \<Longrightarrow> low < k \<and> k < high \<and> l ! k = blk"
proof (induction l blk low high rule: bb_search.induct)
  case (1 l blk low high)
  have "low < high" using 1(3) by (subst (asm) bb_search.simps) (auto split: if_splits)
  moreover have "bb_search l blk low high = (let mid = (low + high) div 2 in if mid = low \<or> mid = high then None
      else if blk = l ! mid then Some mid else if blk < l ! mid then bb_search l blk low mid else bb_search l blk mid high)"
    using \<open>low < high\<close> by (subst bb_search.simps) simp
  ultimately show ?case using 1(1,2) [of "(low + high) div 2"] 1(3) by (auto simp: Let_def split: if_splits)
qed

lemma bb_entries_nth: "bb_ok bb \<Longrightarrow> k < num bb \<Longrightarrow> bb_entries bb ! k = blist bb ! k"
  by (simp add: bb_entries_def)

text \<open>A block before the first or behind the last entry is not in the list.\<close>

lemma outside_entries:
  assumes "bb_ok bb" "0 < num bb" "blk < blist bb ! 0 \<or> blist bb ! (num bb - 1) < blk"
  shows "blk \<notin> set (bb_entries bb)"
proof
  assume "blk \<in> set (bb_entries bb)"
  then obtain k where k: "k < num bb" "blist bb ! k = blk" using assms(1) by (auto simp: in_set_conv_nth bb_ok_def bb_entries_def)
  have "blist bb ! i < blist bb ! j" if "i < j" "j < num bb" for i j
    using assms(1) that sorted_take_nth [of "num bb" "blist bb" i j] by (auto simp: bb_ok_def bb_entries_def)
  from this [of 0 k] this [of k "num bb - 1"] show False using assms k
    by (cases "k = 0"; cases "k = num bb - 1") (auto dest: order.asym)
qed

text \<open>The search finds the index of a block exactly when the block is in the list.\<close>

lemma bb_u64_list_find_ok:
  assumes "bb_ok bb"
  shows "case bb_u64_list_find bb blk of
      Some k \<Rightarrow> k < num bb \<and> bb_entries bb ! k = blk
    | None \<Rightarrow> blk \<notin> set (bb_entries bb)"
proof -
  let ?l = "blist bb" and ?n = "num bb"
  have m: "magic bb = BB_ET_MAGIC_BADBLOCKS_LIST" and n: "?n \<le> length ?l" and s: "sorted_wrt (<) (take ?n ?l)"
    using assms by (auto simp: bb_ok_def bb_entries_def)
  have e: "bb_entries bb ! k = ?l ! k" if "k < ?n" for k using bb_entries_nth [OF assms that] .
  consider (empty) "?n = 0" | (first) "0 < ?n" "blk = ?l ! 0" | (final) "0 < ?n" "blk \<noteq> ?l ! 0" "blk = ?l ! (?n - 1)"
    | (out) "0 < ?n" "blk \<noteq> ?l ! 0" "blk \<noteq> ?l ! (?n - 1)" "blk < ?l ! 0 \<or> ?l ! (?n - 1) < blk"
    | (inside) "0 < ?n" "?l ! 0 < blk" "blk < ?l ! (?n - 1)" by (metis gr0I linorder_neqE)
  then show ?thesis
  proof cases
    case empty
    then show ?thesis using m by (simp add: bb_u64_list_find_def bb_entries_def)
  next
    case first
    then show ?thesis using m e by (simp add: bb_u64_list_find_def)
  next
    case final
    then show ?thesis using m e by (simp add: bb_u64_list_find_def)
  next
    case out
    have no: "blk \<notin> set (bb_entries bb)" using outside_entries [OF assms out(1,4)] .
    have "bb_search ?l blk 0 (?n - 1) = None"
    proof (rule ccontr)
      assume "bb_search ?l blk 0 (?n - 1) \<noteq> None"
      then obtain k where "k < ?n - 1" "?l ! k = blk" using bb_search_sound [of ?l blk 0 "?n - 1"] by blast
      then show False using no n e by (auto simp: bb_entries_def in_set_conv_nth)
    qed
    then show ?thesis using no out m by (simp add: bb_u64_list_find_def)
  next
    case inside
    then have "0 < ?n - 1" by (metis gr0I order.asym)
    moreover have "bb_u64_list_find bb blk = bb_search ?l blk 0 (?n - 1)"
      using inside m by (auto simp: bb_u64_list_find_def Let_def)
    ultimately show ?thesis using inside bb_search_finds [OF s n, of 0 "?n - 1" blk] e
      by (simp add: bb_entries_def split: option.splits)
  qed
qed

section \<open>The interface of a set of blocks\<close>

text \<open>
  What the test relies on: a block added is in the set from then on and no other is, the answer of a test is membership, and
  the contents are in ascending order without duplicates.
\<close>

locale block_set =
  fixes ok :: "'s \<Rightarrow> bool"
    and contents :: "'s \<Rightarrow> u64 list"
    and add :: "'s \<Rightarrow> u64 \<Rightarrow> 's option"
    and member :: "'s \<Rightarrow> u64 \<Rightarrow> bool"
  assumes add_law: "ok s \<Longrightarrow> \<exists>s'. add s b = Some s' \<and> ok s' \<and> set (contents s') = insert b (set (contents s))"
    and member_law: "ok s \<Longrightarrow> member s b \<longleftrightarrow> b \<in> set (contents s)"
    and ascending: "ok s \<Longrightarrow> sorted_wrt (<) (contents s)"
begin

lemma contents_sorted_list: "ok s \<Longrightarrow> contents s = sorted_list_of_set (set (contents s))"
  using ascending by (simp add: sorted_list_of_set.idem_if_sorted_distinct strict_sorted_iff)

lemma add_new:
  assumes "ok s" "\<not> member s b" "add s b = Some s'"
  shows "ok s' \<and> set (contents s') = insert b (set (contents s)) \<and> length (contents s') = Suc (length (contents s))"
proof -
  have s': "ok s'" "set (contents s') = insert b (set (contents s))" using add_law [OF assms(1), of b] assms(3) by auto
  have "distinct (contents s)" "distinct (contents s')" using ascending assms(1) s'(1) by (auto simp: strict_sorted_iff)
  then show ?thesis using s' assms(2) member_law [OF assms(1)] by (auto simp flip: distinct_card)
qed

lemma adds:
  "ok s \<Longrightarrow> \<exists>s'. foldl (\<lambda>t b. Option.bind t (\<lambda>s. add s b)) (Some s) bs = Some s' \<and> ok s' \<and>
     contents s' = sorted_list_of_set (set (contents s) \<union> set bs)"
proof (induction bs arbitrary: s)
  case Nil
  then show ?case using contents_sorted_list by auto
next
  case (Cons b bs)
  obtain t where t: "add s b = Some t" "ok t" "set (contents t) = insert b (set (contents s))"
    using add_law [OF Cons.prems] by blast
  then show ?case using Cons.IH [OF t(2)] by simp
qed

end

text \<open>Adding with memory at hand, as a partial function on lists.\<close>

definition bb_added :: "bb_struct_u64_list \<Rightarrow> u64 \<Rightarrow> bb_struct_u64_list option" where
  "bb_added bb blk = (case bb_u64_list_add True bb blk of Some (BB_OK, bb') \<Rightarrow> Some bb' | _ \<Rightarrow> None)"

interpretation bad: block_set bb_ok bb_entries bb_added bb_u64_list_test
proof
  show "\<exists>s'. bb_added s b = Some s' \<and> bb_ok s' \<and> set (bb_entries s') = insert b (set (bb_entries s))" if "bb_ok s" for s b
    using bb_u64_list_add_ok [OF that, of b] by (auto simp: bb_added_def set_ins_block)
  show "bb_u64_list_test s b \<longleftrightarrow> b \<in> set (bb_entries s)" if "bb_ok s" for s b
    using bb_u64_list_find_ok [OF that, of b] that
    by (auto simp: bb_u64_list_test_def bb_entries_def bb_ok_def in_set_conv_nth split: option.splits)
  show "sorted_wrt (<) (bb_entries s)" if "bb_ok s" for s using that by (simp add: bb_ok_def)
qed

text \<open>Iterating from the start gives the entries one by one, and then ends.\<close>

fun bb_iterate_all :: "nat \<Rightarrow> bb_struct_u64_list \<Rightarrow> bb_struct_u64_iterate \<Rightarrow> u64 list" where
  "bb_iterate_all 0 bb iter = []"
| "bb_iterate_all (Suc n) bb iter =
     (case bb_u64_list_iterate bb iter 0 of (True, iter', blk) \<Rightarrow> blk # bb_iterate_all n bb iter' | _ \<Rightarrow> [])"

lemma bb_iterate_from:
  "bb_ok bb \<Longrightarrow> imagic iter = BB_ET_MAGIC_BADBLOCKS_ITERATE \<Longrightarrow> num bb - ptr iter < n \<Longrightarrow>
     bb_iterate_all n bb iter = drop (ptr iter) (bb_entries bb)"
proof (induction n arbitrary: iter)
  case (Suc n)
  have l: "length (bb_entries bb) = num bb" using Suc.prems by (simp add: bb_ok_def bb_entries_def)
  show ?case
  proof (cases "ptr iter < num bb")
    case True
    then show ?thesis using Suc l Cons_nth_drop_Suc [of "ptr iter" "bb_entries bb"]
      by (simp add: bb_u64_list_iterate_def bb_ok_def bb_entries_nth)
  next
    case False
    then show ?thesis using Suc.prems l by (simp add: bb_u64_list_iterate_def bb_ok_def)
  qed
qed simp

text \<open>C19. The bad block list is a set of block numbers: from an empty list of any initial size, adding any sequence of
  blocks (duplicates and any order included) succeeds while memory lasts; the entries in use are then the blocks added, in
  ascending order and without duplicates, the binary search answers membership, with the index of the block, and an
  iteration from the start delivers every block once.\<close>

theorem bad_list_is_sorted_set:
  "\<exists>bb0 bb. bb_badblocks_list_create True sz = (BB_OK, Some bb0) \<and>
     foldl (\<lambda>t b. Option.bind t (\<lambda>s. bb_added s b)) (Some bb0) bs = Some bb \<and>
     bb_entries bb = sorted_list_of_set (set bs) \<and>
     (\<forall>blk. bb_u64_list_test bb blk \<longleftrightarrow> blk \<in> set bs) \<and>
     (\<forall>blk. case bb_u64_list_find bb blk of Some k \<Rightarrow> k < num bb \<and> blist bb ! k = blk | None \<Rightarrow> blk \<notin> set bs) \<and>
     bb_iterate_all (Suc (num bb)) bb \<lparr>imagic = BB_ET_MAGIC_BADBLOCKS_ITERATE, ptr = 0\<rparr> = sorted_list_of_set (set bs)"
proof -
  obtain bb0 where c: "bb_badblocks_list_create True sz = (BB_OK, Some bb0)"
    by (auto simp: bb_badblocks_list_create_def make_u64_list_def Let_def)
  have e: "bb_ok bb0" "bb_entries bb0 = []" using bb_create_ok [OF c] by auto
  obtain bb where bb: "foldl (\<lambda>t b. Option.bind t (\<lambda>s. bb_added s b)) (Some bb0) bs = Some bb" "bb_ok bb"
      "bb_entries bb = sorted_list_of_set (set bs)" using bad.adds [OF e(1), of bs] e(2) by auto
  let ?it = "\<lparr>imagic = BB_ET_MAGIC_BADBLOCKS_ITERATE, ptr = 0\<rparr>"
  have "case bb_u64_list_find bb blk of Some k \<Rightarrow> k < num bb \<and> blist bb ! k = blk | None \<Rightarrow> blk \<notin> set bs" for blk
    using bb_u64_list_find_ok [OF bb(2), of blk] bb(3) bb_entries_nth [OF bb(2)] by (auto split: option.splits)
  moreover have "bb_iterate_all (Suc (num bb)) bb ?it = sorted_list_of_set (set bs)"
    using bb_iterate_from [OF bb(2), of ?it "Suc (num bb)"] bb(3) by (simp del: bb_iterate_all.simps)
  moreover have "bb_u64_list_test bb blk \<longleftrightarrow> blk \<in> set bs" for blk using bad.member_law [OF bb(2), of blk] bb(3) by simp
  ultimately show ?thesis using c bb(1,3) by blast
qed

end
