(* ===== verification/Bad_Blocks.thy ===== *)
theory Bad_Blocks
  imports Bad_List Drive_IO
begin

text \<open>
  The bad block test of \<open>src/src/badblocks.c\<close>: every pass writes a pattern to all blocks of the drive, in batches and block
  by block after an error, and then reads the blocks back and compares them; the first pass also marks every block with its
  number, so that a drive that only claims its capacity does not read back what was written. Block numbers are below 1 PB
  divided by the block size, so that no sum or product of them wraps, and are natural numbers here; \<open>~0\<close> in
  \<open>recover_block\<close> is \<open>None\<close>. \<open>None\<close> as a result is an access outside of a buffer, or no fuel left.
\<close>

section \<open>The state of the test\<close>

datatype error_types = READ_ERROR | WRITE_ERROR | CORRUPTION_ERROR

datatype log_entry = Block_Error u64 error_types | Too_Many_Bad_Blocks

text \<open>The variables of the file, then those of \<open>test_rw\<close> that outlive a round of its loops.\<close>

record 'w bb_state =
  world :: 'w
  cancel_ops :: bool
  currently_testing :: nat
  num_blocks :: u64
  num_read_errors :: nat
  num_write_errors :: nat
  num_corruption_errors :: nat
  bb_list :: bb_struct_u64_list
  next_bad :: u64
  bb_iter :: "bb_struct_u64_iterate option"
  log_fd :: "log_entry list"
  buffer :: "u8 list"
  read_buffer :: "u8 list"
  bb_count :: nat
  tryout :: nat
  recover_block :: "nat option"

record bb_config =
  last_block :: nat
  block_size :: nat
  blocks_at_once :: nat
  stamped :: bool
  id_offset :: nat

definition max_bb :: nat where
  "max_bb = 256"

definition PB :: nat where
  "PB = 1125899906842624"

section \<open>Reporting a block\<close>

definition count_error :: "error_types \<Rightarrow> 'w bb_state \<Rightarrow> 'w bb_state" where
  "count_error e s =
     (case e of
        READ_ERROR \<Rightarrow> s\<lparr>num_read_errors := num_read_errors s + 1\<rparr>
      | WRITE_ERROR \<Rightarrow> s\<lparr>num_write_errors := num_write_errors s + 1\<rparr>
      | CORRUPTION_ERROR \<Rightarrow> s\<lparr>num_corruption_errors := num_corruption_errors s + 1\<rparr>)"

text \<open>An iteration that is under way moves on when a block is added before its position.\<close>

definition keep_iterator :: "u64 \<Rightarrow> 'w bb_state \<Rightarrow> 'w bb_state" where
  "keep_iterator bad s =
     (case bb_iter s of
        Some iter \<Rightarrow>
          if bad < next_bad s then
            (case bb_u64_list_iterate (bb_list s) iter (next_bad s) of (_, iter', n) \<Rightarrow> s\<lparr>bb_iter := Some iter', next_bad := n\<rparr>)
          else s
      | None \<Rightarrow> s)"

definition bb_output :: "'w host \<Rightarrow> u64 \<Rightarrow> error_types \<Rightarrow> 'w bb_state \<Rightarrow> (nat \<times> 'w bb_state) option" where
  "bb_output h bad error_type s =
     (if bb_u64_list_test (bb_list s) bad then Some (0, s)
      else
        let s = s\<lparr>log_fd := log_fd s @ [Block_Error bad error_type]\<rparr> in
        case bb_u64_list_add (memory h (world s)) (bb_list s) bad of
          None \<Rightarrow> None
        | Some (error_code, l) \<Rightarrow>
            let s = s\<lparr>bb_list := l\<rparr> in
            if error_code \<noteq> BB_OK then Some (0, s)
            else Some (1, count_error error_type (keep_iterator bad s)))"

text \<open>The timer procedure, which runs when the timer elapsed.\<close>

definition alarm_intr :: "'w host \<Rightarrow> 'w bb_state \<Rightarrow> 'w bb_state" where
  "alarm_intr h s =
     (if num_blocks s = 0 then s
      else if error_status h (world s) \<noteq> 0 then s\<lparr>cancel_ops := True\<rparr>
      else s)"

text \<open>
  The timer runs in the thread of the user interface. The model looks at it where its effect can be told: before each test of
  \<open>cancel_ops\<close>, and behind the last round of a pass, from where on \<open>num_blocks\<close> keeps it from having one.
\<close>

definition poll :: "'w host \<Rightarrow> 'w bb_state \<Rightarrow> 'w bb_state" where
  "poll h s = (if timer h (world s) then alarm_intr h s else s)"

section \<open>Patterns\<close>

text \<open>The bytes of a pattern, least significant first, without leading zero bytes.\<close>

fun pattern_bytes :: "nat \<Rightarrow> u32 \<Rightarrow> u8 list" where
  "pattern_bytes 0 p = []"
| "pattern_bytes (Suc n) p = (if p = 0 then [] else ucast p # pattern_bytes n (drop_bit 8 p))"

text \<open>The loop that fills the buffer, from the most significant byte down.\<close>

fun fill_loop :: "u8 list \<Rightarrow> nat \<Rightarrow> nat \<Rightarrow> nat \<Rightarrow> u8 list" where
  "fill_loop bpattern nb i 0 = []"
| "fill_loop bpattern nb i (Suc n) = bpattern ! i # fill_loop bpattern nb (if i = 0 then nb else i - 1) n"

definition bpattern_of :: "u32 \<Rightarrow> u8 list" where
  "bpattern_of p = (if p = 0 then [0] else pattern_bytes 4 p)"

definition pattern_fill :: "(nat \<Rightarrow> nat) \<Rightarrow> u32 \<Rightarrow> nat \<Rightarrow> u8 list" where
  "pattern_fill rand p n =
     (if p = - 1 then map (\<lambda>k. of_nat (rand k mod 256)) [0..<n]
      else
        let nb = length (bpattern_of p) - 1 in fill_loop (bpattern_of p) nb nb n)"

definition patterns :: "u32 list list" where
  "patterns =
     [[0x55, 0x00, 0x00, 0x00], [0x55, 0xaa, 0x00, 0x00], [0x00, 0xff, 0x55, 0xaa], [0x00, 0xff, 0x33, 0xcc],
      [0x00, 0xff, 0x1c71c7, 0xe38e38]]"

text \<open>The loop that writes the numbers of the blocks of a batch into the buffer.\<close>

fun stamp_blocks :: "bb_config \<Rightarrow> nat \<Rightarrow> nat \<Rightarrow> u8 list \<Rightarrow> u8 list" where
  "stamp_blocks c ct 0 b = b"
| "stamp_blocks c ct (Suc i) b =
     memcpy_at (id_offset c + i * block_size c) (le64_bytes (of_nat (ct + i))) (stamp_blocks c ct i b)"

section \<open>Transfers\<close>

definition do_read ::
    "'w host \<Rightarrow> u8 list \<Rightarrow> nat \<Rightarrow> nat \<Rightarrow> nat \<Rightarrow> 'w \<Rightarrow> (nat \<times> u8 list \<times> 'w) option" where
  "do_read h b tryo bs current_block w = do {
     (got, b, w) \<leftarrow> read_sectors h (of_nat bs) (of_nat current_block) (of_nat tryo) b w;
     Some (nat got div bs, b, w)
   }"

definition do_write ::
    "'w host \<Rightarrow> bool \<Rightarrow> u8 list \<Rightarrow> nat \<Rightarrow> nat \<Rightarrow> nat \<Rightarrow> 'w \<Rightarrow> (nat \<times> 'w) option" where
  "do_write h large_drive b tryo bs current_block w = do {
     (got, w) \<leftarrow> write_sectors h large_drive (of_nat bs) (of_nat current_block) (of_nat tryo) b w;
     Some (nat got div bs, w)
   }"

section \<open>The rounds of the two loops\<close>

text \<open>The batch ends with the last block, and its blocks are marked in the first pass.\<close>

definition prepare :: "bb_config \<Rightarrow> 'w bb_state \<Rightarrow> 'w bb_state" where
  "prepare c s =
     (let s = (if currently_testing s + tryout s > last_block c
               then s\<lparr>tryout := last_block c - currently_testing s\<rparr> else s) in
      if stamped c then s\<lparr>buffer := stamp_blocks c (currently_testing s) (blocks_at_once c) (buffer s)\<rparr> else s)"

text \<open>A block that fails alone is reported; the position moves behind the blocks done.\<close>

definition settle :: "'w host \<Rightarrow> error_types \<Rightarrow> nat \<Rightarrow> 'w bb_state \<Rightarrow> 'w bb_state option" where
  "settle h e got s = do {
     s \<leftarrow> (if got = 0 \<and> tryout s = 1 then do {
         (n, s) \<leftarrow> bb_output h (of_nat (currently_testing s)) e s;
         Some (s\<lparr>bb_count := bb_count s + n, currently_testing := currently_testing s + 1\<rparr>)
       } else Some s);
     Some (s\<lparr>currently_testing := currently_testing s + got\<rparr>)
   }"

text \<open>After an incomplete transfer the blocks are tried one by one, until the end of the batch that failed.\<close>

definition retarget :: "bb_config \<Rightarrow> nat \<Rightarrow> 'w bb_state \<Rightarrow> 'w bb_state" where
  "retarget c got s =
     (if got \<noteq> tryout s then
        let s = s\<lparr>tryout := 1\<rparr> in
        if recover_block s = None then s\<lparr>recover_block := Some (currently_testing s - got + blocks_at_once c)\<rparr> else s
      else if Some (currently_testing s) = recover_block s then s\<lparr>tryout := blocks_at_once c, recover_block := None\<rparr>
      else s)"

definition write_round :: "'w host \<Rightarrow> bool \<Rightarrow> bb_config \<Rightarrow> 'w bb_state \<Rightarrow> 'w bb_state option" where
  "write_round h large_drive c s = do {
     let s = prepare c s;
     (got, w) \<leftarrow> do_write h large_drive (buffer s) (tryout s) (block_size c) (currently_testing s) (world s);
     s \<leftarrow> settle h WRITE_ERROR got (s\<lparr>world := w\<rparr>);
     Some (retarget c got s)
   }"

text \<open>The comparison of the blocks read, from the block \<open>i\<close> on; \<open>True\<close> is \<open>goto out\<close>.\<close>

fun compare_blocks :: "'w host \<Rightarrow> bb_config \<Rightarrow> nat \<Rightarrow> nat \<Rightarrow> nat \<Rightarrow> 'w bb_state \<Rightarrow> (bool \<times> 'w bb_state) option" where
  "compare_blocks h c got i 0 s = Some (False, s)"
| "compare_blocks h c got i (Suc n) s = do {
     x \<leftarrow> rd_span (read_buffer s) (i * block_size c) (block_size c);
     y \<leftarrow> rd_span (buffer s) (i * block_size c) (block_size c);
     if x \<noteq> y then
       if \<not> currently_testing s * block_size c < PB then Some (True, s)
       else do {
         (k, s) \<leftarrow> bb_output h (of_nat (currently_testing s + i - got)) CORRUPTION_ERROR s;
         compare_blocks h c got (i + 1) n (s\<lparr>bb_count := bb_count s + k\<rparr>)
       }
     else compare_blocks h c got (i + 1) n s
   }"

definition read_round :: "'w host \<Rightarrow> bb_config \<Rightarrow> 'w bb_state \<Rightarrow> (bool \<times> 'w bb_state) option" where
  "read_round h c s = do {
     let s = prepare c s;
     (got, b, w) \<leftarrow> do_read h (read_buffer s) (tryout s) (block_size c) (currently_testing s) (world s);
     let tr = tryout s;
     s \<leftarrow> settle h READ_ERROR got (s\<lparr>read_buffer := b, world := w\<rparr>);
     let s = retarget c got s;
     if got \<noteq> tr then Some (False, s) else compare_blocks h c got 0 got s
   }"

definition abort_test :: "'w bb_state \<Rightarrow> 'w bb_state" where
  "abort_test s = s\<lparr>log_fd := log_fd s @ [Too_Many_Bad_Blocks], cancel_ops := True\<rparr>"

text \<open>The loops; \<open>True\<close> is \<open>goto out\<close>.\<close>

fun write_loop :: "'w host \<Rightarrow> bool \<Rightarrow> bb_config \<Rightarrow> nat \<Rightarrow> 'w bb_state \<Rightarrow> (bool \<times> 'w bb_state) option" where
  "write_loop h large_drive c 0 s = None"
| "write_loop h large_drive c (Suc fuel) s =
     (if currently_testing s < last_block c then
        let s = poll h s in
        if cancel_ops s then Some (True, s)
        else if bb_count s \<ge> max_bb then Some (True, abort_test s)
        else do { s \<leftarrow> write_round h large_drive c s; write_loop h large_drive c fuel s }
      else Some (False, s))"

fun read_loop :: "'w host \<Rightarrow> bb_config \<Rightarrow> nat \<Rightarrow> 'w bb_state \<Rightarrow> (bool \<times> 'w bb_state) option" where
  "read_loop h c 0 s = None"
| "read_loop h c (Suc fuel) s =
     (if currently_testing s < last_block c then
        let s = poll h s in
        if cancel_ops s then Some (True, s)
        else if bb_count s \<ge> max_bb then Some (True, abort_test s)
        else do {
          (out, s) \<leftarrow> read_round h c s;
          if out then Some (True, s) else read_loop h c fuel s
        }
      else Some (False, s))"

section \<open>The test\<close>

text \<open>One pass over the drive, from a first block.\<close>

definition test_pass ::
    "'w host \<Rightarrow> bool \<Rightarrow> bb_config \<Rightarrow> nat \<Rightarrow> (nat \<Rightarrow> nat) \<Rightarrow> u32 \<Rightarrow> nat \<Rightarrow> 'w bb_state \<Rightarrow> (bool \<times> 'w bb_state) option" where
  "test_pass h large_drive c first_block rand p fuel s =
     (let s = poll h s in
      if cancel_ops s then Some (True, s)
      else do {
        (out, s) \<leftarrow> write_loop h large_drive c fuel
           (s\<lparr>buffer := pattern_fill rand p (blocks_at_once c * block_size c), num_blocks := of_nat (last_block c) - 1,
              currently_testing := first_block, tryout := blocks_at_once c\<rparr>);
        if out then Some (True, s)
        else do {
          (out, s) \<leftarrow> read_loop h c fuel
             (s\<lparr>num_blocks := of_nat (last_block c), currently_testing := first_block, tryout := blocks_at_once c\<rparr>);
          if out then Some (True, s) else Some (False, (poll h s)\<lparr>num_blocks := 0\<rparr>)
        }
      })"

text \<open>The passes; only the first one marks the blocks.\<close>

fun test_passes ::
    "'w host \<Rightarrow> bool \<Rightarrow> bb_config \<Rightarrow> nat \<Rightarrow> (nat \<Rightarrow> nat) \<Rightarrow> u32 list \<Rightarrow> nat \<Rightarrow> 'w bb_state \<Rightarrow> 'w bb_state option" where
  "test_passes h large_drive c first_block rand [] fuel s = Some s"
| "test_passes h large_drive c first_block rand (p # ps) fuel s = do {
     (out, s) \<leftarrow> test_pass h large_drive c first_block rand p fuel s;
     if out then Some s else test_passes h large_drive (c\<lparr>stamped := False\<rparr>) first_block rand ps fuel s
   }"

text \<open>\<open>rand0\<close> is the random number for the offset of the marks.\<close>

definition test_rw ::
    "'w host \<Rightarrow> bool \<Rightarrow> bool \<Rightarrow> nat \<Rightarrow> (nat \<Rightarrow> nat) \<Rightarrow> nat \<Rightarrow> nat \<Rightarrow> nat \<Rightarrow> nat \<Rightarrow> int \<Rightarrow> int \<Rightarrow> nat \<Rightarrow> 'w bb_state \<Rightarrow>
     (nat \<times> 'w bb_state) option" where
  "test_rw h large_drive detect_fakes rand0 rand blocks bs first_block at_once pattern_type nb_passes fuel s =
     (if pattern_type < 0 \<or> pattern_type \<ge> 5 then Some (0, s\<lparr>cancel_ops := True\<rparr>)
      else if nb_passes < 1 \<or> nb_passes > 4 then Some (0, s\<lparr>cancel_ops := True\<rparr>)
      else if first_block * bs > PB \<or> blocks * bs > PB then Some (0, s\<lparr>cancel_ops := True\<rparr>)
      else if \<not> memory h (world s) then Some (0, s\<lparr>cancel_ops := True\<rparr>)
      else do {
        s \<leftarrow> test_passes h large_drive
           \<lparr>last_block = blocks, block_size = bs, blocks_at_once = at_once, stamped = detect_fakes,
            id_offset = (if detect_fakes then rand0 * (bs - 8) div 32767 else 0)\<rparr>
           first_block rand (take (nat nb_passes) (patterns ! nat pattern_type)) fuel
           (s\<lparr>bb_count := 0, recover_block := None, buffer := replicate (at_once * bs) 0, read_buffer := replicate (at_once * bs) 0\<rparr>);
        Some (bb_count s, s)
      })"

record badblocks_report =
  report_bb_count :: nat
  report_read_errors :: nat
  report_write_errors :: nat
  report_corruption_errors :: nat

definition BADBLOCK_BLOCK_SIZE :: nat where
  "BADBLOCK_BLOCK_SIZE = 524288"

definition BB_BLOCKS_AT_ONCE :: nat where
  "BB_BLOCKS_AT_ONCE = 64"

text \<open>The answer, the report and the state. A report that is \<open>None\<close> is a null pointer.\<close>

definition BadBlocks ::
    "'w host \<Rightarrow> bool \<Rightarrow> bool \<Rightarrow> nat \<Rightarrow> (nat \<Rightarrow> nat) \<Rightarrow> nat \<Rightarrow> int \<Rightarrow> int \<Rightarrow> badblocks_report option \<Rightarrow> nat \<Rightarrow> 'w bb_state \<Rightarrow>
     (bool \<times> badblocks_report option \<times> 'w bb_state) option" where
  "BadBlocks h large_drive detect_fakes rand0 rand disk_size nb_passes flash_type report fuel s =
     (case report of
        None \<Rightarrow> Some (False, None, s)
      | Some r \<Rightarrow>
          let r = r\<lparr>report_bb_count := 0\<rparr>;
              s = s\<lparr>num_read_errors := 0, num_write_errors := 0, num_corruption_errors := 0, log_fd := []\<rparr> in
          case bb_badblocks_list_create (memory h (world s)) 0 of
            (error_code, None) \<Rightarrow> Some (False, Some r, s)
          | (error_code, Some l) \<Rightarrow> do {
              (n, s) \<leftarrow> test_rw h large_drive detect_fakes rand0 rand (disk_size div BADBLOCK_BLOCK_SIZE) BADBLOCK_BLOCK_SIZE 0
                 BB_BLOCKS_AT_ONCE flash_type nb_passes fuel (s\<lparr>bb_list := l, cancel_ops := False\<rparr>);
              let r = \<lparr>report_bb_count = n, report_read_errors = num_read_errors s,
                       report_write_errors = num_write_errors s, report_corruption_errors = num_corruption_errors s\<rparr>;
              Some (\<not> (cancel_ops s \<and> n = 0), Some r, s)
            })"

end
