(* ===== verification/Bad_Test.thy ===== *)
theory Bad_Test
  imports Bad_Blocks
begin

text \<open>
  The bad block test ends on every drive, with a report whose figures agree with each other and with the log; it finds no
  bad block on a drive that keeps what is written, and finds one on a drive that claims a larger capacity than it has.
\<close>

section \<open>The figures of a report\<close>

fun logged :: "log_entry list \<Rightarrow> u64 list" where
  "logged [] = []"
| "logged (Block_Error b e # l) = b # logged l"
| "logged (Too_Many_Bad_Blocks # l) = logged l"

lemma logged_append [simp]: "logged (a @ b) = logged a @ logged b"
  by (induction a rule: logged.induct) auto

abbreviation bad_blocks :: "'w bb_state \<Rightarrow> u64 list" where
  "bad_blocks s \<equiv> bb_entries (bb_list s)"

text \<open>\<open>k\<close> blocks below \<open>n\<close> are reported: as many as the counters add up to, and with enough memory as many as are logged.\<close>

definition figures_ok :: "'w host \<Rightarrow> nat \<Rightarrow> nat \<Rightarrow> 'w bb_state \<Rightarrow> bool" where
  "figures_ok h n k s \<longleftrightarrow> bb_ok (bb_list s) \<and> length (bad_blocks s) = k \<and>
     num_read_errors s + num_write_errors s + num_corruption_errors s = k \<and>
     (\<forall>b \<in> set (bad_blocks s). unat b < n) \<and>
     ((\<forall>w. memory h w) \<longrightarrow> distinct (logged (log_fd s)) \<and> length (logged (log_fd s)) = k \<and>
        set (logged (log_fd s)) = set (bad_blocks s))"

text \<open>What reporting a block leaves as it is.\<close>

definition same_run :: "'w bb_state \<Rightarrow> 'w bb_state \<Rightarrow> bool" where
  "same_run s t \<longleftrightarrow> world s = world t \<and> cancel_ops s = cancel_ops t \<and> currently_testing s = currently_testing t \<and>
     num_blocks s = num_blocks t \<and> buffer s = buffer t \<and> read_buffer s = read_buffer t \<and> bb_count s = bb_count t \<and>
     tryout s = tryout t \<and> recover_block s = recover_block t"

lemma same_run_trans: "same_run s t \<Longrightarrow> same_run t u \<Longrightarrow> same_run s u"
  by (simp add: same_run_def)

lemma keep_iterator_fields [simp]:
  "world (keep_iterator b s) = world s" "cancel_ops (keep_iterator b s) = cancel_ops s"
  "currently_testing (keep_iterator b s) = currently_testing s" "num_blocks (keep_iterator b s) = num_blocks s"
  "num_read_errors (keep_iterator b s) = num_read_errors s" "num_write_errors (keep_iterator b s) = num_write_errors s"
  "num_corruption_errors (keep_iterator b s) = num_corruption_errors s" "bb_list (keep_iterator b s) = bb_list s"
  "log_fd (keep_iterator b s) = log_fd s" "buffer (keep_iterator b s) = buffer s"
  "read_buffer (keep_iterator b s) = read_buffer s" "bb_count (keep_iterator b s) = bb_count s"
  "tryout (keep_iterator b s) = tryout s" "recover_block (keep_iterator b s) = recover_block s"
  by (auto simp: keep_iterator_def split: option.splits prod.splits)

lemma count_error_fields [simp]:
  "world (count_error e s) = world s" "cancel_ops (count_error e s) = cancel_ops s"
  "currently_testing (count_error e s) = currently_testing s" "num_blocks (count_error e s) = num_blocks s"
  "bb_list (count_error e s) = bb_list s" "log_fd (count_error e s) = log_fd s" "buffer (count_error e s) = buffer s"
  "read_buffer (count_error e s) = read_buffer s" "bb_count (count_error e s) = bb_count s"
  "tryout (count_error e s) = tryout s" "recover_block (count_error e s) = recover_block s"
  by (auto simp: count_error_def split: error_types.splits)

lemma count_error_sum:
  "num_read_errors (count_error e s) + num_write_errors (count_error e s) + num_corruption_errors (count_error e s) =
     Suc (num_read_errors s + num_write_errors s + num_corruption_errors s)"
  by (cases e) (auto simp: count_error_def)

lemma length_ins_block: "sorted_wrt (<) xs \<Longrightarrow> b \<notin> set xs \<Longrightarrow> length (ins_block b xs) = Suc (length xs)"
  by (induction xs) auto

lemma add_with_room: "num bb < bbsize bb \<Longrightarrow> bb_u64_list_add a bb blk = bb_u64_list_add True bb blk"
  by (simp add: bb_u64_list_add_def)

text \<open>A block that is not in the list is added, unless there is no memory for it.\<close>

lemma bb_add_cases:
  assumes "bb_ok bb"
  obtains bb' where "bb_u64_list_add a bb blk = Some (BB_OK, bb')" "bb_ok bb'" "bb_entries bb' = ins_block blk (bb_entries bb)"
  | "\<not> a" "bb_u64_list_add a bb blk = Some (BB_ET_NO_MEMORY, bb)"
proof (cases "a \<or> num bb < bbsize bb")
  case True
  then have "bb_u64_list_add a bb blk = bb_u64_list_add True bb blk" by (cases a) (simp, blast intro: add_with_room)
  moreover obtain bb' where "bb_u64_list_add True bb blk = Some (BB_OK, bb')" "bb_ok bb'" "bb_entries bb' = ins_block blk (bb_entries bb)"
    using bb_u64_list_add_ok [OF assms, of blk] by blast
  ultimately show ?thesis using that(1) [of bb'] by simp
next
  case False
  then have "\<not> a" "num bb = bbsize bb" using assms by (auto simp: bb_ok_def)
  then show ?thesis using bb_u64_list_add_no_memory [OF assms, of a blk] by (intro that(2)) auto
qed

lemma bb_output_ok:
  assumes ok: "figures_ok h n k s" and bad: "unat bad < n"
  shows "\<exists>d s'. bb_output h bad e s = Some (d, s') \<and> d \<le> 1 \<and> figures_ok h n (k + d) s' \<and> same_run s' s \<and>
    set (bad_blocks s) \<subseteq> set (bad_blocks s') \<and>
    (memory h (world s) \<longrightarrow> set (bad_blocks s') = insert bad (set (bad_blocks s)))"
proof -
  have l: "bb_ok (bb_list s)" using ok by (simp add: figures_ok_def)
  show ?thesis
  proof (cases "bb_u64_list_test (bb_list s) bad")
    case True
    then have "bad \<in> set (bad_blocks s)" using bad.member_law [OF l] by simp
    then show ?thesis using True ok by (auto simp: bb_output_def same_run_def)
  next
    case False
    then have new: "bad \<notin> set (bad_blocks s)" using bad.member_law [OF l] by simp
    let ?m = "memory h (world s)"
    let ?s = "s\<lparr>log_fd := log_fd s @ [Block_Error bad e]\<rparr>"
    from l show ?thesis
    proof (rule bb_add_cases [where a = ?m and blk = bad])
      fix l' assume a: "bb_u64_list_add ?m (bb_list s) bad = Some (BB_OK, l')" "bb_ok l'" "bb_entries l' = ins_block bad (bad_blocks s)"
      have o: "bb_output h bad e s = Some (1, count_error e (keep_iterator bad (?s\<lparr>bb_list := l'\<rparr>)))"
        using False a(1) by (simp add: bb_output_def)
      have e: "set (bb_entries l') = insert bad (set (bad_blocks s))" using a(3) by (simp add: set_ins_block)
      have "length (bb_entries l') = Suc k" using a(3) ok new by (simp add: figures_ok_def bb_ok_def length_ins_block)
      with e a(2) bad new ok have "figures_ok h n (Suc k) (count_error e (keep_iterator bad (?s\<lparr>bb_list := l'\<rparr>)))"
        by (auto simp: figures_ok_def count_error_sum)
      then show ?thesis using o e by (auto simp: same_run_def)
    next
      assume "\<not> ?m" "bb_u64_list_add ?m (bb_list s) bad = Some (BB_ET_NO_MEMORY, bb_list s)"
      then show ?thesis using False ok by (auto simp: bb_output_def figures_ok_def same_run_def)
    qed
  qed
qed

section \<open>Every round reports in range and makes progress\<close>

text \<open>The batches fit into a transfer, the drive is not too large, and the marks are inside of the blocks.\<close>

definition config_ok :: "bb_config \<Rightarrow> bool" where
  "config_ok c \<longleftrightarrow> 0 < block_size c \<and> 0 < blocks_at_once c \<and> blocks_at_once c * block_size c \<le> 0xFFFFFFFF \<and>
     last_block c * block_size c \<le> PB \<and> (stamped c \<longrightarrow> id_offset c + 8 \<le> block_size c)"

definition run_ok :: "'w host \<Rightarrow> bb_config \<Rightarrow> 'w bb_state \<Rightarrow> bool" where
  "run_ok h c s \<longleftrightarrow> figures_ok h (last_block c) (bb_count s) s \<and> 0 < tryout s \<and> tryout s \<le> blocks_at_once c \<and>
     length (buffer s) = blocks_at_once c * block_size c \<and> length (read_buffer s) = blocks_at_once c * block_size c \<and>
     bb_count s < max_bb + blocks_at_once c"

lemma run_ok_world [simp]: "run_ok h c (s\<lparr>world := w\<rparr>) \<longleftrightarrow> run_ok h c s"
  by (simp add: run_ok_def figures_ok_def)

lemma block_inside: "i < n \<Longrightarrow> i * bs + bs \<le> n * (bs :: nat)"
  by (metis Suc_leI add.commute mult_Suc mult_le_mono1)

lemma length_stamp_blocks:
  "config_ok c \<Longrightarrow> stamped c \<Longrightarrow> n \<le> blocks_at_once c \<Longrightarrow> length b = blocks_at_once c * block_size c \<Longrightarrow>
     length (stamp_blocks c ct n b) = length b"
proof (induction n)
  case (Suc n)
  then have "id_offset c + n * block_size c + 8 \<le> length b"
    using block_inside [of n "blocks_at_once c" "block_size c"] by (simp add: config_ok_def)
  then show ?case using Suc by simp
qed simp

lemma block_number:
  assumes "config_ok c" "b < last_block c"
  shows "unat (of_nat b :: u64) = b"
proof -
  have "last_block c * 1 \<le> last_block c * block_size c" using assms(1) by (intro mult_le_mono2) (simp add: config_ok_def)
  moreover have "last_block c * block_size c \<le> PB" using assms(1) by (simp add: config_ok_def)
  ultimately have "last_block c \<le> PB" by linarith
  then show ?thesis using assms(2) by (simp add: PB_def unat_of_nat)
qed

lemma transfer_size:
  assumes "config_ok c" "t \<le> blocks_at_once c"
  shows "unat (of_nat t * of_nat (block_size c) :: u64) = t * block_size c" "\<not> of_nat t * of_nat (block_size c) > (0xFFFFFFFF :: u64)"
    "t * block_size c \<le> blocks_at_once c * block_size c"
proof -
  show l: "t * block_size c \<le> blocks_at_once c * block_size c" using assms(2) by simp
  moreover have "blocks_at_once c * block_size c \<le> 0xFFFFFFFF" using assms(1) by (simp add: config_ok_def)
  ultimately have f: "t * block_size c \<le> 0xFFFFFFFF" by linarith
  then show u: "unat (of_nat t * of_nat (block_size c) :: u64) = t * block_size c" by (simp add: unat_of_nat flip: of_nat_mult)
  show "\<not> of_nat t * of_nat (block_size c) > (0xFFFFFFFF :: u64)"
    using u f by (simp add: word_less_nat_alt)
qed

lemma do_write_ok:
  assumes "config_ok c" "t \<le> blocks_at_once c" "length b = blocks_at_once c * block_size c"
  shows "\<exists>got w'. do_write h large b t (block_size c) ct w = Some (got, w') \<and> (got = 0 \<or> got = t)"
proof -
  have "0 < block_size c" using assms(1) by (simp add: config_ok_def)
  moreover obtain r w' where "write_sectors h large (of_nat (block_size c)) (of_nat ct) (of_nat t) b w = Some (r, w')"
      "r = - 1 \<or> r = 0 \<or> r = int (t * block_size c)"
    using write_sectors_defined [of "of_nat t" "of_nat (block_size c)" b h large "of_nat ct" w] transfer_size [OF assms(1,2)] assms(3)
    by auto
  ultimately show ?thesis by (auto simp: do_write_def simp flip: of_nat_mult)
qed

lemma do_read_ok:
  assumes "config_ok c" "reads_bounded h" "t \<le> blocks_at_once c" "length b = blocks_at_once c * block_size c"
  shows "\<exists>got b' w'. do_read h b t (block_size c) ct w = Some (got, b', w') \<and> got \<le> t \<and> length b' = length b"
proof -
  have bs: "0 < block_size c" using assms(1) by (simp add: config_ok_def)
  obtain r b' w' where r: "read_sectors h (of_nat (block_size c)) (of_nat ct) (of_nat t) b w = Some (r, b', w')"
      "length b' = length b" "nat r \<le> t * block_size c"
    using read_sectors_defined [OF assms(2), of "of_nat t" "of_nat (block_size c)" b "of_nat ct" w] transfer_size [OF assms(1,3)] assms(4)
    by auto
  have "nat r div block_size c \<le> t" using div_le_mono [OF r(3), of "block_size c"] bs by simp
  then show ?thesis using r by (auto simp: do_read_def)
qed

lemma prepare_ok:
  assumes "config_ok c" "run_ok h c s" "currently_testing s < last_block c"
  shows "run_ok h c (prepare c s)" "currently_testing (prepare c s) + tryout (prepare c s) \<le> last_block c"
proof -
  have "length (stamp_blocks c ct (blocks_at_once c) (buffer s)) = length (buffer s)" if "stamped c" for ct
    using length_stamp_blocks [OF assms(1) that, of "blocks_at_once c" "buffer s"] assms(2) by (simp add: run_ok_def)
  then show "run_ok h c (prepare c s)" using assms by (auto simp: prepare_def Let_def run_ok_def figures_ok_def)
  show "currently_testing (prepare c s) + tryout (prepare c s) \<le> last_block c" using assms(3) by (simp add: prepare_def Let_def)
qed

lemma prepare_fields [simp]:
  "currently_testing (prepare c s) = currently_testing s" "world (prepare c s) = world s" "bb_count (prepare c s) = bb_count s"
  "recover_block (prepare c s) = recover_block s" "read_buffer (prepare c s) = read_buffer s" "bb_list (prepare c s) = bb_list s"
  "cancel_ops (prepare c s) = cancel_ops s"
  by (simp_all add: prepare_def Let_def)

lemma settle_ok:
  assumes c: "config_ok c" and ok: "run_ok h c s" and room: "bb_count s < max_bb"
    and here: "currently_testing s + tryout s \<le> last_block c" and got: "got \<le> tryout s"
  shows "\<exists>s'. settle h e got s = Some s' \<and> run_ok h c s' \<and> tryout s' = tryout s \<and>
    currently_testing s' = currently_testing s + (if got = 0 \<and> tryout s = 1 then 1 else got) \<and>
    (got \<noteq> 0 \<longrightarrow> s' = s\<lparr>currently_testing := currently_testing s + got\<rparr>) \<and> bb_count s \<le> bb_count s'"
proof (cases "got = 0 \<and> tryout s = 1")
  case True
  have "figures_ok h (last_block c) (bb_count s) s" using ok by (simp add: run_ok_def)
  moreover have b: "unat (of_nat (currently_testing s) :: u64) < last_block c" using here True block_number [OF c, of "currently_testing s"] by simp
  ultimately obtain d t where t: "bb_output h (of_nat (currently_testing s)) e s = Some (d, t)" "d \<le> 1"
      "figures_ok h (last_block c) (bb_count s + d) t" "same_run t s" using bb_output_ok by blast
  have "0 < blocks_at_once c" using c by (simp add: config_ok_def)
  with t True ok room show ?thesis
    by (auto simp: settle_def run_ok_def same_run_def figures_ok_def)
next
  case False
  then show ?thesis using ok by (auto simp: settle_def run_ok_def figures_ok_def)
qed

lemma retarget_ok: "config_ok c \<Longrightarrow> run_ok h c s \<Longrightarrow> run_ok h c (retarget c got s)"
  by (auto simp: retarget_def Let_def run_ok_def figures_ok_def config_ok_def)

lemma retarget_fields [simp]:
  "currently_testing (retarget c got s) = currently_testing s" "bb_count (retarget c got s) = bb_count s"
  "buffer (retarget c got s) = buffer s" "read_buffer (retarget c got s) = read_buffer s" "world (retarget c got s) = world s"
  "bb_list (retarget c got s) = bb_list s" "cancel_ops (retarget c got s) = cancel_ops s"
  by (simp_all add: retarget_def Let_def)

text \<open>The rounds that are left: two per block, less one when the next block is tried alone.\<close>

definition rounds_left :: "bb_config \<Rightarrow> 'w bb_state \<Rightarrow> nat" where
  "rounds_left c s = 2 * (last_block c - currently_testing s) + (if tryout s = 1 then 0 else 1)"

lemma retarget_progress:
  assumes "got \<le> tryout s'" "0 < tryout s'" "tryout s' = 1 \<or> tryout s \<noteq> 1" "currently_testing s < last_block c"
    "currently_testing s' = currently_testing s + (if got = 0 \<and> tryout s' = 1 then 1 else got)"
  shows "rounds_left c (retarget c got s') < rounds_left c s"
  using assms by (auto simp: rounds_left_def retarget_def Let_def split: if_splits)

lemma prepare_tryout: "tryout (prepare c s) = 1 \<or> tryout s \<noteq> 1 \<or> last_block c \<le> currently_testing s"
  by (auto simp: prepare_def Let_def)

lemma write_round_ok:
  assumes c: "config_ok c" and ok: "run_ok h c s" and room: "bb_count s < max_bb" and here: "currently_testing s < last_block c"
  shows "\<exists>s'. write_round h large c s = Some s' \<and> run_ok h c s' \<and> rounds_left c s' < rounds_left c s \<and> bb_count s \<le> bb_count s'"
proof -
  let ?p = "prepare c s"
  note p = prepare_ok [OF c ok here]
  have q: "tryout ?p \<le> blocks_at_once c" "length (buffer ?p) = blocks_at_once c * block_size c" using p(1) by (simp_all add: run_ok_def)
  obtain got w where g: "do_write h large (buffer ?p) (tryout ?p) (block_size c) (currently_testing ?p) (world ?p) = Some (got, w)"
      "got = 0 \<or> got = tryout ?p" using do_write_ok [OF c q, of h large "currently_testing ?p" "world ?p"] by (elim exE conjE)
  have w: "run_ok h c (?p\<lparr>world := w\<rparr>)" by (simp only: run_ok_world p(1))
  obtain t where t: "settle h WRITE_ERROR got (?p\<lparr>world := w\<rparr>) = Some t" "run_ok h c t" "tryout t = tryout ?p"
      "currently_testing t = currently_testing s + (if got = 0 \<and> tryout ?p = 1 then 1 else got)" "bb_count s \<le> bb_count t"
    using settle_ok [OF c w, of got WRITE_ERROR] room p(2) g(2) by fastforce
  have "rounds_left c (retarget c got t) < rounds_left c s"
    using t g(2) p(1) here prepare_tryout [of c s] by (intro retarget_progress) (auto simp: run_ok_def)
  then show ?thesis using g(1) t(1,5) retarget_ok [OF c t(2)] by (auto simp: write_round_def)
qed

text \<open>What a comparison leaves as it is.\<close>

definition same_place :: "'w bb_state \<Rightarrow> 'w bb_state \<Rightarrow> bool" where
  "same_place s t \<longleftrightarrow> world s = world t \<and> cancel_ops s = cancel_ops t \<and> currently_testing s = currently_testing t \<and>
     num_blocks s = num_blocks t \<and> buffer s = buffer t \<and> read_buffer s = read_buffer t \<and>
     tryout s = tryout t \<and> recover_block s = recover_block t"

lemma compare_blocks_ok:
  assumes c: "config_ok c"
  shows "figures_ok h (last_block c) (bb_count s) s \<Longrightarrow> length (buffer s) = blocks_at_once c * block_size c \<Longrightarrow>
    length (read_buffer s) = blocks_at_once c * block_size c \<Longrightarrow> i + n \<le> blocks_at_once c \<Longrightarrow> i + n = got \<Longrightarrow>
    got \<le> currently_testing s \<Longrightarrow> currently_testing s \<le> last_block c \<Longrightarrow>
    \<exists>out s'. compare_blocks h c got i n s = Some (out, s') \<and> figures_ok h (last_block c) (bb_count s') s' \<and>
      bb_count s' \<le> bb_count s + n \<and> same_place s' s \<and> bb_count s \<le> bb_count s'"
proof (induction n arbitrary: i s)
  case 0
  then show ?case by (intro exI [of _ False]) (simp add: same_place_def)
next
  case (Suc n)
  have r: "i * block_size c + block_size c \<le> blocks_at_once c * block_size c" using Suc.prems by (intro block_inside) simp
  let ?x = "take (block_size c) (drop (i * block_size c) (read_buffer s))" and ?y = "take (block_size c) (drop (i * block_size c) (buffer s))"
  have reads: "rd_span (read_buffer s) (i * block_size c) (block_size c) = Some ?x" "rd_span (buffer s) (i * block_size c) (block_size c) = Some ?y"
    using r Suc.prems by simp_all
  consider (same) "?x = ?y" | (big) "?x \<noteq> ?y" "\<not> currently_testing s * block_size c < PB"
    | (bad) "?x \<noteq> ?y" "currently_testing s * block_size c < PB" by blast
  then show ?case
  proof cases
    case same
    have "\<exists>out s'. compare_blocks h c got (i + 1) n s = Some (out, s') \<and> figures_ok h (last_block c) (bb_count s') s' \<and>
        bb_count s' \<le> bb_count s + n \<and> same_place s' s \<and> bb_count s \<le> bb_count s'" using Suc.prems by (intro Suc.IH) auto
    then show ?thesis using same reads by fastforce
  next
    case big
    then show ?thesis using reads Suc.prems by (intro exI [of _ True]) (simp add: same_place_def)
  next
    case bad
    let ?b = "currently_testing s + i - got"
    have "?b < last_block c" using Suc.prems by simp
    then have "unat (of_nat ?b :: u64) < last_block c" using block_number [OF c] by simp
    then obtain d t where t: "bb_output h (of_nat ?b) CORRUPTION_ERROR s = Some (d, t)" "d \<le> 1"
        "figures_ok h (last_block c) (bb_count s + d) t" "same_run t s" using bb_output_ok [OF Suc.prems(1)] by blast
    let ?t = "t\<lparr>bb_count := bb_count t + d\<rparr>"
    have "\<exists>out s'. compare_blocks h c got (i + 1) n ?t = Some (out, s') \<and> figures_ok h (last_block c) (bb_count s') s' \<and>
        bb_count s' \<le> bb_count ?t + n \<and> same_place s' ?t \<and> bb_count ?t \<le> bb_count s'"
      using Suc.prems t(3,4) by (intro Suc.IH) (auto simp: same_run_def figures_ok_def)
    then show ?thesis using bad reads t by (fastforce simp: same_run_def same_place_def)
  qed
qed

lemma read_round_ok:
  assumes c: "config_ok c" and rb: "reads_bounded h" and ok: "run_ok h c s" and room: "bb_count s < max_bb"
    and here: "currently_testing s < last_block c"
  shows "\<exists>out s'. read_round h c s = Some (out, s') \<and> run_ok h c s' \<and> rounds_left c s' < rounds_left c s \<and> bb_count s \<le> bb_count s'"
proof -
  let ?p = "prepare c s"
  note p = prepare_ok [OF c ok here]
  have q: "tryout ?p \<le> blocks_at_once c" "length (read_buffer ?p) = blocks_at_once c * block_size c" using p(1) by (simp_all add: run_ok_def)
  obtain got b w where g: "do_read h (read_buffer ?p) (tryout ?p) (block_size c) (currently_testing ?p) (world ?p) = Some (got, b, w)"
      "got \<le> tryout ?p" "length b = length (read_buffer ?p)"
    using do_read_ok [OF c rb q, of "currently_testing ?p" "world ?p"] by (elim exE conjE)
  let ?w = "?p\<lparr>read_buffer := b, world := w\<rparr>"
  have w: "run_ok h c ?w" using p(1) g(3) by (simp add: run_ok_def figures_ok_def)
  obtain t where t: "settle h READ_ERROR got ?w = Some t" "run_ok h c t" "tryout t = tryout ?p"
      "currently_testing t = currently_testing s + (if got = 0 \<and> tryout ?p = 1 then 1 else got)"
      "got \<noteq> 0 \<longrightarrow> t = ?w\<lparr>currently_testing := currently_testing ?w + got\<rparr>" "bb_count s \<le> bb_count t"
    using settle_ok [OF c w, of got READ_ERROR] room p(2) g(2) by fastforce
  let ?t = "retarget c got t"
  have less: "rounds_left c ?t < rounds_left c s"
    using t g(2) p(1) here prepare_tryout [of c s] by (intro retarget_progress) (auto simp: run_ok_def)
  have ok': "run_ok h c ?t" using retarget_ok [OF c t(2)] .
  show ?thesis
  proof (cases "got = tryout ?p")
    case False
    then show ?thesis using g(1) t(1,6) less ok' by (intro exI [of _ False]) (simp add: read_round_def)
  next
    case True
    then have "got \<noteq> 0" using p(1) by (simp add: run_ok_def)
    then have n: "bb_count ?t = bb_count s" "currently_testing ?t = currently_testing s + got" using t(4,5) by simp_all
    obtain out s' where s': "compare_blocks h c got 0 got ?t = Some (out, s')" "figures_ok h (last_block c) (bb_count s') s'"
        "bb_count s' \<le> bb_count ?t + got" "same_place s' ?t" "bb_count ?t \<le> bb_count s'"
      using compare_blocks_ok [OF c, of h ?t 0 got got] ok' n True q p(2) by (auto simp: run_ok_def)
    have "run_ok h c s'" using s'(2-4) ok' n room True q(1) by (simp add: run_ok_def same_place_def)
    moreover have "rounds_left c s' = rounds_left c ?t" using s'(4) by (simp add: rounds_left_def same_place_def)
    ultimately show ?thesis using g(1) t(1) True s'(1,5) n less by (simp add: read_round_def)
  qed
qed

section \<open>The test ends\<close>

lemma poll_ok [simp]: "run_ok h c (poll h s) \<longleftrightarrow> run_ok h c s" "rounds_left c (poll h s) = rounds_left c s"
  "bb_count (poll h s) = bb_count s" "currently_testing (poll h s) = currently_testing s"
  by (auto simp: poll_def alarm_intr_def run_ok_def figures_ok_def rounds_left_def)

lemma abort_ok [simp]: "run_ok h c (abort_test s) \<longleftrightarrow> run_ok h c s" "bb_count (abort_test s) = bb_count s"
  by (simp_all add: abort_test_def run_ok_def figures_ok_def)

lemma write_loop_ok:
  assumes c: "config_ok c"
  shows "run_ok h c s \<Longrightarrow> rounds_left c s < fuel \<Longrightarrow> \<exists>out s'. write_loop h large c fuel s = Some (out, s') \<and> run_ok h c s' \<and> bb_count s \<le> bb_count s'"
proof (induction fuel arbitrary: s)
  case (Suc fuel)
  show ?case
  proof (cases "currently_testing s < last_block c \<and> \<not> cancel_ops (poll h s) \<and> bb_count s < max_bb")
    case True
    then obtain t where t: "write_round h large c (poll h s) = Some t" "run_ok h c t" "rounds_left c t < rounds_left c s" "bb_count s \<le> bb_count t"
      using write_round_ok [OF c, of h "poll h s" large] Suc.prems by auto
    then have "\<exists>out s'. write_loop h large c fuel t = Some (out, s') \<and> run_ok h c s' \<and> bb_count t \<le> bb_count s'" using Suc by (intro Suc.IH) auto
    then show ?thesis using True t(1,4) by (fastforce simp: Let_def)
  next
    case False
    then show ?thesis using Suc.prems by (auto simp: Let_def)
  qed
qed simp

lemma read_loop_ok:
  assumes c: "config_ok c" and rb: "reads_bounded h"
  shows "run_ok h c s \<Longrightarrow> rounds_left c s < fuel \<Longrightarrow> \<exists>out s'. read_loop h c fuel s = Some (out, s') \<and> run_ok h c s' \<and> bb_count s \<le> bb_count s'"
proof (induction fuel arbitrary: s)
  case (Suc fuel)
  show ?case
  proof (cases "currently_testing s < last_block c \<and> \<not> cancel_ops (poll h s) \<and> bb_count s < max_bb")
    case True
    then obtain o1 t where t: "read_round h c (poll h s) = Some (o1, t)" "run_ok h c t" "rounds_left c t < rounds_left c s" "bb_count s \<le> bb_count t"
      using read_round_ok [OF c rb, of "poll h s"] Suc.prems by auto
    then have "\<exists>out s'. read_loop h c fuel t = Some (out, s') \<and> run_ok h c s' \<and> bb_count t \<le> bb_count s'" using Suc by (intro Suc.IH) auto
    then show ?thesis using True t(1,2,4) by (cases o1) (fastforce simp: Let_def)+
  next
    case False
    then show ?thesis using Suc.prems by (auto simp: Let_def)
  qed
qed simp

lemma length_fill_loop [simp]: "length (fill_loop p nb i n) = n"
  by (induction n arbitrary: i) auto

lemma length_pattern_fill [simp]: "length (pattern_fill rand p n) = n"
  by (simp add: pattern_fill_def Let_def)

text \<open>Between the passes the buffer and the size of a batch do not matter.\<close>

definition idle_ok :: "'w host \<Rightarrow> bb_config \<Rightarrow> 'w bb_state \<Rightarrow> bool" where
  "idle_ok h c s \<longleftrightarrow> figures_ok h (last_block c) (bb_count s) s \<and>
     length (read_buffer s) = blocks_at_once c * block_size c \<and> bb_count s < max_bb + blocks_at_once c"

lemma run_ok_idle: "run_ok h c s \<Longrightarrow> idle_ok h c s"
  by (simp add: run_ok_def idle_ok_def)

lemma idle_ok_poll [simp]: "idle_ok h c (poll h s) \<longleftrightarrow> idle_ok h c s"
  by (auto simp: poll_def alarm_intr_def idle_ok_def figures_ok_def)

lemma idle_ok_fields [simp]:
  "idle_ok h c (s\<lparr>num_blocks := n\<rparr>) \<longleftrightarrow> idle_ok h c s"
  "idle_ok h (c\<lparr>stamped := b\<rparr>) s \<longleftrightarrow> idle_ok h c s"
  by (simp_all add: idle_ok_def figures_ok_def)

lemma idle_run_ok:
  "idle_ok h c s \<Longrightarrow> config_ok c \<Longrightarrow> length b = blocks_at_once c * block_size c \<Longrightarrow>
     run_ok h c (s\<lparr>buffer := b, num_blocks := n, currently_testing := ct, tryout := blocks_at_once c\<rparr>)"
  by (simp add: run_ok_def idle_ok_def figures_ok_def config_ok_def)

lemma rounds_left_start: "2 * last_block c + 2 \<le> fuel \<Longrightarrow> rounds_left c s < fuel"
  by (auto simp: rounds_left_def)

lemma test_pass_ok:
  assumes c: "config_ok c" and rb: "reads_bounded h" and ok: "idle_ok h c s" and f: "2 * last_block c + 2 \<le> fuel"
  shows "\<exists>out s'. test_pass h large c first rand p fuel s = Some (out, s') \<and> idle_ok h c s' \<and> bb_count s \<le> bb_count s'"
proof (cases "cancel_ops (poll h s)")
  case True
  then show ?thesis using ok by (intro exI [of _ True]) (simp add: test_pass_def)
next
  case False
  let ?s = "(poll h s)\<lparr>buffer := pattern_fill rand p (blocks_at_once c * block_size c), num_blocks := of_nat (last_block c) - 1,
              currently_testing := first, tryout := blocks_at_once c\<rparr>"
  have s: "run_ok h c ?s" using ok c by (intro idle_run_ok) auto
  obtain o1 t where t: "write_loop h large c fuel ?s = Some (o1, t)" "run_ok h c t" "bb_count ?s \<le> bb_count t"
    using write_loop_ok [OF c s rounds_left_start [OF f], of large] by (elim exE conjE)
  show ?thesis
  proof (cases o1)
    case True
    then show ?thesis using False t run_ok_idle by (intro exI [of _ True] exI [of _ t]) (auto simp: test_pass_def)
  next
    case o1: False
    let ?t = "t\<lparr>num_blocks := of_nat (last_block c), currently_testing := first, tryout := blocks_at_once c\<rparr>"
    have r: "run_ok h c ?t" using c t(2) by (simp add: run_ok_def figures_ok_def config_ok_def)
    obtain o2 u where u: "read_loop h c fuel ?t = Some (o2, u)" "run_ok h c u" "bb_count ?t \<le> bb_count u"
      using read_loop_ok [OF c rb r rounds_left_start [OF f]] by (elim exE conjE)
    then have "test_pass h large c first rand p fuel s = Some (o2, if o2 then u else (poll h u)\<lparr>num_blocks := 0\<rparr>)"
      using False t(1) o1 by (simp add: test_pass_def)
    moreover have "run_ok h c (poll h u)" using u(2) by simp
    ultimately show ?thesis using run_ok_idle [OF u(2)] run_ok_idle [OF \<open>run_ok h c (poll h u)\<close>] t(3) u(3) by simp
  qed
qed

lemma test_passes_ok:
  "config_ok c \<Longrightarrow> reads_bounded h \<Longrightarrow> idle_ok h c s \<Longrightarrow> 2 * last_block c + 2 \<le> fuel \<Longrightarrow>
    \<exists>s'. test_passes h large c first rand ps fuel s = Some s' \<and> idle_ok h c s' \<and> bb_count s \<le> bb_count s'"
proof (induction ps arbitrary: c s)
  case (Cons p ps)
  obtain o1 t where t: "test_pass h large c first rand p fuel s = Some (o1, t)" "idle_ok h c t" "bb_count s \<le> bb_count t"
    using test_pass_ok [OF Cons.prems] by blast
  have "config_ok (c\<lparr>stamped := False\<rparr>)" using Cons.prems(1) by (simp add: config_ok_def)
  then obtain s' where "test_passes h large (c\<lparr>stamped := False\<rparr>) first rand ps fuel t = Some s'" "idle_ok h c s'" "bb_count t \<le> bb_count s'"
    using Cons.IH [of "c\<lparr>stamped := False\<rparr>" t] Cons.prems t(2) by auto
  then show ?case using t by (cases o1) auto
qed auto

text \<open>The configuration \<open>BadBlocks\<close> tests with.\<close>

definition drive_config :: "bool \<Rightarrow> nat \<Rightarrow> nat \<Rightarrow> bb_config" where
  "drive_config fakes rand0 disk_size =
     \<lparr>last_block = disk_size div BADBLOCK_BLOCK_SIZE, block_size = BADBLOCK_BLOCK_SIZE, blocks_at_once = BB_BLOCKS_AT_ONCE,
      stamped = fakes, id_offset = (if fakes then rand0 * (BADBLOCK_BLOCK_SIZE - 8) div 32767 else 0)\<rparr>"

lemma drive_config_fields [simp]:
  "last_block (drive_config fakes rand0 disk_size) = disk_size div BADBLOCK_BLOCK_SIZE"
  "block_size (drive_config fakes rand0 disk_size) = BADBLOCK_BLOCK_SIZE"
  "blocks_at_once (drive_config fakes rand0 disk_size) = BB_BLOCKS_AT_ONCE" "stamped (drive_config fakes rand0 disk_size) = fakes"
  by (simp_all add: drive_config_def)

lemma drive_config_ok:
  assumes "disk_size div BADBLOCK_BLOCK_SIZE * BADBLOCK_BLOCK_SIZE \<le> PB" "rand0 \<le> 32767"
  shows "config_ok (drive_config fakes rand0 disk_size)"
proof -
  have "rand0 * (BADBLOCK_BLOCK_SIZE - 8) div 32767 \<le> 32767 * (BADBLOCK_BLOCK_SIZE - 8) div 32767"
    using assms(2) by (intro div_le_mono mult_le_mono1)
  with assms(1) show ?thesis by (simp add: config_ok_def drive_config_def BADBLOCK_BLOCK_SIZE_def BB_BLOCKS_AT_ONCE_def)
qed

text \<open>Valid arguments, for which the passes are run.\<close>

definition args_ok :: "'w host \<Rightarrow> nat \<Rightarrow> int \<Rightarrow> int \<Rightarrow> 'w bb_state \<Rightarrow> bool" where
  "args_ok h disk_size flash_type nb_passes s \<longleftrightarrow> 0 \<le> flash_type \<and> flash_type < 5 \<and> 1 \<le> nb_passes \<and> nb_passes \<le> 4 \<and>
     memory h (world s) \<and> disk_size div BADBLOCK_BLOCK_SIZE * BADBLOCK_BLOCK_SIZE \<le> PB"

definition start_run :: "'w bb_state \<Rightarrow> 'w bb_state" where
  "start_run s = s\<lparr>bb_count := 0, recover_block := None, buffer := replicate (BB_BLOCKS_AT_ONCE * BADBLOCK_BLOCK_SIZE) 0,
     read_buffer := replicate (BB_BLOCKS_AT_ONCE * BADBLOCK_BLOCK_SIZE) 0\<rparr>"

abbreviation test_drive where
  "test_drive h large fakes rand0 rand disk_size flash_type nb_passes fuel s \<equiv>
     test_rw h large fakes rand0 rand (disk_size div BADBLOCK_BLOCK_SIZE) BADBLOCK_BLOCK_SIZE 0 BB_BLOCKS_AT_ONCE flash_type nb_passes fuel s"

lemma test_rw_passes:
  "args_ok h disk_size flash_type nb_passes s \<Longrightarrow>
     test_drive h large fakes rand0 rand disk_size flash_type nb_passes fuel s =
       map_option (\<lambda>s. (bb_count s, s)) (test_passes h large (drive_config fakes rand0 disk_size) 0 rand
         (take (nat nb_passes) (patterns ! nat flash_type)) fuel (start_run s))"
  by (simp add: args_ok_def test_rw_def drive_config_def start_run_def map_option_case split: option.splits)

lemma test_rw_refused:
  "\<not> args_ok h disk_size flash_type nb_passes s \<Longrightarrow>
     test_drive h large fakes rand0 rand disk_size flash_type nb_passes fuel s = Some (0, s\<lparr>cancel_ops := True\<rparr>)"
  by (auto simp: args_ok_def test_rw_def)

lemma test_rw_ok:
  assumes rb: "reads_bounded h" and r0: "rand0 \<le> 32767" and f: "2 * (disk_size div BADBLOCK_BLOCK_SIZE) + 2 \<le> fuel"
    and ok: "figures_ok h (disk_size div BADBLOCK_BLOCK_SIZE) 0 s"
  shows "\<exists>n s'. test_drive h large fakes rand0 rand disk_size flash_type nb_passes fuel s = Some (n, s') \<and>
     figures_ok h (disk_size div BADBLOCK_BLOCK_SIZE) n s' \<and> n < max_bb + BB_BLOCKS_AT_ONCE"
proof (cases "args_ok h disk_size flash_type nb_passes s")
  case False
  then show ?thesis using ok by (simp add: test_rw_refused figures_ok_def max_bb_def)
next
  case True
  let ?c = "drive_config fakes rand0 disk_size"
  have c: "config_ok ?c" using True r0 by (intro drive_config_ok) (auto simp: args_ok_def)
  have "idle_ok h ?c (start_run s)" using ok by (simp add: idle_ok_def start_run_def figures_ok_def max_bb_def)
  then obtain s' where "test_passes h large ?c 0 rand (take (nat nb_passes) (patterns ! nat flash_type)) fuel (start_run s) = Some s'"
      "idle_ok h ?c s'" using test_passes_ok [OF c rb] f by fastforce
  then show ?thesis using test_rw_passes [OF True] by (simp add: idle_ok_def)
qed

section \<open>Blocks that are not compared, and patterns of three bytes\<close>

text \<open>The blocks read before an incomplete transfer ends are not compared with the pattern, whatever was read.\<close>

lemma partial_read_not_compared:
  assumes "do_read h (read_buffer s) (tryout (prepare c s)) (block_size c) (currently_testing s) (world s) = Some (got, b, w)"
    "0 < got" "got < tryout (prepare c s)"
  shows "\<exists>s'. read_round h c s = Some (False, s') \<and> bb_list s' = bb_list s \<and> currently_testing s' = currently_testing s + got"
  using assms by (simp add: read_round_def settle_def Let_def)

text \<open>The pattern repeats from its most significant byte down.\<close>

lemma fill_loop_nth:
  "k < n \<Longrightarrow> i \<le> nb \<Longrightarrow> fill_loop p nb i n ! k = p ! (if k \<le> i then i - k else nb - (k - i - 1) mod (nb + 1))"
proof (induction n arbitrary: k i)
  case (Suc n)
  show ?case
  proof (cases k)
    case (Suc j)
    let ?i = "if i = 0 then nb else i - 1"
    have "fill_loop p nb i (Suc n) ! k = fill_loop p nb ?i n ! j" using Suc by simp
    also have "\<dots> = p ! (if j \<le> ?i then ?i - j else nb - (j - ?i - 1) mod (nb + 1))" using Suc.prems Suc by (intro Suc.IH) auto
    also have "(if j \<le> ?i then ?i - j else nb - (j - ?i - 1) mod (nb + 1)) = (if k \<le> i then i - k else nb - (k - i - 1) mod (nb + 1))"
    proof (cases "i = 0")
      case True
      show ?thesis
      proof (cases "j \<le> nb")
        case False
        then have "(j - nb - 1) mod (nb + 1) = j mod (nb + 1)" by (metis Suc_eq_plus1 diff_diff_left le_mod_geq not_less_eq_eq)
        then show ?thesis using True Suc False by simp
      qed (use True Suc in simp)
    next
      case False
      then show ?thesis using Suc by auto
    qed
    finally show ?thesis .
  qed simp
qed simp

lemma pattern_fill_nth:
  assumes "p \<noteq> - 1" "k < n"
  shows "pattern_fill rand p n ! k = rev (bpattern_of p) ! (k mod length (bpattern_of p))"
proof -
  let ?b = "bpattern_of p"
  have l: "0 < length ?b" by (simp add: bpattern_of_def numeral_eq_Suc)
  have m: "k mod length ?b < length ?b" using l by simp
  have "pattern_fill rand p n ! k = ?b ! (if k \<le> length ?b - 1 then length ?b - 1 - k else length ?b - 1 - (k - (length ?b - 1) - 1) mod (length ?b - 1 + 1))"
    using assms by (simp add: pattern_fill_def Let_def fill_loop_nth del: One_nat_def)
  also have "(if k \<le> length ?b - 1 then length ?b - 1 - k else length ?b - 1 - (k - (length ?b - 1) - 1) mod (length ?b - 1 + 1)) =
      length ?b - Suc (k mod length ?b)"
  proof (cases "k < length ?b")
    case False
    then have "k mod length ?b = (k - length ?b) mod length ?b" by (simp add: le_mod_geq)
    then show ?thesis using False l by simp
  qed auto
  finally show ?thesis using m by (simp add: rev_nth)
qed

text \<open>The patterns for TLC flash memory have three bytes, and a block is no multiple of three bytes: the blocks of the buffer differ.\<close>

lemma tlc_blocks_differ:
  assumes "p \<in> {0x1c71c7, 0xe38e38}"
  shows "pattern_fill rand p (BB_BLOCKS_AT_ONCE * BADBLOCK_BLOCK_SIZE) ! 0 \<noteq>
    pattern_fill rand p (BB_BLOCKS_AT_ONCE * BADBLOCK_BLOCK_SIZE) ! BADBLOCK_BLOCK_SIZE"
proof -
  have b: "bpattern_of 0x1c71c7 = [0xc7, 0x71, 0x1c]" "bpattern_of 0xe38e38 = [0x38, 0x8e, 0xe3]"
  proof -
    have "pattern_bytes (Suc (Suc (Suc (Suc 0)))) 0x1c71c7 = [0xc7, 0x71, 0x1c]"
      "pattern_bytes (Suc (Suc (Suc (Suc 0)))) 0xe38e38 = [0x38, 0x8e, 0xe3]" by simp_all
    moreover have "(4 :: nat) = Suc (Suc (Suc (Suc 0)))" by simp
    ultimately show "bpattern_of 0x1c71c7 = [0xc7, 0x71, 0x1c]" "bpattern_of 0xe38e38 = [0x38, 0x8e, 0xe3]"
      by (simp_all only: bpattern_of_def) simp_all
  qed
  have n: "p \<noteq> - 1" using assms by auto
  have k: "0 < BB_BLOCKS_AT_ONCE * BADBLOCK_BLOCK_SIZE" "BADBLOCK_BLOCK_SIZE < BB_BLOCKS_AT_ONCE * BADBLOCK_BLOCK_SIZE" "BADBLOCK_BLOCK_SIZE mod 3 = 2"
    by (simp_all add: BB_BLOCKS_AT_ONCE_def BADBLOCK_BLOCK_SIZE_def)
  show ?thesis using assms b k(3) unfolding pattern_fill_nth [OF n k(1)] pattern_fill_nth [OF n k(2)] by auto
qed

end
