(* ===== verification/Drive_Capacity.thy ===== *)
theory Drive_Capacity
  imports Bad_Test
begin

text \<open>
  The bad block test on a drive that stores bytes, but whose addresses wrap around at its real capacity, as those of drives
  sold with a forged capacity do: with the marks of the first pass the test finds bad blocks exactly when the capacity the
  drive claims is larger than the real one.
\<close>

section \<open>A drive with a real capacity\<close>

fun put_bytes :: "nat \<Rightarrow> nat \<Rightarrow> u8 list \<Rightarrow> mem \<Rightarrow> mem" where
  "put_bytes cap off [] m = m"
| "put_bytes cap off (x # xs) m = put_bytes cap (off + 1) xs (m(off mod cap := x))"

text \<open>
  Every transfer succeeds in full: it stores and delivers the bytes at their positions modulo the capacity, the user does not
  cancel, and there is memory. \<open>bytes\<close> is what the drive holds.
\<close>

definition wrapping_drive :: "'w host \<Rightarrow> ('w \<Rightarrow> mem) \<Rightarrow> nat \<Rightarrow> bool" where
  "wrapping_drive h bytes cap \<longleftrightarrow>
     (\<forall>p w. fst (set_pointer h p w) \<and> get_pointer h (snd (set_pointer h p w)) = Some p \<and>
        bytes (snd (set_pointer h p w)) = bytes w) \<and>
     (\<forall>p d w. fst (write_file h p d w) = Wrote (length d) \<and>
        bytes (snd (write_file h p d w)) = put_bytes cap (unat p) d (bytes w)) \<and>
     (\<forall>n p w. get_pointer h w = Some p \<longrightarrow>
        fst (read_file h n w) = (True, span (\<lambda>k. bytes w (k mod cap)) (unat p) n) \<and> bytes (snd (read_file h n w)) = bytes w) \<and>
     reads_bounded h \<and> (\<forall>w. error_status h w = 0) \<and> (\<forall>w. memory h w)"

lemma put_bytes_append: "put_bytes cap off (xs @ ys) m = put_bytes cap (off + length xs) ys (put_bytes cap off xs m)"
  by (induction xs arbitrary: off m) auto

lemma span_Suc: "span m off (Suc n) = span m off n @ [m (off + n)]"
  by (simp add: span_def)

text \<open>Of the bytes that share a place, the last one written stays.\<close>

lemma put_bytes_last:
  "k < n \<Longrightarrow> n \<le> k + cap \<Longrightarrow> put_bytes cap 0 (span D 0 n) m (k mod cap) = D k"
proof (induction n)
  case (Suc n)
  show ?case
  proof (cases "k = n")
    case True
    then show ?thesis by (simp add: span_Suc put_bytes_append)
  next
    case False
    then have "k < n" "n - k < cap" using Suc.prems by auto
    then have "k mod cap \<noteq> n mod cap" by (metis less_imp_le_nat mod_eq_dvd_iff_nat nat_dvd_not_less zero_less_diff)
    then show ?thesis using Suc \<open>k < n\<close> by (simp add: span_Suc put_bytes_append)
  qed
qed simp

lemma wrapping_pointer:
  assumes "wrapping_drive h bytes cap"
  obtains v where "set_pointer h p w = (True, v)" "get_pointer h v = Some p" "bytes v = bytes w"
proof -
  have "fst (set_pointer h p w) \<and> get_pointer h (snd (set_pointer h p w)) = Some p \<and> bytes (snd (set_pointer h p w)) = bytes w"
    using assms by (simp add: wrapping_drive_def)
  then show ?thesis by (cases "set_pointer h p w") (auto intro: that)
qed

lemma wrapping_write_file:
  assumes "wrapping_drive h bytes cap"
  obtains v where "write_file h p d w = (Wrote (length d), v)" "bytes v = put_bytes cap (unat p) d (bytes w)"
proof -
  have "fst (write_file h p d w) = Wrote (length d) \<and> bytes (snd (write_file h p d w)) = put_bytes cap (unat p) d (bytes w)"
    using assms by (simp add: wrapping_drive_def)
  then show ?thesis by (cases "write_file h p d w") (auto intro: that)
qed

lemma wrapping_read_file:
  assumes "wrapping_drive h bytes cap" "get_pointer h w = Some p"
  obtains v where "read_file h n w = ((True, span (\<lambda>k. bytes w (k mod cap)) (unat p) n), v)" "bytes v = bytes w"
proof -
  have "fst (read_file h n w) = (True, span (\<lambda>k. bytes w (k mod cap)) (unat p) n) \<and> bytes (snd (read_file h n w)) = bytes w"
    using assms by (simp add: wrapping_drive_def)
  then show ?thesis by (cases "read_file h n w") (auto intro: that)
qed

lemma wrapping_write:
  assumes "wrapping_drive h bytes cap" "unat (n * ss) \<le> length b" "\<not> n * ss > 0xFFFFFFFF"
  shows "\<exists>w'. write_sectors h large ss st n b w = Some (int (unat (n * ss)), w') \<and>
    bytes w' = put_bytes cap (unat (st * ss)) (take (unat (n * ss)) b) (bytes w)"
proof -
  obtain v where v: "set_pointer h (st * ss) w = (True, v)" "get_pointer h v = Some (st * ss)" "bytes v = bytes w"
    by (rule wrapping_pointer [OF assms(1)])
  let ?d = "take (unat (n * ss)) b"
  obtain w' where w': "write_file h (st * ss) ?d v = (Wrote (length ?d), w')" "bytes w' = put_bytes cap (unat (st * ss)) ?d (bytes v)"
    by (rule wrapping_write_file [OF assms(1)])
  have "\<not> user_cancelled h v" using assms(1) by (simp add: wrapping_drive_def user_cancelled_def)
  then have "WriteFileWithRetry h large ?d (unat (n * ss)) WRITE_RETRIES v = ((True, length ?d), w')"
    using v(2) w'(1) by (simp add: WriteFileWithRetry_def WRITE_RETRIES_def numeral_eq_Suc)
  then show ?thesis using v w'(2) assms(2,3) by (simp add: write_sectors_def)
qed

lemma wrapping_read:
  assumes "wrapping_drive h bytes cap" "unat (n * ss) \<le> length b" "\<not> n * ss > 0xFFFFFFFF"
  shows "\<exists>w'. read_sectors h ss st n b w =
      Some (int (unat (n * ss)), memcpy_at 0 (span (\<lambda>k. bytes w (k mod cap)) (unat (st * ss)) (unat (n * ss))) b, w') \<and> bytes w' = bytes w"
proof -
  obtain v where v: "set_pointer h (st * ss) w = (True, v)" "get_pointer h v = Some (st * ss)" "bytes v = bytes w"
    by (rule wrapping_pointer [OF assms(1)])
  obtain w' where w': "read_file h (unat (n * ss)) v = ((True, span (\<lambda>k. bytes v (k mod cap)) (unat (st * ss)) (unat (n * ss))), w')"
      "bytes w' = bytes v"
    by (rule wrapping_read_file [OF assms(1) v(2)])
  then show ?thesis using v assms(2,3) by (simp add: read_sectors_def)
qed

section \<open>The data of a pass\<close>

text \<open>The byte at a position of the drive: the number of its block, or the pattern.\<close>

definition pass_byte :: "bb_config \<Rightarrow> u8 list \<Rightarrow> mem" where
  "pass_byte c base k =
     (let b = k div block_size c; j = k mod block_size c in
      if stamped c \<and> id_offset c \<le> j \<and> j < id_offset c + 8 then le64_bytes (of_nat b) ! (j - id_offset c)
      else base ! (b mod blocks_at_once c * block_size c + j))"

lemma nth_memcpy_at:
  "off + length xs \<le> length b \<Longrightarrow> k < length b \<Longrightarrow>
     memcpy_at off xs b ! k = (if off \<le> k \<and> k < off + length xs then xs ! (k - off) else b ! k)"
  by (auto simp: memcpy_at_def nth_append min_def)

lemma stamp_blocks_nth:
  assumes c: "config_ok c" "stamped c" and b: "length b = blocks_at_once c * block_size c"
  shows "n \<le> blocks_at_once c \<Longrightarrow> i < blocks_at_once c \<Longrightarrow> j < block_size c \<Longrightarrow>
    stamp_blocks c ct n b ! (i * block_size c + j) =
      (if i < n \<and> id_offset c \<le> j \<and> j < id_offset c + 8 then le64_bytes (of_nat (ct + i)) ! (j - id_offset c)
       else b ! (i * block_size c + j))"
proof (induction n)
  case (Suc n)
  let ?bs = "block_size c"
  have k: "i * ?bs + j < length b" using block_inside [OF Suc.prems(2), of ?bs] Suc.prems(3) b by linarith
  have id: "id_offset c + 8 \<le> ?bs" using c by (simp add: config_ok_def)
  have o: "id_offset c + n * ?bs + 8 \<le> length b" using block_inside [of n "blocks_at_once c" ?bs] Suc.prems(1) id b by linarith
  have l: "length (stamp_blocks c ct n b) = length b" using length_stamp_blocks [OF c, of n b ct] Suc.prems(1) b by simp
  have "(id_offset c + n * ?bs \<le> i * ?bs + j \<and> i * ?bs + j < id_offset c + n * ?bs + 8) \<longleftrightarrow>
      i = n \<and> id_offset c \<le> j \<and> j < id_offset c + 8" (is "?l = ?r")
  proof
    assume ?l
    then have "(i * ?bs + j) div ?bs = n"
      using id by (intro div_nat_eqI) (auto simp: algebra_simps)
    then have "i = n" using Suc.prems(3) by simp
    then show ?r using \<open>?l\<close> by simp
  qed auto
  then show ?case using Suc k o l by (auto simp: nth_memcpy_at)
qed simp

text \<open>The buffer of a batch, marked or not: the pattern, and the marks of some batch.\<close>

definition batch_buffer :: "bb_config \<Rightarrow> u8 list \<Rightarrow> u8 list \<Rightarrow> bool" where
  "batch_buffer c base b \<longleftrightarrow> length b = blocks_at_once c * block_size c \<and>
     (\<forall>i j. i < blocks_at_once c \<longrightarrow> j < block_size c \<longrightarrow> \<not> (stamped c \<and> id_offset c \<le> j \<and> j < id_offset c + 8) \<longrightarrow>
        b ! (i * block_size c + j) = base ! (i * block_size c + j))"

definition marked :: "bb_config \<Rightarrow> nat \<Rightarrow> u8 list \<Rightarrow> u8 list" where
  "marked c ct b = (if stamped c then stamp_blocks c ct (blocks_at_once c) b else b)"

lemma marked_span:
  assumes c: "config_ok c" and b: "batch_buffer c base b" and ct: "ct mod blocks_at_once c = 0"
  shows "marked c ct b = span (pass_byte c base) (ct * block_size c) (blocks_at_once c * block_size c)" "batch_buffer c base (marked c ct b)"
proof -
  let ?n = "blocks_at_once c" and ?bs = "block_size c"
  have bs: "0 < ?bs" using c by (simp add: config_ok_def)
  have lb: "length b = ?n * ?bs" using b by (simp add: batch_buffer_def)
  have l: "length (marked c ct b) = ?n * ?bs" using length_stamp_blocks [OF c, of ?n b ct] lb by (simp add: marked_def)
  have nth: "marked c ct b ! (i * ?bs + j) = pass_byte c base ((ct + i) * ?bs + j)" if "i < ?n" "j < ?bs" for i j
  proof -
    have "((ct + i) * ?bs + j) div ?bs = ct + i" "((ct + i) * ?bs + j) mod ?bs = j" using that(2) by simp_all
    moreover have "(ct + i) mod ?n = i" using ct that(1) by (metis add_cancel_left_left mod_add_left_eq mod_less)
    ultimately show ?thesis using b that stamp_blocks_nth [OF c _ lb, of ?n i j ct]
      by (auto simp: pass_byte_def marked_def batch_buffer_def)
  qed
  show "marked c ct b = span (pass_byte c base) (ct * ?bs) (?n * ?bs)"
  proof (rule nth_equalityI)
    fix k assume "k < length (marked c ct b)"
    then have k: "k < ?n * ?bs" using l by simp
    then have "k div ?bs < ?n" by (simp add: less_mult_imp_div_less)
    then have "marked c ct b ! (k div ?bs * ?bs + k mod ?bs) = pass_byte c base ((ct + k div ?bs) * ?bs + k mod ?bs)" using bs by (intro nth) auto
    then show "marked c ct b ! k = span (pass_byte c base) (ct * ?bs) (?n * ?bs) ! k" using k by (simp add: algebra_simps)
  qed (simp add: l)
  show "batch_buffer c base (marked c ct b)"
    using b stamp_blocks_nth [OF c _ lb, of ?n] l by (auto simp: batch_buffer_def marked_def)
qed

section \<open>A pass without errors\<close>

text \<open>The batches are complete and follow each other.\<close>

definition smooth :: "bb_config \<Rightarrow> u8 list \<Rightarrow> 'w bb_state \<Rightarrow> bool" where
  "smooth c base s \<longleftrightarrow> batch_buffer c base (buffer s) \<and> recover_block s = None \<and> \<not> cancel_ops s \<and>
     length (read_buffer s) = blocks_at_once c * block_size c \<and> currently_testing s \<le> last_block c \<and>
     (currently_testing s < last_block c \<longrightarrow> tryout s = blocks_at_once c \<and> currently_testing s mod blocks_at_once c = 0)"

abbreviation batch :: "bb_config \<Rightarrow> 'w bb_state \<Rightarrow> nat" where
  "batch c s \<equiv> min (blocks_at_once c) (last_block c - currently_testing s)"

lemma prepare_smooth:
  "smooth c base s \<Longrightarrow> currently_testing s < last_block c \<Longrightarrow>
     prepare c s = s\<lparr>tryout := batch c s, buffer := marked c (currently_testing s) (buffer s)\<rparr>"
  by (auto simp: prepare_def smooth_def marked_def Let_def min_def)

lemma block_address:
  assumes "config_ok c" "b \<le> last_block c"
  shows "unat (of_nat b * of_nat (block_size c) :: u64) = b * block_size c"
proof -
  have "b * block_size c \<le> last_block c * block_size c" using assms(2) by simp
  also have "\<dots> \<le> PB" using assms(1) by (simp add: config_ok_def)
  finally show ?thesis by (simp add: PB_def unat_of_nat flip: of_nat_mult)
qed

lemma take_span: "k \<le> n \<Longrightarrow> take k (span m off n) = span m off k"
  by (rule nth_equalityI) auto

lemma smooth_next:
  assumes "config_ok c" "smooth c base s" "currently_testing s < last_block c"
  shows "smooth c base (s\<lparr>tryout := batch c s, buffer := marked c (currently_testing s) (buffer s), world := w,
    currently_testing := currently_testing s + batch c s\<rparr>)"
  using assms marked_span(2) [OF assms(1), of base "buffer s" "currently_testing s"] by (auto simp: smooth_def min_def)

lemma batch_pos: "config_ok c \<Longrightarrow> currently_testing s < last_block c \<Longrightarrow> 0 < batch c s"
  by (simp add: config_ok_def)

lemma settle_full: "0 < got \<Longrightarrow> settle h e got s = Some (s\<lparr>currently_testing := currently_testing s + got\<rparr>)"
  by (simp add: settle_def)

lemma retarget_full: "tryout s = got \<Longrightarrow> recover_block s = None \<Longrightarrow> retarget c got s = s"
  by (simp add: retarget_def)

lemma write_round_smooth:
  assumes d: "wrapping_drive h bytes cap" and c: "config_ok c" and s: "smooth c base s" and here: "currently_testing s < last_block c"
  obtains w where "write_round h large c s = Some (s\<lparr>tryout := batch c s, buffer := marked c (currently_testing s) (buffer s), world := w,
      currently_testing := currently_testing s + batch c s\<rparr>)"
    "bytes w = put_bytes cap (currently_testing s * block_size c) (span (pass_byte c base) (currently_testing s * block_size c) (batch c s * block_size c))
      (bytes (world s))"
proof -
  let ?t = "batch c s" and ?ct = "currently_testing s" and ?bs = "block_size c" and ?b = "marked c (currently_testing s) (buffer s)"
  have ct: "?ct mod blocks_at_once c = 0" and bb: "batch_buffer c base (buffer s)" and rec: "recover_block s = None"
    using s here by (auto simp: smooth_def)
  have t: "?t \<le> blocks_at_once c" by simp
  note sz = transfer_size [OF c t]
  have bs: "0 < ?bs" using c by (simp add: config_ok_def)
  have b: "?b = span (pass_byte c base) (?ct * ?bs) (blocks_at_once c * ?bs)" using marked_span(1) [OF c bb ct] .
  obtain w where w: "write_sectors h large (of_nat ?bs) (of_nat ?ct) (of_nat ?t) ?b (world s) = Some (int (?t * ?bs), w)"
      "bytes w = put_bytes cap (?ct * ?bs) (take (?t * ?bs) ?b) (bytes (world s))"
    using wrapping_write [OF d, of "of_nat ?t" "of_nat ?bs" ?b large "of_nat ?ct" "world s"] sz block_address [OF c, of ?ct] here b by auto
  have "do_write h large ?b ?t ?bs ?ct (world s) = Some (?t, w)" using w(1) bs by (simp add: do_write_def nat_mult_distrib)
  then have "write_round h large c s = Some (s\<lparr>tryout := ?t, buffer := ?b, world := w, currently_testing := ?ct + ?t\<rparr>)"
    using prepare_smooth [OF s here] rec by (simp add: write_round_def Let_def retarget_full settle_full [OF batch_pos [OF c here]])
  then show ?thesis using w(2) b sz(3) by (intro that) (simp_all add: take_span)
qed

lemma poll_calm: "wrapping_drive h bytes cap \<Longrightarrow> poll h s = s"
  by (simp add: wrapping_drive_def poll_def alarm_intr_def)

lemma write_loop_smooth:
  assumes d: "wrapping_drive h bytes cap" and c: "config_ok c"
  shows "smooth c base s \<Longrightarrow> bb_count s < max_bb \<Longrightarrow> last_block c - currently_testing s < fuel \<Longrightarrow>
    bytes (world s) = put_bytes cap 0 (span (pass_byte c base) 0 (currently_testing s * block_size c)) m \<Longrightarrow>
    \<exists>t b w. write_loop h large c fuel s = Some (False, s\<lparr>tryout := t, buffer := b, world := w, currently_testing := last_block c\<rparr>) \<and>
      batch_buffer c base b \<and> bytes w = put_bytes cap 0 (span (pass_byte c base) 0 (last_block c * block_size c)) m"
proof (induction fuel arbitrary: s)
  case (Suc fuel)
  show ?case
  proof (cases "currently_testing s < last_block c")
    case False
    then have e: "currently_testing s = last_block c" using Suc.prems(1) by (simp add: smooth_def)
    have "batch_buffer c base (buffer s)" using Suc.prems(1) by (simp add: smooth_def)
    moreover have "s\<lparr>tryout := tryout s, buffer := buffer s, world := world s, currently_testing := last_block c\<rparr> = s"
      by (simp add: e [symmetric])
    moreover have "write_loop h large c (Suc fuel) s = Some (False, s)" using False by simp
    moreover have "bytes (world s) = put_bytes cap 0 (span (pass_byte c base) 0 (last_block c * block_size c)) m" using Suc.prems(4) e by simp
    ultimately show ?thesis by metis
  next
    case True
    let ?t = "batch c s" and ?ct = "currently_testing s" and ?bs = "block_size c"
    obtain w where w: "write_round h large c s = Some (s\<lparr>tryout := ?t, buffer := marked c ?ct (buffer s), world := w, currently_testing := ?ct + ?t\<rparr>)"
        (is "_ = Some ?s'")
        "bytes w = put_bytes cap (?ct * ?bs) (span (pass_byte c base) (?ct * ?bs) (?t * ?bs)) (bytes (world s))"
      by (rule write_round_smooth [OF d c Suc.prems(1) True])
    have "bytes w = put_bytes cap 0 (span (pass_byte c base) 0 ((?ct + ?t) * ?bs)) m"
      using w(2) Suc.prems(4) by (simp add: add_mult_distrib span_append put_bytes_append)
    moreover have "last_block c - (?ct + ?t) < fuel" using Suc.prems(3) batch_pos [OF c True] True by linarith
    ultimately have "\<exists>t b v. write_loop h large c fuel ?s' = Some (False, ?s'\<lparr>tryout := t, buffer := b, world := v, currently_testing := last_block c\<rparr>) \<and>
        batch_buffer c base b \<and> bytes v = put_bytes cap 0 (span (pass_byte c base) 0 (last_block c * ?bs)) m"
      using smooth_next [OF c Suc.prems(1) True, of w] Suc.prems(2) by (intro Suc.IH) auto
    moreover have "write_loop h large c (Suc fuel) s = write_loop h large c fuel ?s'"
      using True w(1) Suc.prems(1,2) poll_calm [OF d, of s] by (simp add: smooth_def)
    ultimately show ?thesis by simp
  qed
qed simp

text \<open>The bytes a read delivers, by their position.\<close>

abbreviation drive_byte :: "('w \<Rightarrow> mem) \<Rightarrow> nat \<Rightarrow> 'w \<Rightarrow> mem" where
  "drive_byte bytes cap w k \<equiv> bytes w (k mod cap)"

lemma slice_span: "i * bs + bs \<le> n \<Longrightarrow> take bs (drop (i * bs) (span m off n)) = span m (off + i * bs) bs"
  by (rule nth_equalityI) (auto simp: add.assoc)

lemma slice_memcpy: "k + n \<le> length xs \<Longrightarrow> take n (drop k (memcpy_at 0 xs b)) = take n (drop k xs)"
  by (simp add: memcpy_at_def)

text \<open>A round of the reading loop reads a batch and compares it.\<close>

lemma read_round_smooth:
  assumes d: "wrapping_drive h bytes cap" and c: "config_ok c" and s: "smooth c base s" and here: "currently_testing s < last_block c"
  obtains w r where "read_round h c s = compare_blocks h c (batch c s) 0 (batch c s)
      (s\<lparr>tryout := batch c s, buffer := marked c (currently_testing s) (buffer s), read_buffer := r, world := w,
         currently_testing := currently_testing s + batch c s\<rparr>)"
    "bytes w = bytes (world s)" "length r = length (read_buffer s)"
    "\<And>i. i < batch c s \<Longrightarrow> take (block_size c) (drop (i * block_size c) r) =
       span (drive_byte bytes cap (world s)) ((currently_testing s + i) * block_size c) (block_size c)"
proof -
  let ?t = "batch c s" and ?ct = "currently_testing s" and ?bs = "block_size c" and ?b = "marked c (currently_testing s) (buffer s)"
  have rec: "recover_block s = None" and l: "length (read_buffer s) = blocks_at_once c * ?bs" using s by (auto simp: smooth_def)
  have t: "?t \<le> blocks_at_once c" by simp
  note sz = transfer_size [OF c t]
  have bs: "0 < ?bs" using c by (simp add: config_ok_def)
  let ?x = "span (drive_byte bytes cap (world s)) (?ct * ?bs) (?t * ?bs)"
  obtain w where w: "read_sectors h (of_nat ?bs) (of_nat ?ct) (of_nat ?t) (read_buffer s) (world s) =
        Some (int (?t * ?bs), memcpy_at 0 ?x (read_buffer s), w)" "bytes w = bytes (world s)"
    using wrapping_read [OF d, of "of_nat ?t" "of_nat ?bs" "read_buffer s" "of_nat ?ct" "world s"] sz block_address [OF c, of ?ct] here l by auto
  let ?r = "memcpy_at 0 ?x (read_buffer s)"
  have "do_read h (read_buffer s) ?t ?bs ?ct (world s) = Some (?t, ?r, w)" using w(1) bs by (simp add: do_read_def nat_mult_distrib)
  then have "read_round h c s = compare_blocks h c ?t 0 ?t
      (s\<lparr>tryout := ?t, buffer := ?b, read_buffer := ?r, world := w, currently_testing := ?ct + ?t\<rparr>)"
    using prepare_smooth [OF s here] rec by (simp add: read_round_def Let_def retarget_full settle_full [OF batch_pos [OF c here]])
  moreover have "length ?r = length (read_buffer s)" using sz(3) l by simp
  moreover have "take ?bs (drop (i * ?bs) ?r) = span (drive_byte bytes cap (world s)) ((?ct + i) * ?bs) ?bs" if "i < ?t" for i
    using block_inside [OF that, of ?bs] by (simp add: slice_memcpy slice_span add_mult_distrib)
  ultimately show ?thesis using that w(2) by blast
qed

lemma compare_blocks_same:
  "(\<And>j. i \<le> j \<Longrightarrow> j < i + n \<Longrightarrow> take (block_size c) (drop (j * block_size c) (read_buffer s)) = take (block_size c) (drop (j * block_size c) (buffer s))) \<Longrightarrow>
    length (read_buffer s) = blocks_at_once c * block_size c \<Longrightarrow> length (buffer s) = blocks_at_once c * block_size c \<Longrightarrow>
    i + n \<le> blocks_at_once c \<Longrightarrow> compare_blocks h c got i n s = Some (False, s)"
proof (induction n arbitrary: i)
  case (Suc n)
  have "i * block_size c + block_size c \<le> blocks_at_once c * block_size c" using Suc.prems(4) by (intro block_inside) simp
  moreover have "compare_blocks h c got (i + 1) n s = Some (False, s)" using Suc.prems by (intro Suc.IH) auto
  ultimately show ?case using Suc.prems(1) [of i] Suc.prems(2,3) by simp
qed simp

text \<open>The buffer of a batch holds the data of its blocks.\<close>

lemma marked_slice:
  assumes "config_ok c" "smooth c base s" "currently_testing s < last_block c" "i < batch c s"
  shows "take (block_size c) (drop (i * block_size c) (marked c (currently_testing s) (buffer s))) =
    span (pass_byte c base) ((currently_testing s + i) * block_size c) (block_size c)"
proof -
  have b: "batch_buffer c base (buffer s)" "currently_testing s mod blocks_at_once c = 0" using assms(2,3) by (auto simp: smooth_def)
  have "i * block_size c + block_size c \<le> blocks_at_once c * block_size c" using assms(4) by (intro block_inside) simp
  then show ?thesis unfolding marked_span(1) [OF assms(1) b] by (simp add: slice_span add_mult_distrib)
qed

text \<open>A drive that delivers the data of the pass passes it.\<close>

lemma read_loop_smooth:
  assumes d: "wrapping_drive h bytes cap" and c: "config_ok c"
    and same: "\<forall>k < last_block c * block_size c. m (k mod cap) = pass_byte c base k"
  shows "smooth c base s \<Longrightarrow> bb_count s < max_bb \<Longrightarrow> last_block c - currently_testing s < fuel \<Longrightarrow> bytes (world s) = m \<Longrightarrow>
    \<exists>t b r w. read_loop h c fuel s = Some (False, s\<lparr>tryout := t, buffer := b, read_buffer := r, world := w, currently_testing := last_block c\<rparr>) \<and>
      length r = blocks_at_once c * block_size c"
proof (induction fuel arbitrary: s)
  case (Suc fuel)
  show ?case
  proof (cases "currently_testing s < last_block c")
    case False
    then have e: "currently_testing s = last_block c" using Suc.prems(1) by (simp add: smooth_def)
    have "s\<lparr>tryout := tryout s, buffer := buffer s, read_buffer := read_buffer s, world := world s, currently_testing := last_block c\<rparr> = s"
      by (simp add: e [symmetric])
    moreover have "read_loop h c (Suc fuel) s = Some (False, s)" using False by simp
    moreover have "length (read_buffer s) = blocks_at_once c * block_size c" using Suc.prems(1) by (simp add: smooth_def)
    ultimately show ?thesis by metis
  next
    case True
    let ?t = "batch c s" and ?ct = "currently_testing s" and ?bs = "block_size c"
    obtain w r where w: "read_round h c s = compare_blocks h c ?t 0 ?t
          (s\<lparr>tryout := ?t, buffer := marked c ?ct (buffer s), read_buffer := r, world := w, currently_testing := ?ct + ?t\<rparr>)"
        (is "_ = compare_blocks h c _ _ _ ?s'")
        "bytes w = bytes (world s)" "length r = length (read_buffer s)"
        "\<And>i. i < ?t \<Longrightarrow> take ?bs (drop (i * ?bs) r) = span (drive_byte bytes cap (world s)) ((?ct + i) * ?bs) ?bs"
      by (rule read_round_smooth [OF d c Suc.prems(1) True]) blast
    have l: "length r = blocks_at_once c * ?bs" using w(3) Suc.prems(1) by (simp add: smooth_def)
    have sm: "smooth c base ?s'" using smooth_next [OF c Suc.prems(1) True, of w] l by (simp add: smooth_def)
    have eq: "span (drive_byte bytes cap (world s)) ((?ct + i) * ?bs) ?bs = span (pass_byte c base) ((?ct + i) * ?bs) ?bs" if "i < ?t" for i
    proof -
      have "(?ct + i) * ?bs + ?bs \<le> last_block c * ?bs" using that by (intro block_inside) auto
      then show ?thesis using same Suc.prems(4) by (intro nth_equalityI) auto
    qed
    have "compare_blocks h c ?t 0 ?t ?s' = Some (False, ?s')"
    proof (rule compare_blocks_same)
      show "take ?bs (drop (j * ?bs) (read_buffer ?s')) = take ?bs (drop (j * ?bs) (buffer ?s'))" if "0 \<le> j" "j < 0 + ?t" for j
        using that w(4) [of j] eq [of j] marked_slice [OF c Suc.prems(1) True, of j] by simp
      show "length (buffer ?s') = blocks_at_once c * ?bs" using sm by (simp add: smooth_def batch_buffer_def)
    qed (use l in auto)
    then have "read_loop h c (Suc fuel) s = read_loop h c fuel ?s'"
      using True w(1) Suc.prems(1,2) poll_calm [OF d, of s] by (simp add: smooth_def)
    moreover have "last_block c - (?ct + ?t) < fuel" using Suc.prems(3) batch_pos [OF c True] True by linarith
    then have "\<exists>t b r w. read_loop h c fuel ?s' = Some (False, ?s'\<lparr>tryout := t, buffer := b, read_buffer := r, world := w, currently_testing := last_block c\<rparr>) \<and>
        length r = blocks_at_once c * ?bs" using sm Suc.prems(2,4) w(2) by (intro Suc.IH) auto
    ultimately show ?thesis by simp
  qed
qed simp

section \<open>A genuine drive passes\<close>

definition calm :: "bb_config \<Rightarrow> 'w bb_state \<Rightarrow> bool" where
  "calm c s \<longleftrightarrow> recover_block s = None \<and> \<not> cancel_ops s \<and> bb_count s = 0 \<and> length (read_buffer s) = blocks_at_once c * block_size c"

abbreviation pass_base :: "bb_config \<Rightarrow> (nat \<Rightarrow> nat) \<Rightarrow> u32 \<Rightarrow> u8 list" where
  "pass_base c rand p \<equiv> pattern_fill rand p (blocks_at_once c * block_size c)"

abbreviation pass_data :: "bb_config \<Rightarrow> (nat \<Rightarrow> nat) \<Rightarrow> u32 \<Rightarrow> u8 list" where
  "pass_data c rand p \<equiv> span (pass_byte c (pass_base c rand p)) 0 (last_block c * block_size c)"

abbreviation write_start :: "bb_config \<Rightarrow> (nat \<Rightarrow> nat) \<Rightarrow> u32 \<Rightarrow> 'w bb_state \<Rightarrow> 'w bb_state" where
  "write_start c rand p s \<equiv> s\<lparr>buffer := pass_base c rand p, num_blocks := of_nat (last_block c) - 1,
     currently_testing := 0, tryout := blocks_at_once c\<rparr>"

abbreviation read_start :: "bb_config \<Rightarrow> 'w bb_state \<Rightarrow> 'w bb_state" where
  "read_start c s \<equiv> s\<lparr>num_blocks := of_nat (last_block c), currently_testing := 0, tryout := blocks_at_once c\<rparr>"

text \<open>The writing half of a pass: the drive holds what is left of the data, and the reading half starts smoothly.\<close>

lemma write_half:
  assumes d: "wrapping_drive h bytes cap" and c: "config_ok c" and s: "calm c s" and f: "2 * last_block c + 2 \<le> fuel"
  obtains t where "write_loop h large c fuel (write_start c rand p s) = Some (False, t)" "smooth c (pass_base c rand p) (read_start c t)"
    "bytes (world t) = put_bytes cap 0 (pass_data c rand p) (bytes (world s))" "calm c t"
proof -
  let ?s = "write_start c rand p s"
  have sm: "smooth c (pass_base c rand p) ?s" using s by (simp add: smooth_def calm_def batch_buffer_def)
  have m: "bytes (world ?s) = put_bytes cap 0 (span (pass_byte c (pass_base c rand p)) 0 (currently_testing ?s * block_size c)) (bytes (world s))"
    by simp
  have n: "bb_count ?s < max_bb" "last_block c - currently_testing ?s < fuel" using s f by (simp_all add: calm_def max_bb_def)
  obtain t b w where r: "write_loop h large c fuel ?s = Some (False, ?s\<lparr>tryout := t, buffer := b, world := w, currently_testing := last_block c\<rparr>)"
      "batch_buffer c (pass_base c rand p) b" "bytes w = put_bytes cap 0 (pass_data c rand p) (bytes (world s))"
    using write_loop_smooth [OF d c sm n m, of large] by (elim exE conjE)
  show ?thesis using r s by (intro that [OF r(1)]) (simp_all add: smooth_def calm_def)
qed

lemma test_pass_genuine:
  assumes d: "wrapping_drive h bytes cap" and c: "config_ok c" and s: "calm c s" and f: "2 * last_block c + 2 \<le> fuel"
    and cap: "last_block c * block_size c \<le> cap"
  shows "\<exists>s'. test_pass h large c 0 rand p fuel s = Some (False, s') \<and> calm c s'"
proof -
  obtain t where t: "write_loop h large c fuel (write_start c rand p s) = Some (False, t)" "smooth c (pass_base c rand p) (read_start c t)"
    "bytes (world t) = put_bytes cap 0 (pass_data c rand p) (bytes (world s))" "calm c t" by (rule write_half [OF d c s f])
  have same: "\<forall>k < last_block c * block_size c.
      put_bytes cap 0 (pass_data c rand p) (bytes (world s)) (k mod cap) = pass_byte c (pass_base c rand p) k"
    using cap by (intro allI impI put_bytes_last) auto
  have n: "bb_count (read_start c t) < max_bb" "last_block c - currently_testing (read_start c t) < fuel" using t(4) f by (simp_all add: calm_def max_bb_def)
  have "bytes (world (read_start c t)) = put_bytes cap 0 (pass_data c rand p) (bytes (world s))" using t(3) by simp
  from read_loop_smooth [OF d c same t(2) n this] obtain a b r w where
    "read_loop h c fuel (read_start c t) = Some (False, (read_start c t)\<lparr>tryout := a, buffer := b, read_buffer := r, world := w, currently_testing := last_block c\<rparr>)"
    "length r = blocks_at_once c * block_size c" by (elim exE conjE)
  then show ?thesis using t(1,4) s poll_calm [OF d] by (simp add: test_pass_def calm_def)
qed

lemma test_passes_genuine:
  assumes d: "wrapping_drive h bytes cap"
  shows "config_ok c \<Longrightarrow> calm c s \<Longrightarrow> 2 * last_block c + 2 \<le> fuel \<Longrightarrow> last_block c * block_size c \<le> cap \<Longrightarrow>
    \<exists>s'. test_passes h large c 0 rand ps fuel s = Some s' \<and> calm c s'"
proof (induction ps arbitrary: c s)
  case (Cons p ps)
  obtain t where t: "test_pass h large c 0 rand p fuel s = Some (False, t)" "calm c t" using test_pass_genuine [OF d Cons.prems] by blast
  have "config_ok (c\<lparr>stamped := False\<rparr>)" "calm (c\<lparr>stamped := False\<rparr>) t" using Cons.prems(1) t(2) by (simp_all add: config_ok_def calm_def)
  then obtain s' where "test_passes h large (c\<lparr>stamped := False\<rparr>) 0 rand ps fuel t = Some s'" "calm c s'"
    using Cons.IH [of "c\<lparr>stamped := False\<rparr>" t] Cons.prems by (auto simp: calm_def)
  then show ?case using t by simp
qed auto

section \<open>A forged capacity is found\<close>

lemma le32_bytes_inject: "le32_bytes a = le32_bytes b \<Longrightarrow> a = b"
  unfolding le32_bytes_def list.inject by (metis le32_join_bytes)

lemma le64_bytes_inject:
  assumes "le64_bytes a = le64_bytes b"
  shows "a = b"
proof (rule bit_word_eqI)
  fix n assume n: "n < LENGTH(64)"
  have "be32_bytes (ucast (drop_bit 32 a)) @ be32_bytes (ucast a) = be32_bytes (ucast (drop_bit 32 b)) @ be32_bytes (ucast b)"
    using assms by (simp add: le64_bytes_def be64_bytes_def)
  then have w: "(ucast (drop_bit 32 a) :: u32) = ucast (drop_bit 32 b)" "(ucast a :: u32) = ucast b"
    using le32_bytes_inject by (auto simp: be32_bytes_def)
  show "bit a n = bit b n"
  proof (cases "n < 32")
    case True
    have "bit (ucast a :: u32) n = bit (ucast b :: u32) n" using w(2) by simp
    then show ?thesis using True n by (simp add: bit_simps)
  next
    case False
    have "bit (ucast (drop_bit 32 a) :: u32) (n - 32) = bit (ucast (drop_bit 32 b) :: u32) (n - 32)" using w(1) by simp
    moreover have "n - 32 < 32" using n by simp
    ultimately show ?thesis using False by (simp add: bit_simps)
  qed
qed

lemma le64_bytes_differ:
  assumes "a \<noteq> b"
  obtains j where "j < 8" "le64_bytes a ! j \<noteq> le64_bytes b ! j"
proof -
  have "le64_bytes a \<noteq> le64_bytes b" using assms le64_bytes_inject by blast
  then have "\<exists>j < 8. le64_bytes a ! j \<noteq> le64_bytes b ! j" by (simp add: list_eq_iff_nth_eq)
  then show ?thesis using that by blast
qed

text \<open>The first block then reads back as the last one that shares its place.\<close>

lemma forged_first_block:
  assumes c: "config_ok c" "stamped c" and m: "0 < m" "m < last_block c"
  shows "\<exists>k < block_size c. put_bytes (m * block_size c) 0 (span (pass_byte c base) 0 (last_block c * block_size c)) m0 k \<noteq> pass_byte c base k"
proof -
  let ?bs = "block_size c" and ?n = "last_block c" and ?q = "(last_block c - 1) div m"
  have id: "id_offset c + 8 \<le> ?bs" using c by (simp add: config_ok_def)
  have e: "?q * m + (?n - 1) mod m = ?n - 1" by (rule div_mult_mod_eq)
  have q: "?q * m < ?n" "?n \<le> ?q * m + m" using e m mod_less_divisor [OF m(1), of "?n - 1"] by linarith+
  have "0 < ?q" using m by (simp add: div_greater_zero_iff)
  then have q0: "0 < ?q * m" using m(1) by simp
  have num: "unat (of_nat (?q * m) :: u64) = ?q * m" using block_number [OF c(1) q(1)] .
  have "(of_nat (?q * m) :: u64) \<noteq> of_nat 0"
  proof
    assume "(of_nat (?q * m) :: u64) = of_nat 0"
    then have "unat (of_nat (?q * m) :: u64) = unat (of_nat 0 :: u64)" by (rule arg_cong)
    moreover have "unat (of_nat 0 :: u64) = 0" by simp
    ultimately show False using num q0 by linarith
  qed
  then obtain j where j: "j < 8" "le64_bytes (of_nat (?q * m)) ! j \<noteq> le64_bytes (of_nat 0) ! j" by (rule le64_bytes_differ)
  let ?k = "id_offset c + j"
  have k: "?k < ?bs" using id j(1) by simp
  let ?last = "?q * m * ?bs + ?k"
  have "?last < ?n * ?bs" using block_inside [OF q(1), of ?bs] k by linarith
  moreover have "?n * ?bs \<le> ?last + m * ?bs" using mult_le_mono1 [OF q(2), of ?bs] by (simp add: add_mult_distrib)
  ultimately have "put_bytes (m * ?bs) 0 (span (pass_byte c base) 0 (?n * ?bs)) m0 (?last mod (m * ?bs)) = pass_byte c base ?last"
    by (rule put_bytes_last)
  moreover have "?k < m * ?bs" using k m(1) by (metis less_le_trans mult_le_mono1 Suc_leI One_nat_def mult_1)
  then have "?last mod (m * ?bs) = ?k" by (simp add: mult.assoc)
  moreover have "pass_byte c base ?last = le64_bytes (of_nat (?q * m)) ! j" using k j(1) c(2) by (simp add: pass_byte_def)
  moreover have "pass_byte c base ?k = le64_bytes (of_nat 0) ! j" using k j(1) c(2) by (simp add: pass_byte_def)
  ultimately show ?thesis using j(2) k by metis
qed

text \<open>A difference in the first block is reported in the first round of the reading loop.\<close>

lemma compare_first_bad:
  assumes c: "config_ok c" and m: "memory h (world s)" and f: "figures_ok h (last_block c) 0 s" and z: "bb_count s = 0"
    and l: "length (buffer s) = blocks_at_once c * block_size c" "length (read_buffer s) = blocks_at_once c * block_size c"
    and n: "0 < got" "got \<le> blocks_at_once c" "currently_testing s = got" "got \<le> last_block c"
    and diff: "take (block_size c) (read_buffer s) \<noteq> take (block_size c) (buffer s)"
  shows "\<exists>out s'. compare_blocks h c got 0 got s = Some (out, s') \<and> 0 < bb_count s'"
proof -
  obtain k where k: "got = Suc k" using n(1) by (cases got) auto
  have "got * block_size c \<le> blocks_at_once c * block_size c" using n(2) by simp
  moreover have "blocks_at_once c * block_size c \<le> 0xFFFFFFFF" using c by (simp add: config_ok_def)
  ultimately have "got * block_size c \<le> 0xFFFFFFFF" by (rule order_trans)
  then have pb: "currently_testing s * block_size c < PB" unfolding n(3) by (simp add: PB_def)
  have "unat (of_nat 0 :: u64) < last_block c" using n by simp
  then obtain d t where t: "bb_output h (of_nat 0) CORRUPTION_ERROR s = Some (d, t)" "figures_ok h (last_block c) (0 + d) t" "same_run t s"
      "set (bad_blocks t) = insert (of_nat 0) (set (bad_blocks s))" using bb_output_ok [OF f] m by blast
  have "length (bad_blocks t) = d" using t(2) by (simp add: figures_ok_def)
  then have d: "0 < d" using t(4) by (cases "bad_blocks t") auto
  let ?t = "t\<lparr>bb_count := bb_count t + d\<rparr>"
  have "\<exists>out s'. compare_blocks h c got 1 k ?t = Some (out, s') \<and> figures_ok h (last_block c) (bb_count s') s' \<and>
      bb_count s' \<le> bb_count ?t + k \<and> same_place s' ?t \<and> bb_count ?t \<le> bb_count s'"
    using t(2,3) l n k z by (intro compare_blocks_ok [OF c]) (auto simp: same_run_def figures_ok_def)
  then obtain out s' where "compare_blocks h c got 1 k ?t = Some (out, s')" "0 < bb_count s'" using d by auto
  moreover have "rd_span (read_buffer s) 0 (block_size c) = Some (take (block_size c) (read_buffer s))"
      "rd_span (buffer s) 0 (block_size c) = Some (take (block_size c) (buffer s))"
    using block_inside [of 0 "blocks_at_once c" "block_size c"] n l by simp_all
  ultimately show ?thesis using diff pb t(1) n(3) k by simp
qed

lemma read_loop_forged:
  assumes d: "wrapping_drive h bytes cap" and c: "config_ok c" and s: "smooth c base s" and ok: "run_ok h c s" and z: "bb_count s = 0"
    and ct: "currently_testing s = 0" "0 < last_block c" and f: "rounds_left c s < fuel"
    and diff: "k < block_size c" "bytes (world s) (k mod cap) \<noteq> pass_byte c base k"
  shows "\<exists>out s'. read_loop h c fuel s = Some (out, s') \<and> run_ok h c s' \<and> 0 < bb_count s'"
proof -
  let ?t = "batch c s" and ?bs = "block_size c"
  have here: "currently_testing s < last_block c" using ct by simp
  have rb: "reads_bounded h" using d by (simp add: wrapping_drive_def)
  obtain w r where w: "read_round h c s = compare_blocks h c ?t 0 ?t
        (s\<lparr>tryout := ?t, buffer := marked c (currently_testing s) (buffer s), read_buffer := r, world := w, currently_testing := currently_testing s + ?t\<rparr>)"
      (is "_ = compare_blocks h c _ _ _ ?s'")
      "bytes w = bytes (world s)" "length r = length (read_buffer s)"
      "\<And>i. i < ?t \<Longrightarrow> take ?bs (drop (i * ?bs) r) = span (drive_byte bytes cap (world s)) ((currently_testing s + i) * ?bs) ?bs"
    by (rule read_round_smooth [OF d c s here]) blast
  have x: "take ?bs r = span (drive_byte bytes cap (world s)) 0 ?bs" using w(4) [of 0] batch_pos [OF c here] ct by simp
  have y: "take ?bs (marked c (currently_testing s) (buffer s)) = span (pass_byte c base) 0 ?bs"
    using marked_slice [OF c s here, of 0] batch_pos [OF c here] ct by simp
  have "span (drive_byte bytes cap (world s)) 0 ?bs ! k \<noteq> span (pass_byte c base) 0 ?bs ! k" using diff by simp
  then have "take ?bs (read_buffer ?s') \<noteq> take ?bs (buffer ?s')" using x y by auto
  moreover have "batch_buffer c base (marked c (currently_testing s) (buffer s))" using s here marked_span(2) [OF c, of base "buffer s"] by (simp add: smooth_def)
  moreover have "figures_ok h (last_block c) 0 ?s'" using ok z by (simp add: run_ok_def figures_ok_def)
  moreover have "memory h (world ?s')" using d by (simp add: wrapping_drive_def)
  ultimately have "\<exists>out s'. compare_blocks h c ?t 0 ?t ?s' = Some (out, s') \<and> 0 < bb_count s'"
    using batch_pos [OF c here] ct z s w(3) by (intro compare_first_bad [OF c]) (auto simp: smooth_def batch_buffer_def)
  then obtain o1 t where t: "read_round h c s = Some (o1, t)" "0 < bb_count t" using w(1) by auto
  have room: "bb_count s < max_bb" using z by (simp add: max_bb_def)
  have ok': "run_ok h c t" "rounds_left c t < rounds_left c s" using read_round_ok [OF c rb ok room here] t(1) by auto
  obtain g where g: "fuel = Suc g" using f by (cases fuel) auto
  have "read_loop h c fuel s = (if o1 then Some (True, t) else read_loop h c g t)"
    using g here t(1) room poll_calm [OF d, of s] s by (simp add: smooth_def)
  moreover have "\<exists>out s'. read_loop h c g t = Some (out, s') \<and> run_ok h c s' \<and> bb_count t \<le> bb_count s'"
    using ok' f g by (intro read_loop_ok [OF c rb]) auto
  ultimately show ?thesis using t(2) ok'(1) by (cases o1) auto
qed

lemma test_passes_forged:
  assumes d: "wrapping_drive h bytes (m * block_size c)" and c: "config_ok c" "stamped c" and m: "0 < m" "m < last_block c"
    and s: "calm c s" "idle_ok h c s" and f: "2 * last_block c + 2 \<le> fuel" and ps: "ps \<noteq> []"
  shows "\<exists>s'. test_passes h large c 0 rand ps fuel s = Some s' \<and> 0 < bb_count s'"
proof -
  obtain p qs where p: "ps = p # qs" using ps by (cases ps) auto
  have rb: "reads_bounded h" using d by (simp add: wrapping_drive_def)
  obtain t where t: "write_loop h large c fuel (write_start c rand p s) = Some (False, t)" "smooth c (pass_base c rand p) (read_start c t)"
    "bytes (world t) = put_bytes (m * block_size c) 0 (pass_data c rand p) (bytes (world s))" "calm c t" by (rule write_half [OF d c(1) s(1) f])
  have "run_ok h c (write_start c rand p s)" using s(2) c(1) by (intro idle_run_ok) auto
  then have "run_ok h c t" using write_loop_ok [OF c(1) _ rounds_left_start [OF f], of h "write_start c rand p s" large] t(1) by auto
  then have r: "run_ok h c (read_start c t)" using c(1) by (simp add: run_ok_def figures_ok_def config_ok_def)
  obtain k where k: "k < block_size c" "bytes (world t) k \<noteq> pass_byte c (pass_base c rand p) k"
    using forged_first_block [OF c m, of "pass_base c rand p" "bytes (world s)"] t(3) by auto
  have "k < m * block_size c" using k(1) m(1) by (cases m) auto
  then have "\<exists>out s'. read_loop h c fuel (read_start c t) = Some (out, s') \<and> run_ok h c s' \<and> 0 < bb_count s'"
    using k m t(4) rounds_left_start [OF f] by (intro read_loop_forged [OF d c(1) t(2) r]) (auto simp: calm_def)
  then obtain o1 u where u: "read_loop h c fuel (read_start c t) = Some (o1, u)" "run_ok h c u" "0 < bb_count u" by blast
  let ?u = "if o1 then u else u\<lparr>num_blocks := 0\<rparr>"
  have pass: "test_pass h large c 0 rand p fuel s = Some (o1, ?u)"
    using t(1) u(1) s(1) poll_calm [OF d] by (simp add: test_pass_def calm_def)
  have "idle_ok h (c\<lparr>stamped := False\<rparr>) ?u" using run_ok_idle [OF u(2)] by simp
  moreover have "config_ok (c\<lparr>stamped := False\<rparr>)" using c(1) by (simp add: config_ok_def)
  ultimately obtain s' where "test_passes h large (c\<lparr>stamped := False\<rparr>) 0 rand qs fuel ?u = Some s'" "bb_count ?u \<le> bb_count s'"
    using test_passes_ok [OF _ rb, of "c\<lparr>stamped := False\<rparr>" ?u fuel large 0 rand qs] f by auto
  then show ?thesis using pass p u(3) by (cases o1) auto
qed

section \<open>The capacity check\<close>

lemma BadBlocks_test:
  assumes "memory h (world s)"
  obtains l where "bb_ok l" "bb_entries l = []"
    "BadBlocks h large fakes rand0 rand disk_size nb_passes flash_type (Some r) fuel s =
       map_option (\<lambda>(n, s). (\<not> (cancel_ops s \<and> n = 0), Some \<lparr>report_bb_count = n, report_read_errors = num_read_errors s,
           report_write_errors = num_write_errors s, report_corruption_errors = num_corruption_errors s\<rparr>, s))
         (test_drive h large fakes rand0 rand disk_size flash_type nb_passes fuel
           (s\<lparr>num_read_errors := 0, num_write_errors := 0, num_corruption_errors := 0, log_fd := [], bb_list := l, cancel_ops := False\<rparr>))"
proof -
  obtain l where l: "bb_badblocks_list_create True 0 = (BB_OK, Some l)" by (auto simp: bb_badblocks_list_create_def make_u64_list_def)
  show ?thesis using bb_create_ok [OF l] l assms
    by (intro that [of l]) (auto simp: BadBlocks_def Let_def map_option_case split: option.splits)
qed

lemma patterns_nonempty: "i < 5 \<Longrightarrow> patterns ! i \<noteq> []"
  by (auto simp: patterns_def numeral_eq_Suc less_Suc_eq)

text \<open>C17. The bad block test tells a genuine drive from one with a forged capacity. On a drive that completes every transfer
  but stores the bytes modulo its real capacity of \<open>m\<close> blocks, whatever it held before, with any flash type, any number of
  passes, and the check for fake drives on, the test returns success, and its report counts no bad block exactly when the
  capacity the drive claims, in blocks, is within the real one.\<close>

theorem forged_capacity_found:
  assumes d: "wrapping_drive h bytes (m * BADBLOCK_BLOCK_SIZE)" and m: "0 < m"
    and a: "0 \<le> flash_type" "flash_type < 5" "1 \<le> nb_passes" "nb_passes \<le> 4" "disk_size \<le> PB" and r0: "rand0 \<le> 32767"
    and f: "2 * (disk_size div BADBLOCK_BLOCK_SIZE) + 2 \<le> fuel"
  shows "\<exists>rep s'. BadBlocks h large True rand0 rand disk_size nb_passes flash_type (Some r) fuel s = Some (True, Some rep, s') \<and>
    (report_bb_count rep = 0 \<longleftrightarrow> disk_size div BADBLOCK_BLOCK_SIZE \<le> m)"
proof -
  let ?c = "drive_config True rand0 disk_size" and ?ps = "take (nat nb_passes) (patterns ! nat flash_type)"
  have mem: "memory h w" for w using d by (simp add: wrapping_drive_def)
  obtain l where l: "bb_ok l" "bb_entries l = []" and b: "BadBlocks h large True rand0 rand disk_size nb_passes flash_type (Some r) fuel s =
       map_option (\<lambda>(n, s). (\<not> (cancel_ops s \<and> n = 0), Some \<lparr>report_bb_count = n, report_read_errors = num_read_errors s,
           report_write_errors = num_write_errors s, report_corruption_errors = num_corruption_errors s\<rparr>, s))
         (test_drive h large True rand0 rand disk_size flash_type nb_passes fuel
           (s\<lparr>num_read_errors := 0, num_write_errors := 0, num_corruption_errors := 0, log_fd := [], bb_list := l, cancel_ops := False\<rparr>))"
    (is "_ = map_option _ (test_drive _ _ _ _ _ _ _ _ _ ?s)")
    by (rule BadBlocks_test [where h = h and s = s, OF mem])
  have size: "disk_size div BADBLOCK_BLOCK_SIZE * BADBLOCK_BLOCK_SIZE \<le> PB"
    using a(5) div_times_less_eq_dividend [of disk_size BADBLOCK_BLOCK_SIZE] by linarith
  then have args: "args_ok h disk_size flash_type nb_passes ?s" using a mem by (simp add: args_ok_def)
  have c: "config_ok ?c" using size r0 by (rule drive_config_ok)
  have ca: "calm ?c (start_run ?s)" by (simp add: calm_def start_run_def)
  have id: "idle_ok h ?c (start_run ?s)" using l by (simp add: idle_ok_def start_run_def figures_ok_def max_bb_def)
  have f': "2 * last_block ?c + 2 \<le> fuel" using f by simp
  show ?thesis
  proof (cases "disk_size div BADBLOCK_BLOCK_SIZE \<le> m")
    case True
    then have "last_block ?c * block_size ?c \<le> m * BADBLOCK_BLOCK_SIZE" by simp
    then obtain s' where "test_passes h large ?c 0 rand ?ps fuel (start_run ?s) = Some s'" "calm ?c s'"
      using test_passes_genuine [OF d c ca f'] by blast
    then show ?thesis using b test_rw_passes [OF args] True by (simp add: calm_def)
  next
    case False
    have d': "wrapping_drive h bytes (m * block_size ?c)" and st: "stamped ?c" and lt: "m < last_block ?c" using d False by simp_all
    have ne: "?ps \<noteq> []" using a patterns_nonempty [of "nat flash_type"] by auto
    obtain s' where "test_passes h large ?c 0 rand ?ps fuel (start_run ?s) = Some s'" "0 < bb_count s'"
      using test_passes_forged [OF d' c st m lt ca id f' ne] by blast
    then show ?thesis using b test_rw_passes [OF args] False by simp
  qed
qed

section \<open>Examples\<close>

text \<open>A drive as a pointer and an array of bytes.\<close>

definition medium :: "nat \<Rightarrow> (u64 \<times> mem) host" where
  "medium cap =
     \<lparr>set_pointer = (\<lambda>p w. (True, (p, snd w))), get_pointer = (\<lambda>w. Some (fst w)),
      write_file = (\<lambda>p d w. (Wrote (length d), (fst w, put_bytes cap (unat p) d (snd w)))),
      read_file = (\<lambda>n w. ((True, span (\<lambda>k. snd w (k mod cap)) (unat (fst w)) n), w)),
      pause = (\<lambda>w. w), error_status = (\<lambda>w. 0), timer = (\<lambda>w. False), memory = (\<lambda>w. True)\<rparr>"

definition idle_state :: "(u64 \<times> mem) bb_state" where
  "idle_state =
     \<lparr>world = (0, \<lambda>_. 0), cancel_ops = False, currently_testing = 0, num_blocks = 0, num_read_errors = 0, num_write_errors = 0,
      num_corruption_errors = 0, bb_list = \<lparr>magic = BB_OK, num = 0, bbsize = 0, blist = []\<rparr>, next_bad = 0, bb_iter = None,
      log_fd = [], buffer = [], read_buffer = [], bb_count = 0, tryout = 0, recover_block = None\<rparr>"

definition no_report :: badblocks_report where
  "no_report = \<lparr>report_bb_count = 0, report_read_errors = 0, report_write_errors = 0, report_corruption_errors = 0\<rparr>"

lemma medium_bounded: "reads_bounded (medium cap)"
  by (simp add: reads_bounded_def medium_def)

lemma medium_wrapping: "wrapping_drive (medium cap) snd cap"
  by (simp add: wrapping_drive_def medium_bounded) (simp add: medium_def)

text \<open>A drive of 2 blocks that claims 3, and one that claims 2.\<close>

theorem forged_capacity_found_witness:
  "(\<exists>rep s'. BadBlocks (medium (2 * BADBLOCK_BLOCK_SIZE)) False True 100 id (3 * BADBLOCK_BLOCK_SIZE) 4 4 (Some no_report) 8 idle_state =
      Some (True, Some rep, s') \<and> 0 < report_bb_count rep) \<and>
   (\<exists>rep s'. BadBlocks (medium (2 * BADBLOCK_BLOCK_SIZE)) False True 100 id (2 * BADBLOCK_BLOCK_SIZE) 4 4 (Some no_report) 8 idle_state =
      Some (True, Some rep, s') \<and> report_bb_count rep = 0)"
proof -
  have e: "3 * BADBLOCK_BLOCK_SIZE div BADBLOCK_BLOCK_SIZE = 3" "2 * BADBLOCK_BLOCK_SIZE div BADBLOCK_BLOCK_SIZE = 2"
      "3 * BADBLOCK_BLOCK_SIZE \<le> PB" "2 * BADBLOCK_BLOCK_SIZE \<le> PB" by (simp_all add: BADBLOCK_BLOCK_SIZE_def PB_def)
  show ?thesis
    using forged_capacity_found [OF medium_wrapping, of 2 4 4 "3 * BADBLOCK_BLOCK_SIZE" 100 8 False id no_report idle_state]
      forged_capacity_found [OF medium_wrapping, of 2 4 4 "2 * BADBLOCK_BLOCK_SIZE" 100 8 False id no_report idle_state] e
    by auto
qed

text \<open>C18. The bad block test ends on every drive, with a consistent report. Whatever the drive answers to the transfers (errors,
  short transfers, any data, as long as a read stores no more than was asked for) and whenever the user cancels, any arguments
  included, the test returns; no access leaves its buffers; the number of bad blocks reported is the sum of the read, write
  and corruption errors, is below 320, and is the number of blocks in the log, where no block is listed twice and every one is
  a block of the drive; and the answer is failure only when the test was cancelled without a bad block.\<close>

theorem bad_block_test_reports:
  assumes rb: "reads_bounded h" and mem: "\<forall>w. memory h w" and r0: "rand0 \<le> 32767"
    and f: "2 * (disk_size div BADBLOCK_BLOCK_SIZE) + 2 \<le> fuel"
  shows "\<exists>res rep s'. BadBlocks h large fakes rand0 rand disk_size nb_passes flash_type (Some r) fuel s = Some (res, Some rep, s') \<and>
    report_bb_count rep = report_read_errors rep + report_write_errors rep + report_corruption_errors rep \<and>
    report_bb_count rep < 320 \<and> length (logged (log_fd s')) = report_bb_count rep \<and> distinct (logged (log_fd s')) \<and>
    list_all (\<lambda>b. unat b < disk_size div BADBLOCK_BLOCK_SIZE) (logged (log_fd s')) \<and>
    (res \<longleftrightarrow> \<not> (cancel_ops s' \<and> report_bb_count rep = 0))"
proof -
  obtain l where l: "bb_ok l" "bb_entries l = []" and b: "BadBlocks h large fakes rand0 rand disk_size nb_passes flash_type (Some r) fuel s =
       map_option (\<lambda>(n, s). (\<not> (cancel_ops s \<and> n = 0), Some \<lparr>report_bb_count = n, report_read_errors = num_read_errors s,
           report_write_errors = num_write_errors s, report_corruption_errors = num_corruption_errors s\<rparr>, s))
         (test_drive h large fakes rand0 rand disk_size flash_type nb_passes fuel
           (s\<lparr>num_read_errors := 0, num_write_errors := 0, num_corruption_errors := 0, log_fd := [], bb_list := l, cancel_ops := False\<rparr>))"
    (is "_ = map_option _ (test_drive _ _ _ _ _ _ _ _ _ ?s)")
    by (rule BadBlocks_test [where h = h and s = s]) (use mem in auto)
  have "figures_ok h (disk_size div BADBLOCK_BLOCK_SIZE) 0 ?s" using l by (simp add: figures_ok_def)
  from test_rw_ok [OF rb r0 f this] obtain n s' where "test_drive h large fakes rand0 rand disk_size flash_type nb_passes fuel ?s = Some (n, s')"
      "figures_ok h (disk_size div BADBLOCK_BLOCK_SIZE) n s'" "n < max_bb + BB_BLOCKS_AT_ONCE" by blast
  then show ?thesis using b mem by (auto simp: figures_ok_def max_bb_def BB_BLOCKS_AT_ONCE_def list_all_iff)
qed

theorem bad_block_test_reports_witness:
  "\<exists>res rep s'. BadBlocks (medium 5) True True 7 id (3 * BADBLOCK_BLOCK_SIZE) 2 1 (Some no_report) 8 idle_state = Some (res, Some rep, s') \<and>
    report_bb_count rep = report_read_errors rep + report_write_errors rep + report_corruption_errors rep \<and> report_bb_count rep < 320"
proof -
  have e: "3 * BADBLOCK_BLOCK_SIZE div BADBLOCK_BLOCK_SIZE = 3" by (simp add: BADBLOCK_BLOCK_SIZE_def)
  have m: "\<forall>w. memory (medium 5) w" by (simp add: medium_def)
  show ?thesis
    using bad_block_test_reports [OF medium_bounded m, of 7 "3 * BADBLOCK_BLOCK_SIZE" 8 True True id 2 1 no_report idle_state] e by auto
qed

end
