(* ===== verification/Fat32_Format.thy ===== *)
theory Fat32_Format
  imports Fat32_Layout Drive_Capacity
begin

text \<open>
  The sectors of a formatted volume: on a drive that stores what is written, \<open>FormatLargeFAT32\<close> of
  \<open>src/src/format_fat32.c\<close> leaves a volume whose boot sector gives back the layout.
\<close>

section \<open>Writing sectors on a drive\<close>

lemma put_bytes_at:
  "off + length xs \<le> cap \<Longrightarrow>
     put_bytes cap off xs m k = (if off \<le> k \<and> k < off + length xs then xs ! (k - off) else m k)"
proof (induction xs arbitrary: off m)
  case (Cons x xs)
  then show ?case by (auto simp: nth_Cons' not_le not_less_eq_eq le_Suc_eq)
qed auto

lemma sectors_ok_cases:
  assumes "sectors_ok b"
  shows "512 \<le> unat b" "unat b \<le> 4096"
  using assms by (auto simp: sectors_ok_def)

lemma write_run:
  assumes d: "wrapping_drive h bytes cap" and b: "sectors_ok b" and n: "unat n \<le> 128" and st: "unat st < 4294967296"
    and data: "length data = unat n * unat b" and cap: "(unat st + unat n) * unat b \<le> cap"
  shows "\<exists>w'. write_sectors h large (ucast b) st n data w = Some (int (unat n * unat b), w') \<and>
    bytes w' = (\<lambda>k. if unat st * unat b \<le> k \<and> k < (unat st + unat n) * unat b then data ! (k - unat st * unat b) else bytes w k)"
proof -
  note b' = sectors_ok_cases [OF b]
  have le: "unat n * unat b \<le> 128 * 4096" using n b' by (intro mult_le_mono)
  have "unat st * unat b \<le> 4294967296 * 4096" using st b' by (intro mult_le_mono) auto
  then have u: "unat (n * ucast b) = unat n * unat b" "unat (st * ucast b) = unat st * unat b"
    using le by (simp_all add: unat_word_ariths unat_ucast64)
  then have "\<not> 0xFFFFFFFF < n * ucast b" using le by (simp add: word_less_nat_alt)
  then obtain w' where w': "write_sectors h large (ucast b) st n data w = Some (int (unat n * unat b), w')"
      "bytes w' = put_bytes cap (unat st * unat b) (take (unat n * unat b) data) (bytes w)"
    using wrapping_write [OF d, of n "ucast b" data large st w] u data by auto
  moreover have "take (unat n * unat b) data = data" "unat st * unat b + length data \<le> cap" using data cap by (simp_all add: algebra_simps)
  ultimately show ?thesis using data by (intro exI [of _ w']) (auto simp: put_bytes_at algebra_simps)
qed

section \<open>The loop that clears\<close>

lemma join_ranges:
  "p \<le> q \<Longrightarrow> q \<le> r \<Longrightarrow>
     (\<lambda>k :: nat. if q \<le> k \<and> k < r then z else if p \<le> k \<and> k < q then z else f k) = (\<lambda>k. if p \<le> k \<and> k < r then z else f k)"
  by (auto simp: fun_eq_iff)

lemma calm_drive: "wrapping_drive h bytes cap \<Longrightarrow> \<not> fat_cancelled h w"
  by (simp add: wrapping_drive_def fat_cancelled_def)

lemma clear_loop_zeros:
  assumes d: "wrapping_drive h bytes cap" and b: "sectors_ok b" and bound: "unat bound + 128 < 4294967296" "(unat bound + 127) * unat b \<le> cap"
  shows "\<exists>w' n. clear_loop h large b bound i w = Some (Inr (), w') \<and> unat i \<le> n \<and> unat bound \<le> n \<and> n \<le> max (unat i) (unat bound + 127) \<and>
    bytes w' = (\<lambda>k. if unat i * unat b \<le> k \<and> k < n * unat b then 0 else bytes w k)"
proof (induction "unat bound + 128 - unat i" arbitrary: i w rule: less_induct)
  case less
  show ?case
  proof (cases "i < bound")
    case False
    then show ?thesis by (auto simp: clear_loop.simps [of h large b bound i w] word_less_nat_alt fun_eq_iff intro!: exI [of _ "unat i"])
  next
    case True
    then have lt: "unat i < unat bound" by (simp add: word_less_nat_alt)
    have u: "unat (ucast BurstSize :: u64) = 128" "unat (ucast i :: u64) = unat i" "unat (i + BurstSize) = unat i + 128" "unat BurstSize = 128"
      using lt bound by (simp_all add: BurstSize_def unat_ucast64 unat_word_ariths)
    have "(unat i + 128) * unat b \<le> (unat bound + 127) * unat b" using lt by (intro mult_le_mono) auto
    then have c: "(unat i + 128) * unat b \<le> cap" using bound(2) by linarith
    then obtain v where v: "write_sectors h large (ucast b) (ucast i) (ucast BurstSize) (replicate (unat b * 128) 0) w =
          Some (int (128 * unat b), v)"
        "bytes v = (\<lambda>k. if unat i * unat b \<le> k \<and> k < (unat i + 128) * unat b then replicate (unat b * 128) 0 ! (k - unat i * unat b) else bytes w k)"
      using write_run [OF d b, of "ucast BurstSize" "ucast i" "replicate (unat b * 128) 0" large w, unfolded u] by auto
    have "unat (b * BurstSize) = 128 * unat b" using b by (auto simp: sectors_ok_def BurstSize_def)
    then have step: "clear_loop h large b bound i w = clear_loop h large b bound (i + BurstSize) v"
      using True v(1) u(4) calm_drive [OF d, of w] by (simp add: clear_loop.simps [of h large b bound i w])
    have z: "bytes v = (\<lambda>k. if unat i * unat b \<le> k \<and> k < (unat i + 128) * unat b then 0 else bytes w k)"
      unfolding v(2) by (auto simp: fun_eq_iff algebra_simps)
    have "unat bound + 128 - unat (i + BurstSize) < unat bound + 128 - unat i" using lt u(3) by simp
    from less [OF this] obtain w' n where w': "clear_loop h large b bound (i + BurstSize) v = Some (Inr (), w')" "unat i + 128 \<le> n" "unat bound \<le> n"
        "n \<le> max (unat i + 128) (unat bound + 127)"
        "bytes w' = (\<lambda>k. if (unat i + 128) * unat b \<le> k \<and> k < n * unat b then 0 else bytes v k)"
      unfolding u(3) by blast
    have "unat i * unat b \<le> (unat i + 128) * unat b" "(unat i + 128) * unat b \<le> n * unat b" using w'(2) by (auto intro: mult_le_mono)
    then have "bytes w' = (\<lambda>k. if unat i * unat b \<le> k \<and> k < n * unat b then 0 else bytes w k)" unfolding w'(5) z by (rule join_ranges)
    then show ?thesis using step w'(1-4) lt by (intro exI [of _ w'] exI [of _ n]) auto
  qed
qed

section \<open>Single sectors\<close>

definition sector :: "mem \<Rightarrow> nat \<Rightarrow> nat \<Rightarrow> u8 list" where
  "sector m b q = span m (q * b) b"

lemma length_sector [simp]: "length (sector m b q) = b"
  by (simp add: sector_def)

lemma nth_sector [simp]: "j < b \<Longrightarrow> sector m b q ! j = m (q * b + j)"
  by (simp add: sector_def)

lemma in_sectors: "j < b \<Longrightarrow> p * b \<le> q * b + j \<and> q * b + j < r * b \<longleftrightarrow> p \<le> q \<and> q < (r :: nat)"
proof -
  assume j: "j < b"
  have "(q * b + j) div b = q" using j by simp
  then show ?thesis using j by (metis div_less_iff_less_mult less_eq_div_iff_mult_less_eq gr_zeroI not_less_zero)
qed

lemma sector_fill:
  "m' = (\<lambda>k. if p * b \<le> k \<and> k < r * b then z else m k) \<Longrightarrow>
     sector m' b q = (if p \<le> q \<and> q < r then replicate b z else sector m b q)"
  by (auto intro!: nth_equalityI simp: in_sectors)

lemma sector_put:
  assumes "m' = (\<lambda>k. if p * b \<le> k \<and> k < (p + 1) * b then data ! (k - p * b) else m k)" "length data = b"
  shows "sector m' b q = (if q = p then data else sector m b q)"
  using assms in_sectors [of _ b p q "p + 1"] by (auto intro!: nth_equalityI)

lemma scast_start: "unat (st :: u32) < 2147483648 \<Longrightarrow> unat (scast st :: u64) = unat st"
proof -
  assume "unat st < 2147483648"
  then have "st div 2147483648 = 0" by (intro word_eqI_nat) (simp add: unat_div)
  then have "\<not> bit st 31" by (simp add: bit_iff_odd)
  then have "\<not> bit st n" if "31 \<le> n" for n using that bit_imp_le_length [of st n] by (cases "n = 31") auto
  then have "scast st = (ucast st :: u64)" by (intro bit_word_eqI) (auto simp: bit_simps min_def)
  then show ?thesis by (simp add: unat_ucast64)
qed

lemma put_sector_at:
  assumes d: "wrapping_drive h bytes cap" and b: "sectors_ok b" and st: "unat st < 2147483648" "(unat st + 1) * unat b \<le> cap"
    and data: "length data = unat b"
  obtains w' where "put_sector h large b st data w = Some w'"
    "\<And>q. sector (bytes w') (unat b) q = (if q = unat st then data else sector (bytes w) (unat b) q)"
proof -
  have u: "unat (scast st :: u64) = unat st" using st(1) by (rule scast_start)
  obtain w' where w': "write_sectors h large (ucast b) (scast st) 1 data w = Some (int (unat b), w')"
      "bytes w' = (\<lambda>k. if unat st * unat b \<le> k \<and> k < (unat st + 1) * unat b then data ! (k - unat st * unat b) else bytes w k)"
    using write_run [OF d b, of 1 "scast st" data large w, unfolded u] st data by auto
  show ?thesis using w'(1) sector_put [OF w'(2) data] by (intro that [of w']) (simp_all add: put_sector_def)
qed

section \<open>The system area\<close>

text \<open>What the sectors in front of the data hold.\<close>

definition system_sector :: "fat_layout \<Rightarrow> FAT_BOOTSECTOR32 \<Rightarrow> nat \<Rightarrow> u8 list" where
  "system_sector l b q =
     (let bps = unat (BytesPerSect l); R = unat (ReservedSectCount l); F = unat (FatSize l) in
      if q \<in> {0, 6} then boot_sector b bps
      else if q \<in> {1, 7} then fsinfo_sector (UserAreaSize l div SectorsPerCluster l - 1) 3 bps
      else if q \<in> {R, R + F} then first_fat_sector bps
      else replicate bps 0)"

lemma table_lengths:
  assumes "512 \<le> n" "length (boot_struct b) = 90"
  shows "length (boot_sector b n) = n" "length (fsinfo_sector f g n) = n" "length (first_fat_sector n) = n"
  using assms by (simp_all add: boot_sector_def fsinfo_sector_def first_fat_sector_def Let_def)

lemma boot_record_length: "length (boot_struct (boot_record l g p v)) = 90"
  by (simp add: boot_struct_def boot_record_def le16_bytes_def)

lemma write_tables_sectors:
  assumes d: "wrapping_drive h bytes cap" and b: "sectors_ok (BytesPerSect l)" and l: "layout_ok l"
    and cap: "unat (TotalSectors l) * unat (BytesPerSect l) \<le> cap"
    and len: "length boot = unat (BytesPerSect l)" "length info = unat (BytesPerSect l)" "length fat = unat (BytesPerSect l)"
  obtains w' where "write_tables h large l boot info fat w = Some w'"
    "\<And>q. sector (bytes w') (unat (BytesPerSect l)) q =
       (if q \<in> {0, 6} then boot else if q \<in> {1, 7} then info
        else if q \<in> {unat (ReservedSectCount l), unat (ReservedSectCount l) + unat (FatSize l)} then fat
        else sector (bytes w) (unat (BytesPerSect l)) q)"
proof -
  let ?b = "unat (BytesPerSect l)" and ?R = "unat (ReservedSectCount l)" and ?F = "unat (FatSize l)"
  have lo: "unat (TotalSectors l) = ?R + 2 * ?F + unat (UserAreaSize l)" "32 \<le> ?R" "?R + 2 * ?F < 2147483648"
      "65536 \<le> unat (UserAreaSize l) div unat (SectorsPerCluster l)" "0 < ?F"
    using l by (auto simp: layout_ok_def Let_def intro!: gr0I)
  have "0 < unat (UserAreaSize l)" using lo(4) by (intro gr0I) simp
  then have c: "(q + 1) * ?b \<le> cap" if "q \<le> ?R + 2 * ?F" for q
    using that lo(1) cap by (intro le_trans [OF mult_le_mono1 cap]) linarith
  have u: "unat (ReservedSectCount l + FatSize l) = ?R + ?F" using lo(3) by (simp add: unat_word_ariths)
  have P: "\<exists>w'. put_sector h large (BytesPerSect l) st data w = Some w' \<and>
      (\<forall>q. sector (bytes w') ?b q = (if q = n then data else sector (bytes w) ?b q))"
    if "unat st = n" "n \<le> ?R + 2 * ?F" "length data = ?b" for st n data w
    using put_sector_at [OF d b, of st data] c [OF that(2)] that lo(3) by (metis le_less_trans)
  obtain w1 where w1: "put_sector h large (BytesPerSect l) 0 boot w = Some w1"
      "\<And>q. sector (bytes w1) ?b q = (if q = 0 then boot else sector (bytes w) ?b q)"
    using P [of "0" "0" boot w] len(1) lo(2) by auto
  obtain w2 where w2: "put_sector h large (BytesPerSect l) 1 info w1 = Some w2"
      "\<And>q. sector (bytes w2) ?b q = (if q = 1 then info else sector (bytes w1) ?b q)"
    using P [of "1" "1" info w1] len(2) lo(2) by auto
  obtain w3 where w3: "put_sector h large (BytesPerSect l) 6 boot w2 = Some w3"
      "\<And>q. sector (bytes w3) ?b q = (if q = 6 then boot else sector (bytes w2) ?b q)"
    using P [of "6" "6" boot w2] len(1) lo(2) by auto
  obtain w4 where w4: "put_sector h large (BytesPerSect l) 7 info w3 = Some w4"
      "\<And>q. sector (bytes w4) ?b q = (if q = 7 then info else sector (bytes w3) ?b q)"
    using P [of "7" "7" info w3] len(2) lo(2) by auto
  obtain w5 where w5: "put_sector h large (BytesPerSect l) (ReservedSectCount l) fat w4 = Some w5"
      "\<And>q. sector (bytes w5) ?b q = (if q = ?R then fat else sector (bytes w4) ?b q)"
    using P [of "ReservedSectCount l" "?R" fat w4] len(3) lo(2) by auto
  obtain w6 where w6: "put_sector h large (BytesPerSect l) (ReservedSectCount l + FatSize l) fat w5 = Some w6"
      "\<And>q. sector (bytes w6) ?b q = (if q = ?R + ?F then fat else sector (bytes w5) ?b q)"
    using P [of "ReservedSectCount l + FatSize l" "?R + ?F" fat w5] len(3) lo(2) u by auto
  show ?thesis using lo(2)
    by (intro that [of w6]) (auto simp: write_tables_def w1 w2 w3 w4 w5 w6)
qed

lemma format_volume_sectors:
  assumes d: "wrapping_drive h bytes cap" and b: "sectors_ok (BytesPerSect l)" and l: "layout_ok l"
    and s: "unat (SectorsPerCluster l) \<le> 128" and cap: "unat (TotalSectors l) * unat (BytesPerSect l) \<le> cap"
    and r: "length (boot_struct r) = 90"
  obtains v n where "format_volume h large l r w = Some (Inr (), v)"
    "unat (ReservedSectCount l) + 2 * unat (FatSize l) + unat (SectorsPerCluster l) \<le> n" "n \<le> unat (TotalSectors l)"
    "\<And>q. sector (bytes v) (unat (BytesPerSect l)) q =
       (if q < n then system_sector l r q else sector (bytes w) (unat (BytesPerSect l)) q)"
proof -
  let ?b = "unat (BytesPerSect l)" and ?A = "unat (ReservedSectCount l) + 2 * unat (FatSize l) + unat (SectorsPerCluster l)"
  let ?sa = "ReservedSectCount l + 2 * FatSize l + SectorsPerCluster l"
  have lo: "unat (TotalSectors l) = unat (ReservedSectCount l) + 2 * unat (FatSize l) + unat (UserAreaSize l)"
      "unat (ReservedSectCount l) + 2 * unat (FatSize l) < 2147483648" "32 \<le> unat (ReservedSectCount l)" "0 < unat (FatSize l)"
      "65536 \<le> unat (UserAreaSize l) div unat (SectorsPerCluster l)"
    using l by (auto simp: layout_ok_def Let_def intro!: gr0I)
  have "0 < unat (SectorsPerCluster l)" using lo(5) by (auto intro!: gr0I)
  moreover from this have "65536 * unat (SectorsPerCluster l) \<le> unat (UserAreaSize l)" using lo(5) by (simp add: less_eq_div_iff_mult_less_eq)
  ultimately have fits: "?A + 254 \<le> unat (TotalSectors l)" using lo(1) by linarith
  have u: "unat (?sa + BurstSize - 1) = ?A + 127" using lo(2) s by (simp add: BurstSize_def unat_word_ariths)
  have "(?A + 127 + 127) * ?b \<le> cap" using fits by (intro le_trans [OF mult_le_mono1 cap]) simp
  then obtain v n where v: "clear_loop h large (BytesPerSect l) (?sa + BurstSize - 1) 0 w = Some (Inr (), v)" "?A + 127 \<le> n" "n \<le> ?A + 127 + 127"
      "bytes v = (\<lambda>k. if 0 * ?b \<le> k \<and> k < n * ?b then 0 else bytes w k)"
    using clear_loop_zeros [OF d b, of "?sa + BurstSize - 1" large 0 w] u lo(2) s by auto
  have len: "512 \<le> ?b" using b by (rule sectors_ok_cases)
  let ?boot = "boot_sector r ?b" and ?info = "fsinfo_sector (UserAreaSize l div SectorsPerCluster l - 1) 3 ?b" and ?fat = "first_fat_sector ?b"
  obtain w' where w': "write_tables h large l ?boot ?info ?fat v = Some w'"
      "\<And>q. sector (bytes w') ?b q =
       (if q \<in> {0, 6} then ?boot else if q \<in> {1, 7} then ?info
        else if q \<in> {unat (ReservedSectCount l), unat (ReservedSectCount l) + unat (FatSize l)} then ?fat
        else sector (bytes v) ?b q)"
    using write_tables_sectors [OF d b l cap table_lengths [OF len r]] by blast
  have "memory h w" using d by (simp add: wrapping_drive_def)
  then have "format_volume h large l r w = Some (Inr (), w')" using v(1) w'(1) by (simp add: format_volume_def Let_def)
  moreover have "sector (bytes w') ?b q = (if q < n then system_sector l r q else sector (bytes w) ?b q)" for q
    using v(2) lo(3) w'(2) [of q] sector_fill [OF v(4), of q] by (auto simp: system_sector_def Let_def)
  ultimately show ?thesis using v(2,3) fits by (intro that [of w' n]) auto
qed

section \<open>Reading the boot sector\<close>

definition le16_at :: "u8 list \<Rightarrow> nat \<Rightarrow> u32" where
  "le16_at x k = ucast (x ! k) OR push_bit 8 (ucast (x ! (k + 1)))"

definition le32_at :: "u8 list \<Rightarrow> nat \<Rightarrow> u32" where
  "le32_at x k = le32_join (x ! k) (x ! (k + 1)) (x ! (k + 2)) (x ! (k + 3))"

text \<open>
  The layout as a FAT32 driver finds it in the first sector of a volume, by the offsets of the FAT specification: bytes per
  sector at 11, sectors per cluster at 13, reserved sectors at 14, the number of FATs at 16 (2 here), the 16-bit sizes at 19
  and 22 (zero for FAT32), all sectors at 32, the sectors of a FAT at 36, the root cluster at 44 and the signature at 510.
\<close>

definition mount :: "mem \<Rightarrow> fat_layout option" where
  "mount m =
     (let x = span m 0 512; D = le32_at x 32; R = le16_at x 14; F = le32_at x 36 in
      if x ! 510 = 0x55 \<and> x ! 511 = 0xaa \<and> x ! 16 = 2 \<and> le16_at x 19 = 0 \<and> le16_at x 22 = 0 \<and> le32_at x 44 = 2
      then Some \<lparr>BytesPerSect = le16_at x 11, SectorsPerCluster = ucast (x ! 13), TotalSectors = D, FatSize = F,
                 ReservedSectCount = R, UserAreaSize = D - R - 2 * F\<rparr>
      else None)"

lemma le16_round:
  assumes "unat w < 65536"
  shows "ucast (ucast (ucast w :: u16) :: u8) OR push_bit 8 (ucast (ucast (drop_bit 8 (ucast w :: u16)) :: u8)) = (w :: u32)"
proof (rule bit_word_eqI)
  fix n
  assume n: "n < LENGTH(32)"
  have "w = take_bit 16 w" using assms by (intro word_eqI_nat) (simp add: take_bit_eq_mod unat_mod)
  then have "bit w n \<longleftrightarrow> n < 16 \<and> bit w n" by (metis bit_take_bit_iff)
  then show "bit (ucast (ucast (ucast w :: u16) :: u8) OR push_bit 8 (ucast (ucast (drop_bit 8 (ucast w :: u16)) :: u8)) :: u32) n = bit w n"
    using n by (auto simp: bit_simps)
qed

lemma boot_sector_nth:
  assumes "n \<in> {512, 1024, 2048, 4096}" "length (boot_struct b) = 90"
  shows "k < 90 \<Longrightarrow> boot_sector b n ! k = boot_struct b ! k" "boot_sector b n ! 510 = 0x55" "boot_sector b n ! 511 = 0xaa"
  using assms by (auto simp: boot_sector_def Let_def nth_append nth_list_update)

lemma boot_fields:
  defines "x l g p v \<equiv> boot_struct (boot_record l g p v)"
  shows "le16_at (x l g p v) 11 = ucast (ucast (ucast (BytesPerSect l) :: u16) :: u8) OR push_bit 8 (ucast (ucast (drop_bit 8 (ucast (BytesPerSect l) :: u16)) :: u8))"
  and "x l g p v ! 13 = ucast (SectorsPerCluster l)" "x l g p v ! 16 = 2" "le16_at (x l g p v) 19 = 0" "le16_at (x l g p v) 22 = 0"
    "le32_at (x l g p v) 44 = 2" "le32_at (x l g p v) 32 = TotalSectors l" "le32_at (x l g p v) 36 = FatSize l"
  and "le16_at (x l g p v) 14 = ucast (ucast (ucast (ReservedSectCount l) :: u16) :: u8) OR push_bit 8 (ucast (ucast (drop_bit 8 (ucast (ReservedSectCount l) :: u16)) :: u8))"
  by (simp_all add: x_def le16_at_def le32_at_def boot_struct_def boot_record_def le16_bytes_def le32_bytes_def) (simp add: le32_join_def)

lemma mount_boot:
  assumes b: "sectors_ok (BytesPerSect l)" and l: "layout_ok l" and s: "unat (SectorsPerCluster l) \<le> 128"
    and m: "sector m (unat (BytesPerSect l)) 0 = boot_sector (boot_record l g p v) (unat (BytesPerSect l))"
  shows "mount m = Some l"
proof -
  let ?r = "boot_record l g p v"
  let ?x = "span m 0 512" and ?y = "boot_struct ?r"
  have n: "unat (BytesPerSect l) \<in> {512, 1024, 2048, 4096}" using b by (auto simp: sectors_ok_def)
  note nth = boot_sector_nth [OF n boot_record_length [of l g p v]]
  have k: "m k = boot_sector ?r (unat (BytesPerSect l)) ! k" if "k < 512" for k
    using that n by (simp add: m [symmetric]) auto
  have y: "m k = ?y ! k" if "k < 90" for k using k [of k] nth(1) [OF that] that by simp
  have f: "le16_at ?x k = le16_at ?y k" if "k < 89" for k using that by (simp add: le16_at_def y)
  have g: "le32_at ?x k = le32_at ?y k" if "k < 87" for k using that by (simp add: le32_at_def y)
  have R: "unat (ReservedSectCount l) < 65536" "unat (BytesPerSect l) < 65536" using l n by (auto simp: layout_ok_def Let_def)
  have s8: "ucast (ucast (SectorsPerCluster l) :: u8) = SectorsPerCluster l"
    using s by (intro word_eqI_nat) (simp add: unsigned_ucast_eq take_bit_eq_mod unat_mod)
  have "unat (TotalSectors l) = unat (ReservedSectCount l) + 2 * unat (FatSize l) + unat (UserAreaSize l)"
    using l by (simp add: layout_ok_def Let_def)
  then have "(of_nat (unat (TotalSectors l)) :: u32) = of_nat (unat (ReservedSectCount l) + 2 * unat (FatSize l) + unat (UserAreaSize l))" by simp
  then have U: "TotalSectors l - ReservedSectCount l - 2 * FatSize l = UserAreaSize l" by simp
  show ?thesis
    unfolding mount_def Let_def by (simp add: k nth f g y boot_fields le16_round R s8 U)
qed

section \<open>The whole operation\<close>

text \<open>Once the area is cleared, the format succeeds, whatever becomes of the boot sectors and the FATs.\<close>

lemma put_sector_defined: "unat b \<le> length data \<Longrightarrow> \<exists>w'. put_sector h large b st data w = Some w'"
  using write_sectors_defined [of 1 "ucast b" data h large "scast st" w] by (auto simp: put_sector_def unat_ucast64)

lemma format_success_unchecked:
  assumes "memory h w" "512 \<le> unat (BytesPerSect l)" "length (boot_struct r) = 90"
    and "clear_loop h large (BytesPerSect l) (ReservedSectCount l + 2 * FatSize l + SectorsPerCluster l + BurstSize - 1) 0 w = Some (Inr (), v)"
  shows "\<exists>v'. format_volume h large l r w = Some (Inr (), v')"
proof -
  let ?b = "unat (BytesPerSect l)"
  have P: "\<exists>w'. put_sector h large (BytesPerSect l) st data w = Some w'" if "length data = ?b" for st data w
    using that by (intro put_sector_defined) simp
  have "\<exists>w'. write_tables h large l boot info fat w = Some w'" if "length boot = ?b" "length info = ?b" "length fat = ?b" for boot info fat w
    unfolding write_tables_def using P [OF that(1)] P [OF that(2)] P [OF that(3)] by (metis bind.bind_lunit)
  from this [OF table_lengths [OF assms(2,3)], of "UserAreaSize l div SectorsPerCluster l - 1" 3 v]
  show ?thesis using assms(1,4) by (auto simp: format_volume_def Let_def)
qed

text \<open>The volume is open, its geometry and its partition are known, no error was set, and there is memory.\<close>

definition volume_ready :: "'w fat_env \<Rightarrow> DISK_GEOMETRY \<Rightarrow> PARTITION_INFORMATION \<Rightarrow> bool" where
  "volume_ready e g p \<longleftrightarrow> is_fat e \<and> volume e = Volume_Open \<and> volume_geometry e = Some g \<and> \<not> geometry_error e \<and>
     volume_partition e g = Some p \<and> \<not> partition_error e \<and> sector_memory e"

lemma FormatLargeFAT32_ready:
  assumes "volume_ready e g p"
  shows "FormatLargeFAT32 h large e cs w =
    (case fat32_layout True (BytesPerSector g) (PartitionLength p) cs of
       None \<Rightarrow> None
     | Some (Inl err) \<Rightarrow> Some (Inl err, w)
     | Some (Inr l) \<Rightarrow>
         (case format_volume h large l (boot_record l g p (volume_id e)) w of
            None \<Rightarrow> None
          | Some (Inl err, w) \<Rightarrow> Some (Inl err, w)
          | Some (Inr _, w) \<Rightarrow> Some (Inr (), snd (set_label e (if no_boot e then w else snd (write_pbr e w))))))"
  using assms unfolding FormatLargeFAT32_def Let_def by (simp add: volume_ready_def)

text \<open>C20. A formatted volume is a FAT32 volume with the layout computed for it. On a drive that stores what is written and is at
  least as large as the partition, whatever it held before, with sectors of 512 to 4096 bytes and clusters of up to 128
  sectors: when there is no layout for the volume, the error is reported and nothing is written. Otherwise the format
  succeeds; before the boot record and the label are added, the boot sector is in sectors 0 and 6, the information sector in
  1 and 7, the start of the cluster chains in the first sector of each FAT, every other sector up to the end of the root
  directory is zero, the sectors behind a point within the volume are as they were, and a driver that reads the boot sector
  finds the layout.\<close>

theorem FormatLargeFAT32_volume:
  assumes d: "wrapping_drive h bytes cap" and e: "volume_ready e g p" and cap: "unat (PartitionLength p) \<le> cap"
    and b: "sectors_ok (BytesPerSector g)"
    and s: "unat (cluster_sectors (BytesPerSector g) (PartitionLength p) cs) \<in> {1..128}"
  shows "\<exists>r. fat32_layout True (BytesPerSector g) (PartitionLength p) cs = Some r \<and>
    (case r of
       Inl err \<Rightarrow> FormatLargeFAT32 h large e cs w = Some (Inl err, w)
     | Inr l \<Rightarrow> \<exists>v n.
         FormatLargeFAT32 h large e cs w = Some (Inr (), snd (set_label e (if no_boot e then v else snd (write_pbr e v)))) \<and>
         unat (ReservedSectCount l) + 2 * unat (FatSize l) + unat (SectorsPerCluster l) \<le> n \<and> n \<le> unat (TotalSectors l) \<and>
         (\<forall>q. sector (bytes v) (unat (BytesPerSector g)) q =
           (if q < n then system_sector l (boot_record l g p (volume_id e)) q else sector (bytes w) (unat (BytesPerSector g)) q)) \<and>
         mount (bytes v) = Some l)"
proof -
  let ?b = "BytesPerSector g" and ?len = "PartitionLength p"
  consider (err) err where "fat32_layout True ?b ?len cs = Some (Inl err)" |
    (ok) l where "fat32_layout True ?b ?len cs = Some (Inr l)" "layout_ok l" "BytesPerSect l = ?b"
      "SectorsPerCluster l = cluster_sectors ?b ?len cs" "unat (TotalSectors l) = unat ?len div unat ?b"
    using layout_cases [OF b, of ?len cs] fat32_layout_eq [OF b, of ?len cs] s by (metis atLeastAtMost_iff less_eq_Suc_le One_nat_def obj_sumE)
  then show ?thesis
  proof cases
    case err
    then show ?thesis by (simp add: FormatLargeFAT32_ready [OF e])
  next
    case ok
    let ?r = "boot_record l g p (volume_id e)"
    have lb: "sectors_ok (BytesPerSect l)" and ls: "unat (SectorsPerCluster l) \<le> 128" using b s ok by auto
    have lc: "unat (TotalSectors l) * unat (BytesPerSect l) \<le> cap"
      unfolding ok(3,5) using cap by (intro le_trans [OF div_times_less_eq_dividend])
    obtain v n where v: "format_volume h large l ?r w = Some (Inr (), v)"
        "unat (ReservedSectCount l) + 2 * unat (FatSize l) + unat (SectorsPerCluster l) \<le> n" "n \<le> unat (TotalSectors l)"
        "\<And>q. sector (bytes v) (unat (BytesPerSect l)) q = (if q < n then system_sector l ?r q else sector (bytes w) (unat (BytesPerSect l)) q)"
      using format_volume_sectors [OF d lb ok(2) ls lc boot_record_length] by blast
    have "0 < n" using v(2) s ok(4) by auto
    then have "sector (bytes v) (unat (BytesPerSect l)) 0 = boot_sector ?r (unat (BytesPerSect l))" using v(4) [of 0] by (simp add: system_sector_def Let_def)
    then have "mount (bytes v) = Some l" by (rule mount_boot [OF lb ok(2) ls])
    moreover have "FormatLargeFAT32 h large e cs w = Some (Inr (), snd (set_label e (if no_boot e then v else snd (write_pbr e v))))"
      using ok(1) v(1) by (simp add: FormatLargeFAT32_ready [OF e])
    ultimately show ?thesis using ok(1) v(2-4) unfolding ok(3) by (intro exI [of _ "Inr l"] conjI) (simp_all only: sum.case, blast)
  qed
qed

text \<open>A volume of 260 MB on a drive of that size.\<close>

definition fat_sample :: "(u64 \<times> mem) fat_env" where
  "fat_sample =
     \<lparr>is_fat = True, volume = Volume_Open, geometry = None,
      geometry_ex = Some \<lparr>BytesPerSector = 512, SectorsPerTrack = 63, TracksPerCylinder = 255\<rparr>, geometry_error = False,
      partition = None, partition_ex = Some (1048576, 272629760), partition_error = False, volume_id = 0x1D023578,
      sector_memory = True, no_boot = True, write_pbr = (\<lambda>w. (True, w)), set_label = (\<lambda>w. (True, w))\<rparr>"

theorem FormatLargeFAT32_volume_witness:
  "\<exists>v l. FormatLargeFAT32 (medium 272629760) False fat_sample 0 (0, \<lambda>_. 7) = Some (Inr (), v) \<and> mount (snd v) = Some l \<and>
     unat (TotalSectors l) = 532480"
proof -
  let ?g = "\<lparr>BytesPerSector = 512, SectorsPerTrack = 63, TracksPerCylinder = 255\<rparr>"
  let ?p = "\<lparr>PartitionLength = 272629760, HiddenSectors = 2048\<rparr>"
  have e: "volume_ready fat_sample ?g ?p" by (simp add: volume_ready_def fat_sample_def volume_geometry_def volume_partition_def)
  have b: "sectors_ok (BytesPerSector ?g)" by (simp add: sectors_ok_def)
  have s: "unat (cluster_sectors (BytesPerSector ?g) (PartitionLength ?p) 0) \<in> {1..128}"
    by (simp add: cluster_sectors_def default_cluster_size_def)
  obtain l where l: "fat32_layout True 512 272629760 0 = Some (Inr l)" "unat (TotalSectors l) = 532480"
    by (simp add: fat32_layout_def GetFATSizeSectors_def default_cluster_size_def)
  show ?thesis
    using FormatLargeFAT32_volume [OF medium_wrapping [of 272629760] e _ b s, of False "(0, \<lambda>_. 7)"] l by (auto simp: fat_sample_def)
qed

end
