(* ===== verification/Asn1.thy ===== *)
theory Asn1
  imports Prelude "HOL-Library.Monad_Syntax"
begin

text \<open>
  The search for data in ASN.1 structures of \<open>src/src/parser.c\<close>: the conversion of an object identifier from text to its
  encoding, and the search for the first data of a type behind the identifier. A pointer into the buffer is an offset from
  its start, a read outside of the buffer is \<open>None\<close>.
\<close>

section \<open>The search\<close>

text \<open>\<open>buf_len - pos\<close> of two \<open>size_t\<close> values.\<close>

definition room_left :: "nat \<Rightarrow> nat \<Rightarrow> nat" where
  "room_left buf_len pos = (2 ^ 64 + buf_len - pos) mod 2 ^ 64"

fun asn1_len_bytes :: "u8 list \<Rightarrow> nat \<Rightarrow> nat \<Rightarrow> nat \<Rightarrow> nat \<Rightarrow> (nat \<times> nat) option" where
  "asn1_len_bytes m off pos 0 len = Some (len, pos)"
| "asn1_len_bytes m off pos (Suc n) len = do {
     b \<leftarrow> rd m (off + pos);
     asn1_len_bytes m off (pos + 1) n (len * 256 + unat b)
   }"

text \<open>The length of an element and the position behind it; \<open>Some None\<close> is an error.\<close>

definition asn1_length :: "u8 list \<Rightarrow> nat \<Rightarrow> nat \<Rightarrow> nat \<Rightarrow> bool \<Rightarrow> u8 \<Rightarrow> (nat \<times> nat) option option" where
  "asn1_length m off buf_len pos is_universal_tag tag =
     (if is_universal_tag \<and> tag = 5 then Some (Some (0, pos + 1))
      else do {
        b \<leftarrow> rd m (off + pos);
        if b AND 0x80 \<noteq> 0 \<and> unat (b AND 0x7F) > 2 then Some None
        else do {
          (len, pos) \<leftarrow> (if b AND 0x80 \<noteq> 0 then asn1_len_bytes m off (pos + 1) (unat (b AND 0x7F)) 0
                        else Some (unat b, pos + 1));
          if len > room_left buf_len pos then Some None else Some (Some (len, pos))
        }
      })"

lemma asn1_len_bytes_pos: "asn1_len_bytes m off pos n len = Some (len', pos') \<Longrightarrow> pos \<le> pos'"
  by (induction n arbitrary: pos len) (fastforce split: bind_splits)+

lemma asn1_length_pos: "asn1_length m off buf_len pos u t = Some (Some (len, pos')) \<Longrightarrow> pos < pos'"
  by (auto simp: asn1_length_def split: if_splits bind_splits dest!: asn1_len_bytes_pos)

text \<open>The loop over the elements of a buffer at an offset: the result, whether the identifier was found, and the data.\<close>

function asn1_loop ::
    "u8 list \<Rightarrow> u8 list \<Rightarrow> u8 \<Rightarrow> nat \<Rightarrow> nat \<Rightarrow> nat \<Rightarrow> bool \<Rightarrow> (bool \<times> bool \<times> (nat \<times> nat) option) option" where
  "asn1_loop m oid asn1_type off buf_len pos matched =
     (if pos < buf_len then
        case rd m (off + pos) of
          None \<Rightarrow> None
        | Some b \<Rightarrow>
            let is_sequence = b AND 0x20 \<noteq> 0; is_universal_tag = (b AND 0xC0 = 0); tag = b AND 0x1F in
            if tag = 0x1F then Some (False, matched, None)
            else
              case asn1_length m off buf_len (pos + 1) is_universal_tag tag of
                None \<Rightarrow> None
              | Some None \<Rightarrow> Some (False, matched, None)
              | Some (Some (len, pos)) \<Rightarrow>
                  if len = 0 then asn1_loop m oid asn1_type off buf_len pos matched
                  else if is_sequence then
                    (case asn1_loop m oid asn1_type (off + pos) len 0 matched of
                       None \<Rightarrow> None
                     | Some (r, matched, data) \<Rightarrow>
                         if \<not> r then Some (False, matched, data)
                         else if data \<noteq> None then Some (True, matched, data)
                         else asn1_loop m oid asn1_type off buf_len (pos + len) matched)
                  else if is_universal_tag \<and> \<not> matched \<and> tag = 6 \<and> len = length oid then
                    (case rd_span m (off + pos) len of
                       None \<Rightarrow> None
                     | Some x \<Rightarrow> asn1_loop m oid asn1_type off buf_len (pos + len) (x = oid))
                  else if is_universal_tag \<and> matched \<and> tag = asn1_type then Some (True, matched, Some (off + pos, len))
                  else asn1_loop m oid asn1_type off buf_len (pos + len) matched
      else Some (True, matched, None))"
  by pat_completeness auto
termination
  by (relation "measure (\<lambda>(m, oid, asn1_type, off, buf_len, pos, matched). length m - (off + pos))")
    (auto simp: rd_Some_iff dest!: asn1_length_pos)

declare asn1_loop.simps [simp del]

definition get_data_from_asn1_internal ::
    "u8 list \<Rightarrow> nat \<Rightarrow> u8 list \<Rightarrow> u8 \<Rightarrow> bool \<Rightarrow> (bool \<times> bool \<times> (nat \<times> nat) option) option" where
  "get_data_from_asn1_internal m buf_len oid asn1_type matched = asn1_loop m oid asn1_type 0 buf_len 0 matched"

section \<open>Object identifiers\<close>

text \<open>The loop over the shifts of a 32-bit value.\<close>

fun flagged_loop :: "nat list \<Rightarrow> bool \<Rightarrow> u32 \<Rightarrow> u8 list" where
  "flagged_loop [] more v = [ucast v]"
| "flagged_loop (shift # shifts) more v =
     (if more \<or> v \<ge> push_bit shift 1
      then ucast (0x80 OR drop_bit shift v) # flagged_loop shifts True (v - push_bit shift (drop_bit shift v))
      else flagged_loop shifts more v)"

definition make_flagged_int :: "u32 \<Rightarrow> u8 list \<Rightarrow> u8 list" where
  "make_flagged_int v oid = oid @ flagged_loop [28, 21, 14, 7] False v"

text \<open>\<open>strtoul\<close> with base 10 on digits: the value, at most \<open>ULONG_MAX\<close>, and the rest of the text.\<close>

definition is_dec :: "u8 \<Rightarrow> bool" where
  "is_dec b \<longleftrightarrow> 48 \<le> b \<and> b \<le> 57"

fun dec_loop :: "nat \<Rightarrow> u8 list \<Rightarrow> nat \<times> u8 list" where
  "dec_loop v [] = (v, [])"
| "dec_loop v (b # s) = (if is_dec b then dec_loop (10 * v + (unat b - 48)) s else (v, b # s))"

definition strtoul10 :: "u8 list \<Rightarrow> u32 \<times> u8 list" where
  "strtoul10 s = (let (v, r) = dec_loop 0 s in (of_nat (min v 4294967295), r))"

lemma dec_loop_length: "length (snd (dec_loop v s)) \<le> length s"
  by (induction v s rule: dec_loop.induct) auto

lemma strtoul10_length: "strtoul10 s = (v, r) \<Longrightarrow> length r \<le> length s"
  using dec_loop_length [of 0 s] by (auto simp: strtoul10_def split: prod.splits)

lemma strtoul10_rest: "(v, r) = strtoul10 s \<Longrightarrow> s \<noteq> [] \<Longrightarrow> length r - Suc 0 < length s"
  using strtoul10_length [of s v r] by (cases s) auto

text \<open>
  The loop over the arcs of a text without its terminator, with the number of the last arc, the value of the first one and the
  bytes stored so far: \<open>Some None\<close> is \<open>goto err\<close>, \<open>None\<close> a store behind the block of \<open>cap\<close> bytes.
\<close>

function arc_loop :: "nat \<Rightarrow> nat \<Rightarrow> u32 \<Rightarrow> u8 list \<Rightarrow> u8 list \<Rightarrow> (nat \<times> u8 list) option option" where
  "arc_loop cap arcno val1 oid s =
     (case strtoul10 s of (v, endp) \<Rightarrow>
        if s = [] \<or> \<not> is_dec (hd s) \<or> \<not> (endp = [] \<or> hd endp = 46) then Some None
        else if arcno = 0 then
          if v > 2 \<or> endp = [] then Some (Some (1, oid)) else arc_loop cap 1 v oid (tl endp)
        else if arcno = 1 \<and> val1 < 2 \<and> v > 39 then Some None
        else
          let oid = (if arcno = 1 then
                       if val1 < 2 then oid @ [ucast (val1 * 40 + v)] else make_flagged_int (v + 80) oid
                     else make_flagged_int v oid) in
          if length oid > cap then None
          else if endp = [] then Some (Some (arcno + 1, oid)) else arc_loop cap (arcno + 1) val1 oid (tl endp))"
  by pat_completeness auto
termination
  by (relation "measure (\<lambda>(cap, arcno, val1, oid, s). length s)")
    (auto intro: strtoul10_rest)

declare arc_loop.simps [simp del]

text \<open>\<open>Some None\<close> is a null pointer.\<close>

definition oid_from_str :: "u8 list \<Rightarrow> u8 list option option" where
  "oid_from_str oid_str =
     (if oid_str = [] then Some None
      else case arc_loop (1 + length oid_str + 2) 0 0 [] oid_str of
        None \<Rightarrow> None
      | Some None \<Rightarrow> Some None
      | Some (Some (arcno, oid)) \<Rightarrow> if arcno = 1 \<or> length oid < 2 \<or> length oid > 254 then Some None else Some (Some oid))"

text \<open>The data found, as offset and length; \<open>Some None\<close> is a null pointer. An identifier that is null is an empty one.\<close>

definition get_data_from_asn1 :: "u8 list \<Rightarrow> u8 list \<Rightarrow> u8 \<Rightarrow> (nat \<times> nat) option option" where
  "get_data_from_asn1 m oid_str asn1_type =
     (let matched = (oid_str = []) in
      if length m \<ge> 65536 then Some None
      else do {
        oid \<leftarrow> (if matched then Some (Some []) else oid_from_str oid_str);
        case oid of
          None \<Rightarrow> Some None
        | Some oid \<Rightarrow> do {
            (r, matched, data) \<leftarrow> get_data_from_asn1_internal m (length m) oid asn1_type matched;
            Some data
          }
      })"

section \<open>Encoding of identifiers\<close>

text \<open>The decoder of subidentifiers: seven bits in every byte, flagged but for the last one, and no leading zero.\<close>

fun dec_arcs :: "nat \<Rightarrow> u8 list \<Rightarrow> nat list option" where
  "dec_arcs acc [] = (if acc = 0 then Some [] else None)"
| "dec_arcs acc (b # bs) =
     (if acc = 0 \<and> b = 0x80 then None
      else if b < 0x80 then map_option ((#) (acc * 128 + unat b)) (dec_arcs 0 bs)
      else dec_arcs (acc * 128 + (unat b - 128)) bs)"

fun shifts :: "nat \<Rightarrow> nat list" where
  "shifts 0 = []"
| "shifts (Suc k) = 7 * Suc k # shifts k"

lemma flag_bit_apart: "(push_bit n 1 :: u32) AND take_bit n d = 0"
  by (rule bit_word_eqI) (auto simp: bit_simps)

lemma flagged_byte:
  assumes "unat v < 128 * 2 ^ s"
  shows "unat (ucast (0x80 OR drop_bit s (v :: u32)) :: u8) = 128 + unat v div 2 ^ s"
proof -
  let ?d = "drop_bit s v"
  have "unat ?d = drop_bit s (unat v)" using take_bit_nat_eq_self [of "unat v" 32] by (simp add: unsigned_drop_bit_eq)
  then have d: "unat ?d = unat v div 2 ^ s" by (simp only: drop_bit_eq_div)
  have l: "unat v div 2 ^ s < 128" using assms by (simp add: less_mult_imp_div_less)
  then have t: "take_bit 7 ?d = ?d" using d by (simp add: word_unat_eq_iff unsigned_take_bit_eq take_bit_nat_eq_self)
  have "0x80 AND take_bit 7 ?d = 0" using flag_bit_apart [of 7 ?d] by simp
  then have "0x80 OR ?d = 0x80 + ?d" using t by (simp add: disjunctive_add_eq_or)
  moreover have "unat (0x80 + ?d) = 128 + unat v div 2 ^ s" using d l by (simp add: unat_word_ariths)
  ultimately show ?thesis using l by (simp add: unsigned_ucast_eq take_bit_eq_mod)
qed

lemma flagged_rest: "unat (v - push_bit s (drop_bit s (v :: u32))) = unat v mod 2 ^ s"
proof -
  have "v - push_bit s (drop_bit s v) = take_bit s v" using bits_ident [of s v] by (metis add_diff_cancel_left')
  then have "unat (v - push_bit s (drop_bit s v)) = take_bit s (unat v)" by (simp add: unsigned_take_bit_eq)
  then show ?thesis by (simp only: take_bit_eq_mod)
qed

lemma unat_push_1: "s < 32 \<Longrightarrow> unat (push_bit s 1 :: u32) = 2 ^ s"
proof -
  assume s: "s < 32"
  have "(push_bit s 1 :: u32) = of_nat (2 ^ s)" by (simp add: push_bit_eq_mult)
  then have "unat (push_bit s 1 :: u32) = 2 ^ s mod 2 ^ 32" by (simp only: unat_of_nat) simp
  also have "\<dots> = 2 ^ s" by (intro mod_less power_strict_increasing) (use s in auto)
  finally show ?thesis .
qed

lemma ucast_byte: "unat (v :: u32) < 128 \<Longrightarrow> unat (ucast v :: u8) = unat v \<and> (ucast v :: u8) < 0x80"
  by (simp add: unsigned_ucast_eq take_bit_eq_mod word_less_nat_alt)

lemma dec_arcs_flagged:
  assumes "unat b = 128 + n" "n \<noteq> 0 \<or> acc \<noteq> 0"
  shows "dec_arcs acc (b # bs) = dec_arcs (acc * 128 + n) bs"
proof -
  have "\<not> b < 0x80" using assms(1) by (simp add: word_less_nat_alt)
  moreover have "\<not> (acc = 0 \<and> b = 0x80)" using assms by auto
  ultimately show ?thesis using assms(1) by (cases "acc = 0") simp_all
qed

lemma pow_shift: "(2 :: nat) ^ (7 * k) = 128 ^ k"
  by (simp add: power_mult)

lemma dec_flagged_more:
  "0 < acc \<Longrightarrow> k < 5 \<Longrightarrow> unat v < 128 ^ Suc k \<Longrightarrow>
     dec_arcs acc (flagged_loop (shifts k) True v @ r) = map_option ((#) (acc * 128 ^ Suc k + unat v)) (dec_arcs 0 r)"
proof (induction k arbitrary: acc v)
  case 0
  then show ?case using ucast_byte [of v] by simp
next
  case (Suc k)
  let ?s = "7 * Suc k" and ?w = "v - push_bit (7 * Suc k) (drop_bit (7 * Suc k) v)"
  have p: "(2 :: nat) ^ ?s = 128 ^ Suc k" by (rule pow_shift)
  have "unat v < 128 * 2 ^ ?s" unfolding p using Suc.prems(3) by simp
  then have b: "unat (ucast (0x80 OR drop_bit ?s v) :: u8) = 128 + unat v div 128 ^ Suc k" unfolding p [symmetric] by (rule flagged_byte)
  have w: "unat ?w = unat v mod 128 ^ Suc k" unfolding p [symmetric] by (rule flagged_rest)
  have "flagged_loop (shifts (Suc k)) True v = ucast (0x80 OR drop_bit ?s v) # flagged_loop (shifts k) True ?w" by simp
  then have "dec_arcs acc (flagged_loop (shifts (Suc k)) True v @ r) =
      dec_arcs (acc * 128 + unat v div 128 ^ Suc k) (flagged_loop (shifts k) True ?w @ r)"
    using dec_arcs_flagged [OF b, of acc] Suc.prems(1) by (simp only: append_Cons) simp
  also have "\<dots> = map_option ((#) ((acc * 128 + unat v div 128 ^ Suc k) * 128 ^ Suc k + unat ?w)) (dec_arcs 0 r)"
    using Suc.prems w by (intro Suc.IH) auto
  also have "(acc * 128 + unat v div 128 ^ Suc k) * 128 ^ Suc k + unat ?w = acc * 128 ^ Suc (Suc k) + unat v"
    unfolding w using div_mult_mod_eq [of "unat v" "128 ^ Suc k"] by (simp add: algebra_simps)
  finally show ?case .
qed

lemma dec_flagged:
  "k < 5 \<Longrightarrow> unat v < 128 ^ Suc k \<Longrightarrow>
     dec_arcs 0 (flagged_loop (shifts k) False v @ r) = map_option ((#) (unat v)) (dec_arcs 0 r)"
proof (induction k arbitrary: v)
  case 0
  then show ?case using ucast_byte [of v] by auto
next
  case (Suc k)
  let ?s = "7 * Suc k" and ?w = "v - push_bit (7 * Suc k) (drop_bit (7 * Suc k) v)"
  have p: "(2 :: nat) ^ ?s = 128 ^ Suc k" by (rule pow_shift)
  have g: "v \<ge> push_bit ?s 1 \<longleftrightarrow> unat v \<ge> 128 ^ Suc k" using unat_push_1 [of ?s] Suc.prems(1) unfolding word_le_nat_alt p [symmetric] by simp
  show ?case
  proof (cases "v \<ge> push_bit ?s 1")
    case True
    have "unat v < 128 * 2 ^ ?s" unfolding p using Suc.prems(2) by simp
    then have b: "unat (ucast (0x80 OR drop_bit ?s v) :: u8) = 128 + unat v div 128 ^ Suc k" unfolding p [symmetric] by (rule flagged_byte)
    have w: "unat ?w = unat v mod 128 ^ Suc k" unfolding p [symmetric] by (rule flagged_rest)
    have n: "0 < unat v div 128 ^ Suc k" using True g by (simp add: div_greater_zero_iff)
    have "flagged_loop (shifts (Suc k)) False v = ucast (0x80 OR drop_bit ?s v) # flagged_loop (shifts k) True ?w" using True by simp
    then have "dec_arcs 0 (flagged_loop (shifts (Suc k)) False v @ r) = dec_arcs (0 * 128 + unat v div 128 ^ Suc k) (flagged_loop (shifts k) True ?w @ r)"
      using dec_arcs_flagged [OF b, of 0] n by (simp only: append_Cons) simp
    also have "\<dots> = map_option ((#) ((0 * 128 + unat v div 128 ^ Suc k) * 128 ^ Suc k + unat ?w)) (dec_arcs 0 r)"
      using Suc.prems n w by (intro dec_flagged_more) auto
    finally show ?thesis by (simp only: w mult_0 add_0 div_mult_mod_eq)
  next
    case False
    then show ?thesis using Suc.IH [of v] Suc.prems g by simp
  qed
qed

lemma make_flagged_int_decodes:
  "dec_arcs 0 (flagged_loop [28, 21, 14, 7] False v @ r) = map_option ((#) (unat v)) (dec_arcs 0 r)"
proof -
  have "[28, 21, 14, 7] = shifts 4" by (simp add: numeral_eq_Suc)
  moreover have "unat v < 4294967296" "(128 :: nat) ^ Suc 4 = 34359738368" by simp_all
  then have "unat v < 128 ^ Suc 4" by linarith
  ultimately show ?thesis using dec_flagged [of 4 v r] by simp
qed

section \<open>Identifiers as text\<close>

text \<open>A number in decimal, and numbers with dots between them.\<close>

function dec_text :: "nat \<Rightarrow> u8 list" where
  "dec_text n = (if n < 10 then [of_nat (48 + n)] else dec_text (n div 10) @ [of_nat (48 + n mod 10)])"
  by pat_completeness auto
termination
  by (relation "measure id") auto

declare dec_text.simps [simp del]

fun dotted :: "nat list \<Rightarrow> u8 list" where
  "dotted [] = []"
| "dotted [n] = dec_text n"
| "dotted (n # ns) = dec_text n @ 46 # dotted ns"

lemma dec_digit: "d < 10 \<Longrightarrow> is_dec (of_nat (48 + d)) \<and> unat (of_nat (48 + d) :: u8) = 48 + d"
  by (simp add: is_dec_def word_le_nat_alt unat_of_nat del: of_nat_add)

lemma dec_loop_text: "dec_loop 0 (dec_text n @ r) = dec_loop n r"
proof (induction n arbitrary: r rule: dec_text.induct)
  case (1 n)
  show ?case
  proof (cases "n < 10")
    case True
    then show ?thesis using dec_digit [of n] by (subst dec_text.simps) (simp del: of_nat_add)
  next
    case False
    have "dec_loop 0 (dec_text n @ r) = dec_loop 0 (dec_text (n div 10) @ of_nat (48 + n mod 10) # r)"
      using False by (subst dec_text.simps) simp
    also have "\<dots> = dec_loop (n div 10) (of_nat (48 + n mod 10) # r)" using 1 [OF False] .
    also have "\<dots> = dec_loop n r" using dec_digit [of "n mod 10"] by (simp del: of_nat_add)
    finally show ?thesis .
  qed
qed

lemma dec_text_head: "dec_text n \<noteq> [] \<and> is_dec (hd (dec_text n))"
proof (induction n rule: dec_text.induct)
  case (1 n)
  then show ?case using dec_digit [of n] by (subst (1 2) dec_text.simps) (auto simp del: of_nat_add)
qed

lemma not_dec_dot: "\<not> is_dec 46"
  by (simp add: is_dec_def)

lemma strtoul10_text:
  "n < 4294967296 \<Longrightarrow> r = [] \<or> hd r = 46 \<Longrightarrow> strtoul10 (dec_text n @ r) = (of_nat n, r)"
  using dec_loop_text [of n "[]"] by (cases r) (auto simp: strtoul10_def dec_loop_text not_dec_dot min_def)

text \<open>An arc at a later place adds its encoding.\<close>

lemma arc_loop_step:
  assumes "n < 4294967296" "r = [] \<or> hd r = 46"
  shows "arc_loop cap (Suc (Suc k)) val1 oid (dec_text n @ r) =
    (if length (make_flagged_int (of_nat n) oid) > cap then None
     else if r = [] then Some (Some (k + 3, make_flagged_int (of_nat n) oid))
     else arc_loop cap (Suc (Suc (Suc k))) val1 (make_flagged_int (of_nat n) oid) (tl r))"
  using dec_text_head [of n] strtoul10_text [OF assms] assms(2) by (subst arc_loop.simps) (auto simp: Let_def)

lemma length_flagged_loop: "length (flagged_loop ss more v) \<le> Suc (length ss)"
  by (induction ss more v rule: flagged_loop.induct) auto

text \<open>The encoding of a number has no more bytes than the number has digits.\<close>

lemma flagged_length:
  "k < 5 \<Longrightarrow> unat v < 128 ^ Suc d \<Longrightarrow> length (flagged_loop (shifts k) False v) \<le> Suc d"
proof (induction k)
  case (Suc k)
  show ?case
  proof (cases "v \<ge> push_bit (7 * Suc k) 1")
    case False
    then show ?thesis using Suc by simp
  next
    case True
    have "(128 :: nat) ^ Suc k \<le> unat v"
      using True unat_push_1 [of "7 * Suc k"] Suc.prems(1) unfolding word_le_nat_alt pow_shift [symmetric] by simp
    then have "(128 :: nat) ^ Suc k < 128 ^ Suc d" using Suc.prems(2) by linarith
    then have "Suc k < Suc d" by (simp only: power_strict_increasing_iff)
    moreover have "length (shifts j) = j" for j by (induction j) auto
    ultimately show ?thesis using length_flagged_loop [of "shifts (Suc k)" False v] by simp
  qed
qed simp

lemma make_flagged_int_length:
  assumes "unat v < 128 ^ Suc d"
  shows "length (make_flagged_int v oid) \<le> length oid + Suc d"
proof -
  have "[28, 21, 14, 7] = shifts 4" by (simp add: numeral_eq_Suc)
  then show ?thesis using flagged_length [of 4 v d] assms by (simp add: make_flagged_int_def)
qed

lemma is_dec_value: "is_dec b \<Longrightarrow> unat b - 48 \<le> 9"
  by (auto simp: is_dec_def word_le_nat_alt)

lemma dec_loop_value: "dec_loop v s = (v', r) \<Longrightarrow> \<exists>k. length s = k + length r \<and> v' < (v + 1) * 10 ^ k"
proof (induction v s rule: dec_loop.induct)
  case (2 v b s)
  show ?case
  proof (cases "is_dec b")
    case True
    then obtain k where k: "length s = k + length r" "v' < (10 * v + (unat b - 48) + 1) * 10 ^ k" using 2 by auto
    have "unat b - 48 \<le> 9" using True by (rule is_dec_value)
    then have "(10 * v + (unat b - 48) + 1) * 10 ^ k \<le> (10 * v + 10) * 10 ^ k" by (intro mult_le_mono1) simp
    then show ?thesis using k by (intro exI [of _ "Suc k"]) (auto simp: algebra_simps)
  next
    case False
    then show ?thesis using 2 by (intro exI [of _ 0]) auto
  qed
qed auto

lemma strtoul10_value:
  assumes "strtoul10 s = (v, r)" "s \<noteq> []" "is_dec (hd s)"
  obtains d where "length s = Suc d + length r" "unat v < 10 ^ Suc d"
proof -
  obtain b t where s: "s = b # t" using assms(2) by (cases s) auto
  obtain w where w: "dec_loop 0 s = (w, r)" "v = of_nat (min w 4294967295)"
    using assms(1) by (auto simp: strtoul10_def split: prod.splits)
  have "dec_loop (unat b - 48) t = (w, r)" using w(1) s assms(3) by simp
  then obtain k where k: "length t = k + length r" "w < (unat b - 48 + 1) * 10 ^ k" using dec_loop_value by blast
  have "unat b - 48 \<le> 9" using assms(3) s by (simp add: is_dec_value)
  then have "(unat b - 48 + 1) * 10 ^ k \<le> 10 * 10 ^ k" by (intro mult_le_mono1) simp
  with k(2) have "w < 10 * 10 ^ k" by (rule less_le_trans)
  moreover have "unat v \<le> w" using w(2) by (simp add: unat_of_nat)
  ultimately show ?thesis using k(1) s by (intro that [of k]) auto
qed

lemma ten_pow: "(10 :: nat) ^ Suc d + 80 \<le> 128 ^ Suc d"
proof (induction d)
  case (Suc d)
  have "(10 :: nat) ^ Suc (Suc d) + 80 \<le> 10 * (10 ^ Suc d + 80)" by simp
  also have "\<dots> \<le> 10 * 128 ^ Suc d" using Suc by (rule mult_le_mono2)
  also have "\<dots> \<le> 128 * 128 ^ Suc d" by (rule mult_le_mono1) simp
  finally show ?case by simp
qed simp

text \<open>The block for the encoding is large enough for any text.\<close>

lemma arc_loop_in_block:
  "length oid + length s \<le> cap \<Longrightarrow> arc_loop cap arcno val1 oid s \<noteq> None"
proof (induction cap arcno val1 oid s rule: arc_loop.induct)
  case (1 cap arcno val1 oid s)
  obtain v endp where v: "strtoul10 s = (v, endp)" by fastforce
  let ?o = "if arcno = 1 then if val1 < 2 then oid @ [ucast (val1 * 40 + v)] else make_flagged_int (v + 80) oid else make_flagged_int v oid"
  show ?case
  proof (cases "s = [] \<or> \<not> is_dec (hd s) \<or> \<not> (endp = [] \<or> hd endp = 46)")
    case True
    then show ?thesis using v by (subst arc_loop.simps) auto
  next
    case False
    then obtain d where d: "length s = Suc d + length endp" "unat v < 10 ^ Suc d" using strtoul10_value [OF v] by blast
    have v80: "unat (v + 80) \<le> unat v + 80" by (simp add: unat_word_ariths)
    have "unat v < 128 ^ Suc d" "unat (v + 80) < 128 ^ Suc d" using d(2) ten_pow [of d] v80 by linarith+
    then have o: "length ?o \<le> length oid + Suc d" using make_flagged_int_length [of v d oid] make_flagged_int_length [of "v + 80" d oid] by simp
    have t: "length endp - 1 + length ?o \<le> cap" "length endp - 1 + length oid \<le> cap" using o d(1) 1(3) by linarith+
    have c: "\<not> length ?o > cap" using o d(1) 1(3) by linarith
    show ?thesis using False v 1(1) [OF v [symmetric] False] 1(2) [OF v [symmetric] False, of ?o] t c
      by (subst arc_loop.simps) (auto simp: Let_def)
  qed
qed

lemma oid_from_str_in_block: "oid_from_str s \<noteq> None"
  using arc_loop_in_block [of "[]" s "1 + length s + 2" 0 0]
  by (auto simp: oid_from_str_def split: option.splits)

text \<open>Identifiers that can be written: at least three numbers, the first at most 2 and the second at most 39 below 2.\<close>

definition arcs_ok :: "nat \<Rightarrow> nat \<Rightarrow> nat list \<Rightarrow> bool" where
  "arcs_ok a b as \<longleftrightarrow> a \<le> 2 \<and> (a < 2 \<longrightarrow> b \<le> 39) \<and> b + 80 < 4294967296 \<and> list_all (\<lambda>n. n < 4294967296) as"

lemma dotted_Cons: "dotted (n # ns) = dec_text n @ (if ns = [] then [] else 46 # dotted ns)"
  by (cases ns) auto

lemma dotted_length: "length (dotted ns) \<ge> length ns"
proof (induction ns)
  case (Cons n ns)
  have "dec_text n \<noteq> []" using dec_text_head by simp
  then have "length (dec_text n) \<ge> 1" by (cases "dec_text n") auto
  with Cons show ?case by (simp only: dotted_Cons) (cases ns; simp)
qed simp

definition arc_bytes :: "nat list \<Rightarrow> u8 list" where
  "arc_bytes as = concat (map (\<lambda>n. make_flagged_int (of_nat n) []) as)"

lemma make_flagged_int_append: "make_flagged_int v oid = oid @ make_flagged_int v []"
  by (simp add: make_flagged_int_def)

lemma flagged_text_length:
  assumes "n < 4294967296"
  shows "length (make_flagged_int (of_nat n) oid) \<le> length oid + length (dec_text n)"
proof -
  have "strtoul10 (dec_text n) = (of_nat n, [])" using strtoul10_text [OF assms, of "[]"] by simp
  then obtain d where "length (dec_text n) = Suc d" "unat (of_nat n :: u32) < 10 ^ Suc d"
    using strtoul10_value [of "dec_text n"] dec_text_head [of n] by force
  then show ?thesis using make_flagged_int_length [of "of_nat n" d oid] ten_pow [of d] by linarith
qed

lemma dec_arc_bytes: "list_all (\<lambda>n. n < 4294967296) as \<Longrightarrow> dec_arcs 0 (arc_bytes as) = Some as"
proof (induction as)
  case (Cons n as)
  have "unat (of_nat n :: u32) = n" using Cons.prems by (simp add: unat_of_nat)
  then show ?case using Cons make_flagged_int_decodes [of "of_nat n" "arc_bytes as"] by (simp add: arc_bytes_def make_flagged_int_def)
qed (simp add: arc_bytes_def)

lemma arc_loop_arcs:
  "as \<noteq> [] \<Longrightarrow> list_all (\<lambda>n. n < 4294967296) as \<Longrightarrow> length oid + length (dotted as) \<le> cap \<Longrightarrow>
     arc_loop cap (Suc (Suc k)) val1 oid (dotted as) = Some (Some (k + 2 + length as, oid @ arc_bytes as))"
proof (induction as arbitrary: k oid)
  case (Cons n ns)
  let ?r = "if ns = [] then [] else 46 # dotted ns" and ?o = "make_flagged_int (of_nat n) oid"
  have n: "n < 4294967296" using Cons.prems(2) by simp
  have s: "dotted (n # ns) = dec_text n @ ?r" by (rule dotted_Cons)
  have ne: "arc_loop cap (Suc (Suc k)) val1 oid (dotted (n # ns)) \<noteq> None" using Cons.prems(3) by (rule arc_loop_in_block)
  have step: "arc_loop cap (Suc (Suc k)) val1 oid (dotted (n # ns)) =
      (if length ?o > cap then None else if ?r = [] then Some (Some (k + 3, ?o)) else arc_loop cap (Suc (Suc (Suc k))) val1 ?o (tl ?r))"
    unfolding s using arc_loop_step [OF n, of ?r cap k val1 oid] by auto
  then have c: "\<not> length ?o > cap" using ne by auto
  have o: "?o = oid @ arc_bytes [n]" by (simp add: arc_bytes_def make_flagged_int_def)
  show ?case
  proof (cases ns)
    case Nil
    then show ?thesis using step c o by simp
  next
    case (Cons m ms)
    have "length ?o \<le> length oid + length (dec_text n)" using n by (rule flagged_text_length)
    then have "arc_loop cap (Suc (Suc (Suc k))) val1 ?o (dotted ns) = Some (Some (Suc k + 2 + length ns, ?o @ arc_bytes ns))"
      using Cons.prems Cons s by (intro Cons.IH) auto
    then show ?thesis using step c Cons o by (simp add: arc_bytes_def)
  qed
qed simp

lemma flagged_small: "unat v < 128 \<Longrightarrow> k < 5 \<Longrightarrow> flagged_loop (shifts k) False v = [ucast v]"
proof (induction k)
  case (Suc k)
  have "(2 :: nat) ^ 7 \<le> 2 ^ (7 * Suc k)" by (rule power_increasing) auto
  then have "\<not> v \<ge> push_bit (7 * Suc k) 1" using unat_push_1 [of "7 * Suc k"] Suc.prems unfolding word_le_nat_alt by simp
  then show ?case using Suc by simp
qed simp

text \<open>The first two numbers together are the first one of the encoding.\<close>

lemma first_arcs:
  assumes "arcs_ok a b as"
  shows "(if (of_nat a :: u32) < 2 then [ucast (of_nat a * 40 + of_nat b :: u32)] else make_flagged_int (of_nat b + 80) []) =
    arc_bytes [40 * a + b]"
proof (cases "a < 2")
  case True
  then have l: "40 * a + b < 128" using assms by (auto simp: arcs_ok_def)
  have "[28, 21, 14, 7] = shifts 4" by (simp add: numeral_eq_Suc)
  then have "make_flagged_int (of_nat (40 * a + b)) [] = [ucast (of_nat (40 * a + b) :: u32)]"
    using flagged_small [of "of_nat (40 * a + b)" 4] l by (simp add: make_flagged_int_def unat_of_nat del: of_nat_add of_nat_mult)
  moreover have "(of_nat a :: u32) < 2" using True by (simp add: word_less_nat_alt unat_of_nat)
  ultimately show ?thesis by (simp add: arc_bytes_def mult.commute)
next
  case False
  then have "a = 2" using assms by (simp add: arcs_ok_def)
  then show ?thesis by (simp add: arc_bytes_def add.commute)
qed

lemma first_arcs_length:
  assumes "arcs_ok a b as"
  shows "length (arc_bytes [40 * a + b]) \<le> length (dec_text b)"
proof -
  have b: "b < 4294967296" "40 * a + b \<le> b + 80" "b + 80 < 4294967296" using assms by (auto simp: arcs_ok_def)
  have "strtoul10 (dec_text b) = (of_nat b, [])" using strtoul10_text [OF b(1), of "[]"] by simp
  then obtain d where d: "length (dec_text b) = Suc d" "unat (of_nat b :: u32) < 10 ^ Suc d"
    using strtoul10_value [of "dec_text b"] dec_text_head [of b] by force
  have "unat (of_nat b :: u32) = b" "unat (of_nat (40 * a + b) :: u32) = 40 * a + b" using b by (simp_all add: unat_of_nat del: of_nat_add of_nat_mult)
  then have "unat (of_nat (40 * a + b) :: u32) < 128 ^ Suc d" using d(2) b ten_pow [of d] by linarith
  then show ?thesis using make_flagged_int_length [of "of_nat (40 * a + b)" d "[]"] d(1) by (simp add: arc_bytes_def del: of_nat_add of_nat_mult)
qed

lemma arc_bytes_length: "length as \<le> length (arc_bytes as)"
proof (induction as)
  case (Cons n as)
  have "flagged_loop ss m v \<noteq> []" for ss m v by (induction ss m v rule: flagged_loop.induct) auto
  then have "length (make_flagged_int (of_nat n) []) \<ge> 1" by (simp add: make_flagged_int_def Suc_le_eq)
  with Cons show ?case by (simp add: arc_bytes_def)
qed (simp add: arc_bytes_def)

lemma oid_from_str_dotted:
  assumes ok: "arcs_ok a b as" and ne: "as \<noteq> []" and l: "length (arc_bytes ((40 * a + b) # as)) \<le> 254"
  shows "oid_from_str (dotted (a # b # as)) = Some (Some (arc_bytes ((40 * a + b) # as)))"
proof -
  let ?s = "dotted (a # b # as)" and ?cap = "1 + length (dotted (a # b # as)) + 2" and ?t = "dotted (b # as)" and ?u = "dotted as"
  have n: "a < 4294967296" "b < 4294967296" using ok by (auto simp: arcs_ok_def)
  have s: "?s = dec_text a @ 46 # ?t" "?t = dec_text b @ 46 # ?u" using ne by (auto simp: dotted_Cons)
  have a2: "\<not> (of_nat a :: u32) > 2" using ok by (simp add: arcs_ok_def word_less_nat_alt unat_of_nat)
  have b39: "\<not> ((of_nat a :: u32) < 2 \<and> (of_nat b :: u32) > 39)" using ok n by (auto simp: arcs_ok_def word_less_nat_alt unat_of_nat)
  have ob: "length (arc_bytes [40 * a + b]) \<le> length (dec_text b)" using ok by (rule first_arcs_length)
  have "arc_loop ?cap 0 0 [] ?s = arc_loop ?cap 1 (of_nat a) [] ?t"
    using dec_text_head [of a] strtoul10_text [OF n(1), of "46 # ?t"] s(1) a2 by (subst arc_loop.simps) auto
  also have "\<dots> = arc_loop ?cap (Suc (Suc 0)) (of_nat a) (arc_bytes [40 * a + b]) ?u"
  proof -
    have "\<not> length (arc_bytes [40 * a + b]) > ?cap" using ob s by simp
    then show ?thesis
      using dec_text_head [of b] strtoul10_text [OF n(2), of "46 # ?u"] s(2) b39 first_arcs [OF ok] by (subst arc_loop.simps) auto
  qed
  also have "\<dots> = Some (Some (0 + 2 + length as, arc_bytes [40 * a + b] @ arc_bytes as))"
    using ne ok ob s by (intro arc_loop_arcs) (auto simp: arcs_ok_def)
  finally have "arc_loop ?cap 0 0 [] ?s = Some (Some (2 + length as, arc_bytes ((40 * a + b) # as)))" by (simp add: arc_bytes_def)
  moreover have "length (arc_bytes ((40 * a + b) # as)) \<ge> 2" using ne arc_bytes_length [of "(40 * a + b) # as"] by (cases as) auto
  ultimately show ?thesis using l dec_text_head [of a] s(1) by (simp add: oid_from_str_def)
qed

text \<open>C24. Object identifiers from text. Whatever the text, its conversion stays inside of the block allocated for it; and for
  an identifier of three or more numbers below \<open>2 ^ 32\<close>, whose first two can be combined (and the second one leaves room for
  that), written in decimal with dots, the result, if it has at most 254 bytes, decodes to the numbers, the first two combined,
  and has no leading zero in any of them.\<close>

theorem oid_from_str_roundtrip:
  assumes "arcs_ok a b as" "as \<noteq> []" "length (arc_bytes ((40 * a + b) # as)) \<le> 254"
  shows "oid_from_str s \<noteq> None \<and>
    (\<exists>oid. oid_from_str (dotted (a # b # as)) = Some (Some oid) \<and> dec_arcs 0 oid = Some ((40 * a + b) # as))"
proof -
  have "list_all (\<lambda>n. n < 4294967296) ((40 * a + b) # as)" using assms(1) by (auto simp: arcs_ok_def)
  then show ?thesis using oid_from_str_in_block oid_from_str_dotted [OF assms] dec_arc_bytes by blast
qed

theorem oid_from_str_roundtrip_witness:
  "\<exists>oid. oid_from_str (dotted [1, 2, 840, 113549]) = Some (Some oid) \<and> dec_arcs 0 oid = Some [42, 840, 113549]"
proof -
  have "length (arc_bytes [42, 840, 113549]) \<le> 254" by (simp add: arc_bytes_def make_flagged_int_def)
  then show ?thesis using oid_from_str_roundtrip [of 1 2 "[840, 113549]"] by (simp add: arcs_ok_def)
qed

section \<open>The search on encoded data\<close>

text \<open>Elements: an identifier byte with data or with elements, and their encoding with lengths of up to two bytes.\<close>

datatype element = Prim u8 "u8 list" | Constr u8 "element list"

definition enc_length :: "nat \<Rightarrow> u8 list" where
  "enc_length n =
     (if n < 128 then [of_nat n] else if n < 256 then [0x81, of_nat n] else [0x82, of_nat (n div 256), of_nat (n mod 256)])"

fun enc :: "element \<Rightarrow> u8 list"
  and encs :: "element list \<Rightarrow> u8 list" where
  "enc (Prim i d) = i # enc_length (length d) @ d"
| "enc (Constr i ts) = i # enc_length (length (encs ts)) @ encs ts"
| "encs [] = []"
| "encs (t # ts) = enc t @ encs ts"

abbreviation universal :: "u8 \<Rightarrow> bool" where
  "universal i \<equiv> i AND 0xC0 = 0"

abbreviation tag_of :: "u8 \<Rightarrow> u8" where
  "tag_of i \<equiv> i AND 0x1F"

text \<open>Short tags, the flag of constructed elements, no data in a null element, and lengths below 64 K.\<close>

fun wf_element :: "element \<Rightarrow> bool"
  and wf_elements :: "element list \<Rightarrow> bool" where
  "wf_element (Prim i d) \<longleftrightarrow> i AND 0x20 = 0 \<and> tag_of i \<noteq> 0x1F \<and> (universal i \<and> tag_of i = 5 \<longrightarrow> d = []) \<and> length d < 65536"
| "wf_element (Constr i ts) \<longleftrightarrow> i AND 0x20 \<noteq> 0 \<and> tag_of i \<noteq> 0x1F \<and> \<not> (universal i \<and> tag_of i = 5) \<and>
     length (encs ts) < 65536 \<and> wf_elements ts"
| "wf_elements [] \<longleftrightarrow> True"
| "wf_elements (t # ts) \<longleftrightarrow> wf_element t \<and> wf_elements ts"

text \<open>
  The search on elements at an offset, from the first to the last and into the constructed ones: once the identifier was met,
  the first data of the type; whether the identifier was met, and the offset and length of the data.
\<close>

fun walk :: "u8 list \<Rightarrow> u8 \<Rightarrow> nat \<Rightarrow> bool \<Rightarrow> element \<Rightarrow> bool \<times> (nat \<times> nat) option"
  and walks :: "u8 list \<Rightarrow> u8 \<Rightarrow> nat \<Rightarrow> bool \<Rightarrow> element list \<Rightarrow> bool \<times> (nat \<times> nat) option" where
  "walk oid ty off met (Prim i d) =
     (if d = [] \<or> \<not> universal i then (met, None)
      else if met then (True, if tag_of i = ty then Some (off + 1 + length (enc_length (length d)), length d) else None)
      else (tag_of i = 6 \<and> d = oid, None))"
| "walk oid ty off met (Constr i ts) = walks oid ty (off + 1 + length (enc_length (length (encs ts)))) met ts"
| "walks oid ty off met [] = (met, None)"
| "walks oid ty off met (t # ts) =
     (case walk oid ty off met t of
        (met, Some x) \<Rightarrow> (met, Some x)
      | (met, None) \<Rightarrow> walks oid ty (off + length (enc t)) met ts)"

lemma enc_length_len: "1 \<le> length (enc_length n)"
  by (simp add: enc_length_def)

lemma rd_append: "rd (A @ b # B) (length A) = Some b"
  by (simp add: rd_def)

lemma asn1_length_null: "asn1_length m off bl pos True 5 = Some (Some (0, pos + 1))"
  by (simp add: asn1_length_def)

lemma and_flag_bit: "n < 8 \<Longrightarrow> (x :: u8) AND push_bit n 1 = 0 \<longleftrightarrow> \<not> bit x n"
proof -
  assume n: "n < 8"
  have "x AND push_bit n 1 = 0" if "\<not> bit x n" using that by (intro bit_word_eqI) (auto simp: bit_simps)
  moreover have "bit (x AND push_bit n 1) n" if "bit x n" using that n by (simp add: bit_simps)
  ultimately show ?thesis by (metis bit_0_eq bot_apply bot_bool_def)
qed

lemma rd_behind: "length A = p \<Longrightarrow> rd (A @ xs) (p + k) = rd xs k"
  by (auto simp: rd_def nth_append)

lemma high_bit: "(x :: u8) AND 0x80 = 0 \<longleftrightarrow> unat x < 128"
proof -
  have "x AND 0x80 = 0 \<longleftrightarrow> \<not> bit x 7" using and_flag_bit [of 7 x] by simp
  also have "bit x 7 \<longleftrightarrow> odd (unat x div 2 ^ 7)"
  proof -
    have "bit (unat x) 7 \<longleftrightarrow> bit x 7" by (simp add: bit_unsigned_iff)
    then show ?thesis using bit_iff_odd [of "unat x" 7] by simp
  qed
  also have "\<dots> \<longleftrightarrow> \<not> unat x < 128"
  proof (cases "unat x < 128")
    case False
    then have "unat x div 128 = 1" using unat_u8_lt [of x] by (intro div_nat_eqI) auto
    then show ?thesis using False by simp
  qed simp
  finally show ?thesis by simp
qed

lemma asn1_length_enc:
  assumes "m = A @ enc_length n @ B" "length A = off + pos" "pos + length (enc_length n) + n \<le> bl" "n < 65536" "bl < 65536" "\<not> (u \<and> t = 5)"
  shows "asn1_length m off bl pos u t = Some (Some (n, pos + length (enc_length n)))"
proof -
  have room: "room_left bl p = bl - p" if "p \<le> bl" for p using that assms(5) by (simp add: room_left_def mod_if)
  consider (short) "n < 128" | (one) "128 \<le> n" "n < 256" | (two) "256 \<le> n" by linarith
  then show ?thesis
  proof cases
    case short
    then have e: "enc_length n = [of_nat n]" by (simp add: enc_length_def)
    have u: "unat (of_nat n :: u8) = n" using short by (simp add: unat_of_nat)
    have "rd m (off + pos) = Some (of_nat n)" using assms(1,2) e by (simp add: rd_def flip: assms(2))
    moreover have "(of_nat n :: u8) AND 0x80 = 0" using high_bit [of "of_nat n"] u short by simp
    ultimately show ?thesis using assms(3,6) e u room by (auto simp: asn1_length_def)
  next
    case one
    then have e: "enc_length n = [0x81, of_nat n]" by (simp add: enc_length_def)
    have u: "unat (of_nat n :: u8) = n" using one by (simp add: unat_of_nat)
    have "rd m (off + pos + 0) = Some 0x81" "rd m (off + pos + 1) = Some (of_nat n)"
      unfolding assms(1) e rd_behind [OF assms(2)] by simp_all
    then show ?thesis using assms(3,6) e u room by (auto simp: asn1_length_def)
  next
    case two
    then have e: "enc_length n = [0x82, of_nat (n div 256), of_nat (n mod 256)]" by (simp add: enc_length_def)
    have u: "unat (of_nat (n div 256) :: u8) = n div 256" "unat (of_nat (n mod 256) :: u8) = n mod 256" using assms(4) by (simp_all add: unat_of_nat)
    have "rd m (off + pos + 0) = Some 0x82" "rd m (off + pos + 1) = Some (of_nat (n div 256))" "rd m (off + pos + 2) = Some (of_nat (n mod 256))"
      unfolding assms(1) e rd_behind [OF assms(2)] by simp_all
    then have r: "rd m (off + pos) = Some 0x82" "asn1_len_bytes m off (Suc pos) 2 0 = Some (n, pos + 3)"
      using u by (simp_all add: numeral_2_eq_2)
    then show ?thesis using assms(3,6) e room by (auto simp: asn1_length_def)
  qed
qed

lemma rd_span_behind: "length A = p \<Longrightarrow> n = length d \<Longrightarrow> rd_span (A @ d @ B) p n = Some d"
  by (simp add: rd_span_def)

text \<open>The head of an element: its identifier byte and its length.\<close>

lemma asn1_loop_head:
  assumes m: "m = A @ i # enc_length n @ d @ B" and A: "length A = off + p" and n: "length d = n" "n < 65536" "bl < 65536"
    and bl: "p + 1 + length (enc_length n) + n \<le> bl" and tag: "tag_of i \<noteq> 0x1F" and nl: "universal i \<and> tag_of i = 5 \<longrightarrow> n = 0"
  shows "asn1_loop m oid ty off bl p met =
    (let pos = p + 1 + length (enc_length n) in
     if n = 0 then asn1_loop m oid ty off bl pos met
     else if i AND 0x20 \<noteq> 0 then
       (case asn1_loop m oid ty (off + pos) n 0 met of
          None \<Rightarrow> None
        | Some (r, matched, data) \<Rightarrow>
            if \<not> r then Some (False, matched, data) else if data \<noteq> None then Some (True, matched, data)
            else asn1_loop m oid ty off bl (pos + n) matched)
     else if universal i \<and> \<not> met \<and> tag_of i = 6 \<and> n = length oid then asn1_loop m oid ty off bl (pos + n) (d = oid)
     else if universal i \<and> met \<and> tag_of i = ty then Some (True, met, Some (off + pos, n))
     else asn1_loop m oid ty off bl (pos + n) met)"
proof -
  let ?pos = "p + 1 + length (enc_length n)"
  have r: "rd m (off + p) = Some i" unfolding m using rd_append [of A i] A by simp
  have l: "asn1_length m off bl (p + 1) (universal i) (tag_of i) = Some (Some (n, ?pos))"
  proof (cases "universal i \<and> tag_of i = 5")
    case True
    then show ?thesis using nl by (simp add: asn1_length_null enc_length_def)
  next
    case False
    have "m = (A @ [i]) @ enc_length n @ (d @ B)" "length (A @ [i]) = off + (p + 1)" using m A by simp_all
    then show ?thesis using bl n False by (intro asn1_length_enc [of m "A @ [i]" n "d @ B"]) auto
  qed
  have m': "m = (A @ i # enc_length n) @ d @ B" "length (A @ i # enc_length n) = off + ?pos" using m A by simp_all
  have sp: "rd_span m (off + ?pos) n = Some d" unfolding m'(1) using m'(2) n(1) [symmetric] by (rule rd_span_behind)
  have b: "p < bl" using bl by simp
  show ?thesis by (subst asn1_loop.simps) (simp only: b r l sp tag if_True if_False Let_def option.case prod.case)
qed

lemma asn1_loop_empty:
  assumes "m = A @ i # enc_length 0 @ B" "length A = off + p" "p + 2 \<le> bl" "bl < 65536" "tag_of i \<noteq> 0x1F"
  shows "asn1_loop m oid ty off bl p met = asn1_loop m oid ty off bl (p + 2) met"
  using asn1_loop_head [of m A i 0 "[]" B off p bl oid ty met] assms by (simp add: enc_length_def)

lemma asn1_loop_walk:
  fixes t :: element and ts :: "element list"
  shows "\<And>A B m off bl p met. wf_element t \<Longrightarrow> m = A @ enc t @ B \<Longrightarrow> length A = off + p \<Longrightarrow> p + length (enc t) \<le> bl \<Longrightarrow> bl < 65536 \<Longrightarrow>
      asn1_loop m oid ty off bl p met =
        (case walk oid ty (off + p) met t of
           (met', Some x) \<Rightarrow> Some (True, met', Some x)
         | (met', None) \<Rightarrow> asn1_loop m oid ty off bl (p + length (enc t)) met')"
    and "\<And>A B m off bl p met. wf_elements ts \<Longrightarrow> m = A @ encs ts @ B \<Longrightarrow> length A = off + p \<Longrightarrow> p + length (encs ts) = bl \<Longrightarrow> bl < 65536 \<Longrightarrow>
      asn1_loop m oid ty off bl p met = Some (True, walks oid ty (off + p) met ts)"
proof (induction t and ts rule: enc_encs.induct)
  case (1 i d)
  note h = asn1_loop_head [of m A i "length d" d B off p bl oid ty met]
  show ?case
  proof (cases "d = []")
    case True
    then have "asn1_loop m oid ty off bl p met = asn1_loop m oid ty off bl (p + 2) met" using 1 by (intro asn1_loop_empty [of m A i B]) (auto simp: enc_length_def)
    then show ?thesis using True by (simp add: enc_length_def)
  next
    case False
    have "m = A @ i # enc_length (length d) @ d @ B" "p + 1 + length (enc_length (length d)) + length d \<le> bl" using "1.prems"(2,4) by simp_all
    note h [OF this(1) "1.prems"(3) refl _ "1.prems"(5) this(2)]
    then show ?thesis using False "1.prems"(1) by (cases "d = oid") (simp_all add: Let_def add.assoc)
  qed
next
  case (2 i ts)
  let ?n = "length (encs ts)" and ?pos = "p + 1 + length (enc_length (length (encs ts)))"
  have "asn1_loop m oid ty (off + ?pos) ?n 0 met = Some (True, walks oid ty (off + ?pos + 0) met ts)"
    using "2.prems" by (intro "2.IH" [of m "A @ i # enc_length ?n" B]) auto
  then obtain met' x where inner: "asn1_loop m oid ty (off + ?pos) ?n 0 met = Some (True, met', x)" "walks oid ty (off + ?pos) met ts = (met', x)"
    by (cases "walks oid ty (off + ?pos) met ts") auto
  show ?case
  proof (cases "ts = []")
    case True
    then have "asn1_loop m oid ty off bl p met = asn1_loop m oid ty off bl (p + 2) met" using "2.prems" by (intro asn1_loop_empty [of m A i B]) (auto simp: enc_length_def)
    then show ?thesis using True by (simp add: enc_length_def)
  next
    case False
    then have n: "?n \<noteq> 0" by (cases ts; cases "hd ts") auto
    have "m = A @ i # enc_length ?n @ encs ts @ B" "p + 1 + length (enc_length ?n) + ?n \<le> bl" using "2.prems"(2,4) by simp_all
    note asn1_loop_head [OF this(1) "2.prems"(3) refl _ "2.prems"(5) this(2), of oid ty met]
    then show ?thesis using n inner "2.prems"(1) by (cases x) (simp_all add: Let_def add.assoc)
  qed
next
  case 3
  then show ?case by (subst asn1_loop.simps) simp
next
  case (4 t ts)
  have h: "asn1_loop m oid ty off bl p met =
        (case walk oid ty (off + p) met t of
           (met', Some x) \<Rightarrow> Some (True, met', Some x)
         | (met', None) \<Rightarrow> asn1_loop m oid ty off bl (p + length (enc t)) met')"
    using "4.prems" by (intro "4.IH"(1) [of m A "encs ts @ B"]) auto
  have "asn1_loop m oid ty off bl (p + length (enc t)) met' = Some (True, walks oid ty (off + (p + length (enc t))) met' ts)" for met'
    using "4.prems" by (intro "4.IH"(2) [of m "A @ enc t" B]) auto
  then show ?case unfolding h by (auto simp: add.assoc split: prod.splits option.splits)
qed

text \<open>The data found are those of an element of the type.\<close>

lemma walk_data:
  fixes t :: element and ts :: "element list"
  shows "\<And>A B met. walk oid ty (length A) met t = (met', Some (p, n)) \<Longrightarrow>
      \<exists>i d. universal i \<and> tag_of i = ty \<and> rd_span (A @ enc t @ B) p n = Some d \<and> d \<noteq> []"
    and "\<And>A B met. walks oid ty (length A) met ts = (met', Some (p, n)) \<Longrightarrow>
      \<exists>i d. universal i \<and> tag_of i = ty \<and> rd_span (A @ encs ts @ B) p n = Some d \<and> d \<noteq> []"
proof (induction t and ts rule: enc_encs.induct)
  case (1 i d)
  then have "universal i" "tag_of i = ty" "d \<noteq> []" "p = length (A @ i # enc_length (length d))" "n = length d" by (auto split: if_splits)
  then show ?case using rd_span_behind [of "A @ i # enc_length (length d)" p n d B] by auto
next
  case (2 i ts)
  then show ?case using 2(1) [of "A @ i # enc_length (length (encs ts))" met B] by simp
next
  case (4 t ts)
  show ?case
  proof (cases "walk oid ty (length A) met t")
    case (Pair met1 r)
    show ?thesis
    proof (cases r)
      case None
      then show ?thesis using 4(3) Pair 4(2) [of "A @ enc t" met1 B] by simp
    next
      case (Some x)
      then show ?thesis using 4(3) Pair 4(1) [of A met "encs ts @ B"] by simp
    qed
  qed
qed simp

lemma get_data_walks:
  assumes "wf_elements ts" "length (encs ts) < 65536"
    and "if oid_str = [] then oid = [] else oid_from_str oid_str = Some (Some oid)"
  shows "get_data_from_asn1 (encs ts) oid_str ty = Some (snd (walks oid ty 0 (oid_str = []) ts))"
proof -
  have "asn1_loop (encs ts) oid ty 0 (length (encs ts)) 0 met = Some (True, walks oid ty (0 + 0) met ts)" for met
    using assms(1,2) by (intro asn1_loop_walk(2) [of ts "encs ts" "[]" "[]"]) auto
  then show ?thesis using assms(2,3)
    by (cases "oid_str = []"; cases "walks oid ty 0 (oid_str = []) ts") (auto simp: get_data_from_asn1_def get_data_from_asn1_internal_def)
qed

text \<open>C23. The search in ASN.1 data. On the encoding of any well-formed elements of less than 64 K in total, nested to any depth,
  the search stays inside of the buffer and returns where the first data of the type are, in the order of the encoding and
  into the constructed elements, behind the first element that is the identifier converted from the text (or at all, without a
  text), or null when there are none; the data it returns are non-empty and lie inside of the buffer.\<close>

theorem asn1_search_exact:
  assumes "wf_elements ts" "length (encs ts) < 65536"
    and "if oid_str = [] then oid = [] else oid_from_str oid_str = Some (Some oid)"
  shows "get_data_from_asn1 (encs ts) oid_str ty = Some (snd (walks oid ty 0 (oid_str = []) ts)) \<and>
    (case get_data_from_asn1 (encs ts) oid_str ty of Some (Some (p, n)) \<Rightarrow> 0 < n \<and> p + n \<le> length (encs ts) | _ \<Rightarrow> True)"
proof -
  note g = get_data_walks [OF assms, of ty]
  obtain met x where w: "walks oid ty 0 (oid_str = []) ts = (met, x)" by fastforce
  have "0 < n \<and> p + n \<le> length (encs ts)" if "x = Some (p, n)" for p n
    using walk_data(2) [of oid ty "[]" "oid_str = []" ts met p n "[]"] w that by (auto simp: rd_span_def split: if_splits)
  then show ?thesis using g w by (auto split: option.splits)
qed

definition sample_elements :: "element list" where
  "sample_elements = [Constr 0x30 [Prim 0x04 [9], Prim 0x06 [42, 3], Constr 0x31 [Prim 0x05 [], Prim 0x04 [1, 2]]]]"

theorem asn1_search_exact_witness:
  "get_data_from_asn1 (encs sample_elements) (dotted [1, 2, 3]) 4 = Some (Some (15, 2)) \<and> take 2 (drop 15 (encs sample_elements)) = [1, 2]"
proof -
  have b: "arc_bytes [42, 3] = [42, 3]" by (simp add: arc_bytes_def make_flagged_int_def)
  then have "oid_from_str (dotted [1, 2, 3]) = Some (Some [42, 3])" using oid_from_str_dotted [of 1 2 "[3]"] by (simp add: arcs_ok_def)
  moreover have "dotted [1, 2, 3] \<noteq> []" using dotted_length [of "[1, 2, 3]"] by auto
  ultimately show ?thesis using asn1_search_exact [of sample_elements "dotted [1, 2, 3]" "[42, 3]" 4]
    by (simp add: sample_elements_def enc_length_def)
qed

section \<open>A buffer that ends behind a tag\<close>

text \<open>Nothing is checked between the tag and the length of an element: when the buffer ends there the search reads behind it.\<close>

lemma asn1_over_read: "get_data_from_asn1 [0x04] [] ty = None"
  by (simp add: get_data_from_asn1_def get_data_from_asn1_internal_def asn1_length_def) (subst asn1_loop.simps, simp add: asn1_length_def rd_def)

end
