(* ===== verification/Spec2Isabelle.thy ===== *)
theory Spec2Isabelle
  imports Net_Guards Dbx Regex_Parse Hash_Threads Revocation Htab Fat32_Format Asn1
begin

text \<open>
  A verification library for Nawam, a tool that writes bootable drives from images. It covers the parts of the program
  that take input from elsewhere and decide something with it: what it downloads, the boot loaders and images it checks,
  the digests it computes, the patterns it matches, the drives it tests and the volumes it lays out.

  \<^bold>\<open>The parts and how they interact\<close>

  A \<^emph>\<open>refresh\<close> of the Secure Boot data (\<open>NawamSecurityRefreshThread\<close>, \<open>src/src/net.c\<close>) downloads three text lists and the
  revocation databases (DBX) of the architectures. Every download goes through the receive loop and the guards of
  \<open>src/src/nawam_safety.h\<close>; the metadata of a database is JSON and is walked by \<open>src/src/nawam_security.h\<close>; a text list is
  validated there and parsed by \<open>src/src/parser.c\<close>; a database is validated, written to a cache file by replacement, and a time
  stamp in the settings makes the program prefer it. The \<^emph>\<open>check of a boot loader\<close> (\<open>IsBootloaderRevoked\<close>, \<open>src/src/hash.c\<close>)
  reads the executable with the functions of \<open>parser.c\<close>, computes its Authenticode digest over the regions of
  \<open>efi_image_parse\<close>, looks it up in the preferred database, and then tries the SBAT section, the secure version number and
  the certificate, against the lists of the refresh or the embedded ones of \<open>src/src/db.h\<close>. The \<^emph>\<open>digests\<close> of \<open>hash.c\<close> also
  serve the image itself, in parallel threads. The \<^emph>\<open>regular expressions\<close> of \<open>src/src/cregex*.c\<close> recognise image labels,
  and the \<^emph>\<open>hash table\<close> of \<open>src/src/stdfn.c\<close> numbers strings. Before a drive is used, the \<^emph>\<open>bad block test\<close> of
  \<open>src/src/badblocks.c\<close> writes patterns to all of it and reads them back, through the sector functions of
  \<open>src/src/ms-sys/file.c\<close> and the retries of \<open>WriteFileWithRetry\<close> (\<open>src/src/stdio.c\<close>), and the
  \<^emph>\<open>FAT32 format\<close> of \<open>src/src/format_fat32.c\<close> lays a volume out and writes its system sectors through the same functions.

  \<^bold>\<open>Theories\<close>

  \<^item> \<open>Prelude\<close>: machine types, memory as bytes, checked reads, lists in chunks.
  \<^item> \<open>Net_Guards\<close>: \<open>NawamParseContentLength\<close>, \<open>NawamDownloadLengthValid\<close>, \<open>NawamDownloadChunkValid\<close> and the buffered branch of
    \<open>DownloadToFileOrBufferEx\<close>. A header value is accepted exactly when it is a decimal number that fits; a download stays in its
    block and ends in two zero bytes.
  \<^item> \<open>Dbx\<close>: \<open>NawamDbxValid\<close> and \<open>IsRevokedByDbx\<close>. The validator decides a declarative format; on what it accepts the lookup
    is in bounds and exact.
  \<^item> \<open>Regex_Syntax\<close>, \<open>Regex_Compile\<close>, \<open>Regex_VM\<close>, \<open>Regex_Search\<close>, \<open>Regex_Correct\<close>, \<open>Regex_Parse\<close>: data, compiler, machine,
    exactness of its search, correctness of compiled code, parser. From a pattern to the answer of the machine, with the
    bounds of every buffer. The 256-bit classes are a locale (\<open>byte_set\<close>).
  \<^item> \<open>Digest_Stream\<close>, \<open>Digest_Words\<close>, \<open>Digest_Rounds\<close>, \<open>Md5\<close>, \<open>Sha1\<close>, \<open>Sha256\<close>, \<open>Sha512\<close>: contexts, buffering, padding and the
    four transforms, against the algorithms of the standards. The contract of a digest is the locale \<open>message_digest\<close>,
    interpreted four times; the rotating registers of the SHA-2 rounds are the locale \<open>sha2_round\<close>, interpreted twice.
  \<^item> \<open>Hash_Api\<close>: the tables of the four types, \<open>HashBuffer\<close>, \<open>HashFile\<close>, the hexadecimal forms and the hash database.
  \<^item> \<open>Hash_Threads\<close>: \<open>HashThread\<close> and \<open>IndividualHashThread\<close> as a transition system of reader, threads, events and
    asynchronous reads; absence of races, correctness of the digests, termination, and what a time-out does.
  \<^item> \<open>Pe_Image\<close>: regions, \<open>efi_image_parse\<close>, \<open>PE256Buffer\<close>; regions never overlap, and the digest of a well-formed image is the
    one Authenticode defines.
  \<^item> \<open>Pe_Parse\<close>: \<open>GetPeArch\<close>, \<open>GetPeSection\<close>, \<open>RvaToPhysical\<close>, \<open>FindResourceRva\<close>, \<open>GetPeSignatureData\<close>, \<open>MachineToArch\<close>; the
    resource search returns on trees and does not on cycles.
  \<^item> \<open>Json\<close>, \<open>Json_Commit\<close>: the bounded walker decides the grammar of RFC 8259 with 32 levels; member lookup and
    \<open>NawamCommitTimestamp\<close> are exact.
  \<^item> \<open>Security_Text\<close>, \<open>Sbat_Text\<close>: \<open>NawamSecurityTextValid\<close>, \<open>GetThumbprintEntries\<close>, \<open>GetSbatEntries\<close>; what is accepted is parsed in
    bounds, completely and in order.
  \<^item> \<open>Interrupt\<close>, \<open>Security_Refresh\<close>: the effects of the refresh as a sequence that can be cut off anywhere (locale
    \<open>interruptible\<close>, interpreted on the cached files and settings); no prefix leaves an invalid preferred database or an older time
    stamp, success means up to date, text lists are replaced as a whole or not at all.
  \<^item> \<open>Revocation\<close>: the four revocation checks, the signature information of \<open>src/src/pki.c\<close>, the order of the checks and
    \<open>GetBootladerInfo\<close>; the result on a well-formed signed boot loader after an interrupted refresh, and exactness of the SBAT check.
  \<^item> \<open>Htab\<close>: \<open>isprime\<close>, \<open>htab_create\<close>, \<open>htab_destroy\<close>, \<open>htab_hash\<close>; the probing visits every place, so a known string is
    found, a new one gets a fresh index, and indices are stable (locale \<open>string_index\<close>, interpreted on the table).
  \<^item> \<open>Bad_List\<close>, \<open>Drive_IO\<close>, \<open>Bad_Blocks\<close>, \<open>Bad_Test\<close>, \<open>Drive_Capacity\<close>: the list of bad blocks (locale \<open>block_set\<close>, interpreted
    on it), sector transfers, the test itself, that it ends with a consistent report on every drive, and that it tells
    genuine drives from drives with a forged capacity. The fuel of its loops is two rounds per block and two more.
  \<^item> \<open>Fat32\<close>, \<open>Fat32_Layout\<close>, \<open>Fat32_Format\<close>: \<open>FormatLargeFAT32\<close> of \<open>src/src/format_fat32.c\<close>; the layout is consistent and refused
    exactly when it has to be, the default cluster size, and the sectors of a formatted volume, from which the layout is read back.
  \<^item> \<open>Asn1\<close>: \<open>make_flagged_int\<close>, \<open>oid_from_str\<close>, \<open>get_data_from_asn1\<close> of \<open>src/src/parser.c\<close>; object identifiers are encoded
    exactly and inside of their block, and on well-formed elements of any nesting the search is exact.

  \<^bold>\<open>Conventions\<close>

  A struct is a record and an enumeration a datatype; integers keep their width where the source computes with them. A
  pointer into a buffer is an offset or the rest of the buffer, and a read or write outside of the buffer is the result \<open>None\<close>,
  so a theorem that a function returns \<open>Some\<close> also says that it stays in bounds. A failed assertion is \<open>None\<close> as well,
  and so is an overflow of \<open>int\<close>, undefined in C, in the sizes the compiler of the regular expressions estimates.
  Loops are recursive functions with termination proofs. Where a computation may not return (the resource search and what
  calls it) the result has a second layer, in which \<open>None\<close> is not returning; in the loop that clears a FAT32 volume \<open>None\<close> is both. Bounds
  that are passed as numbers are those of \<open>vm_add_thread\<close>, one more than the number of instructions, and of the loops of the
  bad block test; both are shown to be enough. The functions of Windows, the network, the clock, the drive and the files are
  records of their answers (\<open>dbx_env\<close>, \<open>rev_env\<close>, \<open>pki_answer\<close>), of functions on a state of the outside world (\<open>host\<close>), or of
  the reads (\<open>rx\<close>); allocation is taken to succeed where a definition does not say otherwise. The sorting function of the C
  library is an argument, of which it is assumed only that it returns a permutation.

  \<^bold>\<open>Not modelled\<close>

  The third-party libraries under \<open>src/src\<close> (bled, wimlib, ext2fs, libcdio, syslinux, getopt, and ms-sys except for the
  transfer of sectors); the user interface and the access to partitions, other file systems and images, which are sequences of
  calls of Windows and of those libraries; the digest transforms for x86 processors, which are compiler intrinsics;
  downloads into a file; the string arrays of \<open>src/src/stdfn.c\<close>; configuration, localisation and MD5 sum files, where the
  program edits text files in place through the C library.
\<close>

end
